(* ===== verification/Prelude.thy ===== *)
theory Prelude
  imports Main "HOL-Library.Word" "HOL-Library.Multiset"
begin

text \<open>
  Shared vocabulary of the development: Rust's machine integers and their saturating and
  checked operations, hash maps as association lists (behind the interface \<open>hash_map\<close>),
  the stable comparator sort of \<open>slice::sort_by\<close>, \<open>slice::partition_point\<close>,
  and bounded queues. Every later theory builds on these.
\<close>

unbundle bit_operations_syntax

named_theorems sat_simps "saturating arithmetic, read as natural numbers"
named_theorems hm_simps "hash-map operations"

type_synonym u8 = "8 word"
type_synonym u16 = "16 word"
type_synonym u32 = "32 word"
type_synonym u64 = "64 word"

lemma ucast_u32_u64 [simp]: "(ucast (ucast (w :: u32) :: u64) :: u32) = w"
  by (rule bit_word_eqI) (auto simp: bit_simps)

lemma ucast_u64_u32_small:
  "unat (w :: u64) < 2 ^ 32 \<Longrightarrow> (ucast (ucast w :: u32) :: u64) = w"
  by (rule word_unat_eq_iff [THEN iffD2], simp only: unsigned_ucast_eq unsigned_take_bit_eq)
    (simp add: take_bit_nat_eq_self)

section \<open>Saturating and checked arithmetic\<close>

definition sat_add :: "'a::len word \<Rightarrow> 'a word \<Rightarrow> 'a word" where
  "sat_add a b = (if a + b < a then - 1 else a + b)"

definition sat_sub :: "'a::len word \<Rightarrow> 'a word \<Rightarrow> 'a word" where
  "sat_sub a b = (if a < b then 0 else a - b)"

definition checked_add :: "'a::len word \<Rightarrow> 'a word \<Rightarrow> 'a word option" where
  "checked_add a b = (if a + b < a then None else Some (a + b))"

definition checked_sub :: "'a::len word \<Rightarrow> 'a word \<Rightarrow> 'a word option" where
  "checked_sub a b = (if a < b then None else Some (a - b))"

lemma word_add_overflow_iff:
  "a + b < (a :: 'a::len word) \<longleftrightarrow> 2 ^ LENGTH('a) \<le> unat a + unat b"
proof (cases "unat a + unat b < 2 ^ LENGTH('a)")
  case True
  then have "unat (a + b) = unat a + unat b" by (simp add: unat_word_ariths)
  with True show ?thesis by (simp add: word_less_nat_alt)
next
  case False
  have lt: "unat a < 2 ^ LENGTH('a)" "unat b < 2 ^ LENGTH('a)"
    by (rule unsigned_less)+
  then have "unat a + unat b - 2 ^ LENGTH('a) < 2 ^ LENGTH('a)" by linarith
  with False have "unat (a + b) = unat a + unat b - 2 ^ LENGTH('a)"
    by (simp add: unat_word_ariths le_mod_geq)
  with False lt show ?thesis unfolding word_less_nat_alt by linarith
qed

lemma unat_sat_add [sat_simps]:
  "unat (sat_add a b) = min (unat a + unat b) (2 ^ LENGTH('a) - 1)"
  for a b :: "'a::len word"
proof -
  have "unat (- 1 :: 'a word) = 2 ^ LENGTH('a) - 1"
    by (simp add: unsigned_minus_1_eq_mask mask_eq_exp_minus_1)
  then show ?thesis
    by (cases "2 ^ LENGTH('a) \<le> unat a + unat b")
      (simp_all add: sat_add_def word_add_overflow_iff unat_word_ariths)
qed

lemma unat_sat_sub [sat_simps]: "unat (sat_sub a b) = unat a - unat b"
  by (auto simp: sat_sub_def word_less_nat_alt unat_sub word_le_nat_alt)

lemma unat_max_le: "unat (a :: 'a::len word) \<le> 2 ^ LENGTH('a) - 1"
proof -
  have "unat a < 2 ^ LENGTH('a)" by (rule unsigned_less)
  then show ?thesis by linarith
qed

lemma sat_add_assoc: "sat_add (sat_add a b) c = sat_add a (sat_add b c)"
  by (rule word_unat_eq_iff [THEN iffD2]) (auto simp: sat_simps)

lemma sat_add_commute: "sat_add a b = sat_add b a"
  by (rule word_unat_eq_iff [THEN iffD2]) (simp add: sat_simps add.commute)

lemma sat_add_left_commute: "sat_add a (sat_add b c) = sat_add b (sat_add a c)"
  by (metis sat_add_assoc sat_add_commute)

lemmas sat_add_ac = sat_add_assoc sat_add_commute sat_add_left_commute

lemma sat_add_0 [simp]: "sat_add 0 a = a" "sat_add a 0 = a"
  by (simp_all add: sat_add_def)

lemma sat_add_mono: "a \<le> a' \<Longrightarrow> b \<le> b' \<Longrightarrow> sat_add a b \<le> sat_add a' b'"
  by (simp add: word_le_nat_alt sat_simps min_def)

lemma sat_add_ge: "a \<le> sat_add a b" "b \<le> sat_add a b"
  using unat_max_le [of a] unat_max_le [of b]
  by (simp_all add: word_le_nat_alt sat_simps)

lemma sat_sub_self [simp]: "sat_sub a a = 0"
  by (simp add: sat_sub_def)

lemma sat_sub_ge: "b \<le> a \<Longrightarrow> sat_sub a b = a - b"
  by (simp add: sat_sub_def leD)

lemma checked_add_Some: "checked_add a b = Some c \<longleftrightarrow> c = a + b \<and> \<not> a + b < a"
  by (auto simp: checked_add_def)

text \<open>The saturating sum of a list: what a loop of \<open>saturating_add\<close> computes.\<close>

primrec sat_sum :: "'a::len word list \<Rightarrow> 'a word" where
  "sat_sum [] = 0"
| "sat_sum (x # xs) = sat_add x (sat_sum xs)"

lemma unat_sat_sum:
  "unat (sat_sum xs) = min (sum_list (map unat xs)) (2 ^ LENGTH('a) - 1)"
  for xs :: "'a::len word list"
  by (induction xs) (auto simp: sat_simps)

lemma sat_sum_append [simp]: "sat_sum (xs @ ys) = sat_add (sat_sum xs) (sat_sum ys)"
  by (induction xs) (simp_all add: sat_add_assoc)

lemma fold_sat_add: "fold (\<lambda>x s. sat_add s x) xs s = sat_add s (sat_sum xs)"
  by (induction xs arbitrary: s) (simp_all add: sat_add_assoc)

lemma sat_sum_mset: "mset xs = mset ys \<Longrightarrow> sat_sum xs = sat_sum ys"
  by (rule word_unat_eq_iff [THEN iffD2]) (metis unat_sat_sum mset_map sum_mset_sum_list)

lemma sat_sum_mono:
  "(\<And>x. x \<in> set xs \<Longrightarrow> f x \<le> g x) \<Longrightarrow> sat_sum (map f xs) \<le> sat_sum (map g xs)"
  by (induction xs) (auto intro: sat_add_mono)

lemma sat_sum_filter_le: "sat_sum (map f (filter P xs)) \<le> sat_sum (map f xs)"
  by (induction xs) (auto intro: sat_add_mono order.trans [OF _ sat_add_ge(2)])

section \<open>Hash maps\<close>

text \<open>
  A \<open>HashMap\<close> is an association list without duplicate keys. The list order stands
  for the (unspecified) iteration order of the map; results that depend on it are stated
  for every order. \<open>hm_entry k d f\<close> is \<open>entry(k).or_insert(d)\<close> followed by the
  update \<open>f\<close> through the returned reference.
\<close>

type_synonym ('k, 'v) hmap = "('k \<times> 'v) list"

fun hm_entry :: "'k \<Rightarrow> 'v \<Rightarrow> ('v \<Rightarrow> 'v) \<Rightarrow> ('k, 'v) hmap \<Rightarrow> ('k, 'v) hmap" where
  "hm_entry k d f [] = [(k, f d)]"
| "hm_entry k d f ((k', v) # m) =
     (if k = k' then (k', f v) # m else (k', v) # hm_entry k d f m)"

definition hm_insert :: "'k \<Rightarrow> 'v \<Rightarrow> ('k, 'v) hmap \<Rightarrow> ('k, 'v) hmap" where
  "hm_insert k v m = hm_entry k v (\<lambda>_. v) m"

definition hm_remove :: "'k \<Rightarrow> ('k, 'v) hmap \<Rightarrow> ('k, 'v) hmap" where
  "hm_remove k m = filter (\<lambda>(k', _). k' \<noteq> k) m"

definition hm_keys_distinct :: "('k, 'v) hmap \<Rightarrow> bool" where
  "hm_keys_distinct m = distinct (map fst m)"

abbreviation or_default :: "'v option \<Rightarrow> 'v \<Rightarrow> 'v" where
  "or_default x d \<equiv> (case x of None \<Rightarrow> d | Some v \<Rightarrow> v)"

lemma map_of_hm_entry [hm_simps]:
  "map_of (hm_entry k d f m) = (map_of m)(k \<mapsto> f (or_default (map_of m k) d))"
  by (induction k d f m rule: hm_entry.induct) (auto simp: fun_eq_iff)

lemma map_of_hm_insert [hm_simps]: "map_of (hm_insert k v m) = (map_of m)(k \<mapsto> v)"
  by (simp add: hm_insert_def hm_simps)

lemma map_of_hm_remove [hm_simps]: "map_of (hm_remove k m) = (map_of m)(k := None)"
  by (induction m) (auto simp: hm_remove_def fun_eq_iff)

lemma keys_hm_entry [hm_simps]:
  "map fst (hm_entry k d f m) = (if k \<in> fst ` set m then map fst m else map fst m @ [k])"
  by (induction k d f m rule: hm_entry.induct) auto

lemma hm_keys_distinct_entry [hm_simps]:
  "hm_keys_distinct m \<Longrightarrow> hm_keys_distinct (hm_entry k d f m)"
  by (auto simp: hm_keys_distinct_def hm_simps)

lemma hm_keys_distinct_insert [hm_simps]:
  "hm_keys_distinct m \<Longrightarrow> hm_keys_distinct (hm_insert k v m)"
  by (simp add: hm_insert_def hm_keys_distinct_entry)

lemma hm_keys_distinct_remove [hm_simps]:
  "hm_keys_distinct m \<Longrightarrow> hm_keys_distinct (hm_remove k m)"
  unfolding hm_keys_distinct_def hm_remove_def by (induction m) auto

lemma hm_keys_distinct_Nil [hm_simps]: "hm_keys_distinct []"
  by (simp add: hm_keys_distinct_def)

text \<open>
  The interface the components use: what a lookup returns after an entry update, an
  insert or a removal, and that each keeps the representation invariant.
\<close>

locale hash_map =
  fixes lookup :: "'m \<Rightarrow> 'k \<Rightarrow> 'v option"
    and entry :: "'k \<Rightarrow> 'v \<Rightarrow> ('v \<Rightarrow> 'v) \<Rightarrow> 'm \<Rightarrow> 'm"
    and invar :: "'m \<Rightarrow> bool"
  assumes lookup_entry: "lookup (entry k d f m) k' =
      (if k' = k then Some (f (or_default (lookup m k) d)) else lookup m k')"
    and invar_entry: "invar m \<Longrightarrow> invar (entry k d f m)"
begin

text \<open>A loop of entry updates with one default \<open>d\<close>, as every accumulating loop has it.\<close>

definition entries :: "'v \<Rightarrow> ('k \<times> ('v \<Rightarrow> 'v)) list \<Rightarrow> 'm \<Rightarrow> 'm" where
  "entries d ops m = fold (\<lambda>(k, f). entry k d f) ops m"

lemma lookup_entries:
  "lookup (entries d ops m) k =
     (if k \<in> fst ` set ops
      then Some (fold (\<lambda>(_, f) v. f v) (filter (\<lambda>(k', _). k' = k) ops) (or_default (lookup m k) d))
      else lookup m k)"
proof (induction ops arbitrary: m)
  case Nil
  then show ?case by (simp add: entries_def)
next
  case (Cons x ops)
  obtain k' f where x: "x = (k', f)" by (cases x)
  have none: "filter (\<lambda>(k', _). k' = k) ops = []" if "k \<notin> fst ` set ops"
    using that by (force simp: filter_empty_conv)
  show ?case
    using Cons.IH [of "entry k' d f m"] none
    by (auto simp: entries_def x lookup_entry)
qed

lemma invar_entries: "invar m \<Longrightarrow> invar (entries d ops m)"
  unfolding entries_def by (induction ops arbitrary: m) (auto simp: invar_entry)

lemma entries_append: "entries d (xs @ ys) m = entries d ys (entries d xs m)"
  by (simp add: entries_def)

end

interpretation hm: hash_map "map_of :: ('k, 'v) hmap \<Rightarrow> 'k \<Rightarrow> 'v option" hm_entry hm_keys_distinct
  by unfold_locales (auto simp: hm_simps)

lemma hm_entries_Nil [simp]: "hm.entries d [] m = m"
  by (simp add: hm.entries_def)

lemma hm_entries_Cons [simp]: "hm.entries d (x # xs) m = hm.entries d xs (hm_entry (fst x) d (snd x) m)"
  by (simp add: hm.entries_def case_prod_beta)

section \<open>Stable comparator sort and partition points\<close>

datatype ordering = Less | Equal | Greater

definition cmp :: "'a::linorder \<Rightarrow> 'a \<Rightarrow> ordering" where
  "cmp a b = (if a < b then Less else if a = b then Equal else Greater)"

fun then_with :: "ordering \<Rightarrow> ordering \<Rightarrow> ordering" where
  "then_with Equal o2 = o2"
| "then_with o1 o2 = o1"

fun insort_by :: "('a \<Rightarrow> 'a \<Rightarrow> ordering) \<Rightarrow> 'a \<Rightarrow> 'a list \<Rightarrow> 'a list" where
  "insort_by c x [] = [x]"
| "insort_by c x (y # ys) = (if c x y = Greater then y # insort_by c x ys else x # y # ys)"

definition sort_by :: "('a \<Rightarrow> 'a \<Rightarrow> ordering) \<Rightarrow> 'a list \<Rightarrow> 'a list" where
  "sort_by c xs = foldr (insort_by c) xs []"

lemma mset_insort_by [simp]: "mset (insort_by c x xs) = {#x#} + mset xs"
  by (induction xs) auto

lemma mset_sort_by [simp]: "mset (sort_by c xs) = mset xs"
  by (induction xs) (auto simp: sort_by_def)

lemma set_sort_by [simp]: "set (sort_by c xs) = set xs"
  by (metis mset_sort_by set_mset_mset)

lemma length_sort_by [simp]: "length (sort_by c xs) = length xs"
  by (metis mset_sort_by size_mset)

text \<open>A comparator is a total preorder when \<open>Greater\<close> is asymmetric and its negation transitive.\<close>

definition total_cmp :: "('a \<Rightarrow> 'a \<Rightarrow> ordering) \<Rightarrow> bool" where
  "total_cmp c \<longleftrightarrow> (\<forall>x y. c x y = Greater \<longrightarrow> c y x \<noteq> Greater) \<and>
     (\<forall>x y z. c x y \<noteq> Greater \<longrightarrow> c y z \<noteq> Greater \<longrightarrow> c x z \<noteq> Greater)"

abbreviation sorted_by :: "('a \<Rightarrow> 'a \<Rightarrow> ordering) \<Rightarrow> 'a list \<Rightarrow> bool" where
  "sorted_by c \<equiv> sorted_wrt (\<lambda>x y. c x y \<noteq> Greater)"

lemma set_insort_by [simp]: "set (insort_by c x xs) = insert x (set xs)"
  by (induction xs) auto

lemma sorted_by_insort_by:
  assumes "total_cmp c" "sorted_by c xs"
  shows "sorted_by c (insort_by c x xs)"
  using assms(2)
proof (induction xs)
  case Nil
  then show ?case by simp
next
  case (Cons y ys)
  show ?case
  proof (cases "c x y = Greater")
    case True
    then have "c y x \<noteq> Greater" using assms(1) unfolding total_cmp_def by blast
    with True Cons show ?thesis by auto
  next
    case False
    then have "\<forall>z \<in> set ys. c x z \<noteq> Greater"
      using assms(1) Cons.prems unfolding total_cmp_def sorted_wrt.simps by blast
    with False Cons.prems show ?thesis by simp
  qed
qed

lemma sorted_by_sort_by: "total_cmp c \<Longrightarrow> sorted_by c (sort_by c xs)"
  by (induction xs) (auto simp: sort_by_def sorted_by_insort_by)

lemma sorted_by_unique:
  assumes "sorted_by c xs" "sorted_by c ys" "mset xs = mset ys"
    and anti: "\<And>x y. x \<in> set xs \<Longrightarrow> y \<in> set xs \<Longrightarrow> c x y \<noteq> Greater \<Longrightarrow> c y x \<noteq> Greater \<Longrightarrow> x = y"
  shows "xs = ys"
  using assms
proof (induction xs arbitrary: ys)
  case Nil
  then show ?case by simp
next
  case (Cons x xs)
  then obtain y ys' where ys: "ys = y # ys'"
    by (metis list.exhaust mset.simps(1) mset_zero_iff_right list.discI)
  have sets: "set (x # xs) = set (y # ys')"
    using Cons.prems(3) ys by (metis set_mset_mset)
  have "x = y"
  proof (rule ccontr)
    assume "x \<noteq> y"
    then have "x \<in> set ys'" "y \<in> set xs" using sets by auto
    then have "c y x \<noteq> Greater" "c x y \<noteq> Greater"
      using Cons.prems(1,2) ys by auto
    with Cons.prems(4) \<open>y \<in> set xs\<close> \<open>x \<noteq> y\<close> show False by auto
  qed
  moreover have "xs = ys'"
    using Cons.prems ys \<open>x = y\<close> by (intro Cons.IH) simp_all
  ultimately show ?case using ys by simp
qed

text \<open>
  \<open>slice::partition_point\<close> on a slice that is partitioned by the predicate (all callers
  keep their slice sorted): the number of elements before the first that fails it.
\<close>

definition partition_point :: "('a \<Rightarrow> bool) \<Rightarrow> 'a list \<Rightarrow> nat" where
  "partition_point P xs = length (takeWhile P xs)"

lemma partition_point_le: "partition_point P xs \<le> length xs"
  by (simp add: partition_point_def length_takeWhile_le)

lemma partition_point_before: "i < partition_point P xs \<Longrightarrow> P (xs ! i)"
  unfolding partition_point_def using nth_mem set_takeWhileD takeWhile_nth by metis

lemma partition_point_at:
  "partition_point P xs < length xs \<Longrightarrow> \<not> P (xs ! partition_point P xs)"
  unfolding partition_point_def by (rule nth_length_takeWhile)

lemma partition_point_after:
  assumes "sorted_wrt (\<lambda>x y. P y \<longrightarrow> P x) xs" "partition_point P xs \<le> i" "i < length xs"
  shows "\<not> P (xs ! i)"
proof (cases "i = partition_point P xs")
  case True
  then show ?thesis using partition_point_at [of P xs] assms(3) by simp
next
  case False
  then have "partition_point P xs < i" using assms(2) by simp
  then have "P (xs ! i) \<longrightarrow> P (xs ! partition_point P xs)"
    using assms(1,3) by (simp add: sorted_wrt_iff_nth_less)
  then show ?thesis using partition_point_at [of P xs] assms(3) \<open>partition_point P xs < i\<close>
    by simp
qed

text \<open>\<open>slice::sort_by_key\<close>, which is stable.\<close>

definition sort_by_key :: "('a \<Rightarrow> 'k::linorder) \<Rightarrow> 'a list \<Rightarrow> 'a list" where
  "sort_by_key f xs = sort_by (\<lambda>a b. cmp (f a) (f b)) xs"

lemma set_sort_by_key [simp]: "set (sort_by_key f xs) = set xs"
  and mset_sort_by_key [simp]: "mset (sort_by_key f xs) = mset xs"
  and length_sort_by_key [simp]: "length (sort_by_key f xs) = length xs"
  by (simp_all add: sort_by_key_def)

lemma sorted_sort_by_key: "sorted_wrt (\<lambda>x y. f x \<le> f y) (sort_by_key f xs)"
proof -
  have "total_cmp (\<lambda>a b. cmp (f a) (f b))"
    by (auto simp: total_cmp_def cmp_def split: if_splits)
  from sorted_by_sort_by [OF this, of xs] show ?thesis
    unfolding sort_by_key_def
    by (rule sorted_wrt_mono_rel [rotated]) (auto simp: cmp_def split: if_splits)
qed

lemma sort_by_key_sorted: "sorted_wrt (\<lambda>x y. f x \<le> f y) xs \<Longrightarrow> sort_by_key f xs = xs"
proof -
  have ins: "insort_by c x xs = x # xs" if "\<forall>y \<in> set xs. c x y \<noteq> Greater" for c and x :: 'a and xs
    using that by (cases xs) auto
  show "sorted_wrt (\<lambda>x y. f x \<le> f y) xs \<Longrightarrow> sort_by_key f xs = xs"
  proof (induction xs)
    case (Cons x xs)
    then have "sort_by (\<lambda>a b. cmp (f a) (f b)) xs = xs" by (simp add: sort_by_key_def)
    then have "sort_by (\<lambda>a b. cmp (f a) (f b)) (x # xs) = insort_by (\<lambda>a b. cmp (f a) (f b)) x xs"
      by (simp add: sort_by_def)
    also have "\<dots> = x # xs" using Cons.prems by (intro ins) (auto simp: cmp_def)
    finally show ?case by (simp add: sort_by_key_def)
  qed (simp add: sort_by_key_def sort_by_def)
qed

section \<open>Bounded queues\<close>

text \<open>\<open>VecDeque\<close> with a cap: drop the front when full, then push at the back.\<close>

definition push_capped :: "nat \<Rightarrow> 'a \<Rightarrow> 'a list \<Rightarrow> 'a list" where
  "push_capped n x q = (if n \<le> length q then tl q else q) @ [x]"

definition take_last :: "nat \<Rightarrow> 'a list \<Rightarrow> 'a list" where
  "take_last n xs = drop (length xs - n) xs"

lemma length_take_last [simp]: "length (take_last n xs) = min n (length xs)"
  by (simp add: take_last_def)

lemma push_capped_take_last:
  assumes "0 < n"
  shows "push_capped n x (take_last n xs) = take_last n (xs @ [x])"
proof (cases "n \<le> length xs")
  case True
  then have "tl (drop (length xs - n) xs) = drop (Suc (length xs) - n) xs"
    by (simp add: tl_drop drop_Suc Suc_diff_le)
  with True assms show ?thesis
    by (simp add: push_capped_def take_last_def)
next
  case False
  then show ?thesis by (simp add: push_capped_def take_last_def)
qed

end
