(* ===== verification/Kdebug.thy ===== *)
theory Kdebug
  imports Prelude
begin

text \<open>
  The kdebug record stream (\<open>stax-mac-kperf-sys/src/kdebug.rs\<close>): the event-id
  encoding, the record layout, the event classes and codes the profiler listens to, the
  typefilter bitmap, and the sysctl wrappers. \<open>sysctl\<close> itself is the kernel: it is a
  parameter, a function from what the code passes to what the kernel writes back.
\<close>

unbundle bit_operations_syntax

section \<open>Event-id encoding\<close>

definition KDBG_CLASS_MASK :: u32 where "KDBG_CLASS_MASK = 0xff000000"
definition KDBG_CLASS_SHIFT :: nat where "KDBG_CLASS_SHIFT = 24"
definition KDBG_SUBCLASS_MASK :: u32 where "KDBG_SUBCLASS_MASK = 0x00ff0000"
definition KDBG_SUBCLASS_SHIFT :: nat where "KDBG_SUBCLASS_SHIFT = 16"
definition KDBG_CODE_MASK :: u32 where "KDBG_CODE_MASK = 0x0000fffc"
definition KDBG_CODE_SHIFT :: nat where "KDBG_CODE_SHIFT = 2"
definition KDBG_FUNC_MASK :: u32 where "KDBG_FUNC_MASK = 0x00000003"
definition KDBG_TYPEFILTER_BITMAP_SIZE :: nat where
  "KDBG_TYPEFILTER_BITMAP_SIZE = (256 * 256) div 8"

definition DBG_FUNC_NONE :: u32 where "DBG_FUNC_NONE = 0"
definition DBG_FUNC_START :: u32 where "DBG_FUNC_START = 1"
definition DBG_FUNC_END :: u32 where "DBG_FUNC_END = 2"

definition KDBG_TIMESTAMP_MASK :: u64 where "KDBG_TIMESTAMP_MASK = 0x00ffffffffffffff"

lemmas kdbg_const_defs =
  KDBG_CLASS_MASK_def KDBG_CLASS_SHIFT_def KDBG_SUBCLASS_MASK_def KDBG_SUBCLASS_SHIFT_def
  KDBG_CODE_MASK_def KDBG_CODE_SHIFT_def KDBG_FUNC_MASK_def

definition kdbg_eventid :: "u8 \<Rightarrow> u8 \<Rightarrow> u16 \<Rightarrow> u32" where
  "kdbg_eventid class subclass code =
     (push_bit KDBG_CLASS_SHIFT (ucast class)
      OR push_bit KDBG_SUBCLASS_SHIFT (ucast subclass))
      OR push_bit KDBG_CODE_SHIFT (ucast (code AND 0x3fff))"

definition kdbg_class :: "u32 \<Rightarrow> u8" where
  "kdbg_class debugid = ucast (drop_bit KDBG_CLASS_SHIFT (debugid AND KDBG_CLASS_MASK))"

definition kdbg_subclass :: "u32 \<Rightarrow> u8" where
  "kdbg_subclass debugid = ucast (drop_bit KDBG_SUBCLASS_SHIFT (debugid AND KDBG_SUBCLASS_MASK))"

definition kdbg_csc :: "u8 \<Rightarrow> u8 \<Rightarrow> u16" where
  "kdbg_csc class subclass = push_bit 8 (ucast class) OR ucast subclass"

definition kdbg_code :: "u32 \<Rightarrow> u16" where
  "kdbg_code debugid = ucast (drop_bit KDBG_CODE_SHIFT (debugid AND KDBG_CODE_MASK))"

definition kdbg_func :: "u32 \<Rightarrow> u32" where
  "kdbg_func debugid = debugid AND KDBG_FUNC_MASK"

section \<open>Event classes and codes\<close>

definition DBG_MACH :: u8 where "DBG_MACH = 1"
definition DBG_MACH_SCHED :: u8 where "DBG_MACH_SCHED = 0x40"

definition SCHED :: u16 where "SCHED = 0x0"
definition STKHANDOFF :: u16 where "STKHANDOFF = 0x8"
definition MAKERUNNABLE :: u16 where "MAKERUNNABLE = 0x4"

definition DBG_PERF :: u8 where "DBG_PERF = 37"

definition SC_GENERIC :: u8 where "SC_GENERIC = 0"
definition SC_CALLSTACK :: u8 where "SC_CALLSTACK = 2"
definition SC_KPC :: u8 where "SC_KPC = 6"

definition CS_KSAMPLE :: u16 where "CS_KSAMPLE = 0"
definition CS_KDATA :: u16 where "CS_KDATA = 3"
definition CS_UDATA :: u16 where "CS_UDATA = 4"
definition CS_KHDR :: u16 where "CS_KHDR = 5"
definition CS_UHDR :: u16 where "CS_UHDR = 6"
definition CS_ERROR :: u16 where "CS_ERROR = 7"

definition KPC_DATA_THREAD :: u16 where "KPC_DATA_THREAD = 8"

lemmas kd_event_defs =
  DBG_MACH_def DBG_MACH_SCHED_def SCHED_def STKHANDOFF_def MAKERUNNABLE_def DBG_PERF_def
  SC_GENERIC_def SC_CALLSTACK_def SC_KPC_def CS_KSAMPLE_def CS_KDATA_def CS_UDATA_def
  CS_KHDR_def CS_UHDR_def CS_ERROR_def KPC_DATA_THREAD_def
  DBG_FUNC_NONE_def DBG_FUNC_START_def DBG_FUNC_END_def

section \<open>Records\<close>

record kd_buf =
  kd_timestamp :: u64
  kd_arg1 :: u64
  kd_arg2 :: u64
  kd_arg3 :: u64
  kd_arg4 :: u64
  kd_arg5 :: u64
  kd_debugid :: u32
  kd_cpuid :: u32
  kd_unused :: u64

text \<open>The timestamp every consumer uses: the cpuid bits masked off.\<close>

abbreviation kd_time :: "kd_buf \<Rightarrow> u64" where
  "kd_time rec \<equiv> kd_timestamp rec AND KDBG_TIMESTAMP_MASK"

lemma kd_time_bound: "unat (kd_time rec) < 2 ^ 56"
proof -
  have "kd_time rec = take_bit 56 (kd_timestamp rec)"
    by (simp only: KDBG_TIMESTAMP_MASK_def take_bit_eq_mask) (simp add: mask_eq_exp_minus_1)
  then have "unat (kd_time rec) = take_bit 56 (unat (kd_timestamp rec))"
    by (simp only: unsigned_take_bit_eq)
  then show ?thesis using take_bit_nat_less_exp [of 56 "unat (kd_timestamp rec)"] by linarith
qed

section \<open>Encoding lemmas\<close>

lemma kdbg_masks:
  "(0xff000000 :: u32) = push_bit 24 (mask 8)"
  "(0x00ff0000 :: u32) = push_bit 16 (mask 8)"
  "(0x0000fffc :: u32) = push_bit 2 (mask 14)"
  "(3 :: u32) = mask 2"
  "(0x3fff :: u16) = mask 14"
  by (simp_all add: mask_eq_exp_minus_1 push_bit_eq_mult)

lemmas kdbg_bits =
  kdbg_class_def kdbg_subclass_def kdbg_code_def kdbg_func_def kdbg_eventid_def
  kdbg_const_defs kdbg_masks

lemma kdbg_class_eventid: "kdbg_class (kdbg_eventid c s k OR (f AND 3)) = c"
  by (rule bit_word_eqI, simp only: kdbg_bits)
    (auto simp: bit_simps simp del: push_bit_numeral dest: bit_imp_le_length)

lemma kdbg_subclass_eventid: "kdbg_subclass (kdbg_eventid c s k OR (f AND 3)) = s"
  by (rule bit_word_eqI, simp only: kdbg_bits)
    (auto simp: bit_simps simp del: push_bit_numeral dest: bit_imp_le_length)

lemma kdbg_code_eventid: "kdbg_code (kdbg_eventid c s k OR (f AND 3)) = k AND 0x3fff"
  by (rule bit_word_eqI, simp only: kdbg_bits)
    (auto simp: bit_simps simp del: push_bit_numeral dest: bit_imp_le_length)

lemma kdbg_func_eventid: "kdbg_func (kdbg_eventid c s k OR (f AND 3)) = f AND 3"
  by (rule bit_word_eqI, simp only: kdbg_bits)
    (auto simp: bit_simps simp del: push_bit_numeral dest: bit_imp_le_length)

lemma kdbg_reassemble:
  "kdbg_eventid (kdbg_class d) (kdbg_subclass d) (kdbg_code d) OR kdbg_func d = d"
proof (rule bit_word_eqI)
  fix n assume "n < LENGTH(32)"
  then have "n < 2 \<or> (2 \<le> n \<and> n < 16) \<or> (16 \<le> n \<and> n < 24) \<or> (24 \<le> n \<and> n < 32)"
    by auto
  moreover have "Suc (Suc (n - 2)) = n" if "2 \<le> n" using that by simp
  ultimately show "bit (kdbg_eventid (kdbg_class d) (kdbg_subclass d) (kdbg_code d) OR kdbg_func d) n = bit d n"
    unfolding kdbg_bits
    by (elim disjE) (auto simp: bit_simps simp del: push_bit_numeral)
qed

section \<open>Typefilter bitmap\<close>

text \<open>
  The bitmap \<open>set_typefilter\<close> builds before handing it to the kernel: one bit per
  (class, subclass) pair. A \<open>u16\<close> index is always in range.
\<close>

definition typefilter_set :: "u8 list \<Rightarrow> u16 \<Rightarrow> u8 list" where
  "typefilter_set bitmap csc =
     (let c = unat csc in
      bitmap [c div 8 := (bitmap ! (c div 8)) OR push_bit (c mod 8) 1])"

definition typefilter_bitmap :: "u16 list \<Rightarrow> u8 list" where
  "typefilter_bitmap cscs = foldl typefilter_set (replicate KDBG_TYPEFILTER_BITMAP_SIZE 0) cscs"

definition typefilter_allows :: "u8 list \<Rightarrow> u16 \<Rightarrow> bool" where
  "typefilter_allows bitmap csc = bit (bitmap ! (unat csc div 8)) (unat csc mod 8)"

lemma typefilter_index:
  fixes csc :: u16
  shows "unat csc div 8 < KDBG_TYPEFILTER_BITMAP_SIZE"
proof -
  have "unat csc < 2 ^ LENGTH(16)" by (rule unsigned_less)
  then show ?thesis by (simp add: KDBG_TYPEFILTER_BITMAP_SIZE_def)
qed

lemma length_typefilter_set [simp]: "length (typefilter_set b c) = length b"
  by (simp add: typefilter_set_def Let_def)

lemma typefilter_allows_set:
  assumes "length b = KDBG_TYPEFILTER_BITMAP_SIZE"
  shows "typefilter_allows (typefilter_set b c) c' \<longleftrightarrow> c' = c \<or> typefilter_allows b c'"
proof -
  have idx: "unat c' div 8 < length b" using typefilter_index [of c'] assms by simp
  have eq: "c' = c \<longleftrightarrow> unat c' div 8 = unat c div 8 \<and> unat c' mod 8 = unat c mod 8"
    by (metis div_mult_mod_eq word_unat_eq_iff)
  show ?thesis
  proof (cases "unat c' div 8 = unat c div 8")
    case True
    with idx show ?thesis
      unfolding eq by (auto simp: typefilter_allows_def typefilter_set_def Let_def bit_simps)
  next
    case False
    then show ?thesis
      unfolding eq by (auto simp: typefilter_allows_def typefilter_set_def Let_def)
  qed
qed

lemma typefilter_allows_foldl:
  "length b = KDBG_TYPEFILTER_BITMAP_SIZE \<Longrightarrow>
   typefilter_allows (foldl typefilter_set b cscs) c \<longleftrightarrow> c \<in> set cscs \<or> typefilter_allows b c"
  by (induction cscs arbitrary: b) (auto simp: typefilter_allows_set)

lemma typefilter_bitmap_allows: "typefilter_allows (typefilter_bitmap cscs) c \<longleftrightarrow> c \<in> set cscs"
  using typefilter_index [of c]
  by (simp add: typefilter_bitmap_def typefilter_allows_foldl) (simp add: typefilter_allows_def)

section \<open>Kernel operations\<close>

text \<open>
  Each wrapper passes a management-information path and a size to \<open>sysctl\<close> and reads
  back the return code, the rewritten size and what the kernel wrote. The kernel is the
  parameter \<open>sysctl\<close>.
\<close>

definition CTL_KERN :: int where "CTL_KERN = 1"
definition KERN_KDEBUG :: int where "KERN_KDEBUG = 24"
definition KERN_KDENABLE :: int where "KERN_KDENABLE = 3"
definition KERN_KDSETBUF :: int where "KERN_KDSETBUF = 4"
definition KERN_KDSETUP :: int where "KERN_KDSETUP = 6"
definition KERN_KDREMOVE :: int where "KERN_KDREMOVE = 7"
definition KERN_KDGETBUF :: int where "KERN_KDGETBUF = 5"
definition KERN_KDSETREG :: int where "KERN_KDSETREG = 8"
definition KERN_KDREADTR :: int where "KERN_KDREADTR = 10"
definition KERN_KDSET_TYPEFILTER :: int where "KERN_KDSET_TYPEFILTER = 22"
definition KERN_KDBUFWAIT :: int where "KERN_KDBUFWAIT = 23"

datatype io_source = LastOsError | InvalidData nat nat

datatype kd_error =
  FrameworkLoad string string
| SymbolMissing string string
| NotRoot
| Sysctl string io_source
| Kpep string int
| Kperf string int
| UnknownEvent string
| TooManyEvents nat nat

type_synonym 'a sysctl = "int list \<Rightarrow> nat \<Rightarrow> int \<times> nat \<times> 'a"

definition sysctl_op :: "'a sysctl \<Rightarrow> string \<Rightarrow> int list \<Rightarrow> kd_error + unit" where
  "sysctl_op sysctl op mib =
     (case sysctl mib 0 of (rc, _, _) \<Rightarrow>
        if rc < 0 then Inl (Sysctl op LastOsError) else Inr ())"

definition kd_reset :: "'a sysctl \<Rightarrow> kd_error + unit" where
  "kd_reset sysctl = sysctl_op sysctl ''KERN_KDREMOVE'' [CTL_KERN, KERN_KDEBUG, KERN_KDREMOVE]"

definition set_buf_size :: "'a sysctl \<Rightarrow> int \<Rightarrow> kd_error + unit" where
  "set_buf_size sysctl nbufs =
     sysctl_op sysctl ''KERN_KDSETBUF'' [CTL_KERN, KERN_KDEBUG, KERN_KDSETBUF, nbufs]"

definition kd_setup :: "'a sysctl \<Rightarrow> kd_error + unit" where
  "kd_setup sysctl = sysctl_op sysctl ''KERN_KDSETUP'' [CTL_KERN, KERN_KDEBUG, KERN_KDSETUP]"

definition kd_enable :: "'a sysctl \<Rightarrow> bool \<Rightarrow> kd_error + unit" where
  "kd_enable sysctl on =
     (let v = (if on then 1 else 0) in
      sysctl_op sysctl ''KERN_KDENABLE'' [CTL_KERN, KERN_KDEBUG, KERN_KDENABLE, v])"

definition set_typefilter ::
  "(int list \<Rightarrow> nat \<Rightarrow> u8 list \<Rightarrow> int) \<Rightarrow> u16 list \<Rightarrow> kd_error + unit" where
  "set_typefilter sysctl cscs =
     (let bitmap = typefilter_bitmap cscs;
          rc = sysctl [CTL_KERN, KERN_KDEBUG, KERN_KDSET_TYPEFILTER] (length bitmap) bitmap in
      if rc < 0 then Inl (Sysctl ''KERN_KDSET_TYPEFILTER'' LastOsError) else Inr ())"

record kd_regtype =
  krt_ty :: u32
  krt_value1 :: u32
  krt_value2 :: u32
  krt_value3 :: u32
  krt_value4 :: u32

definition KDBG_RANGETYPE :: u32 where "KDBG_RANGETYPE = 0x40000"

definition set_filter ::
  "(int list \<Rightarrow> nat \<Rightarrow> kd_regtype \<Rightarrow> int) \<Rightarrow> kd_regtype \<Rightarrow> kd_error + unit" where
  "set_filter sysctl filt =
     (let rc = sysctl [CTL_KERN, KERN_KDEBUG, KERN_KDSETREG] 20 filt in
      if rc < 0 then Inl (Sysctl ''KERN_KDSETREG'' LastOsError) else Inr ())"

text \<open>\<open>set_lightweight_pet\<close> goes through \<open>sysctlbyname\<close>, which gets the name and the new value.\<close>

definition set_lightweight_pet :: "(string \<Rightarrow> u32 \<Rightarrow> int) \<Rightarrow> u32 \<Rightarrow> kd_error + unit" where
  "set_lightweight_pet sysctlbyname enabled =
     (if sysctlbyname ''kperf.lightweight_pet'' enabled < 0
      then Inl (Sysctl ''kperf.lightweight_pet'' LastOsError) else Inr ())"

record kbuf_info =
  kbi_nkdbufs :: int
  kbi_nolog :: int
  kbi_flags :: int
  kbi_nkdthreads :: int
  kbi_bufid :: int

definition get_buf_info :: "kbuf_info sysctl \<Rightarrow> kd_error + kbuf_info" where
  "get_buf_info sysctl =
     (case sysctl [CTL_KERN, KERN_KDEBUG, KERN_KDGETBUF] 20 of (rc, _, info) \<Rightarrow>
        if rc < 0 then Inl (Sysctl ''KERN_KDGETBUF'' LastOsError) else Inr info)"

text \<open>
  \<open>read_trace\<close> returns the caller's buffer as the kernel left it, beside the result;
  a record is 64 bytes.
\<close>

definition read_trace ::
  "kd_buf list sysctl \<Rightarrow> kd_buf list \<Rightarrow> (kd_error + nat) \<times> kd_buf list" where
  "read_trace sysctl buf =
     (if buf = [] then (Inr 0, buf)
      else case sysctl [CTL_KERN, KERN_KDEBUG, KERN_KDREADTR] (length buf * 64) of
        (rc, sz, buf') \<Rightarrow>
          if rc < 0 then (Inl (Sysctl ''KERN_KDREADTR'' LastOsError), buf')
          else if length buf < sz
          then (Inl (Sysctl ''KERN_KDREADTR'' (InvalidData sz (length buf))), buf')
          else (Inr sz, buf'))"

definition wait_for_buffer :: "'a sysctl \<Rightarrow> nat \<Rightarrow> kd_error + bool" where
  "wait_for_buffer sysctl timeout_ms =
     (case sysctl [CTL_KERN, KERN_KDEBUG, KERN_KDBUFWAIT] (min timeout_ms (2 ^ 64 - 1)) of
        (rc, sz, _) \<Rightarrow>
          if rc < 0 then Inl (Sysctl ''KERN_KDBUFWAIT'' LastOsError) else Inr (sz \<noteq> 0))"

lemma read_trace_le: "read_trace sysctl buf = (Inr n, buf') \<Longrightarrow> n \<le> length buf"
  by (auto simp: read_trace_def split: if_splits prod.splits)

end
