(* ===== verification/KperfParser.thy ===== *)
theory KperfParser
  imports Kdebug
begin

text \<open>
  The kperf record parser (\<open>stax-mac-kperf-parse/src/parser.rs\<close>): the state machine
  that assembles one sample from a START record, stack headers and data chunks, counter
  records and an END record. \<open>feed\<close> returns the new parser and the sample the code
  hands to its callback, if any. \<open>strip\<close> is the pointer-authentication strip
  (\<open>xpaci\<close>, one machine instruction; the identity on other targets) and is a parameter.
\<close>

unbundle bit_operations_syntax

section \<open>State\<close>

record sample =
  smp_timestamp_ns :: u64
  smp_tid :: u32
  smp_user_backtrace :: "u64 list"
  smp_kernel_backtrace :: "u64 list"
  smp_pmc :: "u64 list"

record parser_stats =
  samples_emitted :: u64
  samples_started :: u64
  samples_orphaned :: u64
  user_walk_errors :: u64
  kernel_walk_errors :: u64

datatype parser_state = StateIdle | InSample (is_tid: u32) (is_timestamp: u64)

record parser =
  ps_state :: parser_state
  user_frames :: "u64 list"
  kernel_frames :: "u64 list"
  pmc :: "u64 list"
  user_main_frames :: u32
  user_remaining :: u32
  kernel_remaining :: u32
  stats :: parser_stats

definition empty_stats :: parser_stats where
  "empty_stats = \<lparr>samples_emitted = 0, samples_started = 0, samples_orphaned = 0,
     user_walk_errors = 0, kernel_walk_errors = 0\<rparr>"

definition new_parser :: parser where
  "new_parser = \<lparr>ps_state = StateIdle, user_frames = [], kernel_frames = [], pmc = [],
     user_main_frames = 0, user_remaining = 0, kernel_remaining = 0, stats = empty_stats\<rparr>"

abbreviation in_sample :: "parser \<Rightarrow> bool" where
  "in_sample p \<equiv> ps_state p \<noteq> StateIdle"

section \<open>Operations\<close>

definition chunk_of :: "kd_buf \<Rightarrow> u64 list" where
  "chunk_of rec = [kd_arg1 rec, kd_arg2 rec, kd_arg3 rec, kd_arg4 rec]"

definition append_chunk :: "kd_buf \<Rightarrow> bool \<Rightarrow> parser \<Rightarrow> parser" where
  "append_chunk rec user p =
     (if user
      then p\<lparr>user_frames := user_frames p @ take (min (unat (user_remaining p)) 4) (chunk_of rec),
             user_remaining := sat_sub (user_remaining p) 4\<rparr>
      else p\<lparr>kernel_frames := kernel_frames p @ take (min (unat (kernel_remaining p)) 4) (chunk_of rec),
             kernel_remaining := sat_sub (kernel_remaining p) 4\<rparr>)"

text \<open>\<open>Vec::remove\<close> and \<open>Vec::insert\<close>, at indices the code has checked.\<close>

definition remove_at :: "nat \<Rightarrow> 'a list \<Rightarrow> 'a list" where
  "remove_at i xs = take i xs @ drop (Suc i) xs"

definition insert_at :: "nat \<Rightarrow> 'a \<Rightarrow> 'a list \<Rightarrow> 'a list" where
  "insert_at i x xs = take i xs @ x # drop i xs"

definition normalize_frames :: "(u64 \<Rightarrow> u64) \<Rightarrow> u32 \<Rightarrow> u64 list \<Rightarrow> u64 list" where
  "normalize_frames strip main_frames frames =
     (let main_n = min (unat main_frames) (length frames) in
      if main_n < 2 then frames
      else let fixup_index = main_n - 1;
               fixup = strip (frames ! fixup_index) in
        if fixup = 0 then frames
        else if 1 < fixup_index \<and> strip (frames ! 1) = fixup
        then remove_at fixup_index frames
        else insert_at 1 fixup (remove_at fixup_index frames))"

definition normalize_user_fixup :: "(u64 \<Rightarrow> u64) \<Rightarrow> parser \<Rightarrow> parser" where
  "normalize_user_fixup strip p =
     p\<lparr>user_frames := normalize_frames strip (user_main_frames p) (user_frames p)\<rparr>"

text \<open>\<open>rposition(v != 0)\<close> plus one, and \<open>position(a == 0)\<close> or the length.\<close>

definition pmc_len :: "u64 list \<Rightarrow> nat" where
  "pmc_len vs = length (dropWhile (\<lambda>v. v = 0) (rev vs))"

definition null_len :: "u64 list \<Rightarrow> nat" where
  "null_len fs = length (takeWhile (\<lambda>a. a \<noteq> 0) fs)"

definition finish_sample :: "parser \<Rightarrow> u32 \<Rightarrow> u64 \<Rightarrow> sample" where
  "finish_sample p tid ts =
     \<lparr>smp_timestamp_ns = ts, smp_tid = tid,
      smp_user_backtrace = take (null_len (user_frames p)) (user_frames p),
      smp_kernel_backtrace = take (null_len (kernel_frames p)) (kernel_frames p),
      smp_pmc = take (pmc_len (pmc p)) (pmc p)\<rparr>"

definition start_sample :: "kd_buf \<Rightarrow> parser \<Rightarrow> parser" where
  "start_sample rec p =
     (let st = (if in_sample p then (stats p)\<lparr>samples_orphaned := samples_orphaned (stats p) + 1\<rparr>
                else stats p) in
      \<lparr>ps_state = InSample (ucast (kd_arg5 rec)) (kd_timestamp rec AND KDBG_TIMESTAMP_MASK),
       user_frames = [], kernel_frames = [], pmc = [],
       user_main_frames = 0, user_remaining = 0, kernel_remaining = 0,
       stats = st\<lparr>samples_started := samples_started st + 1\<rparr>\<rparr>)"

definition end_sample :: "(u64 \<Rightarrow> u64) \<Rightarrow> parser \<Rightarrow> parser \<times> sample option" where
  "end_sample strip p =
     (case ps_state p of
        InSample tid ts \<Rightarrow>
          (let p1 = normalize_user_fixup strip p in
           (p1\<lparr>stats := (stats p1)\<lparr>samples_emitted := samples_emitted (stats p1) + 1\<rparr>,
               ps_state := StateIdle\<rparr>,
            Some (finish_sample p1 tid ts)))
      | StateIdle \<Rightarrow> (p\<lparr>ps_state := StateIdle\<rparr>, None))"

definition user_header :: "kd_buf \<Rightarrow> parser \<Rightarrow> parser" where
  "user_header rec p =
     (if in_sample p
      then (let main_n = ucast (kd_arg2 rec) :: u32; async_n = ucast (kd_arg4 rec) :: u32 in
            p\<lparr>user_main_frames := main_n, user_remaining := sat_add main_n async_n\<rparr>)
      else p)"

definition kernel_header :: "kd_buf \<Rightarrow> parser \<Rightarrow> parser" where
  "kernel_header rec p =
     (if in_sample p
      then (let main_n = ucast (kd_arg2 rec) :: u32; async_n = ucast (kd_arg4 rec) :: u32 in
            p\<lparr>kernel_remaining := sat_add main_n async_n\<rparr>)
      else p)"

definition walk_error :: "kd_buf \<Rightarrow> parser \<Rightarrow> parser" where
  "walk_error rec p =
     (if kd_arg1 rec = ucast CS_KSAMPLE
      then p\<lparr>stats := (stats p)\<lparr>kernel_walk_errors := kernel_walk_errors (stats p) + 1\<rparr>\<rparr>
      else p\<lparr>stats := (stats p)\<lparr>user_walk_errors := user_walk_errors (stats p) + 1\<rparr>\<rparr>)"

definition feed :: "(u64 \<Rightarrow> u64) \<Rightarrow> kd_buf \<Rightarrow> parser \<Rightarrow> parser \<times> sample option" where
  "feed strip rec p =
     (if kdbg_class (kd_debugid rec) \<noteq> DBG_PERF then (p, None)
      else
        let subclass = kdbg_subclass (kd_debugid rec);
            code = kdbg_code (kd_debugid rec);
            func = kdbg_func (kd_debugid rec) in
        if subclass = SC_GENERIC \<and> code = 0 \<and> func = DBG_FUNC_START
        then (start_sample rec p, None)
        else if subclass = SC_GENERIC \<and> code = 0 \<and> func = DBG_FUNC_END
        then end_sample strip p
        else if subclass = SC_CALLSTACK \<and> code = CS_UHDR
        then (user_header rec p, None)
        else if subclass = SC_CALLSTACK \<and> code = CS_UDATA
        then (if in_sample p then (append_chunk rec True p, None) else (p, None))
        else if subclass = SC_CALLSTACK \<and> code = CS_KHDR
        then (kernel_header rec p, None)
        else if subclass = SC_CALLSTACK \<and> code = CS_KDATA
        then (if in_sample p then (append_chunk rec False p, None) else (p, None))
        else if subclass = SC_KPC \<and> code = KPC_DATA_THREAD
        then (if in_sample p then (p\<lparr>pmc := pmc p @ chunk_of rec\<rparr>, None) else (p, None))
        else if subclass = SC_CALLSTACK \<and> code = CS_ERROR
        then (walk_error rec p, None)
        else (p, None))"

text \<open>A driver loop: feed a batch, collecting the emitted samples in order.\<close>

fun feed_all :: "(u64 \<Rightarrow> u64) \<Rightarrow> kd_buf list \<Rightarrow> parser \<Rightarrow> parser \<times> sample list" where
  "feed_all strip [] p = (p, [])"
| "feed_all strip (r # rs) p =
     (let (p1, s) = feed strip r p; (p2, ss) = feed_all strip rs p1 in
      (p2, (case s of None \<Rightarrow> ss | Some x \<Rightarrow> x # ss)))"

section \<open>Case analysis of one step\<close>

lemma if_mem: "(b \<Longrightarrow> x \<in> S) \<Longrightarrow> (\<not> b \<Longrightarrow> y \<in> S) \<Longrightarrow> (if b then x else y) \<in> S"
  by simp

lemma feed_disj:
  assumes "feed strip rec p = (p', s)"
  shows "(p', s) \<in> {(p, None), (start_sample rec p, None), end_sample strip p,
    (user_header rec p, None), (kernel_header rec p, None), (append_chunk rec True p, None),
    (append_chunk rec False p, None), (p\<lparr>pmc := pmc p @ chunk_of rec\<rparr>, None),
    (walk_error rec p, None)}"
  unfolding assms [symmetric] feed_def Let_def
  by (intro if_mem; (rule insertI1 | rule insertI2)+)

lemma feed_cases:
  assumes "feed strip rec p = (p', s)"
  obtains (skip) "p' = p" "s = None"
  | (start) "p' = start_sample rec p" "s = None"
  | (finish) "(p', s) = end_sample strip p"
  | (uhdr) "p' = user_header rec p" "s = None"
  | (khdr) "p' = kernel_header rec p" "s = None"
  | (chunk) user where "p' = append_chunk rec user p" "s = None"
  | (counters) "p' = p\<lparr>pmc := pmc p @ chunk_of rec\<rparr>" "s = None"
  | (err) "p' = walk_error rec p" "s = None"
  using feed_disj [OF assms] that by (elim insertE emptyE) (simp_all only: prod.inject)

section \<open>Accounting\<close>

lemmas parser_step_defs =
  start_sample_def end_sample_def user_header_def kernel_header_def walk_error_def
  append_chunk_def normalize_user_fixup_def

text \<open>Every started sample is emitted, orphaned by the next START, or still open.\<close>

definition stats_balanced :: "parser \<Rightarrow> bool" where
  "stats_balanced p \<longleftrightarrow>
     samples_started (stats p) =
       samples_emitted (stats p) + samples_orphaned (stats p) + of_bool (in_sample p)"

lemma stats_balanced_new: "stats_balanced new_parser"
  by (simp add: stats_balanced_def new_parser_def empty_stats_def)

lemma feed_balanced:
  assumes "stats_balanced p" "feed strip rec p = (p', s)"
  shows "stats_balanced p'"
  using assms(2,1)
  by (cases rule: feed_cases)
    (auto simp: parser_step_defs stats_balanced_def Let_def split: parser_state.splits)

lemma feed_emitted_count:
  assumes "feed strip rec p = (p', s)"
  shows "samples_emitted (stats p') = samples_emitted (stats p) + of_bool (s \<noteq> None)"
  using assms
  by (cases rule: feed_cases)
    (auto simp: parser_step_defs Let_def split: parser_state.splits)

lemma feed_all_accounting:
  assumes "stats_balanced p" "feed_all strip rs p = (p', ss)"
  shows "stats_balanced p' \<and> samples_emitted (stats p') = samples_emitted (stats p) + of_nat (length ss)"
  using assms
proof (induction rs arbitrary: p p' ss)
  case Nil
  then show ?case by simp
next
  case (Cons r rs)
  obtain p1 s where f: "feed strip r p = (p1, s)" by (cases "feed strip r p")
  obtain ss' where rest: "feed_all strip rs p1 = (p', ss')"
    and ss: "ss = (case s of None \<Rightarrow> ss' | Some x \<Rightarrow> x # ss')"
    using Cons.prems(2) f by (auto split: prod.splits)
  from Cons.IH [OF feed_balanced [OF Cons.prems(1) f] rest] feed_emitted_count [OF f] ss
  show ?case by (auto split: option.splits)
qed

section \<open>Shape of emitted samples\<close>

lemma take_null_len: "take (null_len fs) fs = takeWhile (\<lambda>a. a \<noteq> 0) fs"
  by (metis null_len_def takeWhile_eq_take)

lemma take_pmc_len: "take (pmc_len vs) vs = rev (dropWhile (\<lambda>v. v = 0) (rev vs))"
proof -
  have "drop (length (takeWhile (\<lambda>v. v = 0) (rev vs))) (rev vs) = dropWhile (\<lambda>v. v = 0) (rev vs)"
    by (rule dropWhile_eq_drop [symmetric])
  moreover have "length vs = length (takeWhile (\<lambda>v. v = 0) (rev vs)) + pmc_len vs"
    by (metis length_append length_rev pmc_len_def takeWhile_dropWhile_id)
  ultimately show ?thesis
    by (metis add_diff_cancel_left' drop_rev rev_rev_ident)
qed

lemma last_take_pmc: "take (pmc_len vs) vs \<noteq> [] \<Longrightarrow> last (take (pmc_len vs) vs) \<noteq> 0"
proof -
  let ?d = "dropWhile (\<lambda>v. v = 0) (rev vs)"
  assume "take (pmc_len vs) vs \<noteq> []"
  then have ne: "?d \<noteq> []" unfolding take_pmc_len by simp
  then have "hd ?d \<noteq> 0" by (rule hd_dropWhile)
  with ne show ?thesis unfolding take_pmc_len by (simp add: last_rev)
qed

definition sample_ok :: "sample \<Rightarrow> bool" where
  "sample_ok s \<longleftrightarrow> 0 \<notin> set (smp_user_backtrace s) \<and> 0 \<notin> set (smp_kernel_backtrace s)
     \<and> (smp_pmc s \<noteq> [] \<longrightarrow> last (smp_pmc s) \<noteq> 0) \<and> unat (smp_timestamp_ns s) < 2 ^ 56"

definition time_ok :: "parser \<Rightarrow> bool" where
  "time_ok p \<longleftrightarrow> (case ps_state p of StateIdle \<Rightarrow> True | InSample _ ts \<Rightarrow> unat ts < 2 ^ 56)"

lemma finish_sample_ok: "unat ts < 2 ^ 56 \<Longrightarrow> sample_ok (finish_sample p tid ts)"
  using last_take_pmc [of "pmc p"]
  by (auto simp: sample_ok_def finish_sample_def take_null_len dest: set_takeWhileD)

lemma feed_time_ok:
  assumes "time_ok p" "feed strip rec p = (p', s)"
  shows "time_ok p' \<and> (\<forall>x. s = Some x \<longrightarrow> sample_ok x)"
  using assms(2,1) kd_time_bound [of rec]
  by (cases rule: feed_cases)
    (auto simp: parser_step_defs time_ok_def Let_def finish_sample_ok split: parser_state.splits)

lemma feed_all_sample_ok:
  "time_ok p \<Longrightarrow> feed_all strip rs p = (p', ss) \<Longrightarrow> x \<in> set ss \<Longrightarrow> sample_ok x"
proof (induction rs arbitrary: p p' ss)
  case Nil
  then show ?case by simp
next
  case (Cons r rs)
  obtain p1 s where f: "feed strip r p = (p1, s)" by (cases "feed strip r p")
  obtain ss' where rest: "feed_all strip rs p1 = (p', ss')"
    and ss: "ss = (case s of None \<Rightarrow> ss' | Some x \<Rightarrow> x # ss')"
    using Cons.prems(2) f by (auto split: prod.splits)
  note feed_time_ok [OF Cons.prems(1) f]
  with Cons.IH [OF _ rest] Cons.prems(3) ss show ?case by (auto split: option.splits)
qed

lemma time_ok_new: "time_ok new_parser"
  by (simp add: time_ok_def new_parser_def)

section \<open>Call order of the user stack\<close>

text \<open>
  The kernel appends the saved link register after the frame-pointer chain. In call
  order it belongs right after the leaf; when the chain already starts with it, it is
  dropped.
\<close>

lemma normalize_frames_chain:
  assumes "unat main_n = Suc (Suc (length chain))" "strip lr \<noteq> 0"
  shows "normalize_frames strip main_n (leaf # chain @ [lr] @ async) =
     (if chain \<noteq> [] \<and> strip (hd chain) = strip lr then leaf # chain @ async
      else leaf # strip lr # chain @ async)"
proof -
  let ?fs = "leaf # chain @ [lr] @ async"
  have n: "min (unat main_n) (length ?fs) = Suc (Suc (length chain))"
    using assms(1) by simp
  have at: "?fs ! Suc (length chain) = lr" by (simp add: nth_append)
  have rm: "remove_at (Suc (length chain)) ?fs = leaf # chain @ async"
    by (simp add: remove_at_def)
  have hd1: "?fs ! 1 = hd chain" if "chain \<noteq> []"
    using that by (cases chain) auto
  have "normalize_frames strip main_n ?fs =
     (if 1 < Suc (length chain) \<and> strip (?fs ! 1) = strip lr then remove_at (Suc (length chain)) ?fs
      else insert_at 1 (strip lr) (remove_at (Suc (length chain)) ?fs))"
    unfolding normalize_frames_def n Let_def diff_Suc_1 at using assms(2) by simp
  then show ?thesis
    unfolding rm using hd1 by (cases chain) (auto simp: insert_at_def)
qed

section \<open>Round trip: from the kernel's records to the sample\<close>

text \<open>
  What the kernel emits for one sample, as the parser's module comment lays it out: START,
  the user header and its data records (four frames each, zero padded), the kernel header
  and its data records, one counter record, END.
\<close>

fun chunks4 :: "u64 list \<Rightarrow> u64 list list" where
  "chunks4 [] = []"
| "chunks4 xs = take 4 xs # chunks4 (drop 4 xs)"

definition padded :: "u64 list \<Rightarrow> nat \<Rightarrow> u64" where
  "padded xs i = (if i < length xs then xs ! i else 0)"

definition perf_record :: "u64 \<Rightarrow> u64 \<Rightarrow> u8 \<Rightarrow> u16 \<Rightarrow> u32 \<Rightarrow> u64 list \<Rightarrow> kd_buf" where
  "perf_record ts arg5 sc code func args =
     \<lparr>kd_timestamp = ts, kd_arg1 = padded args 0, kd_arg2 = padded args 1,
      kd_arg3 = padded args 2, kd_arg4 = padded args 3, kd_arg5 = arg5,
      kd_debugid = kdbg_eventid DBG_PERF sc code OR (func AND 3), kd_cpuid = 0, kd_unused = 0\<rparr>"

definition sample_records ::
  "u64 \<Rightarrow> u32 \<Rightarrow> u32 \<Rightarrow> u32 \<Rightarrow> u64 list \<Rightarrow> u64 list \<Rightarrow> u64 list \<Rightarrow> kd_buf list" where
  "sample_records ts tid main_n async_n us ks counters =
     (let r = perf_record ts (ucast tid) in
      [r SC_GENERIC 0 DBG_FUNC_START []]
      @ [r SC_CALLSTACK CS_UHDR DBG_FUNC_NONE [0, ucast main_n, 0, ucast async_n]]
      @ map (r SC_CALLSTACK CS_UDATA DBG_FUNC_NONE) (chunks4 us)
      @ [r SC_CALLSTACK CS_KHDR DBG_FUNC_NONE [0, of_nat (length ks), 0, 0]]
      @ map (r SC_CALLSTACK CS_KDATA DBG_FUNC_NONE) (chunks4 ks)
      @ [r SC_KPC KPC_DATA_THREAD DBG_FUNC_NONE counters]
      @ [r SC_GENERIC 0 DBG_FUNC_END []])"

lemma feed_all_append:
  "feed_all strip (xs @ ys) p =
     (let (p1, s1) = feed_all strip xs p; (p2, s2) = feed_all strip ys p1 in (p2, s1 @ s2))"
  by (induction xs arbitrary: p) (auto simp: Let_def split: prod.splits option.splits)

lemma feed_all_run:
  "feed_all strip xs p = (p1, s1) \<Longrightarrow> feed_all strip ys p1 = (p2, s2) \<Longrightarrow>
   feed_all strip (xs @ ys) p = (p2, s1 @ s2)"
  by (simp add: feed_all_append)

lemma feed_all_one: "feed strip r p = (p1, s) \<Longrightarrow>
   feed_all strip [r] p = (p1, case s of None \<Rightarrow> [] | Some x \<Rightarrow> [x])"
  by simp

lemma perf_record_id [simp]:
  "kdbg_class (kd_debugid (perf_record ts a sc code f args)) = DBG_PERF"
  "kdbg_subclass (kd_debugid (perf_record ts a sc code f args)) = sc"
  "kdbg_code (kd_debugid (perf_record ts a sc code f args)) = code AND 0x3fff"
  "kdbg_func (kd_debugid (perf_record ts a sc code f args)) = f AND 3"
  by (simp_all only: perf_record_def kd_buf.simps kdbg_class_eventid kdbg_subclass_eventid
      kdbg_code_eventid kdbg_func_eventid)

lemma feed_perf_start:
  "feed strip (perf_record ts a SC_GENERIC 0 DBG_FUNC_START xs) p =
     (start_sample (perf_record ts a SC_GENERIC 0 DBG_FUNC_START xs) p, None)"
  unfolding feed_def Let_def by (simp add: kd_event_defs)

lemma feed_perf_end:
  "feed strip (perf_record ts a SC_GENERIC 0 DBG_FUNC_END xs) p = end_sample strip p"
  unfolding feed_def Let_def by (simp add: kd_event_defs)

lemma feed_perf_uhdr:
  "feed strip (perf_record ts a SC_CALLSTACK CS_UHDR f xs) p =
     (user_header (perf_record ts a SC_CALLSTACK CS_UHDR f xs) p, None)"
  unfolding feed_def Let_def by (simp add: kd_event_defs)

lemma feed_perf_khdr:
  "feed strip (perf_record ts a SC_CALLSTACK CS_KHDR f xs) p =
     (kernel_header (perf_record ts a SC_CALLSTACK CS_KHDR f xs) p, None)"
  unfolding feed_def Let_def by (simp add: kd_event_defs)

lemma feed_perf_udata:
  "in_sample p \<Longrightarrow> feed strip (perf_record ts a SC_CALLSTACK CS_UDATA f xs) p =
     (append_chunk (perf_record ts a SC_CALLSTACK CS_UDATA f xs) True p, None)"
  unfolding feed_def Let_def by (simp add: kd_event_defs)

lemma feed_perf_kdata:
  "in_sample p \<Longrightarrow> feed strip (perf_record ts a SC_CALLSTACK CS_KDATA f xs) p =
     (append_chunk (perf_record ts a SC_CALLSTACK CS_KDATA f xs) False p, None)"
  unfolding feed_def Let_def by (simp add: kd_event_defs)

lemma feed_perf_counters:
  "in_sample p \<Longrightarrow> feed strip (perf_record ts a SC_KPC KPC_DATA_THREAD f xs) p =
     (p\<lparr>pmc := pmc p @ chunk_of (perf_record ts a SC_KPC KPC_DATA_THREAD f xs)\<rparr>, None)"
  unfolding feed_def Let_def by (simp add: kd_event_defs)

lemma chunk_of_perf_record:
  assumes "length xs \<le> 4"
  shows "chunk_of (perf_record ts a sc code f xs) = xs @ replicate (4 - length xs) 0"
  by (rule nth_equalityI)
    (use assms in \<open>auto simp: chunk_of_def perf_record_def padded_def nth_append less_Suc_eq numeral_eq_Suc\<close>)

lemma take_chunk:
  "take (min (length xs) 4) (chunk_of (perf_record ts a sc code f (take 4 xs))) = take 4 xs"
  by (subst chunk_of_perf_record) (auto simp: min_def)

lemma unat_sat_sub_length:
  "unat (r :: u32) = length xs \<Longrightarrow> unat (sat_sub r 4) = length (drop 4 xs)"
  by (simp add: sat_simps)

lemma feed_all_udata:
  assumes "in_sample p" "unat (user_remaining p) = length us"
  shows "feed_all strip (map (perf_record ts a SC_CALLSTACK CS_UDATA f) (chunks4 us)) p =
     (p\<lparr>user_frames := user_frames p @ us, user_remaining := 0\<rparr>, [])"
  using assms
proof (induction us arbitrary: p rule: chunks4.induct)
  case 1
  then have "user_remaining p = 0" by (simp add: unat_eq_zero)
  then show ?case by simp
next
  case (2 v va)
  let ?us = "v # va"
  let ?r = "perf_record ts a SC_CALLSTACK CS_UDATA f (take 4 ?us)"
  define p1 where "p1 = append_chunk ?r True p"
  have p1: "p1 = p\<lparr>user_frames := user_frames p @ take 4 ?us, user_remaining := sat_sub (user_remaining p) 4\<rparr>"
    unfolding p1_def append_chunk_def using 2(3) take_chunk [of ?us ts a SC_CALLSTACK CS_UDATA f] by simp
  have "feed_all strip (map (perf_record ts a SC_CALLSTACK CS_UDATA f) (chunks4 (drop 4 ?us))) p1 =
     (p1\<lparr>user_frames := user_frames p1 @ drop 4 ?us, user_remaining := 0\<rparr>, [])"
    by (rule 2(1)) (use 2(2,3) unat_sat_sub_length [OF 2(3)] in \<open>simp_all add: p1\<close>)
  moreover have "user_frames p1 @ drop 4 ?us = user_frames p @ ?us"
    by (simp add: p1 del: take_Suc_Cons drop_Suc_Cons)
  ultimately show ?case
    using feed_perf_udata [OF 2(2), of strip ts a f "take 4 ?us"]
    by (simp only: chunks4.simps list.map feed_all.simps p1_def [symmetric] Let_def prod.case option.case)
      (simp add: p1)
qed

lemma feed_all_kdata:
  assumes "in_sample p" "unat (kernel_remaining p) = length ks"
  shows "feed_all strip (map (perf_record ts a SC_CALLSTACK CS_KDATA f) (chunks4 ks)) p =
     (p\<lparr>kernel_frames := kernel_frames p @ ks, kernel_remaining := 0\<rparr>, [])"
  using assms
proof (induction ks arbitrary: p rule: chunks4.induct)
  case 1
  then have "kernel_remaining p = 0" by (simp add: unat_eq_zero)
  then show ?case by simp
next
  case (2 v va)
  let ?ks = "v # va"
  let ?r = "perf_record ts a SC_CALLSTACK CS_KDATA f (take 4 ?ks)"
  define p1 where "p1 = append_chunk ?r False p"
  have p1: "p1 = p\<lparr>kernel_frames := kernel_frames p @ take 4 ?ks, kernel_remaining := sat_sub (kernel_remaining p) 4\<rparr>"
    unfolding p1_def append_chunk_def using 2(3) take_chunk [of ?ks ts a SC_CALLSTACK CS_KDATA f] by simp
  have "feed_all strip (map (perf_record ts a SC_CALLSTACK CS_KDATA f) (chunks4 (drop 4 ?ks))) p1 =
     (p1\<lparr>kernel_frames := kernel_frames p1 @ drop 4 ?ks, kernel_remaining := 0\<rparr>, [])"
    by (rule 2(1)) (use 2(2,3) unat_sat_sub_length [OF 2(3)] in \<open>simp_all add: p1\<close>)
  moreover have "kernel_frames p1 @ drop 4 ?ks = kernel_frames p @ ?ks"
    by (simp add: p1 del: take_Suc_Cons drop_Suc_Cons)
  ultimately show ?case
    using feed_perf_kdata [OF 2(2), of strip ts a f "take 4 ?ks"]
    by (simp only: chunks4.simps list.map feed_all.simps p1_def [symmetric] Let_def prod.case option.case)
      (simp add: p1)
qed

lemma trim_zeros: "dropWhile (\<lambda>v. v = 0) (replicate n 0 @ ys) = dropWhile (\<lambda>v. v = 0) ys"
  by (induction n) auto

text \<open>What the parser should report for such a sample.\<close>

definition expected_sample ::
  "(u64 \<Rightarrow> u64) \<Rightarrow> u64 \<Rightarrow> u32 \<Rightarrow> u32 \<Rightarrow> u64 list \<Rightarrow> u64 list \<Rightarrow> u64 list \<Rightarrow> sample" where
  "expected_sample strip ts tid main_n us ks counters =
     \<lparr>smp_timestamp_ns = ts AND KDBG_TIMESTAMP_MASK, smp_tid = tid,
      smp_user_backtrace = takeWhile (\<lambda>a. a \<noteq> 0) (normalize_frames strip main_n us),
      smp_kernel_backtrace = takeWhile (\<lambda>a. a \<noteq> 0) ks,
      smp_pmc = rev (dropWhile (\<lambda>v. v = 0) (rev counters))\<rparr>"

lemma sample_parts:
  fixes main_n async_n :: u32
  assumes us: "length us = unat main_n + unat async_n" "length us < 2 ^ 32"
    and ks: "length ks < 2 ^ 32" and cs: "length counters \<le> 4"
  shows "feed_all strip (sample_records ts tid main_n async_n us ks counters) p =
     ((start_sample (perf_record ts (ucast tid) SC_GENERIC 0 DBG_FUNC_START []) p)
        \<lparr>ps_state := StateIdle, user_frames := normalize_frames strip main_n us, kernel_frames := ks,
         pmc := counters @ replicate (4 - length counters) 0, user_main_frames := main_n,
         stats := (let st = stats (start_sample (perf_record ts (ucast tid) SC_GENERIC 0 DBG_FUNC_START []) p)
                   in st\<lparr>samples_emitted := samples_emitted st + 1\<rparr>)\<rparr>,
      [expected_sample strip ts tid main_n us ks counters])"
proof -
  let ?r = "perf_record ts (ucast tid)"
  let ?p1 = "start_sample (?r SC_GENERIC 0 DBG_FUNC_START []) p"
  let ?uh = "?r SC_CALLSTACK CS_UHDR DBG_FUNC_NONE [0, ucast main_n, 0, ucast async_n]"
  let ?kh = "?r SC_CALLSTACK CS_KHDR DBG_FUNC_NONE [0, of_nat (length ks), 0, 0]"
  have in1: "in_sample ?p1" by (simp add: start_sample_def Let_def)
  have p1: "user_frames ?p1 = []" "kernel_frames ?p1 = []" "pmc ?p1 = []"
      "user_remaining ?p1 = 0" "kernel_remaining ?p1 = 0"
      "ps_state ?p1 = InSample tid (ts AND KDBG_TIMESTAMP_MASK)"
    by (simp_all add: start_sample_def perf_record_def Let_def)
  have ur: "unat (sat_add main_n async_n) = length us"
    using us by (simp add: sat_simps)
  have kr: "unat (of_nat (length ks) :: u32) = length ks"
    using ks by (simp add: unat_of_nat)
  have ucast_ks: "(ucast (of_nat (length ks) :: u64) :: u32) = of_nat (length ks)"
    by (rule word_unat_eq_iff [THEN iffD2]) (use ks in \<open>simp add: unat_of_nat unsigned_ucast_eq take_bit_eq_mod\<close>)
  let ?p2 = "?p1\<lparr>user_main_frames := main_n, user_remaining := sat_add main_n async_n\<rparr>"
  have p2: "user_header ?uh ?p1 = ?p2"
    using in1 by (simp add: user_header_def perf_record_def padded_def Let_def)
  let ?p3 = "?p2\<lparr>user_frames := us, user_remaining := 0\<rparr>"
  have p3: "feed_all strip (map (?r SC_CALLSTACK CS_UDATA DBG_FUNC_NONE) (chunks4 us)) ?p2 = (?p3, [])"
    using feed_all_udata [of ?p2 us strip ts "ucast tid" DBG_FUNC_NONE] in1 ur p1 by simp
  let ?p4 = "?p3\<lparr>kernel_remaining := of_nat (length ks)\<rparr>"
  have p4: "kernel_header ?kh ?p3 = ?p4"
    using in1 by (simp add: kernel_header_def perf_record_def padded_def Let_def ucast_ks)
  let ?p5 = "?p4\<lparr>kernel_frames := ks, kernel_remaining := 0\<rparr>"
  have p5: "feed_all strip (map (?r SC_CALLSTACK CS_KDATA DBG_FUNC_NONE) (chunks4 ks)) ?p4 = (?p5, [])"
    using feed_all_kdata [of ?p4 ks strip ts "ucast tid" DBG_FUNC_NONE] in1 kr p1 by simp
  let ?p6 = "?p5\<lparr>pmc := counters @ replicate (4 - length counters) 0\<rparr>"
  have p6: "feed strip (?r SC_KPC KPC_DATA_THREAD DBG_FUNC_NONE counters) ?p5 = (?p6, None)"
    using feed_perf_counters [of ?p5 strip ts "ucast tid" DBG_FUNC_NONE counters] in1 p1
      chunk_of_perf_record [OF cs] by simp
  have n6: "normalize_user_fixup strip ?p6 = ?p6\<lparr>user_frames := normalize_frames strip main_n us\<rparr>"
    by (simp add: normalize_user_fixup_def)
  have p7: "feed strip (?r SC_GENERIC 0 DBG_FUNC_END []) ?p6 =
     (?p6\<lparr>user_frames := normalize_frames strip main_n us,
          stats := (stats ?p1)\<lparr>samples_emitted := samples_emitted (stats ?p1) + 1\<rparr>,
          ps_state := StateIdle\<rparr>, Some (expected_sample strip ts tid main_n us ks counters))"
    unfolding feed_perf_end end_sample_def n6 using p1(6)
    by (simp add: finish_sample_def expected_sample_def take_null_len take_pmc_len trim_zeros)
  note start = feed_all_one [OF feed_perf_start [of strip ts "ucast tid" "[]" p]]
  note uhdr = feed_all_one [OF feed_perf_uhdr [of strip ts "ucast tid" DBG_FUNC_NONE
        "[0, ucast main_n, 0, ucast async_n]" ?p1, unfolded p2]]
  note khdr = feed_all_one [OF feed_perf_khdr [of strip ts "ucast tid" DBG_FUNC_NONE
        "[0, of_nat (length ks), 0, 0]" ?p3, unfolded p4]]
  show ?thesis
    unfolding sample_records_def Let_def
    by (subst feed_all_run [OF start feed_all_run [OF uhdr feed_all_run [OF p3 feed_all_run [OF khdr
            feed_all_run [OF p5 feed_all_run [OF feed_all_one [OF p6] feed_all_one [OF p7]]]]]]])
      (use p1 in simp)
qed

section \<open>Properties\<close>

text \<open>
  C4: whatever state the parser is in, feeding the records the kernel emits for one sample
  (START, headers, four-frame data chunks, counters, END) emits exactly that sample: the
  user stack in call order and cut at the first NULL frame, the kernel stack cut at the
  first NULL, the counters without padding, and leaves the parser idle.
\<close>

theorem sample_roundtrip:
  fixes main_n async_n :: u32
  assumes "length us = unat main_n + unat async_n" "length us < 2 ^ 32"
    and "length ks < 2 ^ 32" and "length counters \<le> 4"
  shows "\<exists>p'. feed_all strip (sample_records ts tid main_n async_n us ks counters) p =
      (p', [expected_sample strip ts tid main_n us ks counters]) \<and> ps_state p' = StateIdle"
  using sample_parts [OF assms, of strip ts tid p] by simp

theorem sample_roundtrip_witness:
  "\<exists>p'. feed_all id (sample_records 123 42 5 0 [10, 20, 30, 40, 99] [] [7, 8]) new_parser =
      (p', [expected_sample id 123 42 5 [10, 20, 30, 40, 99] [] [7, 8]]) \<and> ps_state p' = StateIdle
   \<and> smp_user_backtrace (expected_sample id 123 42 5 [10, 20, 30, 40, 99] [] [7, 8]) = [10, 99, 20, 30, 40]"
  using sample_roundtrip [of "[10, 20, 30, 40, 99]" 5 0 "[]" "[7, 8]" id 123 42 new_parser]
  by (simp add: expected_sample_def normalize_frames_def remove_at_def insert_at_def Let_def)



end
