(* ===== verification/OffCpu.thy ===== *)
theory OffCpu
  imports Kdebug
begin

text \<open>
  The CPU interval tracker (\<open>stax-mac-kperf-parse/src/offcpu.rs\<close>): context-switch and
  wakeup records in, closed on-CPU and off-CPU intervals and wakeup edges out. The two
  hash maps are only ever looked up and updated by key, so their order does not matter here.
\<close>

unbundle bit_operations_syntax

section \<open>State\<close>

record waker_attribution =
  wa_waker_tid :: u32
  wa_waker_user_stack :: "u64 list"

record thread_state =
  total_on_ns :: u64
  total_off_ns :: u64
  last_on_ns :: "u64 option"
  last_off_ns :: "u64 option"
  last_user_stack :: "u64 list"
  last_kernel_stack :: "u64 list"
  ts_pending_wakeup :: "waker_attribution option"

datatype pending_kind =
  POnCpu
| POffCpu (pk_user_stack: "u64 list") (pk_kernel_stack: "u64 list")
    (pk_waker_tid: "u32 option") (pk_waker_user_stack: "u64 list option")

record pending_interval =
  pi_tid :: u32
  pi_start_ns :: u64
  pi_end_ns :: u64
  pi_kind :: pending_kind

record pending_wakeup =
  pw_timestamp_ns :: u64
  pw_waker_tid :: u32
  pw_wakee_tid :: u32
  pw_waker_user_stack :: "u64 list"
  pw_waker_kernel_stack :: "u64 list"

record tracker =
  tr_on_cpu :: "(u32, u64) hmap"
  tr_threads :: "(u64, thread_state) hmap"
  sched_count :: u64
  stkhandoff_count :: u64
  makerunnable_count :: u64
  tr_pending :: "pending_interval list"
  tr_pending_wakeups :: "pending_wakeup list"

definition default_thread :: thread_state where
  "default_thread = \<lparr>total_on_ns = 0, total_off_ns = 0, last_on_ns = None, last_off_ns = None,
     last_user_stack = [], last_kernel_stack = [], ts_pending_wakeup = None\<rparr>"

definition new_tracker :: tracker where
  "new_tracker = \<lparr>tr_on_cpu = [], tr_threads = [], sched_count = 0, stkhandoff_count = 0,
     makerunnable_count = 0, tr_pending = [], tr_pending_wakeups = []\<rparr>"

abbreviation thread_of :: "tracker \<Rightarrow> u64 \<Rightarrow> thread_state" where
  "thread_of tr t \<equiv> or_default (map_of (tr_threads tr) t) default_thread"

section \<open>Operations\<close>

definition note_sample :: "u32 \<Rightarrow> u64 list \<Rightarrow> u64 list \<Rightarrow> tracker \<Rightarrow> tracker" where
  "note_sample tid ustack kstack tr =
     (if ustack = [] then tr
      else tr\<lparr>tr_threads := hm_entry (ucast tid) default_thread
        (\<lambda>st. st\<lparr>last_user_stack := ustack, last_kernel_stack := kstack\<rparr>) (tr_threads tr)\<rparr>)"

text \<open>The thread that leaves the CPU: its new state and the interval that closes.\<close>

definition thread_leaves :: "u64 \<Rightarrow> u64 \<Rightarrow> thread_state \<Rightarrow> thread_state \<times> pending_interval list" where
  "thread_leaves ts prev_tid st =
     (case last_on_ns st of
        Some on_ns \<Rightarrow>
          (let dur = sat_sub ts on_ns; st1 = st\<lparr>last_on_ns := None\<rparr> in
           if 0 < dur
           then (st1\<lparr>total_on_ns := sat_add (total_on_ns st1) dur, last_off_ns := Some ts\<rparr>,
                 [\<lparr>pi_tid = ucast prev_tid, pi_start_ns = on_ns, pi_end_ns = ts, pi_kind = POnCpu\<rparr>])
           else (st1\<lparr>last_off_ns := Some ts\<rparr>, []))
      | None \<Rightarrow> (st\<lparr>last_off_ns := Some ts\<rparr>, []))"

text \<open>The thread that comes on: it closes its off-CPU interval and opens an on-CPU one.\<close>

definition thread_enters :: "u64 \<Rightarrow> u64 \<Rightarrow> thread_state \<Rightarrow> thread_state \<times> pending_interval list" where
  "thread_enters ts new_tid st =
     (case last_off_ns st of
        Some off_ns \<Rightarrow>
          (let dur = sat_sub ts off_ns; st1 = st\<lparr>last_off_ns := None\<rparr> in
           if 0 < dur
           then (let st2 = st1\<lparr>total_off_ns := sat_add (total_off_ns st1) dur\<rparr> in
             if last_user_stack st2 \<noteq> []
             then (st2\<lparr>ts_pending_wakeup := None, last_on_ns := Some ts\<rparr>,
                   [\<lparr>pi_tid = ucast new_tid, pi_start_ns = off_ns, pi_end_ns = ts,
                     pi_kind = POffCpu (last_user_stack st2) (last_kernel_stack st2)
                       (map_option wa_waker_tid (ts_pending_wakeup st2))
                       (map_option wa_waker_user_stack (ts_pending_wakeup st2))\<rparr>])
             else (st2\<lparr>ts_pending_wakeup := None, last_on_ns := Some ts\<rparr>, []))
           else (st1\<lparr>last_on_ns := Some ts\<rparr>, []))
      | None \<Rightarrow> (st\<lparr>last_on_ns := Some ts\<rparr>, []))"

text \<open>Run one of the two on the thread table and collect what it closed.\<close>

definition on_thread ::
  "(thread_state \<Rightarrow> thread_state \<times> pending_interval list) \<Rightarrow> u64 \<Rightarrow> tracker \<Rightarrow> tracker" where
  "on_thread f tid tr =
     (let (st', closed) = f (thread_of tr tid) in
      tr\<lparr>tr_threads := hm_entry tid default_thread (\<lambda>_. st') (tr_threads tr),
         tr_pending := tr_pending tr @ closed\<rparr>)"

definition switch_threads :: "kd_buf \<Rightarrow> u64 \<Rightarrow> tracker \<Rightarrow> tracker" where
  "switch_threads rec ts tr =
     (let new_tid = kd_arg2 rec; cpu = kd_cpuid rec;
          prev = map_of (tr_on_cpu tr) cpu;
          tr1 = tr\<lparr>tr_on_cpu := hm_insert cpu new_tid (tr_on_cpu tr)\<rparr>;
          tr2 = (case prev of
                   Some prev_tid \<Rightarrow>
                     if prev_tid \<noteq> 0 \<and> prev_tid \<noteq> new_tid
                     then on_thread (thread_leaves ts prev_tid) prev_tid tr1 else tr1
                 | None \<Rightarrow> tr1) in
      if new_tid \<noteq> 0 then on_thread (thread_enters ts new_tid) new_tid tr2 else tr2)"

definition make_runnable :: "kd_buf \<Rightarrow> u64 \<Rightarrow> tracker \<Rightarrow> tracker" where
  "make_runnable rec ts tr =
     (let waker_tid = or_default (map_of (tr_on_cpu tr) (kd_cpuid rec)) 0;
          wakee_tid = kd_arg2 rec in
      if waker_tid = 0 \<or> wakee_tid = 0 \<or> waker_tid = wakee_tid then tr
      else case map_of (tr_threads tr) waker_tid of
        None \<Rightarrow> tr
      | Some s \<Rightarrow>
          if last_user_stack s = [] \<and> last_kernel_stack s = [] then tr
          else tr\<lparr>tr_pending_wakeups := tr_pending_wakeups tr @
                    [\<lparr>pw_timestamp_ns = ts, pw_waker_tid = ucast waker_tid,
                      pw_wakee_tid = ucast wakee_tid, pw_waker_user_stack = last_user_stack s,
                      pw_waker_kernel_stack = last_kernel_stack s\<rparr>],
                  tr_threads := hm_entry wakee_tid default_thread
                    (\<lambda>st. st\<lparr>ts_pending_wakeup := Some \<lparr>wa_waker_tid = ucast waker_tid,
                       wa_waker_user_stack = last_user_stack s\<rparr>\<rparr>) (tr_threads tr)\<rparr>)"

definition tracker_feed :: "kd_buf \<Rightarrow> tracker \<Rightarrow> tracker" where
  "tracker_feed rec tr =
     (if kdbg_subclass (kd_debugid rec) \<noteq> DBG_MACH_SCHED then tr
      else
        let code = kdbg_code (kd_debugid rec); ts = kd_timestamp rec AND KDBG_TIMESTAMP_MASK in
        if code = SCHED \<or> code = STKHANDOFF
        then switch_threads rec ts
               (if code = SCHED then tr\<lparr>sched_count := sched_count tr + 1\<rparr>
                else tr\<lparr>stkhandoff_count := stkhandoff_count tr + 1\<rparr>)
        else if code = MAKERUNNABLE
        then make_runnable rec ts (tr\<lparr>makerunnable_count := makerunnable_count tr + 1\<rparr>)
        else tr)"

definition drain_pending :: "tracker \<Rightarrow> pending_interval list \<times> tracker" where
  "drain_pending tr = (tr_pending tr, tr\<lparr>tr_pending := []\<rparr>)"

definition drain_wakeups :: "tracker \<Rightarrow> pending_wakeup list \<times> tracker" where
  "drain_wakeups tr = (tr_pending_wakeups tr, tr\<lparr>tr_pending_wakeups := []\<rparr>)"

text \<open>
  A session of the tracker: records, stack notes and drains in any order. The second
  component collects every interval handed out so far.
\<close>

datatype tracker_event = Record kd_buf | Note u32 "u64 list" "u64 list" | Drain

fun tracker_step :: "tracker_event \<Rightarrow> tracker \<times> pending_interval list \<Rightarrow> tracker \<times> pending_interval list" where
  "tracker_step (Record r) (tr, out) = (tracker_feed r tr, out)"
| "tracker_step (Note tid ustack kstack) (tr, out) = (note_sample tid ustack kstack tr, out)"
| "tracker_step Drain (tr, out) = (let (closed, tr') = drain_pending tr in (tr', out @ closed))"

definition tracker_run :: "tracker_event list \<Rightarrow> tracker \<times> pending_interval list" where
  "tracker_run es = fold tracker_step es (new_tracker, [])"

text \<open>Everything the tracker has closed: handed out already, or waiting.\<close>

definition all_intervals :: "tracker \<times> pending_interval list \<Rightarrow> pending_interval list" where
  "all_intervals s = snd s @ tr_pending (fst s)"

section \<open>Ordered, disjoint intervals\<close>

text \<open>The start of a thread's open interval, on- or off-CPU.\<close>

definition open_at :: "thread_state \<Rightarrow> u64 \<Rightarrow> bool" where
  "open_at st s \<longleftrightarrow> last_on_ns st = Some s \<or> last_off_ns st = Some s"

lemma default_thread_simps [simp]:
  "last_on_ns default_thread = None" "last_off_ns default_thread = None"
  "total_on_ns default_thread = 0" "total_off_ns default_thread = 0"
  "last_user_stack default_thread = []" "ts_pending_wakeup default_thread = None"
  by (simp_all add: default_thread_def)

definition thread_times_ok :: "u64 \<Rightarrow> pending_interval list \<Rightarrow> u64 \<Rightarrow> thread_state \<Rightarrow> bool" where
  "thread_times_ok now ivs t st \<longleftrightarrow>
     (last_on_ns st = None \<or> last_off_ns st = None) \<and>
     (\<forall>s. open_at st s \<longrightarrow> s \<le> now \<and> (\<forall>i \<in> set ivs. pi_tid i = ucast t \<longrightarrow> pi_end_ns i \<le> s))"

definition intervals_ok :: "u64 \<Rightarrow> pending_interval list \<Rightarrow> bool" where
  "intervals_ok now ivs \<longleftrightarrow>
     (\<forall>i \<in> set ivs. pi_start_ns i < pi_end_ns i \<and> pi_end_ns i \<le> now) \<and>
     sorted_wrt (\<lambda>i j. pi_tid i = pi_tid j \<longrightarrow> pi_end_ns i \<le> pi_start_ns j) ivs"

definition small_tid :: "u64 \<Rightarrow> bool" where
  "small_tid t \<longleftrightarrow> unat t < 2 ^ 32"

definition tracker_inv :: "u64 \<Rightarrow> tracker \<times> pending_interval list \<Rightarrow> bool" where
  "tracker_inv now s \<longleftrightarrow>
     (\<forall>t st. map_of (tr_threads (fst s)) t = Some st \<longrightarrow>
        small_tid t \<and> thread_times_ok now (all_intervals s) t st) \<and>
     (\<forall>c t. map_of (tr_on_cpu (fst s)) c = Some t \<longrightarrow> small_tid t) \<and>
     intervals_ok now (all_intervals s)"

lemma small_tid_ucast_inj:
  "small_tid t \<Longrightarrow> small_tid t' \<Longrightarrow> (ucast t :: u32) = ucast t' \<Longrightarrow> t = t'"
  unfolding small_tid_def by (metis ucast_u64_u32_small)

text \<open>What both thread operations have in common.\<close>

definition closes_at :: "u64 \<Rightarrow> u64 \<Rightarrow> (thread_state \<Rightarrow> thread_state \<times> pending_interval list) \<Rightarrow> bool" where
  "closes_at ts tid f \<longleftrightarrow> (\<forall>st st' closed. f st = (st', closed) \<longrightarrow>
     (last_on_ns st = None \<or> last_off_ns st = None) \<longrightarrow>
     (last_on_ns st' = None \<or> last_off_ns st' = None) \<and> (\<forall>s. open_at st' s \<longrightarrow> s = ts) \<and>
     (closed = [] \<or> (\<exists>s k. open_at st s \<and> s < ts \<and>
        closed = [\<lparr>pi_tid = ucast tid, pi_start_ns = s, pi_end_ns = ts, pi_kind = k\<rparr>])))"

lemma sat_sub_pos: "0 < sat_sub a b \<longleftrightarrow> b < a"
  unfolding word_less_nat_alt by (simp add: sat_simps)

lemma leaves_closes: "closes_at ts tid (thread_leaves ts tid)"
  unfolding closes_at_def thread_leaves_def open_at_def Let_def
  by (auto simp: sat_sub_pos split: option.splits if_splits)

lemma enters_closes: "closes_at ts tid (thread_enters ts tid)"
  unfolding closes_at_def thread_enters_def open_at_def Let_def
  by (auto simp: sat_sub_pos split: option.splits if_splits)

lemma thread_times_ok_mono:
  "thread_times_ok now ivs t st \<Longrightarrow> now \<le> now' \<Longrightarrow> thread_times_ok now' ivs t st"
  unfolding thread_times_ok_def by (meson order.trans)

lemma intervals_ok_mono: "intervals_ok now ivs \<Longrightarrow> now \<le> now' \<Longrightarrow> intervals_ok now' ivs"
  unfolding intervals_ok_def by (meson order.trans)

lemma tracker_inv_mono: "tracker_inv now s \<Longrightarrow> now \<le> now' \<Longrightarrow> tracker_inv now' s"
  unfolding tracker_inv_def by (meson thread_times_ok_mono intervals_ok_mono)

lemma on_thread_inv:
  assumes inv: "tracker_inv ts (tr, out)" and f: "closes_at ts tid f" and tid: "small_tid tid"
  shows "tracker_inv ts (on_thread f tid tr, out)"
proof -
  let ?st = "thread_of tr tid"
  obtain st' closed where fst': "f ?st = (st', closed)" by (cases "f ?st")
  let ?ivs = "all_intervals (tr, out)"
  have ivs: "all_intervals (on_thread f tid tr, out) = ?ivs @ closed"
    by (simp add: all_intervals_def on_thread_def fst')
  have ok: "thread_times_ok ts ?ivs tid ?st"
    using inv by (cases "map_of (tr_threads tr) tid")
      (auto simp: tracker_inv_def thread_times_ok_def open_at_def)
  then have "last_on_ns ?st = None \<or> last_off_ns ?st = None" by (simp add: thread_times_ok_def)
  note f [unfolded closes_at_def, rule_format, OF fst' this]
  then have cl: "last_on_ns st' = None \<or> last_off_ns st' = None" "\<forall>s. open_at st' s \<longrightarrow> s = ts"
    "closed = [] \<or> (\<exists>s k. open_at ?st s \<and> s < ts \<and>
        closed = [\<lparr>pi_tid = ucast tid, pi_start_ns = s, pi_end_ns = ts, pi_kind = k\<rparr>])"
    by simp_all
  have new: "intervals_ok ts (?ivs @ closed)"
    using cl(3) ok inv
    by (auto simp: intervals_ok_def tracker_inv_def sorted_wrt_append thread_times_ok_def)
  moreover have "small_tid t \<and> thread_times_ok ts (?ivs @ closed) t st"
    if "map_of (tr_threads (on_thread f tid tr)) t = Some st" for t st
  proof (cases "t = tid")
    case True
    then have "st = st'" using that by (simp add: on_thread_def fst' hm_simps)
    moreover have "\<forall>i \<in> set (?ivs @ closed). pi_end_ns i \<le> ts"
      using new by (simp add: intervals_ok_def)
    ultimately show ?thesis using True tid cl(1,2) by (auto simp: thread_times_ok_def)
  next
    case False
    then have t: "map_of (tr_threads tr) t = Some st"
      using that by (simp add: on_thread_def fst' hm_simps)
    then have old: "small_tid t" "thread_times_ok ts ?ivs t st"
      using inv by (auto simp: tracker_inv_def)
    have "pi_tid i \<noteq> ucast t" if "i \<in> set closed" for i
      using that cl(3) small_tid_ucast_inj [OF tid old(1)] False by auto
    then show ?thesis using old by (auto simp: thread_times_ok_def)
  qed
  ultimately show ?thesis
    using inv by (simp add: tracker_inv_def ivs) (simp add: on_thread_def fst')
qed

lemma entry_harmless_inv:
  assumes "tracker_inv now (tr, out)" "small_tid t"
    and "\<And>st. last_on_ns (f st) = last_on_ns st \<and> last_off_ns (f st) = last_off_ns st"
  shows "tracker_inv now (tr\<lparr>tr_threads := hm_entry t default_thread f (tr_threads tr)\<rparr>, out)"
  using assms(1,2)
  by (auto simp: tracker_inv_def hm_simps all_intervals_def thread_times_ok_def open_at_def assms(3)
      split: if_splits option.splits)

lemma on_cpu_insert_inv:
  "tracker_inv now (tr, out) \<Longrightarrow> small_tid t \<Longrightarrow>
   tracker_inv now (tr\<lparr>tr_on_cpu := hm_insert c t (tr_on_cpu tr)\<rparr>, out)"
  by (auto simp: tracker_inv_def hm_simps all_intervals_def split: if_splits)

lemma switch_threads_inv:
  assumes "tracker_inv ts (tr, out)" "small_tid (kd_arg2 rec)"
  shows "tracker_inv ts (switch_threads rec ts tr, out)"
proof -
  have prev: "small_tid p" if "map_of (tr_on_cpu tr) (kd_cpuid rec) = Some p" for p
    using that assms(1) by (simp add: tracker_inv_def)
  show ?thesis
    unfolding switch_threads_def Let_def
    using on_cpu_insert_inv [OF assms] assms(2) prev
    by (auto intro!: on_thread_inv leaves_closes enters_closes split: option.split)
qed

lemma make_runnable_inv:
  assumes "tracker_inv now (tr, out)" "small_tid (kd_arg2 rec)"
  shows "tracker_inv now (make_runnable rec ts tr, out)"
proof -
  have w: "tracker_inv now (tr\<lparr>tr_pending_wakeups := ws\<rparr>, out)" for ws
    using assms(1) by (simp add: tracker_inv_def all_intervals_def)
  have e: "tracker_inv now (tr\<lparr>tr_pending_wakeups := ws,
      tr_threads := hm_entry (kd_arg2 rec) default_thread (\<lambda>st. st\<lparr>ts_pending_wakeup := a\<rparr>)
        (tr_threads tr)\<rparr>, out)" for ws a
    using entry_harmless_inv [OF w assms(2), of "\<lambda>st. st\<lparr>ts_pending_wakeup := a\<rparr>" ws] by simp
  show ?thesis
    unfolding make_runnable_def Let_def using assms(1) e by (simp split: option.split)
qed

lemma tracker_feed_inv:
  assumes "tracker_inv now (tr, out)" "now \<le> kd_time rec" "small_tid (kd_arg2 rec)"
  shows "tracker_inv (kd_time rec) (tracker_feed rec tr, out)"
proof -
  have inv: "tracker_inv (kd_time rec) (tr, out)" using assms(1,2) by (rule tracker_inv_mono)
  have cnt: "tracker_inv (kd_time rec) (tr\<lparr>sched_count := n\<rparr>, out)"
    "tracker_inv (kd_time rec) (tr\<lparr>stkhandoff_count := n\<rparr>, out)"
    "tracker_inv (kd_time rec) (tr\<lparr>makerunnable_count := n\<rparr>, out)" for n
    using inv by (simp_all add: tracker_inv_def all_intervals_def)
  show ?thesis
    unfolding tracker_feed_def Let_def
    using inv cnt switch_threads_inv make_runnable_inv assms(3) by simp
qed

lemma note_sample_inv:
  assumes "tracker_inv now (tr, out)"
  shows "tracker_inv now (note_sample tid u k tr, out)"
proof -
  have "unat tid < 2 ^ LENGTH(32)" by (rule unsigned_less)
  then have "small_tid (ucast tid)"
    by (simp add: small_tid_def unsigned_ucast_eq take_bit_nat_eq_self)
  then show ?thesis
    using assms entry_harmless_inv [OF assms, of "ucast tid"] by (simp add: note_sample_def)
qed

text \<open>Streams whose records come in time order, with 32-bit thread ids.\<close>

fun in_order :: "u64 \<Rightarrow> tracker_event list \<Rightarrow> bool" where
  "in_order now [] = True"
| "in_order now (Record r # es) =
     (now \<le> kd_time r \<and> unat (kd_arg2 r) < 2 ^ 32 \<and> in_order (kd_time r) es)"
| "in_order now (Note _ _ _ # es) = in_order now es"
| "in_order now (Drain # es) = in_order now es"

lemma tracker_steps_inv:
  "in_order now es \<Longrightarrow> tracker_inv now s \<Longrightarrow> \<exists>now'. tracker_inv now' (fold tracker_step es s)"
proof (induction now es arbitrary: s rule: in_order.induct)
  case (2 now r es)
  obtain tr out where s: "s = (tr, out)" by (cases s)
  have "tracker_inv (kd_time r) (tracker_step (Record r) s)"
    using 2(2,3) by (simp add: s tracker_feed_inv small_tid_def)
  then show ?case using 2(1) [of "tracker_step (Record r) s"] 2(2) by simp
next
  case (3 now tid u k es)
  obtain tr out where s: "s = (tr, out)" by (cases s)
  show ?case using 3 note_sample_inv [of now tr out] by (simp add: s)
next
  case (4 now es)
  obtain tr out where s: "s = (tr, out)" by (cases s)
  have "tracker_inv now (tracker_step Drain s)"
    using 4(3) by (simp add: s drain_pending_def tracker_inv_def all_intervals_def)
  then show ?case using 4 by simp
qed auto

lemma tracker_inv_init: "tracker_inv 0 (new_tracker, [])"
  by (simp add: tracker_inv_def new_tracker_def intervals_ok_def all_intervals_def)

section \<open>Invariants without a clock\<close>

text \<open>
  The contract of a tracker invariant: it holds at the start and each of the code's
  elementary updates keeps it. Then it holds after every session.
\<close>

locale tracker_invariant =
  fixes I :: "tracker \<times> pending_interval list \<Rightarrow> bool"
    and ok :: "u64 \<Rightarrow> bool"
  assumes init: "I (new_tracker, [])"
    and counters: "I (tr, out) \<Longrightarrow>
      I (tr\<lparr>sched_count := a, stkhandoff_count := b, makerunnable_count := c\<rparr>, out)"
    and on_cpu_ok: "I (tr, out) \<Longrightarrow> map_of (tr_on_cpu tr) cpu = Some t \<Longrightarrow> ok t"
    and on_cpu: "I (tr, out) \<Longrightarrow> ok t \<Longrightarrow> I (tr\<lparr>tr_on_cpu := hm_insert cpu t (tr_on_cpu tr)\<rparr>, out)"
    and leaves: "I (tr, out) \<Longrightarrow> ok t \<Longrightarrow> I (on_thread (thread_leaves ts t) t tr, out)"
    and enters: "I (tr, out) \<Longrightarrow> ok t \<Longrightarrow> I (on_thread (thread_enters ts t) t tr, out)"
    and wake: "I (tr, out) \<Longrightarrow> ok (kd_arg2 rec) \<Longrightarrow> I (make_runnable rec ts tr, out)"
    and noted: "I (tr, out) \<Longrightarrow> I (note_sample tid u k tr, out)"
    and drain: "I (tr, out) \<Longrightarrow> I (tr\<lparr>tr_pending := []\<rparr>, out @ tr_pending tr)"
begin

lemma switch: "I (tr, out) \<Longrightarrow> ok (kd_arg2 rec) \<Longrightarrow> I (switch_threads rec ts tr, out)"
  unfolding switch_threads_def Let_def
  using on_cpu_ok on_cpu leaves enters by (auto split: option.split)

lemma feed_step:
  assumes "I (tr, out)" "ok (kd_arg2 rec)"
  shows "I (tracker_feed rec tr, out)"
proof -
  have "I (tr\<lparr>sched_count := a\<rparr>, out)" "I (tr\<lparr>stkhandoff_count := a\<rparr>, out)"
    "I (tr\<lparr>makerunnable_count := a\<rparr>, out)" for a
    using counters [OF assms(1), where a = a and b = "stkhandoff_count tr" and c = "makerunnable_count tr"]
      counters [OF assms(1), where a = "sched_count tr" and b = a and c = "makerunnable_count tr"]
      counters [OF assms(1), where a = "sched_count tr" and b = "stkhandoff_count tr" and c = a]
    by simp_all
  then show ?thesis
    unfolding tracker_feed_def Let_def using assms switch wake by simp
qed

lemma run_steps:
  "I s \<Longrightarrow> \<forall>r. Record r \<in> set es \<longrightarrow> ok (kd_arg2 r) \<Longrightarrow> I (fold tracker_step es s)"
proof (induction es arbitrary: s)
  case (Cons e es)
  obtain tr out where s: "s = (tr, out)" by (cases s)
  have "I (tracker_step e s)"
    using Cons.prems feed_step noted drain by (cases e) (auto simp: s drain_pending_def)
  then show ?case using Cons.IH Cons.prems(2) by simp
qed simp

lemma run: "\<forall>r. Record r \<in> set es \<longrightarrow> ok (kd_arg2 r) \<Longrightarrow> I (tracker_run es)"
  unfolding tracker_run_def using init by (rule run_steps)

end

subsection \<open>Time accounting\<close>

definition duration :: "pending_interval \<Rightarrow> u64" where
  "duration i = sat_sub (pi_end_ns i) (pi_start_ns i)"

definition intervals_of :: "u64 \<Rightarrow> pending_interval list \<Rightarrow> pending_interval list" where
  "intervals_of t ivs = filter (\<lambda>i. pi_tid i = ucast t) ivs"

definition on_time :: "pending_interval list \<Rightarrow> u64" where
  "on_time ivs = sat_sum (map duration (filter (\<lambda>i. pi_kind i = POnCpu) ivs))"

definition off_time :: "pending_interval list \<Rightarrow> u64" where
  "off_time ivs = sat_sum (map duration (filter (\<lambda>i. pi_kind i \<noteq> POnCpu) ivs))"

lemma time_append [simp]:
  "intervals_of t (xs @ ys) = intervals_of t xs @ intervals_of t ys"
  "on_time (xs @ ys) = sat_add (on_time xs) (on_time ys)"
  "off_time (xs @ ys) = sat_add (off_time xs) (off_time ys)"
  by (simp_all add: intervals_of_def on_time_def off_time_def)

lemma time_Nil [simp]: "intervals_of t [] = []" "on_time [] = 0" "off_time [] = 0"
  by (simp_all add: intervals_of_def on_time_def off_time_def)

definition times_match :: "tracker \<times> pending_interval list \<Rightarrow> bool" where
  "times_match s \<longleftrightarrow> (\<forall>t. small_tid t \<longrightarrow>
      total_on_ns (thread_of (fst s) t) = on_time (intervals_of t (all_intervals s)) \<and>
      off_time (intervals_of t (all_intervals s)) \<le> total_off_ns (thread_of (fst s) t)) \<and>
    (\<forall>c t. map_of (tr_on_cpu (fst s)) c = Some t \<longrightarrow> small_tid t)"

definition counts_time :: "u64 \<Rightarrow> (thread_state \<Rightarrow> thread_state \<times> pending_interval list) \<Rightarrow> bool" where
  "counts_time tid f \<longleftrightarrow> (\<forall>st st' closed. f st = (st', closed) \<longrightarrow>
     total_on_ns st' = sat_add (total_on_ns st) (on_time closed) \<and>
     sat_add (total_off_ns st) (off_time closed) \<le> total_off_ns st' \<and>
     (\<forall>i \<in> set closed. pi_tid i = ucast tid))"

lemma leaves_counts: "counts_time tid (thread_leaves ts tid)"
  unfolding counts_time_def thread_leaves_def Let_def
  by (auto simp: on_time_def off_time_def duration_def split: option.splits if_splits)

lemma enters_counts: "counts_time tid (thread_enters ts tid)"
  unfolding counts_time_def thread_enters_def Let_def
  by (auto simp: on_time_def off_time_def duration_def sat_add_ge split: option.splits if_splits)

lemma on_thread_times:
  assumes inv: "times_match (tr, out)" and f: "counts_time tid f" and tid: "small_tid tid"
  shows "times_match (on_thread f tid tr, out)"
proof -
  obtain st' closed where fst': "f (thread_of tr tid) = (st', closed)" by (cases "f (thread_of tr tid)")
  note cl = f [unfolded counts_time_def, rule_format, OF fst']
  have ivs: "all_intervals (on_thread f tid tr, out) = all_intervals (tr, out) @ closed"
    by (simp add: all_intervals_def on_thread_def fst')
  have same: "intervals_of tid closed = closed"
    using cl by (auto simp: intervals_of_def filter_id_conv)
  have other: "intervals_of t closed = []" if "small_tid t" "t \<noteq> tid" for t
    using cl small_tid_ucast_inj [OF that(1) tid] that(2)
    by (auto simp: intervals_of_def filter_empty_conv)
  have "total_on_ns (thread_of (on_thread f tid tr) t) = on_time (intervals_of t (all_intervals (tr, out) @ closed)) \<and>
      off_time (intervals_of t (all_intervals (tr, out) @ closed)) \<le> total_off_ns (thread_of (on_thread f tid tr) t)"
    if "small_tid t" for t
  proof (cases "t = tid")
    case True
    have th: "thread_of (on_thread f tid tr) tid = st'" by (simp add: on_thread_def fst' hm_simps)
    from inv that True have old:
      "total_on_ns (thread_of tr tid) = on_time (intervals_of tid (all_intervals (tr, out)))"
      "off_time (intervals_of tid (all_intervals (tr, out))) \<le> total_off_ns (thread_of tr tid)"
      by (auto simp: times_match_def)
    have "sat_add (off_time (intervals_of tid (all_intervals (tr, out)))) (off_time closed)
        \<le> total_off_ns st'"
      using sat_add_mono [OF old(2) order.refl [of "off_time closed"]] cl by (auto intro: order.trans)
    then show ?thesis
      unfolding True th time_append same using cl old(1) by simp
  next
    case False
    then have "thread_of (on_thread f tid tr) t = thread_of tr t"
      by (simp add: on_thread_def fst' hm_simps)
    then show ?thesis using inv that other [OF that False] by (simp add: times_match_def)
  qed
  then show ?thesis using inv by (simp add: times_match_def ivs) (simp add: on_thread_def fst')
qed

lemma entry_harmless_times:
  assumes "times_match (tr, out)"
    and "\<And>st. total_on_ns (f st) = total_on_ns st \<and> total_off_ns (f st) = total_off_ns st"
  shows "times_match (tr\<lparr>tr_threads := hm_entry t default_thread f (tr_threads tr)\<rparr>, out)"
  using assms by (auto simp: times_match_def hm_simps all_intervals_def split: option.splits)

lemma make_runnable_times:
  assumes "times_match (tr, out)"
  shows "times_match (make_runnable rec ts tr, out)"
proof -
  have w: "times_match (tr\<lparr>tr_pending_wakeups := ws\<rparr>, out)" for ws
    using assms by (simp add: times_match_def all_intervals_def)
  have e: "times_match (tr\<lparr>tr_pending_wakeups := ws,
      tr_threads := hm_entry (kd_arg2 rec) default_thread (\<lambda>st. st\<lparr>ts_pending_wakeup := a\<rparr>)
        (tr_threads tr)\<rparr>, out)" for ws a
    using entry_harmless_times [OF w, where f = "\<lambda>st. st\<lparr>ts_pending_wakeup := a\<rparr>"] by simp
  show ?thesis
    unfolding make_runnable_def Let_def using assms e by (simp split: option.split)
qed

interpretation times: tracker_invariant times_match small_tid
proof unfold_locales
  show "times_match (new_tracker, [])"
    by (simp add: times_match_def new_tracker_def all_intervals_def)
next
  fix tr out tid u k assume "times_match (tr, out)"
  then show "times_match (note_sample tid u k tr, out)"
    by (simp add: note_sample_def entry_harmless_times)
qed (auto simp: on_thread_times leaves_counts enters_counts make_runnable_times,
    auto simp: times_match_def hm_simps all_intervals_def split: if_splits)

subsection \<open>Wakeup attribution\<close>

definition justified :: "u32 \<Rightarrow> u32 \<Rightarrow> u64 list \<Rightarrow> pending_wakeup list \<Rightarrow> bool" where
  "justified tid w stack ws \<longleftrightarrow>
     (\<exists>e \<in> set ws. pw_wakee_tid e = tid \<and> pw_waker_tid e = w \<and> pw_waker_user_stack e = stack)"

definition wakers_ok :: "tracker \<times> pending_interval list \<Rightarrow> bool" where
  "wakers_ok s \<longleftrightarrow>
     (\<forall>t a. ts_pending_wakeup (thread_of (fst s) t) = Some a \<longrightarrow>
        justified (ucast t) (wa_waker_tid a) (wa_waker_user_stack a) (tr_pending_wakeups (fst s))) \<and>
     (\<forall>i \<in> set (all_intervals s). \<forall>us ks w x. pi_kind i = POffCpu us ks (Some w) x \<longrightarrow>
        (\<exists>stack. x = Some stack \<and> justified (pi_tid i) w stack (tr_pending_wakeups (fst s))))"

lemma justified_append: "justified tid w st ws \<Longrightarrow> justified tid w st (ws @ ws')"
  unfolding justified_def by auto

lemma leaves_wakers: "wakers_ok (tr, out) \<Longrightarrow> wakers_ok (on_thread (thread_leaves ts t) t tr, out)"
  unfolding wakers_ok_def on_thread_def thread_leaves_def all_intervals_def Let_def
  by (auto simp: hm_simps split: option.splits if_splits)

lemma enters_wakers: "wakers_ok (tr, out) \<Longrightarrow> wakers_ok (on_thread (thread_enters ts t) t tr, out)"
  unfolding wakers_ok_def on_thread_def thread_enters_def all_intervals_def Let_def
  by (auto simp: hm_simps split: option.splits if_splits)

lemma wakers_okI:
  assumes "\<And>t a. ts_pending_wakeup (thread_of tr t) = Some a \<Longrightarrow>
      justified (ucast t) (wa_waker_tid a) (wa_waker_user_stack a) (tr_pending_wakeups tr)"
    and "\<And>i us ks w x. i \<in> set (all_intervals (tr, out)) \<Longrightarrow> pi_kind i = POffCpu us ks (Some w) x \<Longrightarrow>
      \<exists>stack. x = Some stack \<and> justified (pi_tid i) w stack (tr_pending_wakeups tr)"
  shows "wakers_ok (tr, out)"
  using assms unfolding wakers_ok_def by simp

lemma wakers_okD:
  assumes "wakers_ok (tr, out)"
  shows "ts_pending_wakeup (thread_of tr t) = Some a \<Longrightarrow>
      justified (ucast t) (wa_waker_tid a) (wa_waker_user_stack a) (tr_pending_wakeups tr)"
    and "i \<in> set (all_intervals (tr, out)) \<Longrightarrow> pi_kind i = POffCpu us ks (Some w) x \<Longrightarrow>
      \<exists>stack. x = Some stack \<and> justified (pi_tid i) w stack (tr_pending_wakeups tr)"
  using assms unfolding wakers_ok_def by simp_all

lemma note_sample_wakers:
  assumes "wakers_ok (tr, out)"
  shows "wakers_ok (note_sample tid u k tr, out)"
proof (rule wakers_okI)
  fix t a assume "ts_pending_wakeup (thread_of (note_sample tid u k tr) t) = Some a"
  then have "ts_pending_wakeup (thread_of tr t) = Some a"
    by (auto simp: note_sample_def hm_simps split: if_splits)
  from wakers_okD(1) [OF assms this]
  show "justified (ucast t) (wa_waker_tid a) (wa_waker_user_stack a)
      (tr_pending_wakeups (note_sample tid u k tr))"
    by (simp add: note_sample_def)
next
  fix i us ks w x
  assume "i \<in> set (all_intervals (note_sample tid u k tr, out))" "pi_kind i = POffCpu us ks (Some w) x"
  then show "\<exists>stack. x = Some stack \<and> justified (pi_tid i) w stack (tr_pending_wakeups (note_sample tid u k tr))"
    using wakers_okD(2) [OF assms, of i us ks w x]
    by (simp add: note_sample_def all_intervals_def split: if_splits)
qed

lemma make_runnable_wakers:
  assumes "wakers_ok (tr, out)"
  shows "wakers_ok (make_runnable rec ts tr, out)"
proof -
  have "wakers_ok (tr\<lparr>tr_pending_wakeups := tr_pending_wakeups tr @
          [\<lparr>pw_timestamp_ns = ts, pw_waker_tid = w, pw_wakee_tid = ucast t,
            pw_waker_user_stack = us, pw_waker_kernel_stack = ks\<rparr>],
        tr_threads := hm_entry t default_thread
          (\<lambda>st. st\<lparr>ts_pending_wakeup := Some \<lparr>wa_waker_tid = w, wa_waker_user_stack = us\<rparr>\<rparr>)
          (tr_threads tr)\<rparr>, out)" (is "wakers_ok (?tr, out)") for w t us ks
  proof (rule wakers_okI)
    fix t' a assume a: "ts_pending_wakeup (thread_of ?tr t') = Some a"
    show "justified (ucast t') (wa_waker_tid a) (wa_waker_user_stack a) (tr_pending_wakeups ?tr)"
    proof (cases "t' = t")
      case True
      then show ?thesis using a by (auto simp: hm_simps justified_def)
    next
      case False
      then have "ts_pending_wakeup (thread_of tr t') = Some a" using a by (simp add: hm_simps)
      then show ?thesis using wakers_okD(1) [OF assms] justified_append by simp
    qed
  next
    fix i us' ks' w' x
    assume "i \<in> set (all_intervals (?tr, out))" "pi_kind i = POffCpu us' ks' (Some w') x"
    then show "\<exists>stack. x = Some stack \<and> justified (pi_tid i) w' stack (tr_pending_wakeups ?tr)"
      using wakers_okD(2) [OF assms, of i us' ks' w' x] justified_append
      by (auto simp: all_intervals_def)
  qed
  then show ?thesis
    unfolding make_runnable_def Let_def using assms by (simp split: option.split)
qed

interpretation wakers: tracker_invariant wakers_ok "\<lambda>_. True"
proof unfold_locales
  show "wakers_ok (new_tracker, [])"
    by (simp add: wakers_ok_def new_tracker_def all_intervals_def)
qed (auto simp: leaves_wakers enters_wakers make_runnable_wakers note_sample_wakers,
    auto simp: wakers_ok_def hm_simps all_intervals_def)

section \<open>Properties\<close>

text \<open>
  C3: whenever records arrive in time order (with 32-bit thread ids), in any interleaving
  with stack notes and drains, the closed intervals are non-empty and those of one thread,
  on-CPU and off-CPU together, are disjoint and handed out in time order.
\<close>

theorem tracker_intervals_disjoint:
  assumes "in_order 0 es" and "ivs = all_intervals (tracker_run es)"
    and "a < b" and "b < length ivs" and "pi_tid (ivs ! a) = pi_tid (ivs ! b)"
  shows "pi_start_ns (ivs ! a) < pi_end_ns (ivs ! a) \<and> pi_end_ns (ivs ! a) \<le> pi_start_ns (ivs ! b)
       \<and> pi_start_ns (ivs ! b) < pi_end_ns (ivs ! b)"
proof -
  obtain now where "tracker_inv now (tracker_run es)"
    using tracker_steps_inv [OF assms(1) tracker_inv_init] unfolding tracker_run_def by blast
  then have ok: "intervals_ok now ivs" using assms(2) by (simp add: tracker_inv_def)
  have "ivs ! a \<in> set ivs" "ivs ! b \<in> set ivs" using assms(3,4) by auto
  then have "pi_start_ns (ivs ! a) < pi_end_ns (ivs ! a)" "pi_start_ns (ivs ! b) < pi_end_ns (ivs ! b)"
    using ok by (simp_all add: intervals_ok_def)
  moreover have "pi_end_ns (ivs ! a) \<le> pi_start_ns (ivs ! b)"
    using ok sorted_wrt_nth_less [of _ ivs, OF _ assms(3,4)] assms(5)
    unfolding intervals_ok_def by blast
  ultimately show ?thesis by simp
qed

text \<open>Scheduler records, for concrete runs.\<close>

definition sched_record :: "u16 \<Rightarrow> u64 \<Rightarrow> u32 \<Rightarrow> u64 \<Rightarrow> kd_buf" where
  "sched_record code ts cpu tid =
     \<lparr>kd_timestamp = ts, kd_arg1 = 0, kd_arg2 = tid, kd_arg3 = 0, kd_arg4 = 0, kd_arg5 = 0,
      kd_debugid = kdbg_eventid DBG_MACH DBG_MACH_SCHED code OR (0 AND 3), kd_cpuid = cpu,
      kd_unused = 0\<rparr>"

lemma sched_record_simps [simp]:
  "kdbg_subclass (kd_debugid (sched_record code ts cpu tid)) = DBG_MACH_SCHED"
  "kdbg_code (kd_debugid (sched_record code ts cpu tid)) = code AND 0x3fff"
  "kd_timestamp (sched_record code ts cpu tid) = ts" "kd_cpuid (sched_record code ts cpu tid) = cpu"
  "kd_arg2 (sched_record code ts cpu tid) = tid"
  by (simp_all only: sched_record_def kd_buf.simps kdbg_subclass_eventid kdbg_code_eventid)

lemmas tracker_eval =
  tracker_run_def new_tracker_def all_intervals_def tracker_feed_def switch_threads_def
  make_runnable_def on_thread_def thread_leaves_def thread_enters_def note_sample_def
  drain_pending_def hm_insert_def default_thread_def sat_sub_def sat_add_def Let_def
  SCHED_def STKHANDOFF_def MAKERUNNABLE_def KDBG_TIMESTAMP_MASK_def

definition demo_session :: "tracker_event list" where
  "demo_session = [Note 5 [0x50] [], Record (sched_record SCHED 10 0 5),
     Record (sched_record SCHED 30 0 9), Drain, Record (sched_record SCHED 70 0 5)]"

lemma demo_session_intervals:
  "all_intervals (tracker_run demo_session) =
     [\<lparr>pi_tid = 5, pi_start_ns = 10, pi_end_ns = 30, pi_kind = POnCpu\<rparr>,
      \<lparr>pi_tid = 9, pi_start_ns = 30, pi_end_ns = 70, pi_kind = POnCpu\<rparr>,
      \<lparr>pi_tid = 5, pi_start_ns = 30, pi_end_ns = 70, pi_kind = POffCpu [0x50] [] None None\<rparr>]"
  by (simp add: demo_session_def tracker_eval)

lemma demo_session_in_order: "in_order 0 demo_session"
  by (simp add: demo_session_def KDBG_TIMESTAMP_MASK_def)

theorem tracker_intervals_disjoint_witness:
  "in_order 0 demo_session \<and> pi_end_ns (all_intervals (tracker_run demo_session) ! 0)
     \<le> pi_start_ns (all_intervals (tracker_run demo_session) ! 2)"
  using tracker_intervals_disjoint [OF demo_session_in_order refl, of 0 2] demo_session_in_order
  by (simp add: demo_session_intervals)



text \<open>
  A waker stamped on an off-CPU interval is one the tracker observed waking that very
  thread: it reported the same wakeup edge (same wakee, waker and waker stack), and the
  stack is present whenever the waker is.
\<close>

theorem waker_attribution_sound:
  assumes "i \<in> set (all_intervals (tracker_run es))"
    and "pi_kind i = POffCpu us ks (Some w) x"
  shows "\<exists>e \<in> set (tr_pending_wakeups (fst (tracker_run es))).
     pw_wakee_tid e = pi_tid i \<and> pw_waker_tid e = w \<and> x = Some (pw_waker_user_stack e)"
proof -
  have "wakers_ok (fst (tracker_run es), snd (tracker_run es))"
    using wakers.run [of es] by simp
  from wakers_okD(2) [OF this _ assms(2)] assms(1) show ?thesis
    by (auto simp: justified_def)
qed

definition stale_session :: "tracker_event list" where
  "stale_session = [Note 7 [0x70] [], Note 5 [0x50] [],
     Record (sched_record SCHED 10 0 7), Record (sched_record MAKERUNNABLE 20 0 5),
     Record (sched_record SCHED 30 1 5), Record (sched_record SCHED 40 1 9),
     Record (sched_record SCHED 90 1 5)]"

lemma stale_session_result:
  "\<lparr>pi_tid = 5, pi_start_ns = 40, pi_end_ns = 90, pi_kind = POffCpu [0x50] [] (Some 7) (Some [0x70])\<rparr>
     \<in> set (all_intervals (tracker_run stale_session))"
  "map pw_timestamp_ns (tr_pending_wakeups (fst (tracker_run stale_session))) = [20]"
  by (simp_all add: stale_session_def tracker_eval)

theorem waker_attribution_sound_witness:
  "\<exists>e \<in> set (tr_pending_wakeups (fst (tracker_run stale_session))).
     pw_wakee_tid e = 5 \<and> pw_waker_tid e = 7 \<and> Some [0x70] = Some (pw_waker_user_stack e)"
  using waker_attribution_sound [OF stale_session_result(1), of "[0x50]" "[]" 7 "Some [0x70]"]
  by simp

text \<open>
  A wakeup that lands before the tracker has seen the thread park stays on the thread: the
  thread's next off-CPU interval, from 40 to 90, is attributed to the one wakeup of the session,
  at time 20, which did not land in it.
\<close>

theorem stale_waker_attribution:
  "\<exists>i \<in> set (all_intervals (tracker_run stale_session)). pi_tid i = 5 \<and> pi_start_ns i = 40 \<and>
     pi_kind i = POffCpu [0x50] [] (Some 7) (Some [0x70]) \<and>
     map pw_timestamp_ns (tr_pending_wakeups (fst (tracker_run stale_session))) = [20]"
  by (rule bexI [OF _ stale_session_result(1)]) (simp add: stale_session_result(2))

text \<open>
  A context switch from a thread to itself restarts its on-CPU interval: the time since the
  open interval began is neither emitted nor added to the total.
\<close>

theorem reschedule_drops_open_time:
  assumes "map_of (tr_on_cpu tr) (kd_cpuid rec) = Some t" "kd_arg2 rec = t" "t \<noteq> 0"
    and "kdbg_subclass (kd_debugid rec) = DBG_MACH_SCHED" "kdbg_code (kd_debugid rec) = SCHED"
    and "last_on_ns (thread_of tr t) = Some s" "last_off_ns (thread_of tr t) = None"
  shows "tr_pending (tracker_feed rec tr) = tr_pending tr
       \<and> total_on_ns (thread_of (tracker_feed rec tr) t) = total_on_ns (thread_of tr t)
       \<and> last_on_ns (thread_of (tracker_feed rec tr) t) = Some (kd_time rec)"
  using assms by (simp add: tracker_feed_def switch_threads_def on_thread_def thread_enters_def Let_def hm_simps)

theorem reschedule_drops_open_time_witness:
  "let tr = fst (tracker_run [Record (sched_record SCHED 10 0 7)]) in
   tr_pending (tracker_feed (sched_record SCHED 50 0 7) tr) = tr_pending tr \<and>
   last_on_ns (thread_of tr 7) = Some 10 \<and>
   last_on_ns (thread_of (tracker_feed (sched_record SCHED 50 0 7) tr) 7) = Some 50"
proof -
  let ?tr = "fst (tracker_run [Record (sched_record SCHED 10 0 7)])"
  let ?rec = "sched_record SCHED 50 0 7"
  have pre: "map_of (tr_on_cpu ?tr) (kd_cpuid ?rec) = Some 7" "kd_arg2 ?rec = 7"
    "kdbg_subclass (kd_debugid ?rec) = DBG_MACH_SCHED" "kdbg_code (kd_debugid ?rec) = SCHED"
    "last_on_ns (thread_of ?tr 7) = Some 10" "last_off_ns (thread_of ?tr 7) = None" "kd_time ?rec = 50"
    by (simp_all add: tracker_eval)
  show ?thesis
    using reschedule_drops_open_time [OF pre(1,2) _ pre(3,4,5,6)] pre(5,7) by simp
qed

end
