(* ===== verification/Classify.thy ===== *)
theory Classify
  imports Prelude
begin

text \<open>
  The off-CPU classifier (\<open>stax-live/src/classify.rs\<close>): from the leaf symbol of a
  blocked thread to the reason it blocked. Names are byte strings, compared exactly, in the
  source's order.
\<close>

datatype off_cpu_reason =
  Idle | LockWait | SemaphoreWait | IpcWait | IoRead | IoWrite | Readiness | Sleep
| ConnectionSetup | Other

definition idle_names :: "string list" where
  "idle_names = [''__psynch_cvwait'', ''__ulock_wait'', ''__ulock_wait2'', ''__workq_kernreturn'',
     ''_pthread_cond_wait'', ''_pthread_cond_timedwait'', ''_dispatch_workloop_worker_thread'']"

definition lock_names :: "string list" where
  "lock_names = [''__psynch_mutexwait'', ''__psynch_rw_rdlock'', ''__psynch_rw_wrlock'',
     ''__psynch_rw_yieldwrlock'', ''__psynch_rw_upgrade'', ''__psynch_rw_downgrade'',
     ''_pthread_mutex_firstfit_lock_wait'', ''_pthread_mutex_lock'', ''_pthread_mutex_lock_wait'']"

definition semaphore_names :: "string list" where
  "semaphore_names = [''__semwait_signal'', ''__semwait_signal_nocancel'', ''semaphore_wait_trap'',
     ''semaphore_timedwait_trap'', ''_dispatch_semaphore_wait'']"

definition ipc_names :: "string list" where
  "ipc_names = [''mach_msg2_trap'', ''mach_msg_trap'', ''mach_msg_overwrite_trap'', ''mach_msg2'',
     ''mach_msg'', ''mach_msg_overwrite'']"

definition readiness_names :: "string list" where
  "readiness_names = [''kevent'', ''kevent_id'', ''kevent_qos'', ''select'', ''select$DARWIN_EXTSN'',
     ''select$DARWIN_EXTSN$NOCANCEL'', ''pselect'', ''poll'', ''ppoll'']"

definition sleep_names :: "string list" where
  "sleep_names = [''nanosleep'', ''__semwait_signal_nocancel'', ''__nanosleep'', ''usleep'']"

definition io_read_names :: "string list" where
  "io_read_names = [''read'', ''__read_nocancel'', ''recv'', ''__recvfrom'', ''recvfrom'',
     ''__recvfrom_nocancel'', ''recvmsg'', ''__recvmsg_nocancel'', ''pread'', ''__pread_nocancel'',
     ''readv'']"

definition io_write_names :: "string list" where
  "io_write_names = [''write'', ''__write_nocancel'', ''send'', ''__sendto'', ''sendto'',
     ''__sendto_nocancel'', ''sendmsg'', ''__sendmsg_nocancel'', ''pwrite'', ''__pwrite_nocancel'',
     ''writev'']"

definition connection_names :: "string list" where
  "connection_names = [''connect'', ''__connect_nocancel'', ''accept'', ''__accept_nocancel'', ''open'',
     ''__open_nocancel'', ''openat'', ''__openat_nocancel'']"

lemmas name_tables =
  idle_names_def lock_names_def semaphore_names_def ipc_names_def readiness_names_def
  sleep_names_def io_read_names_def io_write_names_def connection_names_def

definition classify_offcpu :: "string option \<Rightarrow> off_cpu_reason" where
  "classify_offcpu function_name =
     (case function_name of
        None \<Rightarrow> Other
      | Some name \<Rightarrow>
          if name \<in> set idle_names then Idle
          else if name \<in> set lock_names then LockWait
          else if name \<in> set semaphore_names then SemaphoreWait
          else if name \<in> set ipc_names then IpcWait
          else if name \<in> set readiness_names then Readiness
          else if name \<in> set sleep_names then Sleep
          else if name \<in> set io_read_names then IoRead
          else if name \<in> set io_write_names then IoWrite
          else if name \<in> set connection_names then ConnectionSetup
          else Other)"

text \<open>The tables in the order they are consulted.\<close>

definition reason_table :: "(off_cpu_reason \<times> string list) list" where
  "reason_table = [(Idle, idle_names), (LockWait, lock_names), (SemaphoreWait, semaphore_names),
     (IpcWait, ipc_names), (Readiness, readiness_names), (Sleep, sleep_names),
     (IoRead, io_read_names), (IoWrite, io_write_names), (ConnectionSetup, connection_names)]"

lemma classify_table:
  "classify_offcpu (Some name) =
     (case find (\<lambda>(_, names). name \<in> set names) reason_table of
        None \<Rightarrow> Other | Some (r, _) \<Rightarrow> r)"
  by (simp add: classify_offcpu_def reason_table_def)

text \<open>One pattern of the sleep arm can never match: the semaphore arm takes it first.\<close>

theorem sleep_pattern_shadowed:
  "''__semwait_signal_nocancel'' \<in> set sleep_names
   \<and> classify_offcpu (Some ''__semwait_signal_nocancel'') = SemaphoreWait"
  by (simp add: classify_offcpu_def name_tables)

lemma table_chars:
  "(r, names) \<in> set reason_table \<Longrightarrow> name \<in> set names \<Longrightarrow> CHR '':'' \<notin> set name"
  unfolding reason_table_def name_tables by auto

lemma table_own_reason:
  "list_all (\<lambda>(r, names). list_all (\<lambda>name. name = ''__semwait_signal_nocancel''
     \<or> classify_offcpu (Some name) = r) names) reason_table"
  by code_simp

section \<open>Properties\<close>

text \<open>
  No path-qualified name (one with a colon, as every Rust or C++ path has) is ever
  classified as a system wait; and apart from the shadowed pattern, each table entry gets
  exactly its own reason.
\<close>

theorem classify_exact:
  "(CHR '':'' \<in> set name \<longrightarrow> classify_offcpu (Some name) = Other)
   \<and> ((r, names) \<in> set reason_table \<longrightarrow> name \<in> set names \<longrightarrow>
        name \<noteq> ''__semwait_signal_nocancel'' \<longrightarrow> classify_offcpu (Some name) = r)"
proof (intro conjI impI)
  assume "CHR '':'' \<in> set name"
  then have "find (\<lambda>(_, names). name \<in> set names) reason_table = None"
    using table_chars [of _ _ name] by (auto simp: find_None_iff)
  then show "classify_offcpu (Some name) = Other" by (simp add: classify_table)
next
  assume "(r, names) \<in> set reason_table" "name \<in> set names" "name \<noteq> ''__semwait_signal_nocancel''"
  then show "classify_offcpu (Some name) = r"
    using table_own_reason unfolding list_all_iff by fastforce
qed

theorem classify_exact_witness:
  "classify_offcpu (Some ''std::io::write'') = Other \<and> classify_offcpu (Some ''write'') = IoWrite"
  using classify_exact [of "''std::io::write''"]
    classify_exact [of "''write''" IoWrite io_write_names]
  by (simp add: reason_table_def io_write_names_def)

end
