(* ===== verification/FlameTree.thy ===== *)
theory FlameTree
  imports Classify "HOL-Library.Sublist"
begin

text \<open>
  The results of an aggregation pass (\<open>stax-live/src/aggregator.rs\<close>): PMU and off-CPU
  counters, the call tree keyed by address, the per-address table, and the two credit routines
  that add one event to both. Hash maps are association lists in iteration order.
\<close>

section \<open>Counters\<close>

record pmu_sample =
  pmu_cycles :: u64
  pmu_instructions :: u64
  pmu_l1d_misses :: u64
  pmu_branch_mispreds :: u64

record pmc_accum =
  pa_cycles :: u64
  pa_instructions :: u64
  pa_l1d_misses :: u64
  pa_branch_mispreds :: u64

definition pmc_zero :: pmc_accum where
  "pmc_zero = \<lparr>pa_cycles = 0, pa_instructions = 0, pa_l1d_misses = 0, pa_branch_mispreds = 0\<rparr>"

definition pmc_add :: "pmu_sample \<Rightarrow> pmc_accum \<Rightarrow> pmc_accum" where
  "pmc_add s a = \<lparr>pa_cycles = sat_add (pa_cycles a) (pmu_cycles s),
     pa_instructions = sat_add (pa_instructions a) (pmu_instructions s),
     pa_l1d_misses = sat_add (pa_l1d_misses a) (pmu_l1d_misses s),
     pa_branch_mispreds = sat_add (pa_branch_mispreds a) (pmu_branch_mispreds s)\<rparr>"

definition pmc_add_other :: "pmc_accum \<Rightarrow> pmc_accum \<Rightarrow> pmc_accum" where
  "pmc_add_other b a = \<lparr>pa_cycles = sat_add (pa_cycles a) (pa_cycles b),
     pa_instructions = sat_add (pa_instructions a) (pa_instructions b),
     pa_l1d_misses = sat_add (pa_l1d_misses a) (pa_l1d_misses b),
     pa_branch_mispreds = sat_add (pa_branch_mispreds a) (pa_branch_mispreds b)\<rparr>"

record off_cpu_breakdown =
  idle_ns :: u64
  lock_ns :: u64
  semaphore_ns :: u64
  ipc_ns :: u64
  io_read_ns :: u64
  io_write_ns :: u64
  readiness_ns :: u64
  sleep_ns :: u64
  connect_ns :: u64
  other_ns :: u64

definition breakdown_zero :: off_cpu_breakdown where
  "breakdown_zero = \<lparr>idle_ns = 0, lock_ns = 0, semaphore_ns = 0, ipc_ns = 0, io_read_ns = 0,
     io_write_ns = 0, readiness_ns = 0, sleep_ns = 0, connect_ns = 0, other_ns = 0\<rparr>"

fun add_reason :: "off_cpu_reason \<Rightarrow> u64 \<Rightarrow> off_cpu_breakdown \<Rightarrow> off_cpu_breakdown" where
  "add_reason Idle d b = b\<lparr>idle_ns := sat_add (idle_ns b) d\<rparr>"
| "add_reason LockWait d b = b\<lparr>lock_ns := sat_add (lock_ns b) d\<rparr>"
| "add_reason SemaphoreWait d b = b\<lparr>semaphore_ns := sat_add (semaphore_ns b) d\<rparr>"
| "add_reason IpcWait d b = b\<lparr>ipc_ns := sat_add (ipc_ns b) d\<rparr>"
| "add_reason IoRead d b = b\<lparr>io_read_ns := sat_add (io_read_ns b) d\<rparr>"
| "add_reason IoWrite d b = b\<lparr>io_write_ns := sat_add (io_write_ns b) d\<rparr>"
| "add_reason Readiness d b = b\<lparr>readiness_ns := sat_add (readiness_ns b) d\<rparr>"
| "add_reason Sleep d b = b\<lparr>sleep_ns := sat_add (sleep_ns b) d\<rparr>"
| "add_reason ConnectionSetup d b = b\<lparr>connect_ns := sat_add (connect_ns b) d\<rparr>"
| "add_reason Other d b = b\<lparr>other_ns := sat_add (other_ns b) d\<rparr>"

definition breakdown_add :: "off_cpu_breakdown \<Rightarrow> off_cpu_breakdown \<Rightarrow> off_cpu_breakdown" where
  "breakdown_add b a = \<lparr>idle_ns = sat_add (idle_ns a) (idle_ns b),
     lock_ns = sat_add (lock_ns a) (lock_ns b),
     semaphore_ns = sat_add (semaphore_ns a) (semaphore_ns b),
     ipc_ns = sat_add (ipc_ns a) (ipc_ns b),
     io_read_ns = sat_add (io_read_ns a) (io_read_ns b),
     io_write_ns = sat_add (io_write_ns a) (io_write_ns b),
     readiness_ns = sat_add (readiness_ns a) (readiness_ns b),
     sleep_ns = sat_add (sleep_ns a) (sleep_ns b),
     connect_ns = sat_add (connect_ns a) (connect_ns b),
     other_ns = sat_add (other_ns a) (other_ns b)\<rparr>"

definition total_ns :: "off_cpu_breakdown \<Rightarrow> u64" where
  "total_ns b = sat_add (sat_add (sat_add (sat_add (sat_add (sat_add (sat_add (sat_add (sat_add
     (idle_ns b) (lock_ns b)) (semaphore_ns b)) (ipc_ns b)) (io_read_ns b)) (io_write_ns b))
     (readiness_ns b)) (sleep_ns b)) (connect_ns b)) (other_ns b)"

lemma total_ns_add_reason: "total_ns (add_reason r d b) = sat_add (total_ns b) d"
  by (cases r) (simp_all add: total_ns_def sat_add_ac)

lemma total_ns_zero [simp]: "total_ns breakdown_zero = 0"
  by (simp add: total_ns_def breakdown_zero_def)

lemma total_ns_breakdown_add: "total_ns (breakdown_add b a) = sat_add (total_ns a) (total_ns b)"
  by (simp add: total_ns_def breakdown_add_def sat_add_ac)

section \<open>The call tree\<close>

text \<open>The counters of one \<open>StackNode\<close>; the node adds its children to them.\<close>

record node_stats =
  nd_on_cpu_ns :: u64
  nd_off_cpu :: off_cpu_breakdown
  nd_pet_samples :: u64
  nd_off_cpu_intervals :: u64
  nd_pmc :: pmc_accum

definition node_stats_zero :: node_stats where
  "node_stats_zero = \<lparr>nd_on_cpu_ns = 0, nd_off_cpu = breakdown_zero, nd_pet_samples = 0,
     nd_off_cpu_intervals = 0, nd_pmc = pmc_zero\<rparr>"

datatype stack_node = StackNode (sn_stats: node_stats) (sn_children: "(u64 \<times> stack_node) list")

definition empty_node :: stack_node where
  "empty_node = StackNode node_stats_zero []"

definition node_stats_add :: "node_stats \<Rightarrow> node_stats \<Rightarrow> node_stats" where
  "node_stats_add o' s = \<lparr>nd_on_cpu_ns = sat_add (nd_on_cpu_ns s) (nd_on_cpu_ns o'),
     nd_off_cpu = breakdown_add (nd_off_cpu o') (nd_off_cpu s),
     nd_pet_samples = sat_add (nd_pet_samples s) (nd_pet_samples o'),
     nd_off_cpu_intervals = sat_add (nd_off_cpu_intervals s) (nd_off_cpu_intervals o'),
     nd_pmc = pmc_add_other (nd_pmc o') (nd_pmc s)\<rparr>"

fun merge_node :: "stack_node \<Rightarrow> stack_node \<Rightarrow> stack_node" where
  "merge_node (StackNode os ocs) n =
     StackNode (node_stats_add os (sn_stats n))
       (fold (\<lambda>(addr, child). hm_entry addr empty_node (merge_node child)) ocs (sn_children n))"

definition credit_on_stats :: "u64 \<Rightarrow> pmu_sample \<Rightarrow> node_stats \<Rightarrow> node_stats" where
  "credit_on_stats credit_ns pmc s = s\<lparr>nd_on_cpu_ns := sat_add (nd_on_cpu_ns s) credit_ns,
     nd_pet_samples := sat_add (nd_pet_samples s) 1, nd_pmc := pmc_add pmc (nd_pmc s)\<rparr>"

definition credit_off_stats :: "off_cpu_reason \<Rightarrow> u64 \<Rightarrow> node_stats \<Rightarrow> node_stats" where
  "credit_off_stats reason duration_ns s = s\<lparr>nd_off_cpu := add_reason reason duration_ns (nd_off_cpu s),
     nd_off_cpu_intervals := sat_add (nd_off_cpu_intervals s) 1\<rparr>"

text \<open>
  The walk down the tree: \<open>node = node.children.entry(addr).or_default()\<close> and the counter
  update \<open>f\<close>, for each address of the path from the root.
\<close>

primrec credit_path :: "(node_stats \<Rightarrow> node_stats) \<Rightarrow> u64 list \<Rightarrow> stack_node \<Rightarrow> stack_node" where
  "credit_path f [] n = n"
| "credit_path f (addr # path) n =
     StackNode (sn_stats n)
       (hm_entry addr empty_node
         (\<lambda>c. credit_path f path (StackNode (f (sn_stats c)) (sn_children c))) (sn_children n))"

section \<open>The per-address table\<close>

record address_stats =
  as_self_on_cpu_ns :: u64
  as_total_on_cpu_ns :: u64
  as_self_off_cpu :: off_cpu_breakdown
  as_total_off_cpu :: off_cpu_breakdown
  as_self_pet_samples :: u64
  as_total_pet_samples :: u64
  as_self_off_cpu_intervals :: u64
  as_total_off_cpu_intervals :: u64
  as_self_pmc :: pmc_accum
  as_total_pmc :: pmc_accum

definition address_stats_zero :: address_stats where
  "address_stats_zero = \<lparr>as_self_on_cpu_ns = 0, as_total_on_cpu_ns = 0,
     as_self_off_cpu = breakdown_zero, as_total_off_cpu = breakdown_zero,
     as_self_pet_samples = 0, as_total_pet_samples = 0, as_self_off_cpu_intervals = 0,
     as_total_off_cpu_intervals = 0, as_self_pmc = pmc_zero, as_total_pmc = pmc_zero\<rparr>"

type_synonym addr_table = "(u64, address_stats) hmap"

text \<open>\<open>SmallSet::insert\<close>: whether the value was new, and the set with it.\<close>

definition small_set_insert :: "u64 \<Rightarrow> u64 list \<Rightarrow> bool \<times> u64 list" where
  "small_set_insert v items = (if v \<in> set items then (False, items) else (True, items @ [v]))"

primrec credit_totals ::
  "(address_stats \<Rightarrow> address_stats) \<Rightarrow> u64 list \<Rightarrow> u64 list \<Rightarrow> addr_table \<Rightarrow> addr_table" where
  "credit_totals f seen [] t = t"
| "credit_totals f seen (addr # stack) t =
     (let (fresh, seen') = small_set_insert addr seen in
      credit_totals f seen' stack (if fresh then hm_entry addr address_stats_zero f t else t))"

definition self_on :: "u64 \<Rightarrow> pmu_sample \<Rightarrow> address_stats \<Rightarrow> address_stats" where
  "self_on credit_ns pmc s = s\<lparr>as_self_on_cpu_ns := sat_add (as_self_on_cpu_ns s) credit_ns,
     as_self_pet_samples := sat_add (as_self_pet_samples s) 1,
     as_self_pmc := pmc_add pmc (as_self_pmc s)\<rparr>"

definition total_on :: "u64 \<Rightarrow> pmu_sample \<Rightarrow> address_stats \<Rightarrow> address_stats" where
  "total_on credit_ns pmc s = s\<lparr>as_total_on_cpu_ns := sat_add (as_total_on_cpu_ns s) credit_ns,
     as_total_pet_samples := sat_add (as_total_pet_samples s) 1,
     as_total_pmc := pmc_add pmc (as_total_pmc s)\<rparr>"

definition self_off :: "off_cpu_reason \<Rightarrow> u64 \<Rightarrow> address_stats \<Rightarrow> address_stats" where
  "self_off reason d s = s\<lparr>as_self_off_cpu := add_reason reason d (as_self_off_cpu s),
     as_self_off_cpu_intervals := sat_add (as_self_off_cpu_intervals s) 1\<rparr>"

definition total_off :: "off_cpu_reason \<Rightarrow> u64 \<Rightarrow> address_stats \<Rightarrow> address_stats" where
  "total_off reason d s = s\<lparr>as_total_off_cpu := add_reason reason d (as_total_off_cpu s),
     as_total_off_cpu_intervals := sat_add (as_total_off_cpu_intervals s) 1\<rparr>"

definition credit_on_cpu_to_tree ::
  "u64 list \<Rightarrow> u64 \<Rightarrow> pmu_sample \<Rightarrow> stack_node \<times> addr_table \<Rightarrow> stack_node \<times> addr_table" where
  "credit_on_cpu_to_tree stack credit_ns pmc rt =
     (if stack = [] then rt
      else (credit_path (credit_on_stats credit_ns pmc) (rev stack) (fst rt),
            credit_totals (total_on credit_ns pmc) [] stack
              (hm_entry (hd stack) address_stats_zero (self_on credit_ns pmc) (snd rt))))"

definition credit_off_cpu_to_tree ::
  "u64 list \<Rightarrow> off_cpu_reason \<Rightarrow> u64 \<Rightarrow> stack_node \<times> addr_table \<Rightarrow> stack_node \<times> addr_table" where
  "credit_off_cpu_to_tree stack reason duration_ns rt =
     (if stack = [] then rt
      else (credit_path (credit_off_stats reason duration_ns) (rev stack) (fst rt),
            credit_totals (total_off reason duration_ns) [] stack
              (hm_entry (hd stack) address_stats_zero (self_off reason duration_ns) (snd rt))))"

section \<open>Reading the tree\<close>

primrec node_at :: "u64 list \<Rightarrow> stack_node \<Rightarrow> stack_node option" where
  "node_at [] n = Some n"
| "node_at (addr # path) n =
     (case map_of (sn_children n) addr of None \<Rightarrow> None | Some c \<Rightarrow> node_at path c)"

definition stats_at :: "u64 list \<Rightarrow> stack_node \<Rightarrow> node_stats option" where
  "stats_at path n = map_option sn_stats (node_at path n)"

lemma stats_at_Nil [simp]: "stats_at [] n = Some (sn_stats n)"
  by (simp add: stats_at_def)

lemma stats_at_Cons: "stats_at (addr # path) n =
    (case map_of (sn_children n) addr of None \<Rightarrow> None | Some c \<Rightarrow> stats_at path c)"
  by (simp add: stats_at_def split: option.split)

lemma sn_stats_empty [simp]: "sn_stats empty_node = node_stats_zero"
  and sn_children_empty [simp]: "sn_children empty_node = []"
  by (simp_all add: empty_node_def)

lemma stats_at_empty: "stats_at path empty_node = (if path = [] then Some node_stats_zero else None)"
  by (cases path) (simp_all add: stats_at_Cons)

lemma sn_stats_credit_path [simp]: "sn_stats (credit_path f path n) = sn_stats n"
  by (cases path) simp_all

lemma stats_at_restat: "q \<noteq> [] \<Longrightarrow> stats_at q (StackNode s (sn_children n)) = stats_at q n"
  by (cases q) (simp_all add: stats_at_Cons)

text \<open>One credit updates exactly the nodes on its path, creating those that are missing.\<close>

lemma stats_at_credit_path:
  "stats_at q (credit_path f path n) =
     (if q \<noteq> [] \<and> prefix q path then Some (f (or_default (stats_at q n) node_stats_zero))
      else stats_at q n)"
proof (induction path arbitrary: q n)
  case Nil
  then show ?case by auto
next
  case (Cons a path)
  show ?case
  proof (cases q)
    case Nil
    then show ?thesis by simp
  next
    case q: (Cons b q')
    show ?thesis
    proof (cases "b = a")
      case False
      then show ?thesis by (simp add: q stats_at_Cons hm_simps)
    next
      case True
      let ?c = "or_default (map_of (sn_children n) a) empty_node"
      have old: "or_default (stats_at q n) node_stats_zero = or_default (stats_at q' ?c) node_stats_zero"
        by (auto simp: q True stats_at_Cons stats_at_empty split: option.split)
      have "stats_at q (credit_path f (a # path) n) =
          stats_at q' (credit_path f path (StackNode (f (sn_stats ?c)) (sn_children ?c)))"
        by (simp add: q True stats_at_Cons hm_simps)
      also have "\<dots> = (if prefix q' path then Some (f (or_default (stats_at q' ?c) node_stats_zero))
          else stats_at q' ?c)"
        by (cases "q' = []") (simp_all add: Cons.IH stats_at_restat)
      finally show ?thesis
        unfolding old by (auto simp: q True stats_at_Cons stats_at_empty split: option.split)
    qed
  qed
qed

primrec tree_wf :: "stack_node \<Rightarrow> bool" where
  "tree_wf (StackNode s cs) =
     (distinct (map fst cs) \<and> list_all (\<lambda>(_, w). w) (map (map_prod id tree_wf) cs))"

lemma tree_wf_empty [simp]: "tree_wf empty_node"
  by (simp add: empty_node_def)

lemma tree_wf_StackNode: "tree_wf (StackNode s cs) \<longleftrightarrow>
    hm_keys_distinct cs \<and> (\<forall>(a, c) \<in> set cs. tree_wf c)"
  by (auto simp: hm_keys_distinct_def list_all_iff)

lemma tree_wf_iff: "tree_wf n \<longleftrightarrow>
    hm_keys_distinct (sn_children n) \<and> (\<forall>(a, c) \<in> set (sn_children n). tree_wf c)"
  by (cases n) (simp only: tree_wf_StackNode stack_node.sel)

declare tree_wf.simps [simp del]

lemma set_hm_entry:
  assumes "hm_keys_distinct m" "(a, v) \<in> set (hm_entry k d f m)"
  shows "(a, v) \<in> set m \<or> (a = k \<and> v = f (or_default (map_of m k) d))"
proof -
  have "map_of (hm_entry k d f m) a = Some v"
    using assms hm_keys_distinct_entry [OF assms(1), of k d f]
    by (simp add: hm_keys_distinct_def)
  then show ?thesis
    by (auto simp only: hm_simps fun_upd_apply split: if_splits dest: map_of_SomeD)
qed

lemma tree_wf_credit_path: "tree_wf n \<Longrightarrow> tree_wf (credit_path f path n)"
proof (induction path arbitrary: n)
  case Nil
  then show ?case by simp
next
  case (Cons a path)
  let ?c = "or_default (map_of (sn_children n) a) empty_node"
  have d: "hm_keys_distinct (sn_children n)" and ch: "\<And>b c. (b, c) \<in> set (sn_children n) \<Longrightarrow> tree_wf c"
    using Cons.prems unfolding tree_wf_iff [of n] by blast+
  have "tree_wf ?c"
    by (auto split: option.split dest: map_of_SomeD intro: ch)
  then have "tree_wf (StackNode (f (sn_stats ?c)) (sn_children ?c))"
    unfolding tree_wf_iff [of ?c] tree_wf_StackNode .
  then have "tree_wf (credit_path f path (StackNode (f (sn_stats ?c)) (sn_children ?c)))"
    by (rule Cons.IH)
  then have "tree_wf v" if "(b, v) \<in> set (sn_children (credit_path f (a # path) n))" for b v
    using set_hm_entry [OF d that [simplified]] ch by blast
  then show ?case
    using hm_keys_distinct_entry [OF d] unfolding tree_wf_iff [of "credit_path f (a # path) n"] by auto
qed

section \<open>Lists of credits\<close>

text \<open>One event of an aggregation pass, as a value.\<close>

datatype credit =
  CreditOn (credit_stack: "u64 list") u64 pmu_sample
| CreditOff (credit_stack: "u64 list") off_cpu_reason u64

fun apply_credit :: "credit \<Rightarrow> stack_node \<times> addr_table \<Rightarrow> stack_node \<times> addr_table" where
  "apply_credit (CreditOn stack ns pmc) = credit_on_cpu_to_tree stack ns pmc"
| "apply_credit (CreditOff stack reason ns) = credit_off_cpu_to_tree stack reason ns"

definition apply_credits :: "credit list \<Rightarrow> stack_node \<times> addr_table" where
  "apply_credits cs = fold apply_credit cs (empty_node, [])"

fun credit_stats :: "credit \<Rightarrow> node_stats \<Rightarrow> node_stats" where
  "credit_stats (CreditOn _ ns pmc) = credit_on_stats ns pmc"
| "credit_stats (CreditOff _ reason ns) = credit_off_stats reason ns"

fun on_ns :: "credit \<Rightarrow> u64" where
  "on_ns (CreditOn _ ns _) = ns"
| "on_ns (CreditOff _ _ _) = 0"

fun is_on :: "credit \<Rightarrow> bool" where
  "is_on (CreditOn _ _ _) = True"
| "is_on (CreditOff _ _ _) = False"

fun off_ns :: "off_cpu_reason \<Rightarrow> credit \<Rightarrow> u64" where
  "off_ns r (CreditOn _ _ _) = 0"
| "off_ns r (CreditOff _ r' ns) = (if r = r' then ns else 0)"

fun reason_ns :: "off_cpu_reason \<Rightarrow> off_cpu_breakdown \<Rightarrow> u64" where
  "reason_ns Idle b = idle_ns b"
| "reason_ns LockWait b = lock_ns b"
| "reason_ns SemaphoreWait b = semaphore_ns b"
| "reason_ns IpcWait b = ipc_ns b"
| "reason_ns IoRead b = io_read_ns b"
| "reason_ns IoWrite b = io_write_ns b"
| "reason_ns Readiness b = readiness_ns b"
| "reason_ns Sleep b = sleep_ns b"
| "reason_ns ConnectionSetup b = connect_ns b"
| "reason_ns Other b = other_ns b"

lemma reason_ns_add_reason:
  "reason_ns r (add_reason r' d b) = sat_add (reason_ns r b) (if r = r' then d else 0)"
  by (cases r; cases r'; simp)

lemma reason_ns_zero [simp]: "reason_ns r breakdown_zero = 0"
  by (cases r; simp add: breakdown_zero_def)

lemma reason_ns_breakdown_add:
  "reason_ns r (breakdown_add b a) = sat_add (reason_ns r a) (reason_ns r b)"
  by (cases r; simp add: breakdown_add_def)

text \<open>The counters \<open>g\<close> of a node that receives \<open>cs\<close> are saturating sums.\<close>

lemma fold_counter:
  assumes "\<And>c s. c \<in> set cs \<Longrightarrow> g (f c s) = sat_add (g s) (w c)"
  shows "g (fold f cs s) = sat_add (g s) (sat_sum (map w cs))"
  using assms by (induction cs arbitrary: s) (simp_all add: sat_add_assoc)

lemma credit_stats_counters:
  "nd_on_cpu_ns (credit_stats c s) = sat_add (nd_on_cpu_ns s) (on_ns c)"
  "nd_pet_samples (credit_stats c s) = sat_add (nd_pet_samples s) (of_bool (is_on c))"
  "nd_off_cpu_intervals (credit_stats c s) = sat_add (nd_off_cpu_intervals s) (of_bool (\<not> is_on c))"
  "reason_ns r (nd_off_cpu (credit_stats c s)) = sat_add (reason_ns r (nd_off_cpu s)) (off_ns r c)"
  by (cases c; simp add: credit_on_stats_def credit_off_stats_def reason_ns_add_reason)+

lemma fst_apply_credit: "fst (apply_credit c rt) = credit_path (credit_stats c) (rev (credit_stack c)) (fst rt)"
  by (cases c) (simp_all add: credit_on_cpu_to_tree_def credit_off_cpu_to_tree_def)

abbreviation on_path :: "u64 list \<Rightarrow> credit \<Rightarrow> bool" where
  "on_path q c \<equiv> prefix q (rev (credit_stack c))"

lemma stats_at_fold_credits:
  assumes "q \<noteq> []"
  shows "stats_at q (fst (fold apply_credit cs rt)) =
    (if \<exists>c \<in> set cs. on_path q c
     then Some (fold credit_stats (filter (on_path q) cs)
        (or_default (stats_at q (fst rt)) node_stats_zero))
     else stats_at q (fst rt))"
proof (induction cs arbitrary: rt)
  case Nil
  then show ?case by simp
next
  case (Cons c cs)
  have none: "filter (on_path q) cs = []" if "\<not> (\<exists>c \<in> set cs. on_path q c)"
    using that by (auto simp: filter_empty_conv)
  show ?case
    using assms none by (simp add: Cons.IH fst_apply_credit stats_at_credit_path)
qed

lemma stats_at_apply_credits:
  assumes "q \<noteq> []"
  shows "stats_at q (fst (apply_credits cs)) =
    (if \<exists>c \<in> set cs. on_path q c
     then Some (fold credit_stats (filter (on_path q) cs) node_stats_zero) else None)"
  using assms by (simp add: apply_credits_def stats_at_fold_credits stats_at_empty)

lemma tree_wf_apply_credits: "tree_wf (fst (apply_credits cs))"
proof -
  have "tree_wf (fst rt) \<Longrightarrow> tree_wf (fst (fold apply_credit cs rt))" for rt
    by (induction cs arbitrary: rt) (simp_all add: fst_apply_credit tree_wf_credit_path)
  then show ?thesis by (simp add: apply_credits_def)
qed



section \<open>The per-address table of a list of credits\<close>

lemma map_of_credit_totals:
  "map_of (credit_totals f seen stack t) k =
     (if k \<in> set stack - set seen then Some (f (or_default (map_of t k) address_stats_zero))
      else map_of t k)"
proof (induction stack arbitrary: seen t)
  case Nil
  then show ?case by simp
next
  case (Cons a stack)
  show ?case
    by (simp only: credit_totals.simps small_set_insert_def) (auto simp: Cons.IH hm_simps)
qed

fun credit_self :: "credit \<Rightarrow> address_stats \<Rightarrow> address_stats" where
  "credit_self (CreditOn _ ns pmc) = self_on ns pmc"
| "credit_self (CreditOff _ reason ns) = self_off reason ns"

fun credit_total :: "credit \<Rightarrow> address_stats \<Rightarrow> address_stats" where
  "credit_total (CreditOn _ ns pmc) = total_on ns pmc"
| "credit_total (CreditOff _ reason ns) = total_off reason ns"

definition is_leaf :: "u64 \<Rightarrow> credit \<Rightarrow> bool" where
  "is_leaf k c \<longleftrightarrow> (case credit_stack c of [] \<Rightarrow> False | a # _ \<Rightarrow> a = k)"

definition credit_address :: "u64 \<Rightarrow> credit \<Rightarrow> address_stats \<Rightarrow> address_stats" where
  "credit_address k c s = credit_total c (if is_leaf k c then credit_self c s else s)"

lemma map_of_apply_credit:
  "map_of (snd (apply_credit c rt)) k =
     (if k \<in> set (credit_stack c)
      then Some (credit_address k c (or_default (map_of (snd rt) k) address_stats_zero))
      else map_of (snd rt) k)"
proof (cases "credit_stack c")
  case Nil
  then show ?thesis
    by (cases c) (simp_all add: credit_on_cpu_to_tree_def credit_off_cpu_to_tree_def)
next
  case (Cons a st)
  then show ?thesis
    by (cases c) (auto simp: credit_on_cpu_to_tree_def credit_off_cpu_to_tree_def
        map_of_credit_totals hm_simps credit_address_def is_leaf_def simp del: credit_totals.simps)
qed

lemma map_of_apply_credits:
  "map_of (snd (apply_credits cs)) k =
     (if \<exists>c \<in> set cs. k \<in> set (credit_stack c)
      then Some (fold (credit_address k) (filter (\<lambda>c. k \<in> set (credit_stack c)) cs) address_stats_zero)
      else None)"
proof -
  have "map_of (snd (fold apply_credit cs rt)) k =
     (if \<exists>c \<in> set cs. k \<in> set (credit_stack c)
      then Some (fold (credit_address k) (filter (\<lambda>c. k \<in> set (credit_stack c)) cs)
         (or_default (map_of (snd rt) k) address_stats_zero))
      else map_of (snd rt) k)" for rt
  proof (induction cs arbitrary: rt)
    case Nil
    then show ?case by simp
  next
    case (Cons c cs)
    have none: "filter (\<lambda>c. k \<in> set (credit_stack c)) cs = []"
      if "\<not> (\<exists>c \<in> set cs. k \<in> set (credit_stack c))"
      using that by (auto simp: filter_empty_conv)
    show ?case
      using none by (simp add: Cons.IH map_of_apply_credit)
  qed
  then show ?thesis by (simp add: apply_credits_def)
qed

lemma credit_address_counters:
  "as_total_on_cpu_ns (credit_address k c s) = sat_add (as_total_on_cpu_ns s) (on_ns c)"
  "as_total_pet_samples (credit_address k c s) = sat_add (as_total_pet_samples s) (of_bool (is_on c))"
  "reason_ns r (as_total_off_cpu (credit_address k c s)) =
     sat_add (reason_ns r (as_total_off_cpu s)) (off_ns r c)"
  "as_self_on_cpu_ns (credit_address k c s) =
     sat_add (as_self_on_cpu_ns s) (if is_leaf k c then on_ns c else 0)"
  "as_self_pet_samples (credit_address k c s) =
     sat_add (as_self_pet_samples s) (if is_leaf k c then of_bool (is_on c) else 0)"
  "reason_ns r (as_self_off_cpu (credit_address k c s)) =
     sat_add (reason_ns r (as_self_off_cpu s)) (if is_leaf k c then off_ns r c else 0)"
  by (cases c; simp add: credit_address_def self_on_def self_off_def total_on_def total_off_def
      reason_ns_add_reason)+



section \<open>Time is conserved down the tree\<close>

definition child_sum :: "(node_stats \<Rightarrow> u64) \<Rightarrow> stack_node \<Rightarrow> u64" where
  "child_sum g n = sat_sum (map (\<lambda>(_, c). g (sn_stats c)) (sn_children n))"

lemma child_sum_credit_path:
  assumes g: "\<And>s. g (f s) = sat_add (g s) d" and zero: "g node_stats_zero = 0"
  shows "child_sum g (credit_path f path n) = (if path = [] then child_sum g n else sat_add (child_sum g n) d)"
proof (cases path)
  case Nil
  then show ?thesis by simp
next
  case (Cons a path')
  have "sat_sum (map (\<lambda>(_, c). g (sn_stats c)) (hm_entry a empty_node
      (\<lambda>c. credit_path f path' (StackNode (f (sn_stats c)) (sn_children c))) m)) =
      sat_add (sat_sum (map (\<lambda>(_, c). g (sn_stats c)) m)) d" for m
    by (induction m) (auto simp: g zero sat_add_ac)
  then show ?thesis by (simp add: Cons child_sum_def)
qed

primrec covers_children :: "(node_stats \<Rightarrow> u64) \<Rightarrow> stack_node \<Rightarrow> bool" where
  "covers_children g (StackNode s cs) =
     (list_all (\<lambda>(_, c). c) (map (map_prod id (\<lambda>c. child_sum g c \<le> g (sn_stats c) \<and> covers_children g c)) cs))"

lemma covers_children_StackNode: "covers_children g (StackNode s cs) \<longleftrightarrow>
    (\<forall>(a, c) \<in> set cs. child_sum g c \<le> g (sn_stats c) \<and> covers_children g c)"
  by (auto simp: list_all_iff)

lemma covers_children_iff: "covers_children g n \<longleftrightarrow>
    (\<forall>(a, c) \<in> set (sn_children n). child_sum g c \<le> g (sn_stats c) \<and> covers_children g c)"
  by (cases n) (simp only: covers_children_StackNode stack_node.sel)

declare covers_children.simps [simp del]

lemma covers_children_credit_path:
  assumes g: "\<And>s. g (f s) = sat_add (g s) d" and zero: "g node_stats_zero = 0"
  shows "tree_wf n \<Longrightarrow> covers_children g n \<Longrightarrow> covers_children g (credit_path f path n)"
proof (induction path arbitrary: n)
  case Nil
  then show ?case by simp
next
  case (Cons a path)
  let ?c = "or_default (map_of (sn_children n) a) empty_node"
  let ?c' = "StackNode (f (sn_stats ?c)) (sn_children ?c)"
  have d: "hm_keys_distinct (sn_children n)"
    using Cons.prems(1) unfolding tree_wf_iff [of n] by blast
  have ok: "child_sum g ?c \<le> g (sn_stats ?c) \<and> covers_children g ?c \<and> tree_wf ?c"
  proof (cases "map_of (sn_children n) a")
    case None
    then show ?thesis
      by (simp add: child_sum_def covers_children_iff [where n = empty_node])
  next
    case (Some c)
    then have "(a, c) \<in> set (sn_children n)" by (rule map_of_SomeD)
    then show ?thesis
      using Some Cons.prems unfolding tree_wf_iff [of n] covers_children_iff [where n = n] by auto
  qed
  then have sub: "covers_children g ?c'" "tree_wf ?c'"
    unfolding covers_children_iff [where n = ?c] tree_wf_iff [of ?c] covers_children_StackNode
      tree_wf_StackNode by blast+
  have below: "child_sum g (credit_path f path ?c') \<le> g (f (sn_stats ?c))"
    using ok child_sum_credit_path [of g f d path ?c', OF g zero]
    by (cases path) (auto simp: g child_sum_def sat_add_mono intro: order.trans [OF _ sat_add_ge(1)])
  have "child_sum g v \<le> g (sn_stats v) \<and> covers_children g v"
    if "(b, v) \<in> set (sn_children (credit_path f (a # path) n))" for b v
    using set_hm_entry [OF d that [simplified]]
  proof
    assume "(b, v) \<in> set (sn_children n)"
    then show ?thesis using Cons.prems(2) unfolding covers_children_iff [where n = n] by blast
  next
    assume "b = a \<and> v = credit_path f path ?c'"
    then show ?thesis using below Cons.IH [OF sub(2) sub(1)] by simp
  qed
  then show ?case
    unfolding covers_children_iff [where n = "credit_path f (a # path) n"] by blast
qed

lemma fold_credits_conserve:
  assumes g: "\<And>c s. g (credit_stats c s) = sat_add (g s) (w c)" and zero: "g node_stats_zero = 0"
  shows "covers_children g (fst (apply_credits cs)) \<and> child_sum g (fst (apply_credits cs)) =
    sat_sum (map w (filter (\<lambda>c. credit_stack c \<noteq> []) cs))"
proof -
  have "tree_wf (fst rt) \<Longrightarrow> covers_children g (fst rt) \<Longrightarrow>
      covers_children g (fst (fold apply_credit cs rt)) \<and> child_sum g (fst (fold apply_credit cs rt)) =
      sat_add (child_sum g (fst rt)) (sat_sum (map w (filter (\<lambda>c. credit_stack c \<noteq> []) cs)))" for rt
    by (induction cs arbitrary: rt)
      (simp_all add: fst_apply_credit tree_wf_credit_path sat_add_assoc
        covers_children_credit_path [of g, OF g zero] child_sum_credit_path [of g, OF g zero])
  then show ?thesis
    by (simp add: apply_credits_def child_sum_def covers_children_iff [where n = empty_node])
qed

fun all_off_ns :: "credit \<Rightarrow> u64" where
  "all_off_ns (CreditOn _ _ _) = 0"
| "all_off_ns (CreditOff _ _ ns) = ns"

lemma credit_stats_total_off:
  "total_ns (nd_off_cpu (credit_stats c s)) = sat_add (total_ns (nd_off_cpu s)) (all_off_ns c)"
  by (cases c) (simp_all add: credit_on_stats_def credit_off_stats_def total_ns_add_reason)

text \<open>
  Time is conserved down the flame graph. At every node below the synthetic root the
  on-CPU time (and the off-CPU time, summed over the reasons) covers the sum over the node's
  children, and the children of the root together hold exactly the time of the credited
  events that have a stack.
\<close>

theorem flame_time_conserved:
  "covers_children nd_on_cpu_ns (fst (apply_credits cs)) \<and>
   covers_children (\<lambda>s. total_ns (nd_off_cpu s)) (fst (apply_credits cs)) \<and>
   child_sum nd_on_cpu_ns (fst (apply_credits cs)) =
     sat_sum (map on_ns (filter (\<lambda>c. credit_stack c \<noteq> []) cs)) \<and>
   child_sum (\<lambda>s. total_ns (nd_off_cpu s)) (fst (apply_credits cs)) =
     sat_sum (map all_off_ns (filter (\<lambda>c. credit_stack c \<noteq> []) cs))"
proof -
  have on: "covers_children nd_on_cpu_ns (fst (apply_credits cs)) \<and>
      child_sum nd_on_cpu_ns (fst (apply_credits cs)) =
        sat_sum (map on_ns (filter (\<lambda>c. credit_stack c \<noteq> []) cs))"
    by (rule fold_credits_conserve) (simp_all add: credit_stats_counters node_stats_zero_def)
  have "covers_children (\<lambda>s. total_ns (nd_off_cpu s)) (fst (apply_credits cs)) \<and>
      child_sum (\<lambda>s. total_ns (nd_off_cpu s)) (fst (apply_credits cs)) =
        sat_sum (map all_off_ns (filter (\<lambda>c. credit_stack c \<noteq> []) cs))"
    by (rule fold_credits_conserve) (simp_all add: credit_stats_total_off node_stats_zero_def)
  with on show ?thesis by blast
qed

section \<open>Merging trees\<close>

lemma node_stats_add_zero [simp]: "node_stats_add s node_stats_zero = s"
  by (simp add: node_stats_add_def node_stats_zero_def breakdown_add_def breakdown_zero_def
      pmc_add_other_def pmc_zero_def)

definition merge_stats :: "node_stats option \<Rightarrow> node_stats option \<Rightarrow> node_stats option" where
  "merge_stats o' s = (case o' of None \<Rightarrow> s | Some t \<Rightarrow> Some (node_stats_add t (or_default s node_stats_zero)))"

lemma map_of_merge_children:
  assumes "hm_keys_distinct ocs"
  shows "map_of (fold (\<lambda>(addr, c). hm_entry addr empty_node (f c)) ocs m) a =
    (case map_of ocs a of None \<Rightarrow> map_of m a | Some c \<Rightarrow> Some (f c (or_default (map_of m a) empty_node)))"
  using assms
proof (induction ocs arbitrary: m)
  case Nil
  then show ?case by simp
next
  case (Cons x ocs)
  obtain b c where x: "x = (b, c)" by (cases x)
  have none: "map_of ocs b = None" and d: "hm_keys_distinct ocs"
    using Cons.prems by (simp_all add: x hm_keys_distinct_def map_of_eq_None_iff)
  show ?case
    using Cons.IH [OF d, of "hm_entry b empty_node (f c) m"] none
    by (cases "a = b"; cases "map_of ocs a") (simp_all add: x hm_simps)
qed

lemma stats_at_merge_node:
  "tree_wf o' \<Longrightarrow> stats_at q (merge_node o' n) = merge_stats (stats_at q o') (stats_at q n)"
proof (induction q arbitrary: o' n)
  case Nil
  then show ?case by (cases o') (simp add: merge_stats_def)
next
  case (Cons a q)
  obtain os ocs where o': "o' = StackNode os ocs" by (cases o')
  have d: "hm_keys_distinct ocs" using Cons.prems by (simp add: o' tree_wf_StackNode)
  show ?case
  proof (cases "map_of ocs a")
    case None
    then show ?thesis by (simp add: o' stats_at_Cons map_of_merge_children [OF d] merge_stats_def)
  next
    case (Some c)
    then have "tree_wf c" using Cons.prems by (auto simp: o' tree_wf_StackNode dest: map_of_SomeD)
    with Some show ?thesis
      by (auto simp: o' stats_at_Cons map_of_merge_children [OF d] Cons.IH merge_stats_def
          stats_at_empty split: option.split)
  qed
qed

lemma node_stats_add_assoc:
  "node_stats_add (node_stats_add c b) a = node_stats_add c (node_stats_add b a)"
  by (simp add: node_stats_add_def breakdown_add_def pmc_add_other_def sat_add_assoc)

lemma credit_stats_as_add: "credit_stats c s = node_stats_add (credit_stats c node_stats_zero) s"
  apply (cases c)
   apply (simp add: credit_on_stats_def node_stats_add_def node_stats_zero_def breakdown_add_def
      breakdown_zero_def pmc_add_other_def pmc_add_def pmc_zero_def)
  subgoal for st r d
    by (cases r) (simp_all add: credit_off_stats_def node_stats_add_def node_stats_zero_def breakdown_add_def
      breakdown_zero_def pmc_add_other_def pmc_zero_def)
  done

lemma fold_credit_stats_add:
  "fold credit_stats cs s = node_stats_add (fold credit_stats cs node_stats_zero) s"
proof (induction cs arbitrary: s)
  case Nil
  have "node_stats_add node_stats_zero s = s"
    by (simp add: node_stats_add_def node_stats_zero_def breakdown_add_def breakdown_zero_def
      pmc_add_other_def pmc_zero_def)
  then show ?case by simp
next
  case (Cons c cs)
  show ?case
    using Cons [of "credit_stats c s"] Cons [of "credit_stats c node_stats_zero"]
    by (simp add: credit_stats_as_add [of c s] node_stats_add_assoc)
qed

definition merged_flame_root :: "stack_node list \<Rightarrow> stack_node" where
  "merged_flame_root aggs =
     (case aggs of [] \<Rightarrow> empty_node | first # rest \<Rightarrow> fold merge_node rest first)"

text \<open>
  Merging the flame graphs of two sets of events gives, at every path, exactly the
  counters of the flame graph built from both sets together.
\<close>

theorem merged_flame_root_credits:
  assumes "path \<noteq> []"
  shows "stats_at path (merged_flame_root [fst (apply_credits cs), fst (apply_credits ds)]) =
    stats_at path (fst (apply_credits (cs @ ds)))"
proof -
  have none: "filter (on_path path) es = []" if "\<not> (\<exists>c \<in> set es. on_path path c)" for es
    using that by (auto simp: filter_empty_conv)
  show ?thesis
    using none fold_credit_stats_add [of "filter (on_path path) ds" "fold credit_stats (filter (on_path path) cs) node_stats_zero"]
    by (auto simp: merged_flame_root_def stats_at_merge_node tree_wf_apply_credits
        stats_at_apply_credits [OF assms] merge_stats_def)
qed

theorem merged_flame_root_credits_witness:
  "stats_at [2, 1] (merged_flame_root [fst (apply_credits [CreditOn [1, 2] 10 undefined]),
      fst (apply_credits [CreditOff [1, 2] Idle 5])]) =
    stats_at [2, 1] (fst (apply_credits [CreditOn [1, 2] 10 undefined, CreditOff [1, 2] Idle 5]))"
  using merged_flame_root_credits [of "[2, 1]" "[CreditOn [1, 2] 10 undefined]" "[CreditOff [1, 2] Idle 5]"]
  by simp

end
