(* ===== verification/Aggregator.thy ===== *)
theory Aggregator
  imports FlameTree
begin

text \<open>
  The aggregator (\<open>stax-live/src/aggregator.rs\<close>): bounded per-thread event logs, and the
  on-demand pass that credits on-CPU time to the samples inside each interval and off-CPU
  time to the stack a thread parked on. Results are a call tree keyed by address and a table
  of per-address self and total counters. Hash maps are association lists in iteration order.
  \<open>lookup_name\<close> stands for \<open>binaries.lookup_symbol(addr).map(|r| r.function_name)\<close>;
  the binary registry instantiates it.
\<close>

section \<open>Event logs\<close>

record pet_sample =
  smp_time :: u64
  smp_stack :: "u64 list"
  smp_kernel_stack :: "u64 list"
  smp_pmu :: pmu_sample

datatype interval_kind =
  OnCpu
| OffCpu (ik_stack: "u64 list") (ik_waker_tid: "u32 option") (ik_waker_user_stack: "u64 list option")

record raw_interval =
  ri_start_ns :: u64
  ri_end_ns :: u64
  ri_kind :: interval_kind

record raw_wakeup =
  rw_timestamp_ns :: u64
  rw_waker_tid :: u32
  rw_waker_user_stack :: "u64 list"
  rw_waker_kernel_stack :: "u64 list"

definition MAX_EVENTS_PER_THREAD :: nat where "MAX_EVENTS_PER_THREAD = 100000"

record thread_stats =
  tst_pet_samples :: "pet_sample list"
  tst_intervals :: "raw_interval list"
  tst_wakeups :: "raw_wakeup list"

definition empty_thread_stats :: thread_stats where
  "empty_thread_stats = \<lparr>tst_pet_samples = [], tst_intervals = [], tst_wakeups = []\<rparr>"

record raw_waker_entry =
  we_waker_tid :: u32
  we_leaf_address :: u64
  we_count :: u64

record aggregator =
  ag_threads :: "(u32, thread_stats) hmap"
  ag_thread_names :: "(u32, string) hmap"
  ag_session_start_ns :: "u64 option"
  ag_last_event_ns :: "u64 option"

definition empty_aggregator :: aggregator where
  "empty_aggregator = \<lparr>ag_threads = [], ag_thread_names = [], ag_session_start_ns = None,
     ag_last_event_ns = None\<rparr>"

definition note_timestamp :: "u64 \<Rightarrow> aggregator \<Rightarrow> aggregator" where
  "note_timestamp ts ag =
     (if ts = 0 then ag
      else ag\<lparr>ag_session_start_ns :=
                (case ag_session_start_ns ag of None \<Rightarrow> Some ts | Some t \<Rightarrow> Some t),
              ag_last_event_ns :=
                Some (case ag_last_event_ns ag of Some prev \<Rightarrow> max prev ts | None \<Rightarrow> ts)\<rparr>)"

definition record_pet_sample ::
  "u32 \<Rightarrow> u64 \<Rightarrow> u64 list \<Rightarrow> u64 list \<Rightarrow> pmu_sample \<Rightarrow> aggregator \<Rightarrow> aggregator" where
  "record_pet_sample tid timestamp user_addrs kernel_addrs pmu ag =
     (let ag1 = note_timestamp timestamp ag in
      ag1\<lparr>ag_threads := hm_entry tid empty_thread_stats
        (\<lambda>st. st\<lparr>tst_pet_samples := push_capped MAX_EVENTS_PER_THREAD
           \<lparr>smp_time = timestamp, smp_stack = user_addrs, smp_kernel_stack = kernel_addrs,
            smp_pmu = pmu\<rparr> (tst_pet_samples st)\<rparr>) (ag_threads ag1)\<rparr>)"

definition record_interval ::
  "u32 \<Rightarrow> u64 \<Rightarrow> u64 \<Rightarrow> interval_kind \<Rightarrow> aggregator \<Rightarrow> aggregator" where
  "record_interval tid start_ns end_ns kind ag =
     (let ag1 = note_timestamp start_ns ag;
          ag2 = (if end_ns \<noteq> 0 then note_timestamp end_ns ag1 else ag1) in
      ag2\<lparr>ag_threads := hm_entry tid empty_thread_stats
        (\<lambda>st. st\<lparr>tst_intervals := push_capped MAX_EVENTS_PER_THREAD
           \<lparr>ri_start_ns = start_ns, ri_end_ns = end_ns, ri_kind = kind\<rparr> (tst_intervals st)\<rparr>)
        (ag_threads ag2)\<rparr>)"

definition record_wakeup ::
  "u64 \<Rightarrow> u32 \<Rightarrow> u32 \<Rightarrow> u64 list \<Rightarrow> u64 list \<Rightarrow> aggregator \<Rightarrow> aggregator" where
  "record_wakeup timestamp waker_tid wakee_tid user_stack kernel_stack ag =
     (let ag1 = note_timestamp timestamp ag in
      ag1\<lparr>ag_threads := hm_entry wakee_tid empty_thread_stats
        (\<lambda>st. st\<lparr>tst_wakeups := push_capped MAX_EVENTS_PER_THREAD
           \<lparr>rw_timestamp_ns = timestamp, rw_waker_tid = waker_tid,
            rw_waker_user_stack = user_stack, rw_waker_kernel_stack = kernel_stack\<rparr>
           (tst_wakeups st)\<rparr>) (ag_threads ag1)\<rparr>)"

definition set_thread_name :: "u32 \<Rightarrow> string \<Rightarrow> aggregator \<Rightarrow> aggregator" where
  "set_thread_name tid name ag = ag\<lparr>ag_thread_names := hm_insert tid name (ag_thread_names ag)\<rparr>"

definition thread_name :: "aggregator \<Rightarrow> u32 \<Rightarrow> string option" where
  "thread_name ag tid = map_of (ag_thread_names ag) tid"

definition iter_threads :: "aggregator \<Rightarrow> u32 list" where
  "iter_threads ag = map fst (ag_threads ag)"

definition get_thread_stats :: "aggregator \<Rightarrow> u32 \<Rightarrow> thread_stats option" where
  "get_thread_stats ag tid = map_of (ag_threads ag) tid"

definition iter_pet_samples :: "aggregator \<Rightarrow> u32 option \<Rightarrow> (u32 \<times> pet_sample) list" where
  "iter_pet_samples ag tid =
     (case tid of
        Some t \<Rightarrow> (case map_of (ag_threads ag) t of
                     Some st \<Rightarrow> map (Pair t) (tst_pet_samples st) | None \<Rightarrow> [])
      | None \<Rightarrow> concat (map (\<lambda>(t, st). map (Pair t) (tst_pet_samples st)) (ag_threads ag)))"

definition iter_intervals :: "aggregator \<Rightarrow> u32 option \<Rightarrow> (u32 \<times> raw_interval) list" where
  "iter_intervals ag tid =
     (case tid of
        Some t \<Rightarrow> (case map_of (ag_threads ag) t of
                     Some st \<Rightarrow> map (Pair t) (tst_intervals st) | None \<Rightarrow> [])
      | None \<Rightarrow> concat (map (\<lambda>(t, st). map (Pair t) (tst_intervals st)) (ag_threads ag)))"

text \<open>
  \<open>top_wakers\<close>: group by (waker, leaf address), then sort by descending count. The order of
  equal counts is the map's iteration order.
\<close>

definition waker_leaf :: "raw_wakeup \<Rightarrow> u64" where
  "waker_leaf w =
     (case rw_waker_user_stack w of
        a # _ \<Rightarrow> a
      | [] \<Rightarrow> (case rw_waker_kernel_stack w of a # _ \<Rightarrow> a | [] \<Rightarrow> 0))"

definition waker_groups :: "raw_wakeup list \<Rightarrow> (u32 \<times> u64, raw_waker_entry) hmap" where
  "waker_groups ws = fold (\<lambda>w. hm_entry (rw_waker_tid w, waker_leaf w)
      \<lparr>we_waker_tid = rw_waker_tid w, we_leaf_address = waker_leaf w, we_count = 0\<rparr>
      (\<lambda>e. e\<lparr>we_count := we_count e + 1\<rparr>)) ws []"

definition by_count_desc :: "raw_waker_entry \<Rightarrow> raw_waker_entry \<Rightarrow> ordering" where
  "by_count_desc a b = cmp (we_count b) (we_count a)"

definition top_wakers :: "aggregator \<Rightarrow> u32 \<Rightarrow> nat \<Rightarrow> raw_waker_entry list" where
  "top_wakers ag wakee_tid limit =
     (case map_of (ag_threads ag) wakee_tid of
        None \<Rightarrow> []
      | Some st \<Rightarrow> take limit (sort_by by_count_desc (map snd (waker_groups (tst_wakeups st)))))"

section \<open>The aggregation pass\<close>

datatype event_ctx =
  CtxPetSample u32 pet_sample
| CtxInterval u32 raw_interval

record aggregation =
  agn_flame_root :: stack_node
  agn_by_address :: addr_table
  agn_total_on_cpu_ns :: u64
  agn_total_off_cpu :: off_cpu_breakdown

definition empty_aggregation :: aggregation where
  "empty_aggregation = \<lparr>agn_flame_root = empty_node, agn_by_address = [], agn_total_on_cpu_ns = 0,
     agn_total_off_cpu = breakdown_zero\<rparr>"

definition total_off_cpu_ns :: "aggregation \<Rightarrow> u64" where
  "total_off_cpu_ns a = total_ns (agn_total_off_cpu a)"

text \<open>\<open>while cursor < len && samples[cursor].timestamp_ns < start { cursor += 1 }\<close>\<close>

function advance_cursor :: "pet_sample list \<Rightarrow> u64 \<Rightarrow> nat \<Rightarrow> nat" where
  "advance_cursor samples start c =
     (if c < length samples \<and> smp_time (samples ! c) < start
      then advance_cursor samples start (c + 1) else c)"
  by pat_completeness auto
termination by (relation "measure (\<lambda>(samples, start, c). length samples - c)") auto

text \<open>The scan from the cursor: every sample before \<open>end\<close> that passes the predicate.\<close>

function collect_matching ::
  "(pet_sample \<Rightarrow> bool) \<Rightarrow> pet_sample list \<Rightarrow> u64 \<Rightarrow> nat \<Rightarrow> pet_sample list" where
  "collect_matching pred samples end_ns idx =
     (if idx < length samples \<and> smp_time (samples ! idx) < end_ns
      then (if pred (samples ! idx) then [samples ! idx] else []) @
        collect_matching pred samples end_ns (idx + 1)
      else [])"
  by pat_completeness auto
termination by (relation "measure (\<lambda>(pred, samples, end_ns, idx). length samples - idx)") auto

declare advance_cursor.simps [simp del] collect_matching.simps [simp del]

definition interval_end :: "u64 \<Rightarrow> raw_interval \<Rightarrow> u64" where
  "interval_end now iv = (if ri_end_ns iv = 0 then max now (ri_start_ns iv) else ri_end_ns iv)"

definition put_credit :: "(stack_node \<times> addr_table \<Rightarrow> stack_node \<times> addr_table) \<Rightarrow> aggregation \<Rightarrow> aggregation" where
  "put_credit f a = (let rt = f (agn_flame_root a, agn_by_address a) in
     a\<lparr>agn_flame_root := fst rt, agn_by_address := snd rt\<rparr>)"

text \<open>
  The body of the loop over one thread's intervals, on the cursor and the results so far;
  every \<open>continue\<close> of the loop returns its state unchanged but for the cursor.
\<close>

definition aggregate_interval ::
  "(u64 \<Rightarrow> string option) \<Rightarrow> (event_ctx \<Rightarrow> bool) \<Rightarrow> u64 \<Rightarrow> u32 \<Rightarrow> pet_sample list \<Rightarrow>
   raw_interval \<Rightarrow> nat \<times> aggregation \<Rightarrow> nat \<times> aggregation" where
  "aggregate_interval lookup_name predicate now tid samples iv st =
     (let (cursor, agg) = st;
          start = ri_start_ns iv;
          end_ns = interval_end now iv;
          duration = sat_sub end_ns start in
      if duration = 0 then st
      else case ri_kind iv of
        OnCpu \<Rightarrow>
          (let cursor' = advance_cursor samples start cursor;
               matching = collect_matching (\<lambda>s. predicate (CtxPetSample tid s)) samples end_ns cursor' in
           if matching = [] then (cursor', agg)
           else let credit_ns = duration div of_nat (length matching) in
             if credit_ns = 0 then (cursor', agg)
             else (cursor', fold (\<lambda>s. put_credit (credit_on_cpu_to_tree (smp_stack s) credit_ns (smp_pmu s)))
               matching (agg\<lparr>agn_total_on_cpu_ns := sat_add (agn_total_on_cpu_ns agg) duration\<rparr>)))
      | OffCpu stack _ _ \<Rightarrow>
          if \<not> predicate (CtxInterval tid iv) then st
          else let leaf_name = (case stack of [] \<Rightarrow> None | addr # _ \<Rightarrow> lookup_name addr);
                   reason = classify_offcpu leaf_name in
            (cursor, put_credit (credit_off_cpu_to_tree stack reason duration)
               (agg\<lparr>agn_total_off_cpu := add_reason reason duration (agn_total_off_cpu agg)\<rparr>)))"

definition aggregate_thread ::
  "(u64 \<Rightarrow> string option) \<Rightarrow> (event_ctx \<Rightarrow> bool) \<Rightarrow> u64 \<Rightarrow> (u32, thread_stats) hmap \<Rightarrow> u32 \<Rightarrow>
   aggregation \<Rightarrow> aggregation" where
  "aggregate_thread lookup_name predicate now threads tid agg =
     (case map_of threads tid of
        None \<Rightarrow> agg
      | Some stats \<Rightarrow> snd (fold (aggregate_interval lookup_name predicate now tid (tst_pet_samples stats))
          (tst_intervals stats) (0, agg)))"

definition aggregate ::
  "aggregator \<Rightarrow> u32 option \<Rightarrow> (u64 \<Rightarrow> string option) \<Rightarrow> (event_ctx \<Rightarrow> bool) \<Rightarrow> aggregation" where
  "aggregate ag tid lookup_name predicate =
     (let now = or_default (ag_last_event_ns ag) 0;
          tids = (case tid of
              Some t \<Rightarrow> if map_of (ag_threads ag) t \<noteq> None then [t] else []
            | None \<Rightarrow> map fst (ag_threads ag)) in
      fold (aggregate_thread lookup_name predicate now (ag_threads ag)) tids empty_aggregation)"

definition aggregate_all :: "aggregator \<Rightarrow> (u64 \<Rightarrow> string option) \<Rightarrow> aggregation" where
  "aggregate_all ag lookup_name = aggregate ag None lookup_name (\<lambda>_. True)"

section \<open>The two-pointer walk against its specification\<close>

text \<open>The credits one interval gives, with the samples selected by a plain filter.\<close>

definition interval_credits ::
  "(u64 \<Rightarrow> string option) \<Rightarrow> (event_ctx \<Rightarrow> bool) \<Rightarrow> u64 \<Rightarrow> u32 \<Rightarrow> pet_sample list \<Rightarrow>
   raw_interval \<Rightarrow> credit list" where
  "interval_credits lookup_name predicate now tid samples iv =
     (let start = ri_start_ns iv; end_ns = interval_end now iv; duration = sat_sub end_ns start in
      case ri_kind iv of
        OnCpu \<Rightarrow>
          (let sel = filter (\<lambda>s. start \<le> smp_time s \<and> smp_time s < end_ns \<and>
                 predicate (CtxPetSample tid s)) samples;
               share = duration div of_nat (length sel) in
           if duration = 0 \<or> sel = [] \<or> share = 0 then []
           else map (\<lambda>s. CreditOn (smp_stack s) share (smp_pmu s)) sel)
      | OffCpu stack _ _ \<Rightarrow>
          if duration = 0 \<or> \<not> predicate (CtxInterval tid iv) then []
          else [CreditOff stack
             (classify_offcpu (case stack of [] \<Rightarrow> None | a # _ \<Rightarrow> lookup_name a)) duration])"

text \<open>The on-CPU time an interval adds to the headline total.\<close>

definition interval_on_total ::
  "(u64 \<Rightarrow> string option) \<Rightarrow> (event_ctx \<Rightarrow> bool) \<Rightarrow> u64 \<Rightarrow> u32 \<Rightarrow> pet_sample list \<Rightarrow>
   raw_interval \<Rightarrow> u64" where
  "interval_on_total lookup_name predicate now tid samples iv =
     (if ri_kind iv = OnCpu \<and> interval_credits lookup_name predicate now tid samples iv \<noteq> []
      then sat_sub (interval_end now iv) (ri_start_ns iv) else 0)"

fun credit_breakdown :: "credit \<Rightarrow> off_cpu_breakdown \<Rightarrow> off_cpu_breakdown" where
  "credit_breakdown (CreditOn _ _ _) b = b"
| "credit_breakdown (CreditOff _ r d) b = add_reason r d b"

definition add_credits :: "credit list \<Rightarrow> u64 \<Rightarrow> aggregation \<Rightarrow> aggregation" where
  "add_credits cs on_total a =
     (let rt = fold apply_credit cs (agn_flame_root a, agn_by_address a) in
      \<lparr>agn_flame_root = fst rt, agn_by_address = snd rt,
       agn_total_on_cpu_ns = sat_add (agn_total_on_cpu_ns a) on_total,
       agn_total_off_cpu = fold credit_breakdown cs (agn_total_off_cpu a)\<rparr>)"

lemma add_credits_Nil [simp]: "add_credits [] 0 a = a"
  by (simp add: add_credits_def)

lemma add_credits_add_credits:
  "add_credits cs2 t2 (add_credits cs1 t1 a) = add_credits (cs1 @ cs2) (sat_add t1 t2) a"
  by (simp add: add_credits_def Let_def sat_add_assoc)

lemma fold_put_credit_on:
  "fold (\<lambda>s. put_credit (credit_on_cpu_to_tree (smp_stack s) ns (smp_pmu s))) sel a =
     add_credits (map (\<lambda>s. CreditOn (smp_stack s) ns (smp_pmu s)) sel) 0 a"
proof (induction sel arbitrary: a)
  case Nil
  then show ?case by simp
next
  case (Cons s sel)
  then show ?case by (simp add: put_credit_def add_credits_def Let_def)
qed

lemma advance_cursor_dropWhile:
  "advance_cursor samples start c = c + length (takeWhile (\<lambda>s. smp_time s < start) (drop c samples))"
proof (induction samples start c rule: advance_cursor.induct)
  case (1 samples start c)
  then show ?case
    by (cases "c < length samples")
      (simp_all add: advance_cursor.simps [of samples start c] Cons_nth_drop_Suc [symmetric])
qed

lemma collect_matching_takeWhile:
  "collect_matching pred samples end_ns idx =
     filter pred (takeWhile (\<lambda>s. smp_time s < end_ns) (drop idx samples))"
proof (induction pred samples end_ns idx rule: collect_matching.induct)
  case (1 pred samples end_ns idx)
  then show ?case
    by (cases "idx < length samples")
      (simp_all add: collect_matching.simps [of pred samples end_ns idx] Cons_nth_drop_Suc [symmetric])
qed

abbreviation time_sorted :: "pet_sample list \<Rightarrow> bool" where
  "time_sorted \<equiv> sorted_wrt (\<lambda>s s'. smp_time s \<le> smp_time s')"

lemma time_sorted_takeWhile:
  "time_sorted xs \<Longrightarrow> takeWhile (\<lambda>s. smp_time s < t) xs = filter (\<lambda>s. smp_time s < t) xs"
proof (induction xs)
  case (Cons x xs)
  have "filter (\<lambda>s. smp_time s < t) xs = []" if "\<not> smp_time x < t"
    using that Cons.prems by (force simp: filter_empty_conv)
  with Cons show ?case by simp
qed simp

lemma time_sorted_dropWhile:
  "time_sorted xs \<Longrightarrow> dropWhile (\<lambda>s. smp_time s < t) xs = filter (\<lambda>s. t \<le> smp_time s) xs"
proof (induction xs)
  case (Cons x xs)
  have "filter (\<lambda>s. t \<le> smp_time s) xs = xs" if "t \<le> smp_time x"
    using that Cons.prems by (force simp: filter_id_conv)
  with Cons show ?case by (auto simp: not_less)
qed simp

lemma window_exact:
  assumes sorted: "time_sorted samples"
    and passed: "\<forall>s \<in> set (take c samples). smp_time s < start"
  shows "collect_matching pred samples end_ns (advance_cursor samples start c) =
      filter (\<lambda>s. start \<le> smp_time s \<and> smp_time s < end_ns \<and> pred s) samples"
    and "\<forall>s \<in> set (take (advance_cursor samples start c) samples). smp_time s < start"
proof -
  let ?d = "drop c samples"
  have dsorted: "time_sorted ?d" using sorted by (rule sorted_wrt_drop)
  have split: "samples = take c samples @ ?d" by simp
  have drop: "drop (advance_cursor samples start c) samples = filter (\<lambda>s. start \<le> smp_time s) ?d"
    unfolding advance_cursor_dropWhile add.commute [of c] drop_drop [symmetric]
      dropWhile_eq_drop [symmetric] time_sorted_dropWhile [OF dsorted] ..
  have front: "filter (\<lambda>s. start \<le> smp_time s \<and> smp_time s < end_ns \<and> pred s) (take c samples) = []"
    using passed by (auto simp: filter_empty_conv not_le [symmetric] simp del: not_le)
  have "filter (\<lambda>s. start \<le> smp_time s \<and> smp_time s < end_ns \<and> pred s) samples =
      filter (\<lambda>s. start \<le> smp_time s \<and> smp_time s < end_ns \<and> pred s) ?d"
    by (subst split) (simp only: filter_append front append_Nil)
  also have "\<dots> = filter pred (filter (\<lambda>s. smp_time s < end_ns) (filter (\<lambda>s. start \<le> smp_time s) ?d))"
    by (simp add: conj_ac)
  also have "\<dots> = filter pred (takeWhile (\<lambda>s. smp_time s < end_ns) (filter (\<lambda>s. start \<le> smp_time s) ?d))"
    using sorted_wrt_filter [OF dsorted] by (simp only: time_sorted_takeWhile)
  finally show "collect_matching pred samples end_ns (advance_cursor samples start c) =
      filter (\<lambda>s. start \<le> smp_time s \<and> smp_time s < end_ns \<and> pred s) samples"
    by (simp only: collect_matching_takeWhile drop)
  have "take (advance_cursor samples start c) samples =
      take c samples @ takeWhile (\<lambda>s. smp_time s < start) ?d"
    by (simp add: advance_cursor_dropWhile take_add takeWhile_eq_take [symmetric])
  then show "\<forall>s \<in> set (take (advance_cursor samples start c) samples). smp_time s < start"
    using passed by (auto dest: set_takeWhileD)
qed

lemma aggregate_interval_credits:
  assumes "time_sorted samples" "\<forall>s \<in> set (take c samples). smp_time s < ri_start_ns iv"
  shows "\<exists>c'. aggregate_interval lookup_name predicate now tid samples iv (c, agg) =
      (c', add_credits (interval_credits lookup_name predicate now tid samples iv)
         (interval_on_total lookup_name predicate now tid samples iv) agg) \<and>
      (\<forall>s \<in> set (take c' samples). smp_time s < ri_start_ns iv)"
proof (cases "ri_kind iv")
  case OnCpu
  note window = window_exact(1) [OF assms, of "\<lambda>s. predicate (CtxPetSample tid s)" "interval_end now iv"]
    window_exact(2) [OF assms]
  show ?thesis
    using assms(2) window(2)
    by (simp add: aggregate_interval_def interval_credits_def interval_on_total_def OnCpu Let_def
        window(1) fold_put_credit_on) (auto simp: add_credits_def Let_def)
next
  case (OffCpu st w ws)
  then show ?thesis
    using assms(2)
    by (auto simp: aggregate_interval_def interval_credits_def interval_on_total_def Let_def
        put_credit_def add_credits_def)
qed

definition starts_sorted :: "raw_interval list \<Rightarrow> bool" where
  "starts_sorted = sorted_wrt (\<lambda>i j. ri_start_ns i \<le> ri_start_ns j)"

definition thread_credits ::
  "(u64 \<Rightarrow> string option) \<Rightarrow> (event_ctx \<Rightarrow> bool) \<Rightarrow> u64 \<Rightarrow> u32 \<times> thread_stats \<Rightarrow> credit list" where
  "thread_credits lookup_name predicate now = (\<lambda>(tid, st).
     concat (map (interval_credits lookup_name predicate now tid (tst_pet_samples st)) (tst_intervals st)))"

definition thread_on_total ::
  "(u64 \<Rightarrow> string option) \<Rightarrow> (event_ctx \<Rightarrow> bool) \<Rightarrow> u64 \<Rightarrow> u32 \<times> thread_stats \<Rightarrow> u64" where
  "thread_on_total lookup_name predicate now = (\<lambda>(tid, st).
     sat_sum (map (interval_on_total lookup_name predicate now tid (tst_pet_samples st)) (tst_intervals st)))"

lemma fold_aggregate_interval:
  assumes "time_sorted samples" "starts_sorted ivs"
    "\<forall>iv \<in> set ivs. \<forall>s \<in> set (take c samples). smp_time s < ri_start_ns iv"
  shows "snd (fold (aggregate_interval lookup_name predicate now tid samples) ivs (c, agg)) =
    add_credits (concat (map (interval_credits lookup_name predicate now tid samples) ivs))
      (sat_sum (map (interval_on_total lookup_name predicate now tid samples) ivs)) agg"
  using assms
proof (induction ivs arbitrary: c agg)
  case Nil
  then show ?case by simp
next
  case (Cons iv ivs)
  obtain c' where step: "aggregate_interval lookup_name predicate now tid samples iv (c, agg) =
      (c', add_credits (interval_credits lookup_name predicate now tid samples iv)
         (interval_on_total lookup_name predicate now tid samples iv) agg)"
    and passed: "\<forall>s \<in> set (take c' samples). smp_time s < ri_start_ns iv"
    using aggregate_interval_credits [of samples c iv lookup_name predicate now tid agg] Cons.prems
    by auto
  have "\<forall>iv' \<in> set ivs. \<forall>s \<in> set (take c' samples). smp_time s < ri_start_ns iv'"
    using passed Cons.prems(2) by (force simp: starts_sorted_def)
  moreover have "starts_sorted ivs" using Cons.prems(2) by (simp add: starts_sorted_def)
  ultimately show ?case
    by (simp add: step Cons.IH [OF assms(1)] add_credits_add_credits)
qed

definition streams_sorted :: "aggregator \<Rightarrow> bool" where
  "streams_sorted ag = list_all (\<lambda>(tid, st). sorted (map smp_time (tst_pet_samples st)) \<and>
     sorted (map ri_start_ns (tst_intervals st))) (ag_threads ag)"

lemma streams_sorted_thread:
  assumes "streams_sorted ag" "(tid, st) \<in> set (ag_threads ag)"
  shows "time_sorted (tst_pet_samples st)" "starts_sorted (tst_intervals st)"
proof -
  have "sorted (map smp_time (tst_pet_samples st)) \<and> sorted (map ri_start_ns (tst_intervals st))"
    using assms by (force simp: streams_sorted_def list_all_iff)
  then show "time_sorted (tst_pet_samples st)" "starts_sorted (tst_intervals st)"
    by (simp_all add: sorted_map starts_sorted_def)
qed

definition selected_threads :: "aggregator \<Rightarrow> u32 option \<Rightarrow> (u32 \<times> thread_stats) list" where
  "selected_threads ag tid = (case tid of None \<Rightarrow> ag_threads ag
     | Some t \<Rightarrow> (case map_of (ag_threads ag) t of None \<Rightarrow> [] | Some st \<Rightarrow> [(t, st)]))"

definition session_credits ::
  "aggregator \<Rightarrow> u32 option \<Rightarrow> (u64 \<Rightarrow> string option) \<Rightarrow> (event_ctx \<Rightarrow> bool) \<Rightarrow> credit list" where
  "session_credits ag tid lookup_name predicate = concat (map
     (thread_credits lookup_name predicate (or_default (ag_last_event_ns ag) 0)) (selected_threads ag tid))"

definition session_on_total ::
  "aggregator \<Rightarrow> u32 option \<Rightarrow> (u64 \<Rightarrow> string option) \<Rightarrow> (event_ctx \<Rightarrow> bool) \<Rightarrow> u64" where
  "session_on_total ag tid lookup_name predicate = sat_sum (map
     (thread_on_total lookup_name predicate (or_default (ag_last_event_ns ag) 0)) (selected_threads ag tid))"

lemma aggregate_thread_credits:
  assumes "streams_sorted ag" "map_of (ag_threads ag) tid = Some st"
  shows "aggregate_thread lookup_name predicate now (ag_threads ag) tid agg =
    add_credits (thread_credits lookup_name predicate now (tid, st))
      (thread_on_total lookup_name predicate now (tid, st)) agg"
  using streams_sorted_thread [OF assms(1) map_of_SomeD [OF assms(2)]]
  by (simp add: aggregate_thread_def assms(2) fold_aggregate_interval thread_credits_def thread_on_total_def)

lemma aggregate_add_credits:
  assumes "streams_sorted ag" "hm_keys_distinct (ag_threads ag)"
  shows "aggregate ag tid lookup_name predicate =
    add_credits (session_credits ag tid lookup_name predicate)
      (session_on_total ag tid lookup_name predicate) empty_aggregation"
proof -
  let ?now = "or_default (ag_last_event_ns ag) 0"
  have sel: "\<forall>(t, st) \<in> set (selected_threads ag tid). map_of (ag_threads ag) t = Some st"
    using assms(2) by (auto simp: selected_threads_def hm_keys_distinct_def split: option.splits)
  have "\<forall>(t, st) \<in> set ts. map_of (ag_threads ag) t = Some st \<Longrightarrow>
      fold (aggregate_thread lookup_name predicate ?now (ag_threads ag)) (map fst ts) agg =
      add_credits (concat (map (thread_credits lookup_name predicate ?now) ts))
        (sat_sum (map (thread_on_total lookup_name predicate ?now) ts)) agg" for ts agg
    by (induction ts arbitrary: agg)
      (auto simp: aggregate_thread_credits [OF assms(1)] add_credits_add_credits)
  note this [OF sel, of empty_aggregation]
  moreover have "aggregate ag tid lookup_name predicate =
      fold (aggregate_thread lookup_name predicate ?now (ag_threads ag)) (map fst (selected_threads ag tid))
        empty_aggregation"
    by (auto simp: aggregate_def selected_threads_def Let_def split: option.split)
  ultimately show ?thesis
    by (simp add: session_credits_def session_on_total_def)
qed

text \<open>
  C2: The two-pointer pass over the event logs, with its shared sample cursor, credits
  exactly what a plain filter would: when each thread's samples and intervals are in time
  order, the flame graph and the per-address table are those of the list of credits in which
  every on-CPU interval is split evenly over the accepted samples inside [start, end) and every
  accepted off-CPU interval goes in full to its own stack, and the headline totals are the
  saturating sums over the same intervals.
\<close>

theorem aggregate_refines_filter:
  assumes "streams_sorted ag" "hm_keys_distinct (ag_threads ag)"
  shows "let cs = session_credits ag tid lookup_name predicate;
             agg = aggregate ag tid lookup_name predicate in
    agn_flame_root agg = fst (apply_credits cs) \<and>
    agn_by_address agg = snd (apply_credits cs) \<and>
    agn_total_on_cpu_ns agg = session_on_total ag tid lookup_name predicate \<and>
    (\<forall>r. reason_ns r (agn_total_off_cpu agg) = sat_sum (map (off_ns r) cs))"
proof -
  have "reason_ns r (credit_breakdown c b) = sat_add (reason_ns r b) (off_ns r c)" for r c b
    by (cases c) (simp_all add: reason_ns_add_reason)
  then show ?thesis
    by (simp add: aggregate_add_credits [OF assms] add_credits_def empty_aggregation_def
        apply_credits_def Let_def fold_counter [where g = "reason_ns r" for r])
qed

definition demo_pmu :: pmu_sample where
  "demo_pmu = \<lparr>pmu_cycles = 100, pmu_instructions = 50, pmu_l1d_misses = 2, pmu_branch_mispreds = 1\<rparr>"

definition demo_aggregator :: aggregator where
  "demo_aggregator =
     record_interval 7 40 60 (OffCpu [10, 30] None None)
       (record_pet_sample 7 25 [20, 30] [] demo_pmu
         (record_pet_sample 7 15 [10, 30] [] demo_pmu
           (record_interval 7 10 40 OnCpu empty_aggregator)))"

lemmas demo_defs = demo_aggregator_def record_interval_def record_pet_sample_def note_timestamp_def
  empty_aggregator_def empty_thread_stats_def push_capped_def MAX_EVENTS_PER_THREAD_def Let_def

lemma demo_aggregator_sorted:
  "streams_sorted demo_aggregator" "hm_keys_distinct (ag_threads demo_aggregator)"
  by (simp_all add: demo_defs streams_sorted_def hm_keys_distinct_def)

theorem aggregate_refines_filter_witness:
  "agn_total_on_cpu_ns (aggregate demo_aggregator (Some 7) (\<lambda>_. None) (\<lambda>_. True)) = 30 \<and>
   agn_flame_root (aggregate demo_aggregator (Some 7) (\<lambda>_. None) (\<lambda>_. True)) =
     fst (apply_credits [CreditOn [10, 30] 15 demo_pmu, CreditOn [20, 30] 15 demo_pmu, CreditOff [10, 30] Other 20])"
proof -
  have credits: "session_credits demo_aggregator (Some 7) (\<lambda>_. None) (\<lambda>_. True) =
      [CreditOn [10, 30] 15 demo_pmu, CreditOn [20, 30] 15 demo_pmu, CreditOff [10, 30] Other 20]"
    by (simp add: session_credits_def selected_threads_def thread_credits_def interval_credits_def
        interval_end_def demo_defs sat_sub_def classify_offcpu_def)
  have total: "session_on_total demo_aggregator (Some 7) (\<lambda>_. None) (\<lambda>_. True) = 30"
    by (simp add: session_on_total_def selected_threads_def thread_on_total_def interval_on_total_def
        interval_credits_def interval_end_def demo_defs sat_sub_def sat_add_def)
  show ?thesis
    using aggregate_refines_filter [OF demo_aggregator_sorted, of "Some 7" "\<lambda>_. None" "\<lambda>_. True"]
    by (simp add: credits total Let_def)
qed

section \<open>Recording sequences\<close>

datatype agg_event =
  RecPet u32 u64 "u64 list" "u64 list" pmu_sample
| RecInterval u32 u64 u64 interval_kind
| RecWakeup u64 u32 u32 "u64 list" "u64 list"
| RecName u32 string

fun agg_step :: "agg_event \<Rightarrow> aggregator \<Rightarrow> aggregator" where
  "agg_step (RecPet tid t us ks pmu) = record_pet_sample tid t us ks pmu"
| "agg_step (RecInterval tid s e k) = record_interval tid s e k"
| "agg_step (RecWakeup t waker wakee us ks) = record_wakeup t waker wakee us ks"
| "agg_step (RecName tid n) = set_thread_name tid n"

definition agg_run :: "agg_event list \<Rightarrow> aggregator" where
  "agg_run evs = fold agg_step evs empty_aggregator"

fun event_times :: "agg_event \<Rightarrow> u64 list" where
  "event_times (RecPet _ t _ _ _) = [t]"
| "event_times (RecInterval _ s e _) = [s, e]"
| "event_times (RecWakeup t _ _ _ _) = [t]"
| "event_times (RecName _ _) = []"

fun pet_of :: "u32 \<Rightarrow> agg_event \<Rightarrow> pet_sample list" where
  "pet_of tid (RecPet tid' t us ks pmu) = (if tid' = tid then
     [\<lparr>smp_time = t, smp_stack = us, smp_kernel_stack = ks, smp_pmu = pmu\<rparr>] else [])"
| "pet_of tid _ = []"

fun interval_of :: "u32 \<Rightarrow> agg_event \<Rightarrow> raw_interval list" where
  "interval_of tid (RecInterval tid' s e k) = (if tid' = tid then
     [\<lparr>ri_start_ns = s, ri_end_ns = e, ri_kind = k\<rparr>] else [])"
| "interval_of tid _ = []"

fun wakeup_of :: "u32 \<Rightarrow> agg_event \<Rightarrow> raw_wakeup list" where
  "wakeup_of tid (RecWakeup t waker wakee us ks) = (if wakee = tid then
     [\<lparr>rw_timestamp_ns = t, rw_waker_tid = waker, rw_waker_user_stack = us, rw_waker_kernel_stack = ks\<rparr>]
     else [])"
| "wakeup_of tid _ = []"

definition logged :: "(agg_event \<Rightarrow> 'a list) \<Rightarrow> agg_event list \<Rightarrow> 'a list" where
  "logged f evs = take_last MAX_EVENTS_PER_THREAD (concat (map f evs))"

lemma logged_Nil [simp]: "logged f [] = []"
  by (simp add: logged_def take_last_def)

lemma logged_snoc:
  "f e = [] \<Longrightarrow> logged f (evs @ [e]) = logged f evs"
  "f e = [x] \<Longrightarrow> logged f (evs @ [e]) = push_capped MAX_EVENTS_PER_THREAD x (logged f evs)"
  by (simp_all add: logged_def push_capped_take_last MAX_EVENTS_PER_THREAD_def)

definition thread_logs :: "agg_event list \<Rightarrow> u32 \<Rightarrow> thread_stats" where
  "thread_logs evs tid = \<lparr>tst_pet_samples = logged (pet_of tid) evs,
     tst_intervals = logged (interval_of tid) evs, tst_wakeups = logged (wakeup_of tid) evs\<rparr>"

definition has_events :: "agg_event list \<Rightarrow> u32 \<Rightarrow> bool" where
  "has_events evs tid \<longleftrightarrow> (\<exists>e \<in> set evs. pet_of tid e \<noteq> [] \<or> interval_of tid e \<noteq> [] \<or> wakeup_of tid e \<noteq> [])"

lemma ag_threads_note_timestamp [simp]: "ag_threads (note_timestamp t ag) = ag_threads ag"
  by (simp add: note_timestamp_def)

lemma agg_run_snoc: "agg_run (evs @ [e]) = agg_step e (agg_run evs)"
  by (simp add: agg_run_def)

lemma thread_logs_default: "\<not> has_events evs tid \<Longrightarrow> thread_logs evs tid = empty_thread_stats"
proof -
  assume "\<not> has_events evs tid"
  then have "concat (map (pet_of tid) evs) = []" "concat (map (interval_of tid) evs) = []"
    "concat (map (wakeup_of tid) evs) = []"
    by (auto simp: has_events_def)
  then show ?thesis by (simp only: thread_logs_def empty_thread_stats_def logged_def) (simp add: take_last_def)
qed

lemma threads_agg_run:
  "map_of (ag_threads (agg_run evs)) tid =
     (if has_events evs tid then Some (thread_logs evs tid) else None)"
proof (induction evs rule: rev_induct)
  case Nil
  then show ?case by (simp add: agg_run_def empty_aggregator_def has_events_def)
next
  case (snoc e evs)
  have old: "\<not> has_events evs tid \<Longrightarrow> empty_thread_stats = thread_logs evs tid"
    by (simp add: thread_logs_default)
  have has: "has_events (evs @ [e]) tid \<longleftrightarrow> has_events evs tid \<or>
      pet_of tid e \<noteq> [] \<or> interval_of tid e \<noteq> [] \<or> wakeup_of tid e \<noteq> []"
    by (auto simp: has_events_def)
  show ?case
    unfolding agg_run_snoc has
    by (cases e; cases "has_events evs tid")
      (auto simp: record_pet_sample_def record_interval_def record_wakeup_def set_thread_name_def
        Let_def hm_simps old snoc.IH thread_logs_def logged_snoc)
qed

lemma keys_distinct_agg_run: "hm_keys_distinct (ag_threads (agg_run evs))"
proof (induction evs rule: rev_induct)
  case Nil
  then show ?case by (simp add: agg_run_def empty_aggregator_def hm_simps)
next
  case (snoc e evs)
  then show ?case
    unfolding agg_run_snoc
    by (cases e) (simp_all add: record_pet_sample_def record_interval_def record_wakeup_def
        set_thread_name_def Let_def hm_simps)
qed

definition span_of :: "u64 list \<Rightarrow> (u64 \<times> u64) option" where
  "span_of ts = (case filter (\<lambda>t. t \<noteq> 0) ts of [] \<Rightarrow> None | t # r \<Rightarrow> Some (t, fold max r t))"

definition ag_span :: "aggregator \<Rightarrow> (u64 \<times> u64) option" where
  "ag_span ag = (case (ag_session_start_ns ag, ag_last_event_ns ag) of
     (Some s, Some l) \<Rightarrow> Some (s, l) | _ \<Rightarrow> None)"

lemma ag_span_note:
  assumes "ag_span ag = span_of ts" "ag_session_start_ns ag = None \<longleftrightarrow> ag_last_event_ns ag = None"
  shows "ag_span (note_timestamp t ag) = span_of (ts @ [t]) \<and>
    (ag_session_start_ns (note_timestamp t ag) = None \<longleftrightarrow> ag_last_event_ns (note_timestamp t ag) = None)"
  using assms
  by (auto simp: ag_span_def span_of_def note_timestamp_def max.commute split: option.splits list.splits)

lemma span_of_zero: "span_of (ts @ [0]) = span_of ts"
  by (simp add: span_of_def)

lemma span_agg_run:
  "ag_span (agg_run evs) = span_of (concat (map event_times evs)) \<and>
   (ag_session_start_ns (agg_run evs) = None \<longleftrightarrow> ag_last_event_ns (agg_run evs) = None)"
proof (induction evs rule: rev_induct)
  case Nil
  then show ?case by (simp add: agg_run_def empty_aggregator_def ag_span_def span_of_def)
next
  case (snoc e evs)
  have threads: "ag_span (ag\<lparr>ag_threads := x\<rparr>) = ag_span ag" "ag_span (ag\<lparr>ag_thread_names := y\<rparr>) = ag_span ag"
    for ag x y by (simp_all add: ag_span_def)
  show ?case
  proof (cases e)
    case (RecInterval tid s e' k)
    have "concat (map event_times (evs @ [e])) = (concat (map event_times evs) @ [s]) @ [e']"
      by (simp add: RecInterval)
    then show ?thesis
      using snoc ag_span_note [of "agg_run evs" "concat (map event_times evs)" s]
        ag_span_note [of "note_timestamp s (agg_run evs)" "concat (map event_times evs) @ [s]" e']
        span_of_zero [of "concat (map event_times evs) @ [s]"]
      unfolding agg_run_snoc
      by (simp only:) (auto simp: RecInterval record_interval_def Let_def threads)
  qed (use snoc in \<open>simp_all add: agg_run_snoc record_pet_sample_def record_wakeup_def
      set_thread_name_def Let_def threads ag_span_note\<close>)
qed

text \<open>
  C8: After any sequence of recordings, a thread is known exactly when something was recorded
  for it; its three queues hold the last 100,000 samples, intervals and wakeups recorded for it,
  in order; and the session spans the first to the greatest non-zero timestamp recorded.
\<close>

theorem aggregator_logs_exact:
  "get_thread_stats (agg_run evs) tid = (if has_events evs tid then Some (thread_logs evs tid) else None) \<and>
   hm_keys_distinct (ag_threads (agg_run evs)) \<and>
   ag_span (agg_run evs) = span_of (concat (map event_times evs))"
  by (simp add: get_thread_stats_def threads_agg_run keys_distinct_agg_run span_agg_run)

section \<open>The graph never exceeds the headline time\<close>

lemma even_split_le:
  assumes "length xs < 2 ^ 64"
  shows "sat_sum (map (\<lambda>_. d div of_nat (length xs)) xs) \<le> (d :: u64)"
proof -
  have "unat (d div of_nat (length xs)) = unat d div length xs"
    using assms by (simp add: unat_div unat_of_nat)
  then show ?thesis
    by (simp add: word_le_nat_alt unat_sat_sum comp_def map_replicate_const sum_list_replicate
        min.coboundedI1)
qed

lemma sat_sum_zero: "(\<And>x. x \<in> set xs \<Longrightarrow> f x = 0) \<Longrightarrow> sat_sum (map f xs) = 0"
  by (induction xs) auto

lemma interval_credits_on_le:
  assumes "length samples < 2 ^ 64"
  shows "sat_sum (map on_ns (interval_credits lookup_name predicate now tid samples iv))
     \<le> interval_on_total lookup_name predicate now tid samples iv"
proof (cases "interval_credits lookup_name predicate now tid samples iv = []")
  case True
  then show ?thesis by simp
next
  case False
  define sel where "sel = filter (\<lambda>s. ri_start_ns iv \<le> smp_time s \<and> smp_time s < interval_end now iv \<and>
      predicate (CtxPetSample tid s)) samples"
  define d where "d = sat_sub (interval_end now iv) (ri_start_ns iv)"
  have "length sel < 2 ^ 64"
    using assms length_filter_le [of _ samples] unfolding sel_def by (rule le_less_trans [rotated])
  then have split: "sat_sum (map (\<lambda>_. d div of_nat (length sel)) sel) \<le> d"
    by (rule even_split_le)
  show ?thesis
  proof (cases "ri_kind iv")
    case OnCpu
    then have "interval_credits lookup_name predicate now tid samples iv =
        map (\<lambda>s. CreditOn (smp_stack s) (d div of_nat (length sel)) (smp_pmu s)) sel"
      using False by (auto simp: interval_credits_def Let_def sel_def d_def)
    then show ?thesis
      using split False by (simp add: interval_on_total_def OnCpu comp_def d_def)
  next
    case (OffCpu st w ws)
    then show ?thesis by (auto simp: interval_credits_def Let_def)
  qed
qed

lemma on_ns_concat_le:
  assumes "\<And>x. x \<in> set xs \<Longrightarrow> sat_sum (map on_ns (f x)) \<le> g x"
  shows "sat_sum (map on_ns (concat (map f xs))) \<le> sat_sum (map g xs)"
  using assms by (induction xs) (auto intro: sat_add_mono)

lemma session_credits_on_le:
  "sat_sum (map on_ns (session_credits (agg_run evs) tid lookup_name predicate))
     \<le> session_on_total (agg_run evs) tid lookup_name predicate"
proof -
  have len: "length (tst_pet_samples st) < 2 ^ 64"
    if "(t, st) \<in> set (selected_threads (agg_run evs) tid)" for t st
  proof -
    have "map_of (ag_threads (agg_run evs)) t = Some st"
      using that keys_distinct_agg_run [of evs]
      by (auto simp: selected_threads_def hm_keys_distinct_def split: option.splits)
    then have "tst_pet_samples st = logged (pet_of t) evs"
      by (auto simp: threads_agg_run thread_logs_def split: if_splits)
    then show ?thesis by (simp add: logged_def MAX_EVENTS_PER_THREAD_def)
  qed
  show ?thesis
    unfolding session_credits_def session_on_total_def
  proof (rule on_ns_concat_le)
    fix x assume x: "x \<in> set (selected_threads (agg_run evs) tid)"
    obtain t st where eq: "x = (t, st)" by (cases x)
    show "sat_sum (map on_ns (thread_credits lookup_name predicate
          (or_default (ag_last_event_ns (agg_run evs)) 0) x))
        \<le> thread_on_total lookup_name predicate (or_default (ag_last_event_ns (agg_run evs)) 0) x"
      unfolding eq thread_credits_def thread_on_total_def prod.case
      by (rule on_ns_concat_le) (rule interval_credits_on_le [OF len [OF x [unfolded eq]]])
  qed
qed

text \<open>
  The flame graph never shows more on-CPU time than the headline total: the
  top-level frames together hold at most the total of the intervals counted, since the even
  split rounds down and samples without a stack are dropped.
\<close>

theorem flame_within_total_on_cpu:
  assumes "streams_sorted (agg_run evs)"
  shows "child_sum nd_on_cpu_ns (agn_flame_root (aggregate (agg_run evs) tid lookup_name predicate))
    \<le> agn_total_on_cpu_ns (aggregate (agg_run evs) tid lookup_name predicate)"
proof -
  let ?cs = "session_credits (agg_run evs) tid lookup_name predicate"
  have "child_sum nd_on_cpu_ns (fst (apply_credits ?cs)) =
      sat_sum (map on_ns (filter (\<lambda>c. credit_stack c \<noteq> []) ?cs))"
    using fold_credits_conserve [of nd_on_cpu_ns on_ns ?cs]
    by (simp add: credit_stats_counters node_stats_zero_def)
  then show ?thesis
    using order.trans [OF sat_sum_filter_le session_credits_on_le]
    by (simp add: aggregate_add_credits [OF assms keys_distinct_agg_run] add_credits_def
        empty_aggregation_def apply_credits_def Let_def)
qed

theorem flame_within_total_on_cpu_witness:
  "child_sum nd_on_cpu_ns (agn_flame_root (aggregate (agg_run
       [RecPet 7 15 [10, 30] [] demo_pmu, RecInterval 7 10 40 OnCpu]) None (\<lambda>_. None) (\<lambda>_. True)))
    \<le> agn_total_on_cpu_ns (aggregate (agg_run
       [RecPet 7 15 [10, 30] [] demo_pmu, RecInterval 7 10 40 OnCpu]) None (\<lambda>_. None) (\<lambda>_. True))"
  by (rule flame_within_total_on_cpu) (simp add: agg_run_def demo_defs streams_sorted_def)

section \<open>Wakers\<close>

definition waker_key :: "raw_wakeup \<Rightarrow> u32 \<times> u64" where
  "waker_key w = (rw_waker_tid w, waker_leaf w)"

lemma waker_groups_snoc: "waker_groups (ws @ [w]) = hm_entry (waker_key w)
    \<lparr>we_waker_tid = rw_waker_tid w, we_leaf_address = waker_leaf w, we_count = 0\<rparr>
    (\<lambda>e. e\<lparr>we_count := we_count e + 1\<rparr>) (waker_groups ws)"
  by (simp add: waker_groups_def waker_key_def)

lemma map_of_waker_groups:
  "map_of (waker_groups ws) k =
     (if k \<in> waker_key ` set ws
      then Some \<lparr>we_waker_tid = fst k, we_leaf_address = snd k, we_count = of_nat (count_list (map waker_key ws) k)\<rparr>
      else None)"
proof (induction ws rule: rev_induct)
  case Nil
  then show ?case by (simp add: waker_groups_def)
next
  case (snoc w ws)
  have key: "fst (waker_key w) = rw_waker_tid w" "snd (waker_key w) = waker_leaf w"
    by (simp_all add: waker_key_def)
  show ?case
  proof (cases "k = waker_key w")
    case True
    then show ?thesis
      by (cases "k \<in> waker_key ` set ws")
        (simp_all add: True waker_groups_snoc hm_simps snoc.IH [unfolded True] key add.commute count_list_0_iff)
  next
    case False
    then show ?thesis by (simp add: waker_groups_snoc hm_simps snoc.IH)
  qed
qed

lemma waker_groups_distinct: "hm_keys_distinct (waker_groups ws)"
  by (induction ws rule: rev_induct) (auto simp: waker_groups_snoc hm_simps waker_groups_def [of "[]"])

lemma total_cmp_by_count_desc: "total_cmp by_count_desc"
  by (auto simp: total_cmp_def by_count_desc_def cmp_def split: if_splits)

lemma waker_group_entry:
  assumes "e \<in> snd ` set (waker_groups ws)"
  shows "(we_waker_tid e, we_leaf_address e) \<in> waker_key ` set ws \<and>
    we_count e = of_nat (count_list (map waker_key ws) (we_waker_tid e, we_leaf_address e)) \<and>
    map_of (waker_groups ws) (we_waker_tid e, we_leaf_address e) = Some e"
proof -
  obtain k where "(k, e) \<in> set (waker_groups ws)" using assms by auto
  then have k: "map_of (waker_groups ws) k = Some e"
    using waker_groups_distinct [of ws] by (simp add: hm_keys_distinct_def)
  then have "k \<in> waker_key ` set ws"
    "e = \<lparr>we_waker_tid = fst k, we_leaf_address = snd k, we_count = of_nat (count_list (map waker_key ws) k)\<rparr>"
    by (simp_all add: map_of_waker_groups split: if_splits)
  then show ?thesis using k by simp
qed

text \<open>
  The wakers query reports wakers by descending count, at most as many as asked for and each
  (waker, leaf) pair at most once; every reported count is the exact number of recorded wakeups
  of that pair, and a pair that is left out was beaten: the list is full and no entry in it has
  a smaller count.
\<close>

theorem top_wakers_exact:
  assumes "map_of (ag_threads ag) tid = Some st"
  shows "let ws = tst_wakeups st; out = top_wakers ag tid limit;
             n = (\<lambda>k. of_nat (count_list (map waker_key ws) k) :: u64) in
    sorted_wrt (\<lambda>a b. we_count b \<le> we_count a) out \<and> length out \<le> limit \<and>
    distinct (map (\<lambda>e. (we_waker_tid e, we_leaf_address e)) out) \<and>
    (\<forall>e \<in> set out. we_count e = n (we_waker_tid e, we_leaf_address e) \<and>
       (we_waker_tid e, we_leaf_address e) \<in> waker_key ` set ws) \<and>
    (\<forall>k \<in> waker_key ` set ws. k \<notin> (\<lambda>e. (we_waker_tid e, we_leaf_address e)) ` set out \<longrightarrow>
       length out = limit \<and> (\<forall>e \<in> set out. n k \<le> we_count e))"
proof -
  define key where "key = (\<lambda>e :: raw_waker_entry. (we_waker_tid e, we_leaf_address e))"
  define gs where "gs = waker_groups (tst_wakeups st)"
  define all where "all = sort_by by_count_desc (map snd gs)"
  have out: "top_wakers ag tid limit = take limit all"
    by (simp add: top_wakers_def assms all_def gs_def)
  have entry: "key e \<in> waker_key ` set (tst_wakeups st) \<and>
      we_count e = of_nat (count_list (map waker_key (tst_wakeups st)) (key e)) \<and> map_of gs (key e) = Some e"
    if "e \<in> set all" for e
    using waker_group_entry [of e "tst_wakeups st"] that by (simp add: all_def gs_def key_def)
  have desc: "sorted_wrt (\<lambda>a b. we_count b \<le> we_count a) all"
  proof (rule sorted_wrt_mono_rel)
    show "sorted_by by_count_desc all"
      unfolding all_def by (rule sorted_by_sort_by [OF total_cmp_by_count_desc])
  qed (simp add: by_count_desc_def cmp_def not_less split: if_splits)
  have "inj_on key (set all)"
    by (rule inj_onI) (metis entry option.inject)
  moreover have "distinct (map snd gs)"
  proof -
    have "inj_on snd (set gs)"
    proof (rule inj_onI)
      fix x y assume "x \<in> set gs" "y \<in> set gs" "snd x = snd y"
      moreover have "fst x = key (snd x)" if "x \<in> set gs" for x
      proof -
        have "map_of gs (fst x) = Some (snd x)"
          using that waker_groups_distinct [of "tst_wakeups st"]
          by (simp add: gs_def hm_keys_distinct_def)
        then have "snd x = \<lparr>we_waker_tid = fst (fst x), we_leaf_address = snd (fst x),
            we_count = of_nat (count_list (map waker_key (tst_wakeups st)) (fst x))\<rparr>"
          unfolding gs_def map_of_waker_groups by (simp split: if_splits)
        then show ?thesis by (simp add: key_def)
      qed
      ultimately show "x = y" by (simp add: prod_eq_iff)
    qed
    then show ?thesis
      using waker_groups_distinct [of "tst_wakeups st"]
      by (simp add: gs_def hm_keys_distinct_def distinct_map)
  qed
  ultimately have dist: "distinct (map key all)"
    by (metis all_def distinct_map mset_sort_by mset_eq_imp_distinct_iff)
  have beaten: "length (take limit all) = limit \<and>
      (\<forall>e \<in> set (take limit all). of_nat (count_list (map waker_key (tst_wakeups st)) k) \<le> we_count e)"
    if k: "k \<in> waker_key ` set (tst_wakeups st)" "k \<notin> key ` set (take limit all)" for k
  proof -
    obtain e where e: "map_of gs k = Some e" "key e = k"
      "we_count e = of_nat (count_list (map waker_key (tst_wakeups st)) k)"
      using k(1) by (auto simp: gs_def map_of_waker_groups key_def)
    then have "e \<in> set all" by (force simp: all_def dest: map_of_SomeD)
    then have "e \<in> set (drop limit all)"
      using k(2) e(2) by (metis append_take_drop_id Un_iff set_append image_eqI)
    moreover have "sorted_wrt (\<lambda>a b. we_count b \<le> we_count a) (take limit all @ drop limit all)"
      using desc by simp
    ultimately show ?thesis
      unfolding sorted_wrt_append e(3) [symmetric] by (auto simp: min_def dest: in_set_dropD)
  qed
  have "distinct (map key (take limit all))"
    using dist by (simp only: take_map [symmetric] distinct_take)
  moreover have "key e = (we_waker_tid e, we_leaf_address e)" for e
    by (simp add: key_def)
  ultimately show ?thesis
    unfolding Let_def out key_def [symmetric]
    using desc entry beaten by (auto simp: sorted_wrt_take dest: in_set_takeD)
qed

theorem top_wakers_exact_witness:
  "length (top_wakers (agg_run [RecWakeup 1 5 9 [7] [], RecWakeup 2 6 9 [] [3],
     RecWakeup 3 6 9 [] [3]]) 9 1) = 1"
proof -
  let ?evs = "[RecWakeup 1 5 9 [7] [], RecWakeup 2 6 9 [] [3], RecWakeup 3 6 9 [] [3]]"
  let ?out = "top_wakers (agg_run ?evs) 9 1"
  have "map_of (ag_threads (agg_run ?evs)) 9 = Some (thread_logs ?evs 9)"
    by (simp add: threads_agg_run has_events_def)
  note exact = top_wakers_exact [OF this, of 1, unfolded Let_def]
  have ws: "map waker_key (tst_wakeups (thread_logs ?evs 9)) = [(5, 7), (6, 3), (6, 3)]"
    by (simp add: thread_logs_def logged_def take_last_def waker_key_def waker_leaf_def
        MAX_EVENTS_PER_THREAD_def)
  then have keys: "waker_key ` set (tst_wakeups (thread_logs ?evs 9)) = {(5, 7), (6, 3)}"
    by (simp only: list.set_map [symmetric]) simp
  have len: "length ?out \<le> 1" using exact by blast
  have "length ?out = 1"
  proof (rule ccontr)
    assume "length ?out \<noteq> 1"
    then have "(6, 3) \<in> (\<lambda>e. (we_waker_tid e, we_leaf_address e)) ` set ?out"
      using exact unfolding keys by blast
    with len \<open>length ?out \<noteq> 1\<close> show False by (cases ?out) auto
  qed
  then show ?thesis by simp
qed

end
