(* ===== verification/AddressIndex.thy ===== *)
theory AddressIndex
  imports Prelude
begin

text \<open>
  Address lookup in a table sorted by start address, as the binary registry, the dyld shared
  cache and the kernel symbol tables all do it: \<open>partition_point(|e| e.start <= address)\<close>, take
  the entry before that point, and (for ranges) check its end. The locale \<open>address_table\<close> is
  the contract of such a table; each component interprets it on its own table.
\<close>

definition last_at_or_before :: "('e \<Rightarrow> u64) \<Rightarrow> u64 \<Rightarrow> 'e list \<Rightarrow> 'e option" where
  "last_at_or_before start a xs =
     (let pos = partition_point (\<lambda>e. start e \<le> a) xs in
      if pos = 0 then None else Some (xs ! (pos - 1)))"

definition find_covering :: "('e \<Rightarrow> u64) \<Rightarrow> ('e \<Rightarrow> u64) \<Rightarrow> u64 \<Rightarrow> 'e list \<Rightarrow> 'e option" where
  "find_covering start stop a xs =
     (case last_at_or_before start a xs of
        None \<Rightarrow> None | Some e \<Rightarrow> if a < stop e then Some e else None)"

definition ranges_disjoint :: "('e \<Rightarrow> u64) \<Rightarrow> ('e \<Rightarrow> u64) \<Rightarrow> 'e list \<Rightarrow> bool" where
  "ranges_disjoint start stop xs \<longleftrightarrow>
     list_all (\<lambda>e. start e < stop e) xs \<and>
     list_all (\<lambda>e. list_all (\<lambda>f. e = f \<or> stop e \<le> start f \<or> stop f \<le> start e) xs) xs"

lemma ranges_disjointD:
  assumes "ranges_disjoint start stop xs" "e \<in> set xs" "f \<in> set xs"
    and "start e \<le> a" "a < stop e" "start f \<le> a" "a < stop f"
  shows "e = f"
proof -
  have "e = f \<or> stop e \<le> start f \<or> stop f \<le> start e"
    using assms(1-3) unfolding ranges_disjoint_def list_all_iff by blast
  then show ?thesis using assms(4-7) by auto
qed

lemma last_at_or_before_in: "last_at_or_before start a xs = Some e \<Longrightarrow> e \<in> set xs \<and> start e \<le> a"
proof -
  assume e: "last_at_or_before start a xs = Some e"
  let ?pos = "partition_point (\<lambda>e. start e \<le> a) xs"
  have pos: "?pos \<noteq> 0" "e = xs ! (?pos - 1)"
    using e by (simp_all add: last_at_or_before_def Let_def split: if_splits)
  then have "?pos - 1 < ?pos" by simp
  then show ?thesis
    using pos partition_point_before [of "?pos - 1" "\<lambda>e. start e \<le> a" xs]
      partition_point_le [of "\<lambda>e. start e \<le> a" xs] by (auto intro!: nth_mem)
qed

locale address_table =
  fixes start :: "'e \<Rightarrow> u64" and stop :: "'e \<Rightarrow> u64" and table :: "'e list"
  assumes table_sorted: "sorted_wrt (\<lambda>x y. start x \<le> start y) table"
begin

lemma partitioned: "sorted_wrt (\<lambda>x y. start y \<le> a \<longrightarrow> start x \<le> a) table"
  using table_sorted by (rule sorted_wrt_mono_rel [rotated]) auto

lemma nearest_greatest:
  assumes "last_at_or_before start a table = Some e" "f \<in> set table" "start f \<le> a"
  shows "start f \<le> start e"
proof -
  let ?pos = "partition_point (\<lambda>e. start e \<le> a) table"
  have pos: "?pos \<noteq> 0" "e = table ! (?pos - 1)"
    using assms(1) by (simp_all add: last_at_or_before_def Let_def split: if_splits)
  obtain i where i: "i < length table" "f = table ! i" using assms(2) by (auto simp: in_set_conv_nth)
  have "i < ?pos"
    using partition_point_after [OF partitioned [of a], of i] i assms(3) by (meson not_le)
  then show ?thesis
    using pos i table_sorted partition_point_le [of "\<lambda>e. start e \<le> a" table]
    by (cases "i = ?pos - 1") (auto simp: sorted_wrt_iff_nth_less)
qed

lemma nearest_None_iff:
  "last_at_or_before start a table = None \<longleftrightarrow> (\<forall>e \<in> set table. a < start e)"
proof
  assume none: "last_at_or_before start a table = None"
  then have "partition_point (\<lambda>e. start e \<le> a) table = 0"
    by (simp add: last_at_or_before_def Let_def split: if_splits)
  then show "\<forall>e \<in> set table. a < start e"
    using partition_point_after [OF partitioned [of a]] by (auto simp: in_set_conv_nth not_le)
next
  assume all: "\<forall>e \<in> set table. a < start e"
  show "last_at_or_before start a table = None"
    using all last_at_or_before_in [of start a table] by (cases "last_at_or_before start a table") auto
qed

lemma nearest_unique:
  assumes "e \<in> set table" "start e \<le> a" "\<And>f. f \<in> set table \<Longrightarrow> start f \<le> a \<Longrightarrow> f \<noteq> e \<Longrightarrow> start f < start e"
  shows "last_at_or_before start a table = Some e"
proof (cases "last_at_or_before start a table")
  case None
  then show ?thesis using assms(1,2) nearest_None_iff [of a] by auto
next
  case (Some f)
  then show ?thesis
    using last_at_or_before_in [OF Some] nearest_greatest [OF Some assms(1,2)] assms(3) [of f] by force
qed

lemma covering_sound:
  "find_covering start stop a table = Some e \<Longrightarrow> e \<in> set table \<and> start e \<le> a \<and> a < stop e"
  using last_at_or_before_in [of start a table] by (auto simp: find_covering_def split: option.splits if_splits)

lemma covering_complete:
  assumes "ranges_disjoint start stop table" "e \<in> set table" "start e \<le> a" "a < stop e"
  shows "find_covering start stop a table = Some e"
proof -
  obtain f where f: "last_at_or_before start a table = Some f"
    using nearest_None_iff [of a] assms(2,3) by (cases "last_at_or_before start a table") auto
  have fin: "f \<in> set table" "start f \<le> a" using last_at_or_before_in [OF f] by auto
  have le: "start e \<le> start f" using nearest_greatest [OF f assms(2,3)] .
  have "e = f \<or> stop e \<le> start f \<or> stop f \<le> start e" "start f < stop f"
    using assms(1,2) fin(1) unfolding ranges_disjoint_def list_all_iff by blast+
  then have "e = f" using le fin(2) assms(4) by auto
  then show ?thesis using f assms(4) by (simp add: find_covering_def)
qed

lemma covering_None_iff:
  assumes "ranges_disjoint start stop table"
  shows "find_covering start stop a table = None \<longleftrightarrow> \<not> (\<exists>e \<in> set table. start e \<le> a \<and> a < stop e)"
proof
  assume "find_covering start stop a table = None"
  then show "\<not> (\<exists>e \<in> set table. start e \<le> a \<and> a < stop e)"
    using covering_complete [OF assms] by auto
next
  assume "\<not> (\<exists>e \<in> set table. start e \<le> a \<and> a < stop e)"
  then show "find_covering start stop a table = None"
    using covering_sound [of a] by (cases "find_covering start stop a table") auto
qed

end

end
