(* ===== verification/Text.thy ===== *)
theory Text
  imports Prelude "HOL-Library.Sublist"
begin

text \<open>
  Strings as the program has them: a \<open>string\<close> is a sequence of bytes (HOL's \<open>char\<close> is a
  byte), so \<open>Vec<u8>\<close>, \<open>&[u8]\<close> and \<open>String\<close> share one type. This theory holds UTF-8
  validation and the lossy decoding of \<open>String::from_utf8_lossy\<close> (one U+FFFD for each
  maximal invalid part), hexadecimal formatting and the prefix and path helpers.
\<close>

section \<open>UTF-8\<close>

abbreviation byte :: "char \<Rightarrow> nat" where
  "byte c \<equiv> of_char c"

definition utf8_width :: "nat \<Rightarrow> nat" where
  "utf8_width b = (if 0xC2 \<le> b \<and> b \<le> 0xDF then 1 else if 0xE0 \<le> b \<and> b \<le> 0xEF then 2
     else if 0xF0 \<le> b \<and> b \<le> 0xF4 then 3 else 0)"

definition utf8_second :: "nat \<Rightarrow> nat \<Rightarrow> bool" where
  "utf8_second b b2 \<longleftrightarrow>
     (if b = 0xE0 then 0xA0 else if b = 0xF0 then 0x90 else 0x80) \<le> b2 \<and>
     b2 \<le> (if b = 0xED then 0x9F else if b = 0xF4 then 0x8F else 0xBF)"

definition is_cont :: "char \<Rightarrow> bool" where
  "is_cont c \<longleftrightarrow> 0x80 \<le> byte c \<and> byte c \<le> 0xBF"

text \<open>
  The length of the first character (\<open>True\<close>) or of the maximal invalid part (\<open>False\<close>) of a
  non-empty byte string.
\<close>

fun utf8_head :: "string \<Rightarrow> nat \<times> bool" where
  "utf8_head [] = (0, True)"
| "utf8_head (c # cs) =
     (if byte c < 0x80 then (1, True)
      else case cs of
        [] \<Rightarrow> (1, False)
      | c2 # r \<Rightarrow>
          if utf8_width (byte c) = 0 \<or> \<not> utf8_second (byte c) (byte c2) then (1, False)
          else let k = length (takeWhile is_cont (take (utf8_width (byte c) - 1) r)) in
            if k = utf8_width (byte c) - 1 then (k + 2, True) else (k + 2, False))"

lemma utf8_head_pos: "s \<noteq> [] \<Longrightarrow> 0 < fst (utf8_head s)"
  by (cases s) (auto simp: Let_def split: list.split)

function valid_utf8 :: "string \<Rightarrow> bool" where
  "valid_utf8 s = (if s = [] then True
     else if snd (utf8_head s) then valid_utf8 (drop (fst (utf8_head s)) s) else False)"
  by pat_completeness auto
termination
  by (relation "measure length") (auto simp: utf8_head_pos)

definition replacement_char :: string where
  "replacement_char = [char_of (0xEF :: nat), char_of (0xBF :: nat), char_of (0xBD :: nat)]"

function from_utf8_lossy :: "string \<Rightarrow> string" where
  "from_utf8_lossy s =
     (if s = [] then []
      else (if snd (utf8_head s) then take (fst (utf8_head s)) s else replacement_char) @
        from_utf8_lossy (drop (fst (utf8_head s)) s))"
  by pat_completeness auto
termination
  by (relation "measure length") (auto simp: utf8_head_pos)

declare valid_utf8.simps [simp del] from_utf8_lossy.simps [simp del]

definition from_utf8 :: "string \<Rightarrow> string option" where
  "from_utf8 s = (if valid_utf8 s then Some s else None)"

lemma valid_utf8_Nil [simp]: "valid_utf8 []"
  by (subst valid_utf8.simps) simp

lemma utf8_head_le: "fst (utf8_head s) \<le> length s"
proof (cases s)
  case (Cons c cs)
  have le: "length (takeWhile is_cont (take n r)) \<le> length r" for n r
    using length_takeWhile_le [of is_cont "take n r"] by simp
  have full: "n \<le> Suc (length r)" if "length (takeWhile is_cont (take (n - Suc 0) r)) = n - Suc 0" for n r
    using le [of "n - Suc 0" r] that by linarith
  show ?thesis
    by (auto simp: Cons Let_def le full split: list.split)
qed simp

text \<open>A complete first character is read the same way whatever follows it.\<close>

lemma utf8_head_take:
  assumes "snd (utf8_head s)" "s \<noteq> []"
  shows "utf8_head (take (fst (utf8_head s)) s @ t) = utf8_head s"
proof (cases s)
  case Nil
  with assms show ?thesis by simp
next
  case (Cons c cs)
  show ?thesis
  proof (cases "byte c < 0x80")
    case True
    then show ?thesis by (simp add: Cons)
  next
    case False
    then obtain c2 r where cs: "cs = c2 # r"
      using assms by (cases cs) (auto simp: Cons)
    define w where "w = utf8_width (byte c) - Suc 0"
    have ok: "\<not> (utf8_width (byte c) = 0 \<or> \<not> utf8_second (byte c) (byte c2))"
      and k: "length (takeWhile is_cont (take w r)) = w"
      using assms False by (auto simp: Cons cs Let_def w_def split: if_splits)
    have len: "w \<le> length r"
      using k length_takeWhile_le [of is_cont "take w r"] by simp
    have sw: "utf8_width (byte c) = Suc w" using ok by (simp add: w_def)
    have head: "utf8_head s = (w + 2, True)"
      using False ok k by (simp add: Cons cs Let_def sw)
    have eq: "take w (take w r @ t) = take w r" using len by simp
    have "utf8_head (c # c2 # take w r @ t) = (w + 2, True)"
      using False ok k by (simp add: Let_def sw eq del: take_append)
    moreover have "take (w + 2) s = c # c2 # take w r" by (simp add: Cons cs)
    ultimately show ?thesis by (simp only: head fst_conv append_Cons)
  qed
qed

lemma valid_utf8_append_head:
  assumes "snd (utf8_head s)" "s \<noteq> []" "valid_utf8 t"
  shows "valid_utf8 (take (fst (utf8_head s)) s @ t)"
proof -
  have "fst (utf8_head s) = length (take (fst (utf8_head s)) s)"
    using utf8_head_le [of s] by simp
  then have "drop (fst (utf8_head s)) (take (fst (utf8_head s)) s @ t) = t" by simp
  then show ?thesis
    using assms by (subst valid_utf8.simps) (simp add: utf8_head_take)
qed

lemma valid_utf8_replacement: "valid_utf8 t \<Longrightarrow> valid_utf8 (replacement_char @ t)"
proof -
  assume t: "valid_utf8 t"
  have "utf8_head (replacement_char @ t) = (3, True)"
    by (simp add: replacement_char_def Let_def utf8_width_def utf8_second_def is_cont_def of_char_of)
  then show ?thesis
    using t by (subst valid_utf8.simps) (simp add: replacement_char_def)
qed

lemma valid_from_utf8_lossy: "valid_utf8 (from_utf8_lossy s)"
proof (induction s rule: from_utf8_lossy.induct)
  case (1 s)
  then show ?case
    by (subst from_utf8_lossy.simps) (simp add: valid_utf8_append_head valid_utf8_replacement)
qed

lemma from_utf8_lossy_valid: "valid_utf8 s \<Longrightarrow> from_utf8_lossy s = s"
proof (induction s rule: from_utf8_lossy.induct)
  case (1 s)
  show ?case
  proof (cases "s = []")
    case True
    then show ?thesis by (simp add: from_utf8_lossy.simps)
  next
    case False
    then have "snd (utf8_head s)" "valid_utf8 (drop (fst (utf8_head s)) s)"
      using 1(2) valid_utf8.simps [of s] by (simp_all split: if_splits)
    then show ?thesis
      using False 1(1) by (subst from_utf8_lossy.simps) simp
  qed
qed

section \<open>Formatting and slicing\<close>

definition hex_digit :: "nat \<Rightarrow> char" where
  "hex_digit n = ''0123456789abcdef'' ! n"

fun hex_of_nat :: "nat \<Rightarrow> string" where
  "hex_of_nat n = (if n < 16 then [hex_digit n] else hex_of_nat (n div 16) @ [hex_digit (n mod 16)])"

declare hex_of_nat.simps [simp del]

text \<open>\<open>{:x}\<close>, \<open>{:#x}\<close> and \<open>{:016x}\<close>.\<close>

definition fmt_x :: "'a::len word \<Rightarrow> string" where
  "fmt_x w = hex_of_nat (unat w)"

definition fmt_alt_x :: "'a::len word \<Rightarrow> string" where
  "fmt_alt_x w = ''0x'' @ fmt_x w"

definition fmt_016x :: "u64 \<Rightarrow> string" where
  "fmt_016x w = replicate (16 - length (fmt_x w)) (CHR ''0'') @ fmt_x w"

definition hex_value :: "char \<Rightarrow> nat" where
  "hex_value c = length (takeWhile (\<lambda>d. d \<noteq> c) ''0123456789abcdef'')"

definition parse_hex :: "string \<Rightarrow> nat" where
  "parse_hex s = foldl (\<lambda>n c. 16 * n + hex_value c) 0 s"

lemma hex_value_digit: "n < 16 \<Longrightarrow> hex_value (hex_digit n) = n"
proof -
  assume "n < 16"
  then have "n \<in> set [0..<16]" by simp
  moreover have "list_all (\<lambda>n. hex_value (hex_digit n) = n) [0..<16]" by code_simp
  ultimately show ?thesis unfolding list_all_iff by blast
qed

lemma parse_hex_of_nat: "parse_hex (hex_of_nat n) = n"
proof (induction n rule: hex_of_nat.induct)
  case (1 n)
  then show ?case
    by (subst hex_of_nat.simps) (simp add: parse_hex_def hex_value_digit)
qed

text \<open>\<open>{}\<close> of an integer, \<open>to_string\<close>.\<close>

fun dec_of_nat :: "nat \<Rightarrow> string" where
  "dec_of_nat n = (if n < 10 then [char_of (48 + n)] else dec_of_nat (n div 10) @ [char_of (48 + n mod 10)])"

declare dec_of_nat.simps [simp del]

definition fmt_dec :: "'a::len word \<Rightarrow> string" where
  "fmt_dec w = dec_of_nat (unat w)"

text \<open>\<open>Path::join\<close> on Unix: an absolute path replaces the base.\<close>

definition path_join :: "string \<Rightarrow> string \<Rightarrow> string" where
  "path_join base path =
     (if take 1 path = ''/'' then path
      else if base = [] \<or> last base = CHR ''/'' then base @ path
      else base @ CHR ''/'' # path)"

definition is_ascii_digit :: "char \<Rightarrow> bool" where
  "is_ascii_digit c \<longleftrightarrow> 48 \<le> byte c \<and> byte c \<le> 57"

definition is_ascii_hexdigit :: "char \<Rightarrow> bool" where
  "is_ascii_hexdigit c \<longleftrightarrow> is_ascii_digit c \<or> (65 \<le> byte c \<and> byte c \<le> 70) \<or> (97 \<le> byte c \<and> byte c \<le> 102)"

definition strip_prefix_str :: "string \<Rightarrow> string \<Rightarrow> string option" where
  "strip_prefix_str p s = (if prefix p s then Some (drop (length p) s) else None)"

lemma strip_prefix_str_Some: "strip_prefix_str p s = Some t \<longleftrightarrow> s = p @ t"
  by (auto simp: strip_prefix_str_def prefix_def)

text \<open>\<open>path.rsplit('/').next()\<close>: the part after the last slash.\<close>

definition rsplit_slash :: "string \<Rightarrow> string" where
  "rsplit_slash path = rev (takeWhile (\<lambda>c. c \<noteq> CHR ''/'') (rev path))"

text \<open>\<open>memmem::find(..).is_some()\<close> and \<open>str::contains\<close>.\<close>

definition contains_bytes :: "string \<Rightarrow> string \<Rightarrow> bool" where
  "contains_bytes needle hay = list_ex (prefix needle) (suffixes hay)"

lemma contains_bytes_iff: "contains_bytes needle hay \<longleftrightarrow> (\<exists>a b. hay = a @ needle @ b)"
  unfolding contains_bytes_def list_ex_iff set_suffixes_eq suffix_def prefix_def by blast

lemma rsplit_slash_suffix: "suffix (rsplit_slash path) path"
  unfolding rsplit_slash_def suffix_def
  by (metis rev_append rev_rev_ident takeWhile_dropWhile_id)

lemma rsplit_slash_no_slash: "CHR ''/'' \<notin> set (rsplit_slash path)"
  by (auto simp: rsplit_slash_def dest: set_takeWhileD)

text \<open>
  \<open>str::lines\<close>: split at line feeds, without the carriage return before one, and without an
  empty piece after the last.
\<close>

function str_lines :: "string \<Rightarrow> string list" where
  "str_lines s =
     (if s = [] then []
      else let l = takeWhile (\<lambda>c. c \<noteq> CHR 0x0A) s; rest = dropWhile (\<lambda>c. c \<noteq> CHR 0x0A) s in
        if rest = [] then [l]
        else (if l \<noteq> [] \<and> last l = CHR 0x0D then butlast l else l) # str_lines (tl rest))"
  by pat_completeness auto
termination
proof (relation "measure length")
  fix s l rest :: string
  assume "s \<noteq> []" "rest = dropWhile (\<lambda>c. c \<noteq> CHR 0x0A) s" "rest \<noteq> []"
  then have "length rest \<le> length s" "0 < length rest" by (simp_all add: length_dropWhile_le)
  then have "length rest - Suc 0 < length s" by linarith
  then show "(tl rest, s) \<in> measure length" by simp
qed simp

declare str_lines.simps [simp del]

text \<open>\<open>str::trim\<close>: the characters with the property \<open>White_Space\<close>, as UTF-8.\<close>

definition white_space :: "string list" where
  "white_space = map (map char_of)
     ([[9], [10], [11], [12], [13], [32], [0xC2, 0x85], [0xC2, 0xA0], [0xE1, 0x9A, 0x80]] @
      map (\<lambda>b. [0xE2, 0x80, b]) ([0x80 ..< 0x8B] @ [0xA8, 0xA9, 0xAF]) @
      [[0xE2, 0x81, 0x9F], [0xE3, 0x80, 0x80 :: nat]])"

definition leading_space :: "string list \<Rightarrow> string \<Rightarrow> string option" where
  "leading_space spaces s = find (\<lambda>w. prefix w s) spaces"

function trim_with :: "string list \<Rightarrow> string \<Rightarrow> string" where
  "trim_with spaces s =
     (case leading_space spaces s of
        Some w \<Rightarrow> if w = [] then s else trim_with spaces (drop (length w) s)
      | None \<Rightarrow> s)"
  by pat_completeness auto
termination
proof (relation "measure (length \<circ> snd)")
  fix spaces s and w :: string
  assume "leading_space spaces s = Some w" "w \<noteq> []"
  then have "prefix w s" "0 < length w" by (auto simp: leading_space_def find_Some_iff)
  then show "((spaces, drop (length w) s), spaces, s) \<in> measure (length \<circ> snd)"
    using prefix_length_le [of w s] diff_less [of "length w" "length s"] by fastforce
qed simp

declare trim_with.simps [simp del]

definition str_trim :: "string \<Rightarrow> string" where
  "str_trim s = rev (trim_with (map rev white_space) (rev (trim_with white_space s)))"

end
