(* ===== verification/Demangle.thy ===== *)
theory Demangle
  imports Text
begin

text \<open>
  The symbol demangler (\<open>stax-demangle/src/lib.rs\<close>): pre-processing (GCC's \<open>.isra.N\<close>
  suffix, global-initializer prefix, Mach-O underscore), the order in which the language
  demanglers are tried, and the reclassification of legacy Rust names by their hash suffix.
  The demanglers themselves are the package \<open>symbolic-demangle\<close>: a parameter \<open>dm\<close>, where
  \<open>dm lang s\<close> is what \<open>Name::demangle\<close> returns for that language.
\<close>

datatype language = Rust | Cpp | Swift | ObjC | ObjCpp | C | Unknown

fun as_str :: "language \<Rightarrow> string" where
  "as_str Rust = ''rust''"
| "as_str Cpp = ''cpp''"
| "as_str Swift = ''swift''"
| "as_str ObjC = ''objc''"
| "as_str ObjCpp = ''objcpp''"
| "as_str C = ''c''"
| "as_str Unknown = ''unknown''"

record demangled =
  dm_name :: string
  dm_language :: language

abbreviation mk_demangled :: "string \<Rightarrow> language \<Rightarrow> demangled" where
  "mk_demangled n l \<equiv> \<lparr>dm_name = n, dm_language = l\<rparr>"

type_synonym demanglers = "language \<Rightarrow> string \<Rightarrow> string option"

definition strip_isra :: "string \<Rightarrow> string" where
  "strip_isra s =
     (let digits = takeWhile is_ascii_digit (rev s);
          end_n = length s - length digits;
          suffix = ''.isra.'' in
      if length suffix \<le> end_n \<and> end_n < length s \<and>
         take (length suffix) (drop (end_n - length suffix) s) = suffix
      then take (end_n - length suffix) s else s)"

definition strip_global_init :: "string \<Rightarrow> string option" where
  "strip_global_init s = strip_prefix_str ''_GLOBAL__sub_I_'' s"

definition rust_hash_stem :: "string \<Rightarrow> string option" where
  "rust_hash_stem s =
     (if length s < 19 then None
      else let stem_end = length s - 19 in
        if take 3 (drop stem_end s) \<noteq> ''::h'' then None
        else if \<not> list_all is_ascii_hexdigit (drop (stem_end + 3) s) then None
        else Some (take stem_end s))"

definition try_lang :: "demanglers \<Rightarrow> string \<Rightarrow> language \<Rightarrow> string option" where
  "try_lang dm input lang =
     (case dm lang input of None \<Rightarrow> None | Some d \<Rightarrow> if d = input then None else Some d)"

definition classify :: "demanglers \<Rightarrow> string \<Rightarrow> demangled" where
  "classify dm input =
     (case (if prefix ''_R'' input then try_lang dm input Rust else None) of
        Some d \<Rightarrow> mk_demangled d Rust
      | None \<Rightarrow>
     (case (if prefix ''_$s'' input \<or> prefix ''$s'' input then try_lang dm input Swift else None) of
        Some d \<Rightarrow> mk_demangled d Swift
      | None \<Rightarrow>
     (case try_lang dm input Cpp of
        Some cpp_out \<Rightarrow>
          (case rust_hash_stem cpp_out of
             Some stem \<Rightarrow>
               (case try_lang dm input Rust of
                  Some rust_out \<Rightarrow> mk_demangled rust_out Rust
                | None \<Rightarrow> mk_demangled stem Rust)
           | None \<Rightarrow> mk_demangled cpp_out Cpp)
      | None \<Rightarrow>
          if input \<noteq> [] \<and> hd input = CHR ''_''
          then (case try_lang dm input Rust of
                  Some d \<Rightarrow> mk_demangled d Rust
                | None \<Rightarrow>
               (case try_lang dm input Swift of
                  Some d \<Rightarrow> mk_demangled d Swift
                | None \<Rightarrow>
               (case try_lang dm input ObjC of
                  Some d \<Rightarrow> mk_demangled d ObjC
                | None \<Rightarrow> mk_demangled input Unknown)))
          else mk_demangled input Unknown)))"

definition demangle_str :: "demanglers \<Rightarrow> string \<Rightarrow> demangled" where
  "demangle_str dm raw =
     (let cleaned = strip_isra raw;
          (target, is_global_init) = (case strip_global_init cleaned of
             Some inner \<Rightarrow> (inner, True) | None \<Rightarrow> (cleaned, False));
          direct = classify dm target;
          chosen =
            (if dm_language direct \<noteq> Unknown then direct
             else case strip_prefix_str ''_'' target of
               Some stripped_input \<Rightarrow>
                 (let stripped = classify dm stripped_input in
                  if dm_language stripped \<noteq> Unknown then stripped
                  else mk_demangled stripped_input Unknown)
             | None \<Rightarrow> direct) in
      if is_global_init
      then mk_demangled (''global init '' @ dm_name chosen) (dm_language chosen)
      else chosen)"

definition demangle_bytes :: "demanglers \<Rightarrow> string \<Rightarrow> demangled" where
  "demangle_bytes dm raw =
     (case from_utf8 raw of
        Some s \<Rightarrow> demangle_str dm s
      | None \<Rightarrow> mk_demangled (from_utf8_lossy raw) Unknown)"

section \<open>What the pre- and post-processing does\<close>

lemma split_last_nondigit:
  assumes "list_all is_ascii_digit d" "p = [] \<or> \<not> is_ascii_digit (last p)"
  shows "takeWhile is_ascii_digit (rev (p @ d)) = rev d"
proof -
  have "takeWhile is_ascii_digit (rev d @ rev p) = rev d @ takeWhile is_ascii_digit (rev p)"
    using assms(1) by (intro takeWhile_append2) (auto simp: list_all_iff)
  moreover have "takeWhile is_ascii_digit (rev p) = []"
    using assms(2) by (cases p rule: rev_cases) auto
  ultimately show ?thesis by simp
qed

lemma strip_isra_suffix:
  assumes "d \<noteq> []" "list_all is_ascii_digit d"
  shows "strip_isra (p @ ''.isra.'' @ d) = p"
proof -
  have digits: "takeWhile is_ascii_digit (rev ((p @ ''.isra.'') @ d)) = rev d"
    using assms(2) by (rule split_last_nondigit) (simp add: is_ascii_digit_def)
  show ?thesis
    using assms(1) digits by (simp add: strip_isra_def Let_def)
qed

lemma strip_isra_id:
  assumes "\<not> (\<exists>p d. s = p @ ''.isra.'' @ d \<and> d \<noteq> [] \<and> list_all is_ascii_digit d)"
  shows "strip_isra s = s"
proof (rule ccontr)
  let ?digits = "takeWhile is_ascii_digit (rev s)"
  let ?stop = "length s - length ?digits"
  assume "strip_isra s \<noteq> s"
  then have c: "6 \<le> ?stop" "?stop < length s" "take 6 (drop (?stop - 6) s) = ''.isra.''"
    by (simp_all add: strip_isra_def Let_def eval_nat_numeral split: if_splits)
  have "s = take (?stop - 6) s @ take 6 (drop (?stop - 6) s) @ drop ?stop s"
    using c(1) by (metis append_take_drop_id drop_drop le_add_diff_inverse add.commute)
  then have "s = take (?stop - 6) s @ ''.isra.'' @ drop ?stop s"
    by (simp only: c(3))
  moreover have "drop ?stop s \<noteq> []" using c(2) by simp
  moreover have "list_all is_ascii_digit (drop ?stop s)"
  proof -
    have "?digits = take (length ?digits) (rev s)"
      by (rule takeWhile_eq_take)
    then have "rev ?digits = drop ?stop s"
      by (metis rev_rev_ident rev_take length_rev)
    then have "set (drop ?stop s) \<subseteq> set ?digits" by (metis set_rev subset_refl)
    then show ?thesis by (auto simp: list_all_iff dest: set_takeWhileD)
  qed
  ultimately show False using assms by blast
qed

lemma rust_hash_stem_Some:
  "rust_hash_stem s = Some p \<longleftrightarrow>
     (\<exists>h. s = p @ ''::h'' @ h \<and> length h = 16 \<and> list_all is_ascii_hexdigit h)"
proof
  assume a: "rust_hash_stem s = Some p"
  let ?e = "length s - 19"
  have c: "19 \<le> length s" "take 3 (drop ?e s) = ''::h''" "list_all is_ascii_hexdigit (drop (?e + 3) s)"
    "p = take ?e s"
    using a by (simp_all add: rust_hash_stem_def Let_def not_less split: if_splits)
  have "s = take ?e s @ take 3 (drop ?e s) @ drop (?e + 3) s"
    by (metis append_take_drop_id drop_drop add.commute)
  then have "s = p @ ''::h'' @ drop (?e + 3) s" by (simp only: c(2,4))
  then show "\<exists>h. s = p @ ''::h'' @ h \<and> length h = 16 \<and> list_all is_ascii_hexdigit h"
    using c(1,3) by (intro exI [of _ "drop (?e + 3) s"]) simp
next
  assume "\<exists>h. s = p @ ''::h'' @ h \<and> length h = 16 \<and> list_all is_ascii_hexdigit h"
  then show "rust_hash_stem s = Some p"
    by (auto simp: rust_hash_stem_def Let_def)
qed

text \<open>A string carries GCC's suffix when it ends in \<open>.isra.\<close> and a number.\<close>

definition has_isra :: "string \<Rightarrow> bool" where
  "has_isra s \<longleftrightarrow> (\<exists>p d. s = p @ ''.isra.'' @ d \<and> d \<noteq> [] \<and> list_all is_ascii_digit d)"

lemma append_longer:
  assumes "g @ s = p @ q" "length g \<le> length p"
  shows "\<exists>p'. p = g @ p' \<and> s = p' @ q"
  using assms(1) unfolding append_eq_append_conv2
proof (elim exE disjE)
  fix us assume "g = p @ us \<and> us @ s = q"
  then show ?thesis using assms(2) by simp
qed auto

lemma has_isra_global_init: "has_isra (''_GLOBAL__sub_I_'' @ s) \<Longrightarrow> has_isra s"
proof -
  let ?g = "''_GLOBAL__sub_I_''"
  assume "has_isra (?g @ s)"
  then obtain p d where eq: "?g @ s = p @ ''.isra.'' @ d" and d: "d \<noteq> []" "list_all is_ascii_digit d"
    unfolding has_isra_def by blast
  have "length ?g \<le> length p"
  proof (rule ccontr)
    assume less: "\<not> length ?g \<le> length p"
    then have "(?g @ s) ! length p = ?g ! length p"
      by (simp only: not_le nth_append_left)
    moreover have "(p @ ''.isra.'' @ d) ! length p = CHR ''.''" by (simp add: nth_append)
    moreover have "CHR ''.'' \<notin> set ?g" by simp
    ultimately show False using eq less by (metis not_le nth_mem)
  qed
  then obtain p' where "p = ?g @ p'" "s = p' @ ''.isra.'' @ d"
    using append_longer [OF eq] by blast
  then show ?thesis using d unfolding has_isra_def by blast
qed

text \<open>
  The wrappers compilers put around a symbol do not change what is demangled: a
  GCC IPA-SRA suffix is ignored, and a global-initializer symbol is reported as the inner
  symbol's name behind the words global init, with the inner symbol's language.
\<close>

theorem demangle_wrappers:
  assumes "\<not> has_isra s" "\<not> prefix ''_GLOBAL__sub_I_'' s" "d \<noteq> []" "list_all is_ascii_digit d"
  shows "demangle_str dm (s @ ''.isra.'' @ d) = demangle_str dm s \<and>
    demangle_str dm (''_GLOBAL__sub_I_'' @ s) =
      mk_demangled (''global init '' @ dm_name (demangle_str dm s)) (dm_language (demangle_str dm s))"
proof
  have plain: "strip_isra s = s"
    using assms(1) by (intro strip_isra_id) (simp add: has_isra_def)
  then show "demangle_str dm (s @ ''.isra.'' @ d) = demangle_str dm s"
    by (simp only: demangle_str_def strip_isra_suffix [OF assms(3,4)])
  have "strip_isra (''_GLOBAL__sub_I_'' @ s) = ''_GLOBAL__sub_I_'' @ s"
    using assms(1) has_isra_global_init [of s] by (intro strip_isra_id) (auto simp: has_isra_def)
  moreover have "strip_global_init (''_GLOBAL__sub_I_'' @ s) = Some s"
    by (simp only: strip_global_init_def strip_prefix_str_Some)
  moreover have "strip_global_init s = None"
    using assms(2) by (simp only: strip_global_init_def strip_prefix_str_def if_False)
  ultimately show "demangle_str dm (''_GLOBAL__sub_I_'' @ s) =
      mk_demangled (''global init '' @ dm_name (demangle_str dm s)) (dm_language (demangle_str dm s))"
    unfolding demangle_str_def Let_def plain by simp
qed

theorem demangle_wrappers_witness:
  "demangle_str (\<lambda>_ _. None) ''main.isra.90'' = demangle_str (\<lambda>_ _. None) ''main'' \<and>
   dm_name (demangle_str (\<lambda>_ _. None) ''_GLOBAL__sub_I_main'') =
     ''global init '' @ dm_name (demangle_str (\<lambda>_ _. None) ''main'')"
proof -
  have "\<not> has_isra ''main''"
  proof
    assume "has_isra ''main''"
    then obtain p d where "''main'' = p @ ''.isra.'' @ d" unfolding has_isra_def by blast
    then have "length ''main'' = length (p @ ''.isra.'' @ d)" by (rule arg_cong)
    then show False by simp
  qed
  moreover have "list_all is_ascii_digit ''90''" by code_simp
  ultimately show ?thesis
    using demangle_wrappers [of "''main''" "''90''" "\<lambda>_ _. None"] by simp
qed

text \<open>
  Legacy Rust names are recognized by the hash the C++ demangler leaves behind: for a
  symbol that is neither Rust v0 nor Swift by its prefix, the language is Rust exactly when the
  C++ reading ends in ::h and 16 hexadecimal digits, and the reported name is the Rust
  demangler's or, if it refuses, the C++ reading without that hash.
\<close>

theorem legacy_rust_hash_hidden:
  assumes "\<not> prefix ''_R'' s" "\<not> prefix ''_$s'' s" "\<not> prefix ''$s'' s" "try_lang dm s Cpp = Some out"
  shows "(dm_language (classify dm s) = Rust \<longleftrightarrow>
      (\<exists>p h. out = p @ ''::h'' @ h \<and> length h = 16 \<and> list_all is_ascii_hexdigit h)) \<and>
    (\<forall>p h. out = p @ ''::h'' @ h \<longrightarrow> length h = 16 \<longrightarrow> list_all is_ascii_hexdigit h \<longrightarrow>
      dm_name (classify dm s) = (case try_lang dm s Rust of Some r \<Rightarrow> r | None \<Rightarrow> p))"
proof (cases "rust_hash_stem out")
  case None
  then have "\<not> (\<exists>p h. out = p @ ''::h'' @ h \<and> length h = 16 \<and> list_all is_ascii_hexdigit h)"
    using rust_hash_stem_Some [of out] by (metis option.distinct(1))
  then show ?thesis
    using assms None by (auto simp: classify_def)
next
  case (Some stem)
  have same: "p = stem" if "out = p @ ''::h'' @ h" "length h = 16" "list_all is_ascii_hexdigit h" for p h
    using that rust_hash_stem_Some [of out p] Some by simp
  then show ?thesis
    using assms Some rust_hash_stem_Some [of out stem]
    by (auto simp: classify_def split: option.split)
qed

theorem legacy_rust_hash_hidden_witness:
  "dm_name (classify (\<lambda>l s. if l = Cpp then Some ''a::h0123456789abcdef'' else None) ''_ZN1aE'') = ''a''"
proof -
  let ?dm = "\<lambda>l s. if l = Cpp then Some ''a::h0123456789abcdef'' else None :: string option"
  have "list_all is_ascii_hexdigit ''0123456789abcdef''" by code_simp
  then show ?thesis
    using legacy_rust_hash_hidden [of "''_ZN1aE''" ?dm "''a::h0123456789abcdef''"]
    by (auto simp: try_lang_def)
qed

end
