(* ===== verification/KernelSymbols.thy ===== *)
theory KernelSymbols
  imports AddressIndex Demangle
begin

text \<open>
  Kernel symbol resolution (\<open>stax-live/src/kernel_symbols.rs\<close>): the symbols of the boot
  kernel collection, one table per fileset module, and the lazily loaded resolver. Load
  commands are given as the \<open>object\<close> package decodes them; each decoding step may fail.
\<close>

section \<open>Tables\<close>

record kernel_range =
  kr_module :: string
  kr_start :: u64
  kr_end :: u64

record kernel_fn =
  kf_module :: string
  kf_address :: u64
  kf_name :: "string option"

record kernel_symbols =
  ks_ranges :: "kernel_range list"
  ks_by_module :: "(string, kernel_fn list) hmap"
  ks_global :: "kernel_fn list"

record kernel_resolved =
  kres_module :: string
  kres_function_name :: string
  kres_language :: language

definition is_kernel_address :: "u64 \<Rightarrow> bool" where
  "is_kernel_address address \<longleftrightarrow> 0xffff000000000000 \<le> address"

definition functions_by_module :: "kernel_fn list \<Rightarrow> (string, kernel_fn list) hmap" where
  "functions_by_module fns =
     map (\<lambda>(m, es). (m, sort_by_key kf_address es))
       (fold (\<lambda>f. hm_entry (kf_module f) [] (\<lambda>es. es @ [f])) fns [])"

definition from_parts :: "kernel_range list \<Rightarrow> kernel_fn list \<Rightarrow> kernel_symbols" where
  "from_parts ranges fns =
     (let sorted_fns = sort_by_key kf_address fns in
      \<lparr>ks_ranges = sort_by_key kr_start ranges,
       ks_by_module = functions_by_module sorted_fns,
       ks_global = sorted_fns\<rparr>)"

definition module_for_address :: "kernel_symbols \<Rightarrow> u64 \<Rightarrow> string option" where
  "module_for_address ks address =
     (let index = partition_point (\<lambda>r. kr_start r \<le> address) (ks_ranges ks) in
      if index = 0 then None
      else let range = ks_ranges ks ! (index - 1) in
        if address < kr_end range then Some (kr_module range) else None)"

definition nearest_function :: "kernel_fn list \<Rightarrow> u64 \<Rightarrow> kernel_fn option" where
  "nearest_function fns address =
     (let index = partition_point (\<lambda>f. kf_address f \<le> address) fns in
      if index = 0 then None else Some (fns ! (index - 1)))"

definition nearest_function_for_pc :: "kernel_fn list \<Rightarrow> u64 \<Rightarrow> (kernel_fn \<times> u64) option" where
  "nearest_function_for_pc fns address =
     (case nearest_function fns address of
        None \<Rightarrow> None
      | Some raw \<Rightarrow>
          if kf_address raw = address \<and> kf_name raw = None
          then (case checked_sub address 4 of
                  None \<Rightarrow> Some (raw, address)
                | Some adjusted_address \<Rightarrow>
                    (case nearest_function fns adjusted_address of
                       None \<Rightarrow> Some (raw, address)
                     | Some adjusted \<Rightarrow>
                         if kf_address adjusted \<noteq> kf_address raw then Some (adjusted, adjusted_address)
                         else Some (raw, address)))
          else Some (raw, address))"

definition format_symbol_with_offset :: "string \<Rightarrow> u64 \<Rightarrow> string" where
  "format_symbol_with_offset name offset = (if offset = 0 then name else name @ ''+0x'' @ fmt_x offset)"

definition kernel_lookup :: "demanglers \<Rightarrow> kernel_symbols \<Rightarrow> u64 \<Rightarrow> kernel_resolved option" where
  "kernel_lookup dm ks address =
     (let table = (case module_for_address ks address of
            Some m \<Rightarrow> (case map_of (ks_by_module ks) m of Some es \<Rightarrow> es | None \<Rightarrow> ks_global ks)
          | None \<Rightarrow> ks_global ks) in
      case nearest_function_for_pc table address of
        None \<Rightarrow> None
      | Some (entry, normalized_address) \<Rightarrow>
          (let offset = sat_sub normalized_address (kf_address entry);
               (name, language) = (case kf_name entry of
                  Some n \<Rightarrow> (let d = demangle_str dm n in (dm_name d, dm_language d))
                | None \<Rightarrow> (''sub_'' @ fmt_016x (kf_address entry), Unknown)) in
           Some \<lparr>kres_module = kf_module entry,
             kres_function_name = format_symbol_with_offset name offset, kres_language = language\<rparr>))"

section \<open>The lazily loaded resolver\<close>

datatype resolver_state = Uninitialized | Ready kernel_symbols | Failed

definition resolver_lookup ::
  "demanglers \<Rightarrow> string + kernel_symbols \<Rightarrow> u64 \<Rightarrow> resolver_state \<Rightarrow> kernel_resolved option \<times> resolver_state" where
  "resolver_lookup dm load_system address st =
     (if \<not> is_kernel_address address then (None, st)
      else case st of
        Ready symbols \<Rightarrow> (kernel_lookup dm symbols address, st)
      | Failed \<Rightarrow> (None, st)
      | Uninitialized \<Rightarrow>
          (case load_system of
             Inr symbols \<Rightarrow> (kernel_lookup dm symbols address, Ready symbols)
           | Inl _ \<Rightarrow> (None, Failed)))"

section \<open>Reading a kernel collection\<close>

record kc_symbol =
  ksy_is_definition :: bool
  ksy_value :: u64
  ksy_sect :: u8
  ksy_name :: "string + string"

datatype kc_command =
  Segment64 string u64 u64 "string + (string \<times> string) list"
| Symtab "string + kc_symbol list"
| FunctionStarts "u64 \<Rightarrow> string + u64 list" "u64 \<Rightarrow> string + u64 list"
| OtherCommand

record entry_state =
  es_ranges :: "kernel_range list"
  es_text_ranges :: "(u64 \<times> u64) list"
  es_section_indexes :: "u8 list"
  es_text_segment_addr :: "u64 option"
  es_section_index :: u8
  es_symtab :: "(string + kc_symbol list) option"
  es_function_starts :: "((u64 \<Rightarrow> string + u64 list) \<times> (u64 \<Rightarrow> string + u64 list)) option"

definition scan_section :: "string \<times> string \<Rightarrow> entry_state \<Rightarrow> entry_state" where
  "scan_section sec es =
     (let es1 = (if fst sec = ''__TEXT_EXEC'' \<and> snd sec = ''__text''
                 then es\<lparr>es_section_indexes := es_section_indexes es @ [es_section_index es]\<rparr> else es) in
      es1\<lparr>es_section_index := sat_add (es_section_index es1) 1\<rparr>)"

definition scan_command :: "string \<Rightarrow> kc_command \<Rightarrow> entry_state \<Rightarrow> string + entry_state" where
  "scan_command module cmd es =
     (case cmd of
        Segment64 name start nbytes sections \<Rightarrow>
          (case checked_add start nbytes of
             None \<Rightarrow> Inr es
           | Some end_addr \<Rightarrow>
               (let es1 = (if name = ''__TEXT'' then es\<lparr>es_text_segment_addr := Some start\<rparr> else es);
                    es2 = (if name = ''__TEXT_EXEC''
                      then es1\<lparr>es_text_ranges := es_text_ranges es1 @ [(start, end_addr)],
                               es_ranges := es_ranges es1 @
                                 [\<lparr>kr_module = module, kr_start = start, kr_end = end_addr\<rparr>]\<rparr>
                      else es1) in
                case sections of Inl e \<Rightarrow> Inl e | Inr secs \<Rightarrow> Inr (fold scan_section secs es2)))
      | Symtab symbols \<Rightarrow> Inr (es\<lparr>es_symtab := Some symbols\<rparr>)
      | FunctionStarts absolute relative \<Rightarrow> Inr (es\<lparr>es_function_starts := Some (absolute, relative)\<rparr>)
      | OtherCommand \<Rightarrow> Inr es)"

fun scan_commands :: "string \<Rightarrow> (string + kc_command) list \<Rightarrow> entry_state \<Rightarrow> string + entry_state" where
  "scan_commands module [] es = Inr es"
| "scan_commands module (Inl e # cmds) es = Inl e"
| "scan_commands module (Inr cmd # cmds) es =
     (case scan_command module cmd es of Inl e \<Rightarrow> Inl e | Inr es' \<Rightarrow> scan_commands module cmds es')"

fun parse_text_symbols ::
  "u8 list \<Rightarrow> (u64 \<times> u64) list \<Rightarrow> kc_symbol list \<Rightarrow> (u64, string) hmap \<Rightarrow> string + (u64, string) hmap" where
  "parse_text_symbols idx ranges [] acc = Inr acc"
| "parse_text_symbols idx ranges (s # ss) acc =
     (if \<not> ksy_is_definition s then parse_text_symbols idx ranges ss acc
      else if ksy_sect s \<notin> set idx \<and> \<not> list_ex (\<lambda>(a, b). a \<le> ksy_value s \<and> ksy_value s < b) ranges
      then parse_text_symbols idx ranges ss acc
      else case ksy_name s of
        Inl e \<Rightarrow> Inl e
      | Inr name \<Rightarrow>
          if name = [] then parse_text_symbols idx ranges ss acc
          else case from_utf8 name of
            None \<Rightarrow> parse_text_symbols idx ranges ss acc
          | Some n \<Rightarrow> parse_text_symbols idx ranges ss (hm_insert (ksy_value s) n acc))"

definition functions_from_symbols :: "string \<Rightarrow> (u64, string) hmap \<Rightarrow> kernel_fn list" where
  "functions_from_symbols module named =
     map (\<lambda>(a, n). \<lparr>kf_module = module, kf_address = a, kf_name = Some n\<rparr>) named"

definition parse_function_starts ::
  "string \<Rightarrow> u64 option \<Rightarrow> (u64 \<Rightarrow> string + u64 list) \<times> (u64 \<Rightarrow> string + u64 list) \<Rightarrow>
   (u64, string) hmap \<Rightarrow> string + kernel_fn list" where
  "parse_function_starts module text_segment_addr starts_at named =
     (case text_segment_addr of
        None \<Rightarrow> Inl (module @ '': LC_FUNCTION_STARTS without a text segment'')
      | Some addr \<Rightarrow>
          (case (case fst starts_at addr of
                   Inr starts \<Rightarrow> Inr starts
                 | Inl absolute_error \<Rightarrow>
                     (case snd starts_at addr of
                        Inr starts \<Rightarrow> Inr starts
                      | Inl relative_error \<Rightarrow> Inl (absolute_error @ ''; relative: '' @ relative_error))) of
             Inl e \<Rightarrow> Inl e
           | Inr starts \<Rightarrow>
               if starts = [] then Inr (functions_from_symbols module named)
               else Inr (map (\<lambda>a. \<lparr>kf_module = module, kf_address = a, kf_name = map_of named a\<rparr>) starts)))"

definition parse_fileset_entry ::
  "(string + kc_command) list \<Rightarrow> string \<Rightarrow> kernel_range list \<times> kernel_fn list \<Rightarrow>
   string + (kernel_range list \<times> kernel_fn list)" where
  "parse_fileset_entry cmds module acc =
     (case scan_commands module cmds
        \<lparr>es_ranges = fst acc, es_text_ranges = [], es_section_indexes = [], es_text_segment_addr = None,
         es_section_index = 1, es_symtab = None, es_function_starts = None\<rparr> of
        Inl e \<Rightarrow> Inl e
      | Inr es \<Rightarrow>
          (case (case es_symtab es of
                   None \<Rightarrow> Inr []
                 | Some (Inl e) \<Rightarrow> Inl e
                 | Some (Inr syms) \<Rightarrow> parse_text_symbols (es_section_indexes es) (es_text_ranges es) syms []) of
             Inl e \<Rightarrow> Inl e
           | Inr named \<Rightarrow>
               (let fns = (case es_function_starts es of
                      Some starts_at \<Rightarrow>
                        (case parse_function_starts module
                            (case es_text_segment_addr es of
                               Some a \<Rightarrow> Some a
                             | None \<Rightarrow> (case es_text_ranges es of [] \<Rightarrow> None | (a, _) # _ \<Rightarrow> Some a))
                            starts_at named of
                           Inr fs \<Rightarrow> fs
                         | Inl _ \<Rightarrow> functions_from_symbols module named)
                    | None \<Rightarrow> functions_from_symbols module named) in
                Inr (es_ranges es, snd acc @ fns))))"

text \<open>The collection's commands: a fileset entry carries its module id and its own commands.\<close>

datatype collection_command =
  FilesetEntry "string + string" "string + (string + kc_command) list"
| OtherCollectionCommand

fun parse_kernel_collection ::
  "(string + collection_command) list \<Rightarrow> kernel_range list \<times> kernel_fn list \<Rightarrow>
   string + (kernel_range list \<times> kernel_fn list)" where
  "parse_kernel_collection [] acc = Inr acc"
| "parse_kernel_collection (Inl e # cmds) acc = Inl e"
| "parse_kernel_collection (Inr OtherCollectionCommand # cmds) acc = parse_kernel_collection cmds acc"
| "parse_kernel_collection (Inr (FilesetEntry module entry) # cmds) acc =
     (case module of
        Inl e \<Rightarrow> Inl e
      | Inr m \<Rightarrow>
          (case from_utf8 m of
             None \<Rightarrow> Inl ''invalid fileset entry id''
           | Some name \<Rightarrow>
               (case entry of
                  Inl e \<Rightarrow> Inl e
                | Inr ecmds \<Rightarrow>
                    (case parse_fileset_entry ecmds name acc of
                       Inl e \<Rightarrow> Inl e
                     | Inr acc' \<Rightarrow> parse_kernel_collection cmds acc'))))"

definition load_system :: "string + (string + collection_command) list \<Rightarrow> string + kernel_symbols" where
  "load_system collection =
     (case collection of
        Inl e \<Rightarrow> Inl e
      | Inr cmds \<Rightarrow>
          (case parse_kernel_collection cmds ([], []) of
             Inl e \<Rightarrow> Inl e
           | Inr (ranges, fns) \<Rightarrow> Inr (from_parts ranges fns)))"

section \<open>Lookup\<close>

lemma ranges_disjoint_set: "set xs = set ys \<Longrightarrow> ranges_disjoint a b xs = ranges_disjoint a b ys"
  by (simp add: ranges_disjoint_def list_all_iff)

interpretation kr: address_table kr_start kr_end "sort_by_key kr_start ranges" for ranges
  by unfold_locales (rule sorted_sort_by_key)

interpretation kf: address_table kf_address stop "sort_by_key kf_address fns" for stop fns
  by unfold_locales (rule sorted_sort_by_key)

lemma nearest_function_index: "nearest_function fns a = last_at_or_before kf_address a fns"
  by (simp add: nearest_function_def last_at_or_before_def)

lemma module_for_address_covering:
  "module_for_address ks a = map_option kr_module (find_covering kr_start kr_end a (ks_ranges ks))"
  by (auto simp: module_for_address_def find_covering_def last_at_or_before_def Let_def)

lemma functions_by_module_fold:
  "map_of (fold (\<lambda>f. hm_entry (kf_module f) [] (\<lambda>es. es @ [f])) fns []) m =
     (let es = filter (\<lambda>f. kf_module f = m) fns in if es = [] then None else Some es)"
proof (induction fns rule: rev_induct)
  case Nil
  then show ?case by simp
next
  case (snoc f fns)
  then show ?case by (auto simp: hm_simps Let_def split: if_splits)
qed

lemma map_of_functions_by_module:
  "map_of (functions_by_module fns) m =
     (let es = filter (\<lambda>f. kf_module f = m) fns in
      if es = [] then None else Some (sort_by_key kf_address es))"
  by (simp add: functions_by_module_def map_of_map functions_by_module_fold Let_def)

lemma module_table:
  assumes "ranges_disjoint kr_start kr_end ranges" "r \<in> set ranges" "kr_start r \<le> a" "a < kr_end r"
    and "e \<in> set fns" "kf_module e = kr_module r"
  shows "module_for_address (from_parts ranges fns) a = Some (kr_module r)"
    and "map_of (ks_by_module (from_parts ranges fns)) (kr_module r) =
      Some (sort_by_key kf_address (filter (\<lambda>f. kf_module f = kr_module r) (sort_by_key kf_address fns)))"
proof -
  have "ranges_disjoint kr_start kr_end (sort_by_key kr_start ranges)"
    using assms(1) ranges_disjoint_set [of "sort_by_key kr_start ranges" ranges] by simp
  then have "find_covering kr_start kr_end a (sort_by_key kr_start ranges) = Some r"
    using assms(2-4) by (intro kr.covering_complete) simp_all
  then show "module_for_address (from_parts ranges fns) a = Some (kr_module r)"
    by (simp add: module_for_address_covering from_parts_def Let_def)
  have "filter (\<lambda>f. kf_module f = kr_module r) (sort_by_key kf_address fns) \<noteq> []"
    using assms(5,6) by (auto simp: filter_empty_conv)
  then show "map_of (ks_by_module (from_parts ranges fns)) (kr_module r) =
      Some (sort_by_key kf_address (filter (\<lambda>f. kf_module f = kr_module r) (sort_by_key kf_address fns)))"
    by (simp add: from_parts_def Let_def map_of_functions_by_module)
qed

text \<open>\<open>e\<close> is the function of its module with the greatest address at or below \<open>a\<close>.\<close>

definition is_nearest :: "kernel_fn list \<Rightarrow> kernel_fn \<Rightarrow> u64 \<Rightarrow> bool" where
  "is_nearest fns e a \<longleftrightarrow> e \<in> set fns \<and> kf_address e \<le> a \<and>
     list_all (\<lambda>f. kf_module f = kf_module e \<and> kf_address f \<le> a \<and> f \<noteq> e \<longrightarrow> kf_address f < kf_address e) fns"

lemma nearest_in_module:
  assumes "is_nearest fns e a"
  shows "nearest_function (sort_by_key kf_address
      (filter (\<lambda>f. kf_module f = kf_module e) (sort_by_key kf_address fns))) a = Some e"
  unfolding nearest_function_index
  using assms by (intro kf.nearest_unique) (auto simp: is_nearest_def list_all_iff)

text \<open>
  C13: A kernel address inside a module's text is reported as the function of that
  module with the greatest address at or below it, by its demangled name and the exact offset
  into it, whatever the order in which the collection listed ranges and functions.
\<close>

theorem kernel_lookup_nearest:
  assumes "ranges_disjoint kr_start kr_end ranges" "r \<in> set ranges" "kr_start r \<le> a" "a < kr_end r"
    and "is_nearest fns e a" "kf_module e = kr_module r" "kf_name e = Some n"
  shows "kernel_lookup dm (from_parts ranges fns) a =
    Some \<lparr>kres_module = kr_module r,
      kres_function_name = format_symbol_with_offset (dm_name (demangle_str dm n)) (a - kf_address e),
      kres_language = dm_language (demangle_str dm n)\<rparr>"
proof -
  have e: "e \<in> set fns" "kf_address e \<le> a" using assms(5) by (simp_all add: is_nearest_def)
  note table = module_table [OF assms(1-4) e(1) assms(6)]
  have "sat_sub a (kf_address e) = a - kf_address e" using e(2) by (rule sat_sub_ge)
  then show ?thesis
    using nearest_in_module [OF assms(5)] assms(6,7)
    by (simp add: kernel_lookup_def table nearest_function_for_pc_def Let_def)
qed

text \<open>
  A kernel return address that lies exactly on an unnamed function start is
  attributed to the function before it: the lookup is repeated at the call instruction, four
  bytes back, and the offset is counted from there.
\<close>

theorem kernel_return_address:
  assumes "ranges_disjoint kr_start kr_end ranges" "r \<in> set ranges" "kr_start r \<le> a" "a < kr_end r"
    and "is_nearest fns raw a" "kf_module raw = kr_module r" "kf_address raw = a" "kf_name raw = None"
    and "4 \<le> a" "is_nearest fns e (a - 4)" "kf_module e = kr_module r" "kf_name e = Some n"
  shows "kernel_lookup dm (from_parts ranges fns) a =
    Some \<lparr>kres_module = kr_module r,
      kres_function_name = format_symbol_with_offset (dm_name (demangle_str dm n)) (a - 4 - kf_address e),
      kres_language = dm_language (demangle_str dm n)\<rparr>"
proof -
  have raw: "raw \<in> set fns" using assms(5) by (simp add: is_nearest_def)
  note table = module_table [OF assms(1-4) raw assms(6)]
  have sub: "checked_sub a 4 = Some (a - 4)" using assms(9) by (simp add: checked_sub_def)
  have le: "kf_address e \<le> a - 4" using assms(10) by (simp add: is_nearest_def)
  have "a - 4 < a" using assms(9) by (simp add: word_less_nat_alt word_le_nat_alt unat_sub)
  then have other: "kf_address e \<noteq> a" using le by auto
  have "sat_sub (a - 4) (kf_address e) = a - 4 - kf_address e" using le by (rule sat_sub_ge)
  then show ?thesis
    using nearest_in_module [OF assms(5)] nearest_in_module [OF assms(10)] assms(6,7,8,11,12) other
    by (simp add: kernel_lookup_def table nearest_function_for_pc_def Let_def sub)
qed

definition demo_fns :: "kernel_fn list" where
  "demo_fns =
     [\<lparr>kf_module = ''k'', kf_address = 0xffffffff00000100, kf_name = None\<rparr>,
      \<lparr>kf_module = ''k'', kf_address = 0xffffffff00000040, kf_name = Some ''f''\<rparr>]"

definition demo_range :: kernel_range where
  "demo_range = \<lparr>kr_module = ''k'', kr_start = 0xffffffff00000000, kr_end = 0xffffffff00001000\<rparr>"

theorem kernel_lookup_nearest_witness:
  "map_option kres_module (kernel_lookup (\<lambda>_ _. None) (from_parts [demo_range] demo_fns) 0xffffffff00000048) =
     Some ''k''"
  using kernel_lookup_nearest [of "[demo_range]" demo_range "0xffffffff00000048" demo_fns
      "demo_fns ! 1" "''f''" "\<lambda>_ _. None"]
  by (simp add: ranges_disjoint_def demo_range_def demo_fns_def is_nearest_def)

theorem kernel_return_address_witness:
  "map_option kres_module (kernel_lookup (\<lambda>_ _. None) (from_parts [demo_range] demo_fns) 0xffffffff00000100) =
     Some ''k''"
  using kernel_return_address [of "[demo_range]" demo_range "0xffffffff00000100" demo_fns
      "demo_fns ! 0" "demo_fns ! 1" "''f''" "\<lambda>_ _. None"]
  by (simp add: ranges_disjoint_def demo_range_def demo_fns_def is_nearest_def)

section \<open>The symbol table of a module\<close>

definition text_symbol :: "u8 list \<Rightarrow> (u64 \<times> u64) list \<Rightarrow> kc_symbol \<Rightarrow> (u64 \<times> string) option" where
  "text_symbol idx ranges s =
     (if ksy_is_definition s \<and>
         (ksy_sect s \<in> set idx \<or> list_ex (\<lambda>(a, b). a \<le> ksy_value s \<and> ksy_value s < b) ranges)
      then (case ksy_name s of Inl _ \<Rightarrow> None
            | Inr n \<Rightarrow> if n \<noteq> [] \<and> valid_utf8 n then Some (ksy_value s, n) else None)
      else None)"

lemma text_symbol_None:
  "text_symbol idx ranges s = None \<Longrightarrow> parse_text_symbols idx ranges (s # ss) acc = Inr named \<Longrightarrow>
     parse_text_symbols idx ranges ss acc = Inr named"
  by (cases "ksy_name s") (auto simp: text_symbol_def from_utf8_def split: if_splits)

lemma text_symbol_Some:
  "text_symbol idx ranges s = Some kv \<Longrightarrow>
     parse_text_symbols idx ranges (s # ss) acc = parse_text_symbols idx ranges ss (hm_insert (fst kv) (snd kv) acc)"
  by (cases "ksy_name s") (auto simp: text_symbol_def from_utf8_def split: if_splits)

text \<open>
  The named symbols of a kernel module are exactly the defined, non-empty,
  valid UTF-8 names of symbols in a text section or a text range; where several symbols share
  an address the last one of the symbol table wins.
\<close>

theorem text_symbols_exact:
  assumes "parse_text_symbols idx ranges syms [] = Inr named"
  shows "map_of named a = map_of (rev (List.map_filter (text_symbol idx ranges) syms)) a"
proof -
  have "map_of named = map_of acc ++ map_of (rev (List.map_filter (text_symbol idx ranges) syms))"
    if "parse_text_symbols idx ranges syms acc = Inr named" for acc
    using that
  proof (induction syms arbitrary: acc)
    case Nil
    then show ?case by (simp add: List.map_filter_simps)
  next
    case (Cons s ss)
    show ?case
    proof (cases "text_symbol idx ranges s")
      case None
      then show ?thesis
        using Cons.IH [OF text_symbol_None [OF None Cons.prems]] by (simp add: List.map_filter_simps)
    next
      case (Some kv)
      show ?thesis
        using Cons.IH [OF Cons.prems [unfolded text_symbol_Some [OF Some]]]
        by (simp only: List.map_filter_simps Some option.case rev.simps map_of_append map_of_hm_insert
            map_add_assoc [symmetric]) (simp add: fun_eq_iff map_add_def split: option.split)
    qed
  qed
  from this [OF assms] show ?thesis by simp
qed

theorem text_symbols_exact_witness:
  "map_of [(7 :: u64, ''b'')] 7 = Some ''b'' \<and>
   parse_text_symbols [1] [] [\<lparr>ksy_is_definition = True, ksy_value = 7, ksy_sect = 1, ksy_name = Inr ''a''\<rparr>,
     \<lparr>ksy_is_definition = True, ksy_value = 7, ksy_sect = 1, ksy_name = Inr ''b''\<rparr>] [] = Inr [(7, ''b'')]"
proof -
  have v: "valid_utf8 ''a''" "valid_utf8 ''b''"
    by (subst valid_utf8.simps, simp add: of_char_def)+
  have run: "parse_text_symbols [1] [] [\<lparr>ksy_is_definition = True, ksy_value = 7, ksy_sect = 1, ksy_name = Inr ''a''\<rparr>,
     \<lparr>ksy_is_definition = True, ksy_value = 7, ksy_sect = 1, ksy_name = Inr ''b''\<rparr>] [] = Inr [(7, ''b'')]"
    by (simp add: from_utf8_def v hm_insert_def)
  show ?thesis
    using text_symbols_exact [OF run, of 7] run by simp
qed

end
