(* ===== verification/SharedCache.thy ===== *)
theory SharedCache
  imports AddressIndex Text
begin

text \<open>
  The dyld shared cache (\<open>stax-mac-shared-cache/src/macos.rs\<close>): symbols of a cache image,
  the parallel enumeration of the images at their runtime addresses, the lazily built address
  index and the byte source. The parsed cache of the \<open>object\<close> package appears as the list of
  its images as decoded, and as the function from a cache address to file data and offset.
\<close>

section \<open>Symbols of one image\<close>

record macho_symbol =
  ms_start_svma :: u64
  ms_end_svma :: u64
  ms_name :: string

text \<open>\<open>Vec::dedup_by_key\<close>: of consecutive elements with equal keys the first stays.\<close>

fun dedup_by_key :: "('a \<Rightarrow> 'k) \<Rightarrow> 'a list \<Rightarrow> 'a list" where
  "dedup_by_key f [] = []"
| "dedup_by_key f [x] = [x]"
| "dedup_by_key f (x # y # ys) =
     (if f x = f y then dedup_by_key f (x # ys) else x # dedup_by_key f (y # ys))"

fun link_symbols :: "(u64 \<times> string) list \<Rightarrow> macho_symbol list" where
  "link_symbols [] = []"
| "link_symbols [(a, n)] = [\<lparr>ms_start_svma = a, ms_end_svma = a + 4, ms_name = n\<rparr>]"
| "link_symbols ((a, n) # (b, m) # rest) =
     \<lparr>ms_start_svma = a, ms_end_svma = b, ms_name = n\<rparr> # link_symbols ((b, m) # rest)"

text \<open>A symbol is its address and its name bytes, if \<open>name_bytes\<close> could read them.\<close>

definition collect_symbols :: "(u64 \<times> string option) list \<Rightarrow> macho_symbol list" where
  "collect_symbols syms =
     link_symbols (dedup_by_key fst (sort_by_key fst
       (List.map_filter (\<lambda>(addr, name). if addr = 0 then None
          else case name of None \<Rightarrow> None | Some n \<Rightarrow> if n = [] then None else Some (addr, n)) syms)))"

lemma set_dedup_subset: "set (dedup_by_key f xs) \<subseteq> set xs"
  by (induction f xs rule: dedup_by_key.induct) auto

lemma keys_dedup: "f ` set (dedup_by_key f xs) = f ` set xs"
  by (induction f xs rule: dedup_by_key.induct) auto

lemma dedup_strictly_sorted:
  fixes f :: "'a \<Rightarrow> 'k::linorder"
  shows "sorted_wrt (\<lambda>x y. f x \<le> f y) xs \<Longrightarrow> sorted_wrt (\<lambda>x y. f x < f y) (dedup_by_key f xs)"
proof (induction f xs rule: dedup_by_key.induct)
  case (3 f x y ys)
  show ?case
  proof (cases "f x = f y")
    case True
    then show ?thesis using 3 by simp
  next
    case False
    have "\<forall>z \<in> set (dedup_by_key f (y # ys)). f x < f z"
      using set_dedup_subset [of f "y # ys"] 3(3) False by fastforce
    then show ?thesis using 3 False by simp
  qed
qed auto

section \<open>Images\<close>

record macho_object =
  mo_segments :: "(string option \<times> u64 \<times> u64) list"
  mo_uuid :: "string option"
  mo_symbols :: "(u64 \<times> string option) list"

record cache_entry =
  ce_path :: "string option"
  ce_object :: "macho_object option"

record cache_image =
  ci_install_name :: string
  ci_runtime_avma :: u64
  ci_text_svma :: u64
  ci_vmsize :: u64
  ci_uuid :: "string option"
  ci_symbols :: "macho_symbol list"

definition text_segment :: "macho_object \<Rightarrow> (u64 \<times> u64) option" where
  "text_segment obj = map_option snd (find (\<lambda>(name, _). name = Some ''__TEXT'') (mo_segments obj))"

text \<open>The body of a worker's loop; \<open>None\<close> is \<open>continue\<close>.\<close>

definition runtime_image :: "u64 \<Rightarrow> cache_entry \<Rightarrow> cache_image option" where
  "runtime_image slide img =
     (case ce_path img of None \<Rightarrow> None
      | Some path \<Rightarrow>
     (case ce_object img of None \<Rightarrow> None
      | Some file \<Rightarrow>
     (case text_segment file of None \<Rightarrow> None
      | Some (text_svma, vmsize) \<Rightarrow>
          Some \<lparr>ci_install_name = path, ci_runtime_avma = text_svma + slide, ci_text_svma = text_svma,
            ci_vmsize = vmsize, ci_uuid = mo_uuid file, ci_symbols = collect_symbols (mo_symbols file)\<rparr>)))"

function chunks :: "nat \<Rightarrow> 'a list \<Rightarrow> 'a list list" where
  "chunks n xs = (if xs = [] \<or> n = 0 then [] else take n xs # chunks n (drop n xs))"
  by pat_completeness auto
termination by (relation "measure (\<lambda>(n, xs). length xs)") auto

declare chunks.simps [simp del]

definition chunk_len :: "nat \<Rightarrow> nat \<Rightarrow> nat" where
  "chunk_len n_images n_workers = max ((n_images + n_workers - 1) div n_workers) 1"

definition enumerate_runtime_images :: "nat \<Rightarrow> u64 option \<Rightarrow> cache_entry list \<Rightarrow> cache_image list" where
  "enumerate_runtime_images n_workers runtime_slide images =
     (case runtime_slide of None \<Rightarrow> []
      | Some slide \<Rightarrow>
          concat (map (List.map_filter (runtime_image slide))
            (chunks (chunk_len (length images) (max n_workers 1)) images)))"

lemma concat_chunks: "0 < n \<Longrightarrow> concat (chunks n xs) = xs"
proof (induction n xs rule: chunks.induct)
  case (1 n xs)
  then show ?case by (subst chunks.simps) simp
qed

lemma map_filter_concat: "List.map_filter f (concat xss) = concat (map (List.map_filter f) xss)"
  by (induction xss) (simp_all add: List.map_filter_def)

section \<open>The address index\<close>

record shared_cache =
  sc_images :: "cache_entry list"
  sc_workers :: nat
  sc_runtime_slide :: "u64 option"
  sc_index :: "cache_image list option"

definition ensure_address_index :: "shared_cache \<Rightarrow> cache_image list \<times> shared_cache" where
  "ensure_address_index sc =
     (case sc_index sc of
        Some idx \<Rightarrow> (idx, sc)
      | None \<Rightarrow>
          (let idx = sort_by_key ci_runtime_avma
             (enumerate_runtime_images (sc_workers sc) (sc_runtime_slide sc) (sc_images sc)) in
           (idx, sc\<lparr>sc_index := Some idx\<rparr>)))"

definition lookup_address :: "u64 \<Rightarrow> shared_cache \<Rightarrow> cache_image option \<times> shared_cache" where
  "lookup_address avma sc =
     (let (index, sc') = ensure_address_index sc;
          pos = partition_point (\<lambda>i. ci_runtime_avma i \<le> avma) index in
      if pos = 0 then (None, sc')
      else let img = index ! (pos - 1) in
        (if avma < ci_runtime_avma img + ci_vmsize img then Some img else None, sc'))"

definition cache_lookup :: "string \<Rightarrow> cache_entry list \<Rightarrow> (u64 \<times> u64 \<times> string option \<times> macho_symbol list) option" where
  "cache_lookup install_name images =
     (case find (\<lambda>img. ce_path img = Some install_name) images of
        None \<Rightarrow> None
      | Some img \<Rightarrow>
          (case ce_object img of None \<Rightarrow> None
           | Some file \<Rightarrow>
               (case text_segment file of None \<Rightarrow> None
                | Some (text_svma, text_vmsize) \<Rightarrow>
                    Some (text_svma, text_vmsize, mo_uuid file, collect_symbols (mo_symbols file)))))"

text \<open>
  The slide is anchored at the first image of the own process that is in the cache: a
  difference of addresses, wrapping like the release build's \<open>i64\<close> subtraction.
\<close>

definition cache_text_addresses :: "cache_entry list \<Rightarrow> (string, u64) hmap" where
  "cache_text_addresses images = fold (\<lambda>img m.
     (case (ce_path img, ce_object img) of
        (Some path, Some file) \<Rightarrow>
          (case text_segment file of Some (a, _) \<Rightarrow> hm_insert path a m | None \<Rightarrow> m)
      | _ \<Rightarrow> m)) images []"

fun compute_runtime_slide :: "(string, u64) hmap \<Rightarrow> (string option \<times> u64) list \<Rightarrow> u64 option" where
  "compute_runtime_slide by_name [] = None"
| "compute_runtime_slide by_name ((None, _) # rest) = compute_runtime_slide by_name rest"
| "compute_runtime_slide by_name ((Some name, runtime_addr) # rest) =
     (case map_of by_name name of
        None \<Rightarrow> compute_runtime_slide by_name rest
      | Some cache_svma \<Rightarrow> Some (runtime_addr - cache_svma))"

text \<open>\<open>(avma as i64).checked_sub(slide)\<close>.\<close>

definition checked_sub_i64 :: "u64 \<Rightarrow> u64 \<Rightarrow> u64 option" where
  "checked_sub_i64 a b =
     (let d = sint a - sint b in if - (2 ^ 63) \<le> d \<and> d < 2 ^ 63 then Some (a - b) else None)"

definition fetch_bytes ::
  "(u64 \<Rightarrow> (string \<times> u64) option) \<Rightarrow> u64 option \<Rightarrow> u64 \<Rightarrow> u64 \<Rightarrow> string option" where
  "fetch_bytes data_and_offset runtime_slide avma len =
     (case runtime_slide of None \<Rightarrow> None
      | Some slide \<Rightarrow>
     (case checked_sub_i64 avma slide of None \<Rightarrow> None
      | Some svma \<Rightarrow>
     (case data_and_offset svma of None \<Rightarrow> None
      | Some (data, offset) \<Rightarrow>
     (case checked_add offset len of None \<Rightarrow> None
      | Some end_off \<Rightarrow>
          if length data < unat end_off then None
          else Some (take (unat len) (drop (unat offset) data))))))"

section \<open>Properties\<close>

lemma link_symbols_cover:
  assumes "sorted_wrt (\<lambda>x y. fst x < fst y) xs"
  shows "s \<in> set (link_symbols xs) \<longleftrightarrow>
    (ms_start_svma s, ms_name s) \<in> set xs \<and>
    ms_end_svma s = (case filter (\<lambda>a. ms_start_svma s < a) (map fst xs) of b # _ \<Rightarrow> b | [] \<Rightarrow> ms_start_svma s + 4)"
  using assms
proof (induction xs rule: link_symbols.induct)
  case (3 a n b m rest)
  have ab: "a < b" and rest: "\<forall>z \<in> set rest. b < fst z" using 3(2) by auto
  have none: "filter (\<lambda>x. t < x) (map fst ((b, m) # rest)) = filter (\<lambda>x. t < x) (map fst ((a, n) # (b, m) # rest))"
    if "(t, k) \<in> set ((b, m) # rest)" for t k
    using that ab rest by auto
  have neq: "t \<noteq> a" if "(t, k) \<in> set ((b, m) # rest)" for t k
    using that ab rest by fastforce
  show ?case
    using 3 none [of "ms_start_svma s" "ms_name s"] neq [of "ms_start_svma s" "ms_name s"] ab
    by (cases s) (auto split: list.splits if_splits)
qed auto

lemma link_symbols_starts: "map (\<lambda>s. (ms_start_svma s, ms_name s)) (link_symbols xs) = xs"
  by (induction xs rule: link_symbols.induct) auto

definition named_addresses :: "(u64 \<times> string option) list \<Rightarrow> u64 set" where
  "named_addresses syms = {a. \<exists>n. (a, Some n) \<in> set syms \<and> a \<noteq> 0 \<and> n \<noteq> []}"

text \<open>
  C12: The symbols of a cache image tile its text: they are strictly ordered by start, one
  for each non-zero address that has a name, each with a name the symbol table gives that
  address, and each ends where the next begins, so no two of them overlap.
\<close>

theorem collect_symbols_tiles:
  "sorted_wrt (\<lambda>s t. ms_start_svma s < ms_start_svma t \<and> ms_end_svma s \<le> ms_start_svma t) (collect_symbols syms) \<and>
   set (map ms_start_svma (collect_symbols syms)) = named_addresses syms \<and>
   list_all (\<lambda>s. (ms_start_svma s, Some (ms_name s)) \<in> set syms) (collect_symbols syms)"
proof -
  define raw where "raw = List.map_filter (\<lambda>(addr, name). if addr = 0 then None
          else case name of None \<Rightarrow> None | Some n \<Rightarrow> if n = [] then None else Some (addr, n)) syms"
  define ded where "ded = dedup_by_key fst (sort_by_key fst raw)"
  have out: "collect_symbols syms = link_symbols ded"
    by (simp add: collect_symbols_def ded_def raw_def)
  have raw: "(a, n) \<in> set raw \<longleftrightarrow> (a, Some n) \<in> set syms \<and> a \<noteq> 0 \<and> n \<noteq> []" for a n
    by (force simp: raw_def List.map_filter_def image_iff split: option.splits if_splits)
  have strict: "sorted_wrt (\<lambda>x y. fst x < fst y) ded"
    unfolding ded_def by (intro dedup_strictly_sorted sorted_sort_by_key)
  have keys: "fst ` set ded = fst ` set raw"
    by (simp add: ded_def keys_dedup)
  have sub: "set ded \<subseteq> set raw"
    using set_dedup_subset [of fst "sort_by_key fst raw"] by (simp add: ded_def)
  have starts: "map ms_start_svma (link_symbols ded) = map fst ded"
    using arg_cong [OF link_symbols_starts [of ded], of "map fst"] by (simp add: comp_def)
  have ordered: "sorted_wrt (\<lambda>s t. ms_start_svma s < ms_start_svma t) (link_symbols ded)"
  proof -
    have "sorted_wrt (<) (map ms_start_svma (link_symbols ded))"
      unfolding starts using strict by (simp add: sorted_wrt_map)
    then show ?thesis by (simp add: sorted_wrt_map)
  qed
  have tiled: "ms_end_svma s \<le> ms_start_svma t"
    if s: "s \<in> set (link_symbols ded)" and t: "t \<in> set (link_symbols ded)" and lt: "ms_start_svma s < ms_start_svma t" for s t
  proof -
    let ?later = "filter (\<lambda>a. ms_start_svma s < a) (map fst ded)"
    have "ms_start_svma t \<in> set ?later"
      using t lt arg_cong [OF starts, of set] by auto
    then obtain b bs where later: "?later = b # bs" by (cases ?later) auto
    have "sorted_wrt (<) (map fst ded)" using strict by (simp add: sorted_wrt_map)
    then have "sorted_wrt (<) ?later" by (rule sorted_wrt_filter)
    then have "b \<le> ms_start_svma t"
      using \<open>ms_start_svma t \<in> set ?later\<close> unfolding later by auto
    moreover have "ms_end_svma s = b"
      using link_symbols_cover [OF strict, of s] s later by simp
    ultimately show ?thesis by simp
  qed
  have "sorted_wrt (\<lambda>s t. ms_start_svma s < ms_start_svma t \<and> ms_end_svma s \<le> ms_start_svma t) (link_symbols ded)"
    by (rule sorted_wrt_mono_rel [OF _ ordered]) (simp add: tiled)
  moreover have "fst ` set raw = named_addresses syms"
  proof (rule set_eqI)
    fix a
    show "a \<in> fst ` set raw \<longleftrightarrow> a \<in> named_addresses syms"
      unfolding named_addresses_def mem_Collect_eq image_iff using raw [of a] by (metis prod.collapse fst_conv)
  qed
  moreover have "list_all (\<lambda>s. (ms_start_svma s, Some (ms_name s)) \<in> set syms) (link_symbols ded)"
    using link_symbols_cover [OF strict] sub raw unfolding list_all_iff by blast
  ultimately show ?thesis
    by (simp add: out starts keys)
qed

lemma enumeration_shape:
  "enumerate_runtime_images n (Some slide) images = List.map_filter (runtime_image slide) images"
proof -
  have "0 < chunk_len (length images) (max n 1)" by (simp add: chunk_len_def)
  then show ?thesis
    by (simp add: enumerate_runtime_images_def map_filter_concat [symmetric] concat_chunks)
qed

text \<open>
  How many workers enumerate the cache does not matter: the result is the images in
  cache order, each decoded once, those that fail to parse or lack a text segment left out.
\<close>

theorem enumeration_worker_independent:
  "enumerate_runtime_images n (Some slide) images = enumerate_runtime_images m (Some slide) images \<and>
   enumerate_runtime_images n (Some slide) images = List.map_filter (runtime_image slide) images"
  by (simp add: enumeration_shape)

definition ci_end :: "cache_image \<Rightarrow> u64" where
  "ci_end i = ci_runtime_avma i + ci_vmsize i"

interpretation ci: address_table ci_runtime_avma ci_end "sort_by_key ci_runtime_avma images" for images
  by unfold_locales (rule sorted_sort_by_key)

text \<open>The cached index, when present, is the one a rebuild would produce.\<close>

definition index_coherent :: "shared_cache \<Rightarrow> bool" where
  "index_coherent sc \<longleftrightarrow> sc_index sc = None \<or>
     sc_index sc = Some (sort_by_key ci_runtime_avma
       (enumerate_runtime_images (sc_workers sc) (sc_runtime_slide sc) (sc_images sc)))"

definition cache_images :: "shared_cache \<Rightarrow> cache_image list" where
  "cache_images sc = enumerate_runtime_images (sc_workers sc) (sc_runtime_slide sc) (sc_images sc)"

lemma lookup_address_covering:
  assumes "index_coherent sc"
  shows "fst (lookup_address a sc) =
      find_covering ci_runtime_avma ci_end a (sort_by_key ci_runtime_avma (cache_images sc))"
    and "index_coherent (snd (lookup_address a sc))" "cache_images (snd (lookup_address a sc)) = cache_images sc"
  using assms
  by (auto simp: lookup_address_def ensure_address_index_def index_coherent_def cache_images_def
      find_covering_def last_at_or_before_def ci_end_def Let_def split: option.splits)

text \<open>
  A cache address resolves to the image mapped over it, and to nothing when there is
  none, whether or not the lazy index has been built by an earlier lookup; the lookup leaves the
  index coherent.
\<close>

theorem cache_lookup_exact:
  assumes "index_coherent sc" "ranges_disjoint ci_runtime_avma ci_end (cache_images sc)"
  shows "(fst (lookup_address a sc) = Some i \<longleftrightarrow>
      i \<in> set (cache_images sc) \<and> ci_runtime_avma i \<le> a \<and> a < ci_end i) \<and>
    index_coherent (snd (lookup_address a sc)) \<and> cache_images (snd (lookup_address a sc)) = cache_images sc"
proof -
  have "ranges_disjoint ci_runtime_avma ci_end (sort_by_key ci_runtime_avma (cache_images sc))"
    using assms(2) by (simp add: ranges_disjoint_def list_all_iff)
  then have "find_covering ci_runtime_avma ci_end a (sort_by_key ci_runtime_avma (cache_images sc)) = Some i \<longleftrightarrow>
      i \<in> set (cache_images sc) \<and> ci_runtime_avma i \<le> a \<and> a < ci_end i"
    using ci.covering_complete [of "cache_images sc" i a] ci.covering_sound [of a "cache_images sc" i]
    by (simp only: set_sort_by_key) blast
  then show ?thesis
    by (simp only: lookup_address_covering [OF assms(1)])
qed

definition demo_cache :: shared_cache where
  "demo_cache = \<lparr>sc_images = [\<lparr>ce_path = Some ''a'', ce_object = Some \<lparr>mo_segments = [(Some ''__TEXT'', 0x1000, 0x100)],
       mo_uuid = None, mo_symbols = []\<rparr>\<rparr>],
     sc_workers = 8, sc_runtime_slide = Some 0x10, sc_index = None\<rparr>"

theorem cache_lookup_exact_witness:
  "map_option ci_install_name (fst (lookup_address 0x1050 demo_cache)) = Some ''a''"
proof -
  have images: "cache_images demo_cache = [\<lparr>ci_install_name = ''a'', ci_runtime_avma = 0x1010, ci_text_svma = 0x1000,
      ci_vmsize = 0x100, ci_uuid = None, ci_symbols = []\<rparr>]"
    by (simp add: cache_images_def demo_cache_def enumeration_shape runtime_image_def text_segment_def
        List.map_filter_simps collect_symbols_def sort_by_key_def sort_by_def)
  have "index_coherent demo_cache" by (simp add: index_coherent_def demo_cache_def)
  from cache_lookup_exact [OF this, of "0x1050" "hd (cache_images demo_cache)"] show ?thesis
    by (simp add: images ranges_disjoint_def ci_end_def)
qed

end
