(* ===== verification/Binaries.thy ===== *)
theory Binaries
  imports KernelSymbols SharedCache
begin

text \<open>
  The binary registry (\<open>stax-live/src/binaries.rs\<close>), macOS configuration: loaded images,
  the lazily rebuilt address index, symbol lookup with its fallbacks to the kernel collection
  and the dyld shared cache, and the resolution of an address to a function's bytes. The
  demanglers, the LRU cache of package \<open>lru\<close>, the file system, the object parser and the
  target's memory are the parameters of \<open>registry_env\<close>.
\<close>

section \<open>State\<close>

record live_symbol =
  sym_start_svma :: u64
  sym_end_svma :: u64
  sym_name :: string

record loaded_binary =
  lb_path :: string
  lb_base_avma :: u64
  lb_avma_end :: u64
  lb_text_svma :: u64
  lb_arch :: "string option"
  lb_is_executable :: bool
  lb_symbols :: "live_symbol list"
  lb_text_bytes :: "string option"

record load_header =
  lh_address :: u64
  lh_memory_size :: u64
  lh_file_size :: u64
  lh_file_offset :: u64

record code_image =
  cim_bytes :: string
  cim_load_headers :: "load_header list"

record resolved_symbol =
  rs_function_name :: string
  rs_binary :: string
  rs_is_main :: bool
  rs_language :: language

record resolved_address =
  ra_binary_path :: string
  ra_arch :: "string option"
  ra_function_name :: string
  ra_language :: language
  ra_base_address :: u64
  ra_end_address :: u64
  ra_bytes :: string
  ra_fn_start_svma :: u64
  ra_image :: "code_image option"

record 'c registry =
  br_by_base :: "loaded_binary list"
  br_index :: "(u64 \<times> u64 \<times> nat) list option"
  br_images :: "(string, code_image option) hmap"
  br_dyld_arch :: "string option"
  br_target_pid :: "u32 option"
  br_target_task_port :: "u64 option"
  br_byte_source :: "(u64 \<Rightarrow> u64 \<Rightarrow> string option) option"
  br_shared_cache :: "shared_cache option"
  br_kernel_symbols :: resolver_state
  br_demangle_cache :: 'c

record 'c registry_env =
  env_demanglers :: demanglers
  env_lru_get :: "string \<Rightarrow> 'c \<Rightarrow> demangled option \<times> 'c"
  env_lru_put :: "string \<Rightarrow> demangled \<Rightarrow> 'c \<Rightarrow> 'c"
  env_load_kernel :: "string + kernel_symbols"
  env_vm_read :: "u32 \<Rightarrow> u64 \<Rightarrow> u64 \<Rightarrow> string option"
  env_read_file :: "string \<Rightarrow> string option"
  env_segments :: "string \<Rightarrow> load_header list option"

section \<open>Images\<close>

fun fetch_headers :: "string \<Rightarrow> load_header list \<Rightarrow> u64 \<Rightarrow> u64 \<Rightarrow> u64 \<Rightarrow> string option" where
  "fetch_headers bytes [] start_svma len end_svma = None"
| "fetch_headers bytes (header # headers) start_svma len end_svma =
     (case checked_add (lh_address header) (lh_memory_size header) of
        None \<Rightarrow> None
      | Some header_end \<Rightarrow>
          if lh_address header \<le> start_svma \<and> end_svma \<le> header_end
          then (let in_segment = start_svma - lh_address header in
            case checked_add in_segment len of
              None \<Rightarrow> None
            | Some seg_end \<Rightarrow>
                if lh_file_size header < seg_end then None
                else let file_off = lh_file_offset header + in_segment in
                  case checked_add file_off len of
                    None \<Rightarrow> None
                  | Some file_end \<Rightarrow>
                      if length bytes < unat file_end then None
                      else Some (take (unat len) (drop (unat file_off) bytes)))
          else fetch_headers bytes headers start_svma len end_svma)"

definition fetch :: "code_image \<Rightarrow> u64 \<Rightarrow> u64 \<Rightarrow> string option" where
  "fetch img start_svma len =
     (case checked_add start_svma len of
        None \<Rightarrow> None
      | Some end_svma \<Rightarrow> fetch_headers (cim_bytes img) (cim_load_headers img) start_svma len end_svma)"

definition load_image :: "'c registry_env \<Rightarrow> string \<Rightarrow> code_image option" where
  "load_image env path =
     (if prefix ''['' path \<or> path = [] then None
      else case env_read_file env path of
        None \<Rightarrow> None
      | Some bytes \<Rightarrow>
          (case env_segments env bytes of
             None \<Rightarrow> None
           | Some headers \<Rightarrow> Some \<lparr>cim_bytes = bytes, cim_load_headers = headers\<rparr>))"

definition image_for :: "'c registry_env \<Rightarrow> string \<Rightarrow> 'c registry \<Rightarrow> code_image option \<times> 'c registry" where
  "image_for env path reg =
     (case map_of (br_images reg) path of
        Some entry \<Rightarrow> (entry, reg)
      | None \<Rightarrow>
          (let loaded = load_image env path in
           (loaded, reg\<lparr>br_images := hm_insert path loaded (br_images reg)\<rparr>)))"

definition svma_for :: "loaded_binary \<Rightarrow> u64 \<Rightarrow> u64" where
  "svma_for binary address = (address - lb_base_avma binary) + lb_text_svma binary"

definition avma_for_svma :: "u64 \<Rightarrow> u64 \<Rightarrow> u64 \<Rightarrow> u64" where
  "avma_for_svma base_avma text_svma svma = (svma - text_svma) + base_avma"

definition short_path :: "string \<Rightarrow> string" where
  "short_path path = rsplit_slash path"

section \<open>Updates\<close>

definition new_registry :: "'c \<Rightarrow> 'c registry" where
  "new_registry lru = \<lparr>br_by_base = [], br_index = None, br_images = [], br_dyld_arch = None,
     br_target_pid = None, br_target_task_port = None, br_byte_source = None, br_shared_cache = None,
     br_kernel_symbols = Uninitialized, br_demangle_cache = lru\<rparr>"

definition set_shared_cache :: "shared_cache \<Rightarrow> 'c registry \<Rightarrow> 'c registry" where
  "set_shared_cache cache reg = reg\<lparr>br_shared_cache := Some cache\<rparr>"

definition set_target :: "u32 \<Rightarrow> u64 \<Rightarrow> 'c registry \<Rightarrow> 'c registry" where
  "set_target pid task_port reg =
     (let reg1 = reg\<lparr>br_target_pid := Some pid\<rparr> in
      if task_port \<noteq> 0 then reg1\<lparr>br_target_task_port := Some task_port\<rparr> else reg1)"

definition set_macho_byte_source :: "(u64 \<Rightarrow> u64 \<Rightarrow> string option) \<Rightarrow> 'c registry \<Rightarrow> 'c registry" where
  "set_macho_byte_source source reg = reg\<lparr>br_byte_source := Some source\<rparr>"

definition invalidate_index :: "'c registry \<Rightarrow> 'c registry" where
  "invalidate_index reg = reg\<lparr>br_index := None\<rparr>"

definition insert_binary :: "loaded_binary \<Rightarrow> 'c registry \<Rightarrow> 'c registry" where
  "insert_binary binary reg =
     (let kept = filter (\<lambda>b. lb_base_avma b \<noteq> lb_base_avma binary) (br_by_base reg);
          arch = (case br_dyld_arch reg of None \<Rightarrow> lb_arch binary | Some a \<Rightarrow> Some a);
          binary' = binary\<lparr>lb_symbols := sort_by_key sym_start_svma (lb_symbols binary)\<rparr> in
      invalidate_index (reg\<lparr>br_by_base := kept @ [binary'], br_dyld_arch := arch\<rparr>))"

definition remove_binary :: "u64 \<Rightarrow> 'c registry \<Rightarrow> 'c registry" where
  "remove_binary base_avma reg =
     invalidate_index (reg\<lparr>br_by_base := filter (\<lambda>b. lb_base_avma b \<noteq> base_avma) (br_by_base reg)\<rparr>)"

section \<open>Lookups\<close>

definition fresh_index :: "loaded_binary list \<Rightarrow> (u64 \<times> u64 \<times> nat) list" where
  "fresh_index bs = sort_by_key fst (map (\<lambda>(i, b). (lb_base_avma b, lb_avma_end b, i)) (enumerate 0 bs))"

definition binary_for_address :: "u64 \<Rightarrow> 'c registry \<Rightarrow> nat option \<times> 'c registry" where
  "binary_for_address address reg =
     (let idx = (case br_index reg of None \<Rightarrow> fresh_index (br_by_base reg) | Some idx \<Rightarrow> idx);
          reg1 = reg\<lparr>br_index := Some idx\<rparr>;
          pos = partition_point (\<lambda>e. fst e \<le> address) idx in
      if pos = 0 then (None, reg1)
      else let (_, end_avma, by_base_idx) = idx ! (pos - 1) in
        (if address < end_avma then Some by_base_idx else None, reg1))"

definition any_symbol_contains :: "string \<Rightarrow> 'c registry \<Rightarrow> bool" where
  "any_symbol_contains needle reg =
     (if needle = [] then True
      else list_ex (\<lambda>b. list_ex (\<lambda>s. contains_bytes needle (sym_name s)) (lb_symbols b)) (br_by_base reg))"

definition cached_demangle :: "'c registry_env \<Rightarrow> string \<Rightarrow> 'c registry \<Rightarrow> demangled \<times> 'c registry" where
  "cached_demangle env raw reg =
     (case env_lru_get env raw (br_demangle_cache reg) of
        (Some cached, c) \<Rightarrow> (cached, reg\<lparr>br_demangle_cache := c\<rparr>)
      | (None, c) \<Rightarrow>
          (let d = demangle_bytes (env_demanglers env) raw in
           (d, reg\<lparr>br_demangle_cache := env_lru_put env raw d c\<rparr>)))"

text \<open>The demangled candidate, or \<open>basename+0xsvma\<close>.\<close>

definition name_or_offset ::
  "'c registry_env \<Rightarrow> string \<Rightarrow> u64 \<Rightarrow> string option \<Rightarrow> 'c registry \<Rightarrow> (string \<times> language) \<times> 'c registry" where
  "name_or_offset env basename svma candidate reg =
     (case candidate of
        Some raw \<Rightarrow> (let (d, reg') = cached_demangle env raw reg in ((dm_name d, dm_language d), reg'))
      | None \<Rightarrow> ((basename @ ''+'' @ fmt_alt_x svma, Unknown), reg))"

definition lookup_symbol_in_shared_cache ::
  "'c registry_env \<Rightarrow> u64 \<Rightarrow> 'c registry \<Rightarrow> resolved_symbol option \<times> 'c registry" where
  "lookup_symbol_in_shared_cache env address reg =
     (case br_shared_cache reg of
        None \<Rightarrow> (None, reg)
      | Some cache \<Rightarrow>
          (let (img_ref, cache') = lookup_address address cache;
               reg1 = reg\<lparr>br_shared_cache := Some cache'\<rparr> in
           case img_ref of
             None \<Rightarrow> (None, reg1)
           | Some img \<Rightarrow>
               (let basename = short_path (ci_install_name img);
                    svma = (address - ci_runtime_avma img) + ci_text_svma img;
                    found = map_option ms_name
                      (find (\<lambda>s. ms_start_svma s \<le> svma \<and> svma < ms_end_svma s) (ci_symbols img));
                    ((function_name, lang), reg2) = name_or_offset env basename svma found reg1 in
                (Some \<lparr>rs_function_name = function_name, rs_binary = basename, rs_is_main = False,
                   rs_language = lang\<rparr>, reg2))))"

definition lookup_symbol_in_kernel_collection ::
  "'c registry_env \<Rightarrow> u64 \<Rightarrow> 'c registry \<Rightarrow> resolved_symbol option \<times> 'c registry" where
  "lookup_symbol_in_kernel_collection env address reg =
     (let (symbol, st) = resolver_lookup (env_demanglers env) (env_load_kernel env) address (br_kernel_symbols reg) in
      (map_option (\<lambda>s. \<lparr>rs_function_name = kres_function_name s, rs_binary = ''kernel:'' @ kres_module s,
         rs_is_main = False, rs_language = kres_language s\<rparr>) symbol,
       reg\<lparr>br_kernel_symbols := st\<rparr>))"

definition symbol_candidate :: "live_symbol list \<Rightarrow> u64 \<Rightarrow> string option" where
  "symbol_candidate symbols svma =
     (let idx = partition_point (\<lambda>s. sym_start_svma s \<le> svma) symbols in
      if 0 < idx
      then (let candidate = symbols ! (idx - 1) in
            if svma < sym_end_svma candidate then Some (sym_name candidate) else None)
      else None)"

definition lookup_symbol ::
  "'c registry_env \<Rightarrow> u64 \<Rightarrow> 'c registry \<Rightarrow> resolved_symbol option \<times> 'c registry" where
  "lookup_symbol env address reg =
     (let (found, reg1) = binary_for_address address reg in
      case found of
        None \<Rightarrow>
          (case lookup_symbol_in_kernel_collection env address reg1 of
             (Some symbol, reg2) \<Rightarrow> (Some symbol, reg2)
           | (None, reg2) \<Rightarrow> lookup_symbol_in_shared_cache env address reg2)
      | Some idx \<Rightarrow>
          (let binary = br_by_base reg1 ! idx;
               svma = svma_for binary address;
               basename = short_path (lb_path binary);
               ((function_name, lang), reg2) =
                 name_or_offset env basename svma (symbol_candidate (lb_symbols binary) svma) reg1 in
           (Some \<lparr>rs_function_name = function_name, rs_binary = basename,
              rs_is_main = lb_is_executable binary, rs_language = lang\<rparr>, reg2)))"

section \<open>Resolving to bytes\<close>

definition read_target_memory :: "'c registry_env \<Rightarrow> u64 \<Rightarrow> u64 \<Rightarrow> 'c registry \<Rightarrow> string option" where
  "read_target_memory env address len reg =
     (case br_target_task_port reg of
        None \<Rightarrow> None | Some port \<Rightarrow> env_vm_read env (ucast port) address len)"

definition macho_byte_source_fetch :: "u64 \<Rightarrow> u64 \<Rightarrow> 'c registry \<Rightarrow> string option" where
  "macho_byte_source_fetch address len reg =
     (case br_byte_source reg of None \<Rightarrow> None | Some src \<Rightarrow> src address len)"

definition resolve_unmapped :: "'c registry_env \<Rightarrow> u64 \<Rightarrow> 'c registry \<Rightarrow> resolved_address option" where
  "resolve_unmapped env address reg =
     (let window = 256; half = window div 2;
          base_address = sat_sub address half AND NOT 3 in
      case read_target_memory env base_address window reg of
        None \<Rightarrow> None
      | Some bytes \<Rightarrow>
          Some \<lparr>ra_binary_path = ''(target memory)'', ra_arch = br_dyld_arch reg,
            ra_function_name = ''(unmapped) '' @ fmt_alt_x address, ra_language = Unknown,
            ra_base_address = base_address, ra_end_address = base_address + of_nat (length bytes),
            ra_bytes = bytes, ra_fn_start_svma = base_address, ra_image = None\<rparr>)"

definition inline_fetch :: "string \<Rightarrow> u64 \<Rightarrow> u64 \<Rightarrow> u64 \<Rightarrow> string option" where
  "inline_fetch inline text_svma fn_start_svma len =
     (case checked_sub fn_start_svma text_svma of
        None \<Rightarrow> None
      | Some off \<Rightarrow>
          (case checked_add off len of
             None \<Rightarrow> None
           | Some end_off \<Rightarrow>
               if length inline < unat end_off then None
               else Some (take (unat len) (drop (unat off) inline))))"

text \<open>The four sources of a function's bytes, in the order they are tried.\<close>

definition function_bytes ::
  "'c registry_env \<Rightarrow> code_image option \<Rightarrow> loaded_binary \<Rightarrow> u64 \<Rightarrow> u64 \<Rightarrow> u64 \<Rightarrow> 'c registry \<Rightarrow> string option" where
  "function_bytes env img binary fn_start_svma base_address len reg =
     (case (case img of None \<Rightarrow> None | Some i \<Rightarrow> fetch i fn_start_svma len) of
        Some b \<Rightarrow> Some b
      | None \<Rightarrow>
     (case read_target_memory env base_address len reg of
        Some b \<Rightarrow> Some b
      | None \<Rightarrow>
     (case (case lb_text_bytes binary of None \<Rightarrow> None
              | Some inline \<Rightarrow> inline_fetch inline (lb_text_svma binary) fn_start_svma len) of
        Some b \<Rightarrow> Some b
      | None \<Rightarrow> macho_byte_source_fetch base_address len reg)))"

definition function_extent ::
  "'c registry_env \<Rightarrow> loaded_binary \<Rightarrow> u64 \<Rightarrow> string \<times> language \<times> u64 \<times> u64" where
  "function_extent env binary svma =
     (case find (\<lambda>s. sym_start_svma s \<le> svma \<and> svma < sym_end_svma s) (lb_symbols binary) of
        Some s \<Rightarrow> (let d = demangle_bytes (env_demanglers env) (sym_name s) in
                   (dm_name d, dm_language d, sym_start_svma s, sym_end_svma s))
      | None \<Rightarrow> (let window = 64 in
          (short_path (lb_path binary) @ ''+'' @ fmt_alt_x svma, Unknown,
           sat_sub svma (window div 2), sat_add svma (window div 2))))"

definition resolve :: "'c registry_env \<Rightarrow> u64 \<Rightarrow> 'c registry \<Rightarrow> resolved_address option \<times> 'c registry" where
  "resolve env address reg =
     (let (found, reg1) = binary_for_address address reg in
      case found of
        None \<Rightarrow> (resolve_unmapped env address reg1, reg1)
      | Some binary_idx \<Rightarrow>
          (let binary = br_by_base reg1 ! binary_idx;
               (img, reg2) = image_for env (lb_path binary) reg1;
               (function_name, lang, fn_start, fn_end) = function_extent env binary (svma_for binary address);
               len = sat_sub fn_end fn_start in
           if len = 0 then (None, reg2)
           else let base_address = avma_for_svma (lb_base_avma binary) (lb_text_svma binary) fn_start;
                    end_address = avma_for_svma (lb_base_avma binary) (lb_text_svma binary) fn_end in
             case function_bytes env img binary fn_start base_address len reg2 of
               None \<Rightarrow> (None, reg2)
             | Some bytes \<Rightarrow>
                 (Some \<lparr>ra_binary_path = lb_path binary, ra_arch = lb_arch binary,
                    ra_function_name = function_name, ra_language = lang, ra_base_address = base_address,
                    ra_end_address = end_address, ra_bytes = bytes, ra_fn_start_svma = fn_start,
                    ra_image = img\<rparr>, reg2)))"

section \<open>The address index\<close>

definition entry_of :: "nat \<times> loaded_binary \<Rightarrow> u64 \<times> u64 \<times> nat" where
  "entry_of = (\<lambda>(i, b). (lb_base_avma b, lb_avma_end b, i))"

interpretation bi: address_table fst "\<lambda>e. fst (snd e)" "fresh_index bs" for bs :: "loaded_binary list"
  unfolding fresh_index_def by unfold_locales (rule sorted_sort_by_key)

interpretation sy: address_table sym_start_svma sym_end_svma "sort_by_key sym_start_svma symbols" for symbols
  by unfold_locales (rule sorted_sort_by_key)

text \<open>
  The registry's invariant: base addresses are unique, symbol tables sorted, a cached index is
  the one a rebuild gives, and the caches of the lazily loaded parts are coherent.
\<close>

definition registry_ok :: "'c registry \<Rightarrow> bool" where
  "registry_ok reg \<longleftrightarrow> distinct (map lb_base_avma (br_by_base reg)) \<and>
     list_all (\<lambda>b. sorted_wrt (\<lambda>s t. sym_start_svma s \<le> sym_start_svma t) (lb_symbols b)) (br_by_base reg) \<and>
     (br_index reg = None \<or> br_index reg = Some (fresh_index (br_by_base reg)))"

lemma set_fresh_index: "(b, e, i) \<in> set (fresh_index bs) \<longleftrightarrow>
    i < length bs \<and> b = lb_base_avma (bs ! i) \<and> e = lb_avma_end (bs ! i)"
proof -
  have "(b, e, i) \<in> set (map (\<lambda>(i, b). (lb_base_avma b, lb_avma_end b, i)) (enumerate 0 bs)) \<longleftrightarrow>
      (\<exists>x \<in> set (enumerate 0 bs). (b, e, i) = (lb_base_avma (snd x), lb_avma_end (snd x), fst x))"
    by (auto simp: image_iff case_prod_beta)
  also have "\<dots> \<longleftrightarrow> i < length bs \<and> b = lb_base_avma (bs ! i) \<and> e = lb_avma_end (bs ! i)"
    by (force simp: in_set_enumerate_eq intro: bexI [of _ "(i, bs ! i)"])
  finally show ?thesis by (simp add: fresh_index_def)
qed

lemma fresh_indexE:
  assumes "x \<in> set (fresh_index bs)"
  obtains i where "x = (lb_base_avma (bs ! i), lb_avma_end (bs ! i), i)" "i < length bs"
proof (cases x)
  case (fields b e i)
  then show ?thesis using that [of i] assms by (simp add: set_fresh_index)
qed

lemma binary_for_address_index:
  assumes "registry_ok reg"
  shows "binary_for_address a reg =
    (map_option (\<lambda>e. snd (snd e)) (find_covering fst (\<lambda>e. fst (snd e)) a (fresh_index (br_by_base reg))),
     reg\<lparr>br_index := Some (fresh_index (br_by_base reg))\<rparr>)"
  using assms
  by (auto simp: registry_ok_def binary_for_address_def find_covering_def last_at_or_before_def Let_def
      split: option.splits prod.splits)

definition images_disjoint :: "loaded_binary list \<Rightarrow> bool" where
  "images_disjoint bs = ranges_disjoint lb_base_avma lb_avma_end bs"

lemma fresh_index_disjoint:
  assumes "images_disjoint bs" "distinct (map lb_base_avma bs)"
  shows "ranges_disjoint fst (\<lambda>e. fst (snd e)) (fresh_index bs)"
  unfolding ranges_disjoint_def list_all_iff
proof (intro conjI ballI)
  fix x assume x: "x \<in> set (fresh_index bs)"
  then obtain i where x': "x = (lb_base_avma (bs ! i), lb_avma_end (bs ! i), i)" "i < length bs"
    by (rule fresh_indexE)
  then show "fst x < fst (snd x)"
    using assms(1) unfolding images_disjoint_def ranges_disjoint_def list_all_iff by simp
  fix y assume y: "y \<in> set (fresh_index bs)"
  then obtain j where y': "y = (lb_base_avma (bs ! j), lb_avma_end (bs ! j), j)" "j < length bs"
    by (rule fresh_indexE)
  have "bs ! i = bs ! j \<or> lb_avma_end (bs ! i) \<le> lb_base_avma (bs ! j) \<or> lb_avma_end (bs ! j) \<le> lb_base_avma (bs ! i)"
    using assms(1) x'(2) y'(2) unfolding images_disjoint_def ranges_disjoint_def list_all_iff by auto
  moreover have "i = j" if "bs ! i = bs ! j"
    using assms(2) x'(2) y'(2) that by (metis distinct_map nth_eq_iff_index_eq)
  ultimately show "x = y \<or> fst (snd x) \<le> fst y \<or> fst (snd y) \<le> fst x"
    using x' y' by auto
qed

lemma binary_for_address_sound:
  assumes "registry_ok reg" "fst (binary_for_address a reg) = Some i"
  shows "i < length (br_by_base reg) \<and> lb_base_avma (br_by_base reg ! i) \<le> a \<and> a < lb_avma_end (br_by_base reg ! i)"
proof -
  obtain b e where "find_covering fst (\<lambda>e. fst (snd e)) a (fresh_index (br_by_base reg)) = Some (b, e, i)"
    using assms(2) unfolding binary_for_address_index [OF assms(1)] by auto
  from bi.covering_sound [OF this] show ?thesis by (auto simp: set_fresh_index)
qed

lemma binary_for_address_complete:
  assumes "registry_ok reg" "images_disjoint (br_by_base reg)"
    and "i < length (br_by_base reg)" "lb_base_avma (br_by_base reg ! i) \<le> a" "a < lb_avma_end (br_by_base reg ! i)"
  shows "fst (binary_for_address a reg) = Some i"
proof -
  let ?e = "(lb_base_avma (br_by_base reg ! i), lb_avma_end (br_by_base reg ! i), i)"
  have "distinct (map lb_base_avma (br_by_base reg))" using assms(1) by (simp add: registry_ok_def)
  from fresh_index_disjoint [OF assms(2) this]
  have "find_covering fst (\<lambda>e. fst (snd e)) a (fresh_index (br_by_base reg)) = Some ?e"
    using assms(3-5) by (intro bi.covering_complete) (simp_all add: set_fresh_index)
  then show ?thesis by (simp add: binary_for_address_index [OF assms(1)])
qed

text \<open>
  Address lookup through the lazily cached index is exact: as long as the loaded
  images do not overlap, an address maps to an image exactly when that image covers it, the
  returned index is always in range, and the lookup keeps the registry's invariant.
\<close>

theorem binary_for_address_exact:
  assumes "registry_ok reg" "images_disjoint (br_by_base reg)"
  shows "(fst (binary_for_address a reg) = Some i \<longleftrightarrow>
      i < length (br_by_base reg) \<and> lb_base_avma (br_by_base reg ! i) \<le> a \<and> a < lb_avma_end (br_by_base reg ! i)) \<and>
    registry_ok (snd (binary_for_address a reg)) \<and> br_by_base (snd (binary_for_address a reg)) = br_by_base reg"
proof -
  have "registry_ok (snd (binary_for_address a reg))" "br_by_base (snd (binary_for_address a reg)) = br_by_base reg"
    using assms(1) by (simp_all add: binary_for_address_index registry_ok_def)
  then show ?thesis
    using binary_for_address_sound [OF assms(1)] binary_for_address_complete [OF assms] by blast
qed

lemma registry_ok_new: "registry_ok (new_registry c)"
  by (simp add: registry_ok_def new_registry_def)

lemma registry_ok_insert: "registry_ok reg \<Longrightarrow> registry_ok (insert_binary b reg)"
  by (auto simp: registry_ok_def insert_binary_def invalidate_index_def Let_def list_all_iff
      sorted_sort_by_key distinct_map inj_on_def)

lemma registry_ok_remove: "registry_ok reg \<Longrightarrow> registry_ok (remove_binary base reg)"
  by (auto simp: registry_ok_def remove_binary_def invalidate_index_def list_all_iff distinct_map inj_on_def)

text \<open>
  The contract of the LRU cache: some view of it as a map, from which a read only returns
  what is there and to which a write only adds the new binding.
\<close>

definition lru_contract :: "'c registry_env \<Rightarrow> ('c \<Rightarrow> string \<Rightarrow> demangled option) \<Rightarrow> bool" where
  "lru_contract env entries \<longleftrightarrow>
     (\<forall>k c d. fst (env_lru_get env k c) = Some d \<longrightarrow> entries c k = Some d) \<and>
     (\<forall>k c k' d. entries (snd (env_lru_get env k c)) k' = Some d \<longrightarrow> entries c k' = Some d) \<and>
     (\<forall>k d c k' d'. entries (env_lru_put env k d c) k' = Some d' \<longrightarrow>
        (k' = k \<and> d' = d) \<or> entries c k' = Some d')"

definition cache_ok :: "'c registry_env \<Rightarrow> ('c \<Rightarrow> string \<Rightarrow> demangled option) \<Rightarrow> 'c registry \<Rightarrow> bool" where
  "cache_ok env entries reg \<longleftrightarrow> registry_ok reg \<and>
     (\<forall>k d. entries (br_demangle_cache reg) k = Some d \<longrightarrow> d = demangle_bytes (env_demanglers env) k) \<and>
     (br_kernel_symbols reg = Uninitialized \<or>
      br_kernel_symbols reg = (case env_load_kernel env of Inl _ \<Rightarrow> Failed | Inr ks \<Rightarrow> Ready ks)) \<and>
     (case br_shared_cache reg of None \<Rightarrow> True | Some sc \<Rightarrow> index_coherent sc)"

text \<open>What a lookup means, without any cache.\<close>

definition plain_name :: "'c registry_env \<Rightarrow> string \<Rightarrow> u64 \<Rightarrow> string option \<Rightarrow> string \<times> language" where
  "plain_name env basename svma candidate =
     (case candidate of
        Some raw \<Rightarrow> (let d = demangle_bytes (env_demanglers env) raw in (dm_name d, dm_language d))
      | None \<Rightarrow> (basename @ ''+'' @ fmt_alt_x svma, Unknown))"

definition binary_symbol :: "'c registry_env \<Rightarrow> loaded_binary \<Rightarrow> u64 \<Rightarrow> resolved_symbol" where
  "binary_symbol env b a =
     (let (n, l) = plain_name env (short_path (lb_path b)) (svma_for b a)
        (symbol_candidate (lb_symbols b) (svma_for b a)) in
      \<lparr>rs_function_name = n, rs_binary = short_path (lb_path b), rs_is_main = lb_is_executable b, rs_language = l\<rparr>)"

definition kernel_symbol :: "'c registry_env \<Rightarrow> u64 \<Rightarrow> resolved_symbol option" where
  "kernel_symbol env a =
     (case env_load_kernel env of
        Inl _ \<Rightarrow> None
      | Inr ks \<Rightarrow> if is_kernel_address a
          then map_option (\<lambda>s. \<lparr>rs_function_name = kres_function_name s, rs_binary = ''kernel:'' @ kres_module s,
             rs_is_main = False, rs_language = kres_language s\<rparr>) (kernel_lookup (env_demanglers env) ks a)
          else None)"

definition image_symbol :: "'c registry_env \<Rightarrow> cache_image \<Rightarrow> u64 \<Rightarrow> resolved_symbol" where
  "image_symbol env img a =
     (let svma = (a - ci_runtime_avma img) + ci_text_svma img;
          (n, l) = plain_name env (short_path (ci_install_name img)) svma
            (map_option ms_name (find (\<lambda>s. ms_start_svma s \<le> svma \<and> svma < ms_end_svma s) (ci_symbols img))) in
      \<lparr>rs_function_name = n, rs_binary = short_path (ci_install_name img), rs_is_main = False, rs_language = l\<rparr>)"

definition plain_lookup :: "'c registry_env \<Rightarrow> u64 \<Rightarrow> loaded_binary list \<Rightarrow> cache_image list \<Rightarrow> resolved_symbol option" where
  "plain_lookup env a bs images =
     (case find_covering fst (\<lambda>e. fst (snd e)) a (fresh_index bs) of
        Some e \<Rightarrow> Some (binary_symbol env (bs ! snd (snd e)) a)
      | None \<Rightarrow>
          (case kernel_symbol env a of
             Some s \<Rightarrow> Some s
           | None \<Rightarrow> map_option (\<lambda>img. image_symbol env img a)
               (find_covering ci_runtime_avma ci_end a (sort_by_key ci_runtime_avma images))))"

definition registry_images :: "'c registry \<Rightarrow> cache_image list" where
  "registry_images reg = (case br_shared_cache reg of None \<Rightarrow> [] | Some sc \<Rightarrow> cache_images sc)"

text \<open>What every lookup leaves as it was.\<close>

definition same_content :: "'c registry \<Rightarrow> 'c registry \<Rightarrow> bool" where
  "same_content r r' \<longleftrightarrow> br_by_base r' = br_by_base r \<and> registry_images r' = registry_images r"

lemma cached_demangle_plain:
  assumes "lru_contract env entries" "cache_ok env entries reg"
  shows "fst (cached_demangle env raw reg) = demangle_bytes (env_demanglers env) raw \<and>
    cache_ok env entries (snd (cached_demangle env raw reg)) \<and>
    same_content reg (snd (cached_demangle env raw reg))"
proof -
  obtain v c where get: "env_lru_get env raw (br_demangle_cache reg) = (v, c)" by fastforce
  have old: "entries c k = Some d \<Longrightarrow> d = demangle_bytes (env_demanglers env) k" for k d
    using assms get unfolding lru_contract_def cache_ok_def by (metis snd_conv)
  show ?thesis
  proof (cases v)
    case None
    have "entries (env_lru_put env raw (demangle_bytes (env_demanglers env) raw) c) k = Some d \<Longrightarrow>
        d = demangle_bytes (env_demanglers env) k" for k d
      using assms(1) old unfolding lru_contract_def by blast
    then show ?thesis
      using assms(2) by (simp add: cached_demangle_def get None Let_def cache_ok_def registry_ok_def
          same_content_def registry_images_def)
  next
    case (Some d)
    then have "d = demangle_bytes (env_demanglers env) raw"
      using assms get unfolding lru_contract_def cache_ok_def by (metis fst_conv)
    then show ?thesis
      using assms(2) old by (simp add: cached_demangle_def get Some cache_ok_def registry_ok_def
          same_content_def registry_images_def)
  qed
qed

lemma name_or_offset_plain:
  assumes "lru_contract env entries" "cache_ok env entries reg"
  shows "fst (name_or_offset env b s c reg) = plain_name env b s c \<and>
    cache_ok env entries (snd (name_or_offset env b s c reg)) \<and>
    same_content reg (snd (name_or_offset env b s c reg))"
  using cached_demangle_plain [OF assms] assms(2)
  by (cases c) (simp_all add: name_or_offset_def plain_name_def Let_def case_prod_beta same_content_def)

lemma kernel_lookup_plain:
  assumes "cache_ok env entries reg"
  shows "fst (lookup_symbol_in_kernel_collection env a reg) = kernel_symbol env a \<and>
    cache_ok env entries (snd (lookup_symbol_in_kernel_collection env a reg)) \<and>
    same_content reg (snd (lookup_symbol_in_kernel_collection env a reg))"
proof -
  have st: "br_kernel_symbols reg = Uninitialized \<or>
      br_kernel_symbols reg = (case env_load_kernel env of Inl _ \<Rightarrow> Failed | Inr ks \<Rightarrow> Ready ks)"
    using assms by (simp add: cache_ok_def)
  have "fst (lookup_symbol_in_kernel_collection env a reg) = kernel_symbol env a"
    using st by (cases "env_load_kernel env")
      (auto simp: lookup_symbol_in_kernel_collection_def resolver_lookup_def kernel_symbol_def)
  moreover have "cache_ok env entries (snd (lookup_symbol_in_kernel_collection env a reg))"
    using assms st by (cases "env_load_kernel env")
      (auto simp: lookup_symbol_in_kernel_collection_def resolver_lookup_def cache_ok_def registry_ok_def)
  moreover have "same_content reg (snd (lookup_symbol_in_kernel_collection env a reg))"
    by (simp add: lookup_symbol_in_kernel_collection_def same_content_def registry_images_def case_prod_beta Let_def)
  ultimately show ?thesis by blast
qed

lemma cache_lookup_plain:
  assumes "lru_contract env entries" "cache_ok env entries reg"
  shows "fst (lookup_symbol_in_shared_cache env a reg) =
      map_option (\<lambda>img. image_symbol env img a)
        (find_covering ci_runtime_avma ci_end a (sort_by_key ci_runtime_avma (registry_images reg))) \<and>
    cache_ok env entries (snd (lookup_symbol_in_shared_cache env a reg)) \<and>
    same_content reg (snd (lookup_symbol_in_shared_cache env a reg))"
proof (cases "br_shared_cache reg")
  case None
  then show ?thesis
    using assms(2) by (simp add: lookup_symbol_in_shared_cache_def registry_images_def same_content_def
        find_covering_def last_at_or_before_def partition_point_def sort_by_key_def sort_by_def)
next
  case (Some sc)
  have coh: "index_coherent sc" using assms(2) Some by (simp add: cache_ok_def)
  note look = lookup_address_covering [OF coh, of a]
  let ?reg1 = "reg\<lparr>br_shared_cache := Some (snd (lookup_address a sc))\<rparr>"
  have ok1: "cache_ok env entries ?reg1" "same_content reg ?reg1"
    using assms(2) look(2,3) Some by (simp_all add: cache_ok_def registry_ok_def same_content_def registry_images_def)
  show ?thesis
  proof (cases "fst (lookup_address a sc)")
    case None
    then show ?thesis
      using ok1 look(1) by (simp add: lookup_symbol_in_shared_cache_def Some case_prod_beta registry_images_def Let_def)
  next
    case (Some img)
    define svma where "svma = (a - ci_runtime_avma img) + ci_text_svma img"
    define cand where "cand = map_option ms_name (find (\<lambda>s. ms_start_svma s \<le> svma \<and> svma < ms_end_svma s) (ci_symbols img))"
    note name = name_or_offset_plain [OF assms(1) ok1(1), of "short_path (ci_install_name img)" svma cand]
    have eq: "lookup_symbol_in_shared_cache env a reg =
        (Some (image_symbol env img a), snd (name_or_offset env (short_path (ci_install_name img)) svma cand ?reg1))"
      using name by (simp add: lookup_symbol_in_shared_cache_def \<open>br_shared_cache reg = Some sc\<close> Some
          case_prod_beta Let_def image_symbol_def svma_def [symmetric] cand_def [symmetric])
    have fc: "find_covering ci_runtime_avma ci_end a (sort_by_key ci_runtime_avma (cache_images sc)) = Some img"
      using look(1) Some by simp
    show ?thesis
      using name ok1(2) \<open>br_shared_cache reg = Some sc\<close>
      by (simp add: eq registry_images_def same_content_def fc)
  qed
qed

lemma lookup_symbol_plain:
  assumes "lru_contract env entries" "cache_ok env entries reg"
  shows "fst (lookup_symbol env a reg) = plain_lookup env a (br_by_base reg) (registry_images reg) \<and>
    cache_ok env entries (snd (lookup_symbol env a reg)) \<and> same_content reg (snd (lookup_symbol env a reg))"
proof -
  let ?reg1 = "reg\<lparr>br_index := Some (fresh_index (br_by_base reg))\<rparr>"
  have ok: "registry_ok reg" using assms(2) by (simp add: cache_ok_def)
  have ok1: "cache_ok env entries ?reg1" "same_content reg ?reg1"
    using assms(2) by (simp_all add: cache_ok_def registry_ok_def same_content_def registry_images_def)
  have imgs: "registry_images ?reg1 = registry_images reg" "br_by_base ?reg1 = br_by_base reg"
    by (simp_all add: registry_images_def)
  show ?thesis
  proof (cases "find_covering fst (\<lambda>e. fst (snd e)) a (fresh_index (br_by_base reg))")
    case None
    let ?k = "lookup_symbol_in_kernel_collection env a ?reg1"
    note kernel = kernel_lookup_plain [OF ok1(1), of a]
    then have k: "cache_ok env entries (snd ?k)" "registry_images (snd ?k) = registry_images reg"
        "br_by_base (snd ?k) = br_by_base reg" "fst ?k = kernel_symbol env a"
      using imgs by (simp_all add: same_content_def)
    note cache = cache_lookup_plain [OF assms(1) k(1), of a]
    have eq: "lookup_symbol env a reg = (case fst ?k of Some s \<Rightarrow> (Some s, snd ?k)
        | None \<Rightarrow> lookup_symbol_in_shared_cache env a (snd ?k))"
      by (simp add: lookup_symbol_def binary_for_address_index [OF ok] None case_prod_beta split: option.split)
    show ?thesis
      using cache k by (cases "kernel_symbol env a") (simp_all add: eq plain_lookup_def None same_content_def)
  next
    case (Some e)
    let ?b = "br_by_base reg ! snd (snd e)"
    note name = name_or_offset_plain [OF assms(1) ok1(1), of "short_path (lb_path ?b)" "svma_for ?b a"
        "symbol_candidate (lb_symbols ?b) (svma_for ?b a)"]
    then show ?thesis
      using imgs by (simp add: lookup_symbol_def binary_for_address_index [OF ok] Some plain_lookup_def case_prod_beta
          binary_symbol_def Let_def same_content_def)
  qed
qed

text \<open>A history of registry operations.\<close>

datatype registry_op = Insert loaded_binary | Remove u64 | SetCache shared_cache | Lookup u64

fun registry_step :: "'c registry_env \<Rightarrow> registry_op \<Rightarrow> 'c registry \<Rightarrow> 'c registry" where
  "registry_step env (Insert b) reg = insert_binary b reg"
| "registry_step env (Remove base) reg = remove_binary base reg"
| "registry_step env (SetCache sc) reg = set_shared_cache (sc\<lparr>sc_index := None\<rparr>) reg"
| "registry_step env (Lookup a) reg = snd (lookup_symbol env a reg)"

definition is_lookup :: "registry_op \<Rightarrow> bool" where
  "is_lookup opn = (case opn of Lookup _ \<Rightarrow> True | _ \<Rightarrow> False)"

lemma registry_step_ok:
  assumes "lru_contract env entries" "cache_ok env entries reg"
  shows "cache_ok env entries (registry_step env opn reg)"
proof (cases opn)
  case (Lookup a)
  then show ?thesis using lookup_symbol_plain [OF assms] by simp
next
  case (Insert b)
  then show ?thesis using assms(2) registry_ok_insert [of reg b]
    by (simp add: cache_ok_def insert_binary_def invalidate_index_def Let_def)
next
  case (Remove base)
  then show ?thesis using assms(2) registry_ok_remove [of reg base]
    by (simp add: cache_ok_def remove_binary_def invalidate_index_def)
next
  case (SetCache sc)
  then show ?thesis using assms(2)
    by (simp add: cache_ok_def set_shared_cache_def index_coherent_def registry_ok_def)
qed

lemma registry_step_content:
  assumes "lru_contract env entries" "cache_ok env entries reg" "cache_ok env entries reg'"
    and "br_by_base reg' = br_by_base reg" "registry_images reg' = registry_images reg"
  shows "br_by_base (registry_step env opn reg') = br_by_base (registry_step env opn reg) \<and>
    registry_images (registry_step env opn reg') = registry_images (registry_step env opn reg)"
  using assms lookup_symbol_plain [OF assms(1,2)] lookup_symbol_plain [OF assms(1,3)]
  by (cases opn) (auto simp: same_content_def insert_binary_def remove_binary_def invalidate_index_def
      set_shared_cache_def registry_images_def Let_def)

lemma registry_run_content:
  assumes "lru_contract env entries" "\<And>k. entries c k = None"
  defines "run \<equiv> \<lambda>ops. fold (registry_step env) ops (new_registry c)"
  shows "cache_ok env entries (run ops) \<and> br_by_base (run (filter (\<lambda>p. \<not> is_lookup p) ops)) = br_by_base (run ops) \<and>
    registry_images (run (filter (\<lambda>p. \<not> is_lookup p) ops)) = registry_images (run ops)"
proof -
  have init: "cache_ok env entries (new_registry c)"
    using assms(2) registry_ok_new [of c] by (simp add: cache_ok_def new_registry_def)
  have ok: "cache_ok env entries (run ops)" for ops
  proof (induction ops rule: rev_induct)
    case Nil
    then show ?case using init by (simp add: run_def)
  next
    case (snoc p ops)
    then show ?case using registry_step_ok [OF assms(1)] by (simp add: run_def)
  qed
  have "br_by_base (run (filter (\<lambda>p. \<not> is_lookup p) ops)) = br_by_base (run ops) \<and>
    registry_images (run (filter (\<lambda>p. \<not> is_lookup p) ops)) = registry_images (run ops)"
  proof (induction ops rule: rev_induct)
    case Nil
    then show ?case by simp
  next
    case (snoc p ops)
    let ?a = "run ops" and ?b = "run (filter (\<lambda>p. \<not> is_lookup p) ops)"
    show ?case
    proof (cases "is_lookup p")
      case True
      then obtain a where "p = Lookup a" by (cases p) (auto simp: is_lookup_def)
      then show ?thesis
        using snoc.IH lookup_symbol_plain [OF assms(1) ok [of ops], of a]
        by (simp add: run_def same_content_def is_lookup_def)
    next
      case False
      then show ?thesis
        using registry_step_content [OF assms(1) ok ok, of "filter (\<lambda>p. \<not> is_lookup p) ops" ops p] snoc.IH
        by (simp add: run_def)
    qed
  qed
  then show ?thesis using ok by blast
qed

text \<open>
  C10: The registry's caches are invisible. After any history of image loads, unloads,
  cache attachments and lookups, a lookup returns exactly what the uncached specification says
  for the images now present: the same as if none of the earlier lookups had happened.
\<close>

theorem lookup_history_independent:
  assumes "lru_contract env entries" "\<And>k. entries c k = None"
  shows "let run = (\<lambda>ops. fold (registry_step env) ops (new_registry c)) in
    fst (lookup_symbol env a (run ops)) = fst (lookup_symbol env a (run (filter (\<lambda>p. \<not> is_lookup p) ops))) \<and>
    fst (lookup_symbol env a (run ops)) = plain_lookup env a (br_by_base (run ops)) (registry_images (run ops))"
  using registry_run_content [OF assms, of ops] registry_run_content [OF assms, of "filter (\<lambda>p. \<not> is_lookup p) ops"]
    lookup_symbol_plain [OF assms(1), of "fold (registry_step env) ops (new_registry c)" a]
    lookup_symbol_plain [OF assms(1), of "fold (registry_step env) (filter (\<lambda>p. \<not> is_lookup p) ops) (new_registry c)" a]
  by (simp add: Let_def)

text \<open>A concrete environment: a one-entry cache, a failing kernel load and no file system.\<close>

definition demo_env :: "(string \<times> demangled) option registry_env" where
  "demo_env = \<lparr>env_demanglers = (\<lambda>_ _. None),
     env_lru_get = (\<lambda>k c. (case c of Some (k', d) \<Rightarrow> if k = k' then Some d else None | None \<Rightarrow> None, c)),
     env_lru_put = (\<lambda>k d c. Some (k, d)), env_load_kernel = Inl ''none'', env_vm_read = (\<lambda>_ _ _. None),
     env_read_file = (\<lambda>_. None), env_segments = (\<lambda>_. None)\<rparr>"

definition demo_entries :: "(string \<times> demangled) option \<Rightarrow> string \<Rightarrow> demangled option" where
  "demo_entries c k = (case c of Some (k', d) \<Rightarrow> if k = k' then Some d else None | None \<Rightarrow> None)"

lemma demo_lru_contract: "lru_contract demo_env demo_entries"
  by (auto simp: lru_contract_def demo_env_def demo_entries_def split: option.splits if_splits)

definition demo_binary :: loaded_binary where
  "demo_binary = \<lparr>lb_path = ''/bin/app'', lb_base_avma = 0x1000, lb_avma_end = 0x2000, lb_text_svma = 0x100,
     lb_arch = None, lb_is_executable = True,
     lb_symbols = [\<lparr>sym_start_svma = 0x110, sym_end_svma = 0x120, sym_name = ''f''\<rparr>],
     lb_text_bytes = Some (replicate 64 CHR ''x'')\<rparr>"

theorem lookup_history_independent_witness:
  "fst (lookup_symbol demo_env 0x1018 (fold (registry_step demo_env) [Insert demo_binary, Lookup 0x1018] (new_registry None))) =
   fst (lookup_symbol demo_env 0x1018 (insert_binary demo_binary (new_registry None)))"
  using lookup_history_independent [OF demo_lru_contract, of None "0x1018" "[Insert demo_binary, Lookup 0x1018]"]
  by (simp add: demo_entries_def Let_def is_lookup_def)

theorem binary_for_address_exact_witness:
  "fst (binary_for_address 0x1018 (insert_binary demo_binary (new_registry None))) = Some 0"
proof -
  have ok: "registry_ok (insert_binary demo_binary (new_registry None))"
    by (intro registry_ok_insert registry_ok_new)
  have "images_disjoint (br_by_base (insert_binary demo_binary (new_registry None)))"
    by (simp add: images_disjoint_def ranges_disjoint_def insert_binary_def new_registry_def invalidate_index_def
        demo_binary_def Let_def)
  then show ?thesis
    by (rule binary_for_address_exact [OF ok, THEN conjunct1, THEN iffD2])
      (simp add: insert_binary_def new_registry_def invalidate_index_def demo_binary_def Let_def)
qed

section \<open>Bytes\<close>

lemma avma_svma_roundtrip:
  "avma_for_svma (lb_base_avma b) (lb_text_svma b) (svma_for b a) = a"
  by (simp add: avma_for_svma_def svma_for_def)

lemma checked_add_unat: "checked_add a b = Some c \<Longrightarrow> unat c = unat a + unat b"
proof -
  assume "checked_add a b = Some c"
  then have "c = a + b" "\<not> a + b < a" by (simp_all add: checked_add_Some)
  then show ?thesis
    using word_add_overflow_iff [of a b] by (simp add: unat_word_ariths)
qed

lemma fetch_headers_sound:
  assumes "fetch_headers bytes hs s len e = Some bs"
  shows "\<exists>h \<in> set hs. lh_address h \<le> s \<and> e \<le> lh_address h + lh_memory_size h \<and>
    unat (s - lh_address h) + unat len \<le> unat (lh_file_size h) \<and>
    unat (lh_file_offset h + (s - lh_address h)) + unat len \<le> length bytes \<and>
    bs = take (unat len) (drop (unat (lh_file_offset h + (s - lh_address h))) bytes)"
  using assms
proof (induction hs)
  case Nil
  then show ?case by simp
next
  case (Cons h hs)
  show ?case
  proof (cases "lh_address h \<le> s \<and> e \<le> lh_address h + lh_memory_size h")
    case True
    then obtain seg_end file_end where "checked_add (s - lh_address h) len = Some seg_end"
      "\<not> lh_file_size h < seg_end"
      "checked_add (lh_file_offset h + (s - lh_address h)) len = Some file_end"
      "\<not> length bytes < unat file_end"
      "bs = take (unat len) (drop (unat (lh_file_offset h + (s - lh_address h))) bytes)"
      using Cons.prems by (auto simp: Let_def checked_add_Some split: option.splits if_splits)
    then show ?thesis
      using True checked_add_unat [of "s - lh_address h" len] 
        checked_add_unat [of "lh_file_offset h + (s - lh_address h)" len]
      by (intro bexI [of _ h]) (simp_all add: word_less_nat_alt)
  next
    case False
    then show ?thesis
      using Cons.prems Cons.IH by (auto simp: checked_add_Some split: option.splits if_splits)
  qed
qed

text \<open>
  C11: A code fetch never reads outside the file: whatever the load headers say, bytes
  are returned only when one header's memory range contains the whole request, the request lies
  within that header's file data and within the file, and then they are exactly the requested
  number of bytes at the header's file offset.
\<close>

theorem fetch_in_bounds:
  assumes "fetch img s len = Some bs"
  shows "length bs = unat len \<and>
    (\<exists>h \<in> set (cim_load_headers img). lh_address h \<le> s \<and> s + len \<le> lh_address h + lh_memory_size h \<and>
      unat (s - lh_address h) + unat len \<le> unat (lh_file_size h) \<and>
      unat (lh_file_offset h + (s - lh_address h)) + unat len \<le> length (cim_bytes img) \<and>
      bs = take (unat len) (drop (unat (lh_file_offset h + (s - lh_address h))) (cim_bytes img)))"
proof -
  have "fetch_headers (cim_bytes img) (cim_load_headers img) s len (s + len) = Some bs"
    using assms by (auto simp: fetch_def checked_add_Some split: option.splits)
  from fetch_headers_sound [OF this] show ?thesis by auto
qed

theorem fetch_in_bounds_witness:
  "fetch \<lparr>cim_bytes = ''0123456789'', cim_load_headers = [\<lparr>lh_address = 0x100, lh_memory_size = 8, lh_file_size = 8,
     lh_file_offset = 2\<rparr>]\<rparr> 0x102 3 = Some ''456'' \<and> length ''456'' = 3"
proof -
  have run: "fetch \<lparr>cim_bytes = ''0123456789'', cim_load_headers = [\<lparr>lh_address = 0x100, lh_memory_size = 8, lh_file_size = 8,
     lh_file_offset = 2\<rparr>]\<rparr> 0x102 3 = Some ''456''"
    by (simp add: fetch_def checked_add_def Let_def)
  show ?thesis using fetch_in_bounds [OF run] run by simp
qed

lemma symbol_candidate_covering:
  "symbol_candidate symbols svma = map_option sym_name (find_covering sym_start_svma sym_end_svma svma symbols)"
  by (auto simp: symbol_candidate_def find_covering_def last_at_or_before_def Let_def)

lemma find_is_covering:
  assumes "sorted_wrt (\<lambda>s t. sym_start_svma s \<le> sym_start_svma t) symbols"
    and "ranges_disjoint sym_start_svma sym_end_svma symbols"
  shows "find (\<lambda>s. sym_start_svma s \<le> a \<and> a < sym_end_svma s) symbols =
    find_covering sym_start_svma sym_end_svma a symbols"
proof -
  have same: "sort_by_key sym_start_svma symbols = symbols" using assms(1) by (rule sort_by_key_sorted)
  note table = sy.covering_complete [of symbols, unfolded same] sy.covering_sound [of a symbols, unfolded same]
  show ?thesis
  proof (cases "find (\<lambda>s. sym_start_svma s \<le> a \<and> a < sym_end_svma s) symbols")
    case None
    then have "\<not> (\<exists>s \<in> set symbols. sym_start_svma s \<le> a \<and> a < sym_end_svma s)"
      by (auto simp: find_None_iff)
    then have "find_covering sym_start_svma sym_end_svma a symbols = None"
      using table(2) by (cases "find_covering sym_start_svma sym_end_svma a symbols") blast+
    then show ?thesis using None by simp
  next
    case (Some s)
    then have "s \<in> set symbols" "sym_start_svma s \<le> a" "a < sym_end_svma s"
      by (auto simp: find_Some_iff)
    then show ?thesis using table(1) [OF assms(2)] Some by simp
  qed
qed

text \<open>The extent and the name of the function at an address agree with the symbol lookup.\<close>

lemma function_extent_plain:
  assumes "sorted_wrt (\<lambda>s t. sym_start_svma s \<le> sym_start_svma t) (lb_symbols b)"
    and "ranges_disjoint sym_start_svma sym_end_svma (lb_symbols b)"
    and "function_extent env b svma = (n, l, fs, fe)"
  shows "(n, l) = plain_name env (short_path (lb_path b)) svma (symbol_candidate (lb_symbols b) svma) \<and>
    fs \<le> svma \<and> svma \<le> fe"
proof (cases "find_covering sym_start_svma sym_end_svma svma (lb_symbols b)")
  case None
  then have "n = short_path (lb_path b) @ ''+'' @ fmt_alt_x svma" "l = Unknown"
    "fs = sat_sub svma 32" "fe = sat_add svma 32"
    using assms(3) by (simp_all add: function_extent_def find_is_covering [OF assms(1,2)] Let_def)
  moreover have "sat_sub svma 32 \<le> svma" by (simp add: word_le_nat_alt sat_simps)
  ultimately show ?thesis
    using None sat_add_ge(1) [of svma 32] by (simp add: plain_name_def symbol_candidate_covering)
next
  case (Some s)
  have "sym_start_svma s \<le> svma" "svma < sym_end_svma s"
    using Some by (auto simp: find_covering_def dest: last_at_or_before_in split: option.splits if_splits)
  then show ?thesis
    using assms(3) Some
    by (auto simp: function_extent_def find_is_covering [OF assms(1,2)] plain_name_def symbol_candidate_covering Let_def)
qed

text \<open>
  Resolving an address to code agrees with looking up its symbol: inside a loaded
  image whose symbols do not overlap, whenever resolution succeeds, the reported function and
  language are those of the symbol lookup, the reported range is the function's range moved to
  where the image is mapped, and the address lies in that range.
\<close>

theorem resolve_agrees_with_lookup:
  assumes "lru_contract env entries" "cache_ok env entries reg"
    and "fst (binary_for_address a reg) = Some i"
    and "ranges_disjoint sym_start_svma sym_end_svma (lb_symbols (br_by_base reg ! i))"
    and "fst (resolve env a reg) = Some r"
  shows "map_option rs_function_name (fst (lookup_symbol env a reg)) = Some (ra_function_name r) \<and>
    map_option rs_language (fst (lookup_symbol env a reg)) = Some (ra_language r) \<and>
    svma_for (br_by_base reg ! i) (ra_base_address r) = ra_fn_start_svma r \<and>
    a - ra_base_address r \<le> ra_end_address r - ra_base_address r"
proof -
  let ?b = "br_by_base reg ! i"
  have ok: "registry_ok reg" using assms(2) by (simp add: cache_ok_def)
  have i: "i < length (br_by_base reg)" using binary_for_address_sound [OF ok assms(3)] by simp
  then have sorted: "sorted_wrt (\<lambda>s t. sym_start_svma s \<le> sym_start_svma t) (lb_symbols ?b)"
    using ok by (simp add: registry_ok_def list_all_iff)
  let ?reg1 = "reg\<lparr>br_index := Some (fresh_index (br_by_base reg))\<rparr>"
  have bfa: "binary_for_address a reg = (Some i, ?reg1)"
    using assms(3) by (simp add: binary_for_address_index [OF ok])
  obtain n l fs fe where ext: "function_extent env ?b (svma_for ?b a) = (n, l, fs, fe)"
    by (cases "function_extent env ?b (svma_for ?b a)")
  note plain = function_extent_plain [OF sorted assms(4) ext]
  have r: "ra_function_name r = n" "ra_language r = l" "ra_fn_start_svma r = fs"
    "ra_base_address r = avma_for_svma (lb_base_avma ?b) (lb_text_svma ?b) fs"
    "ra_end_address r = avma_for_svma (lb_base_avma ?b) (lb_text_svma ?b) fe"
    using assms(5) by (auto simp: resolve_def bfa ext Let_def case_prod_beta split: if_splits option.splits)
  obtain e where e: "find_covering fst (\<lambda>e. fst (snd e)) a (fresh_index (br_by_base reg)) = Some e" "snd (snd e) = i"
    using assms(3) by (auto simp: binary_for_address_index [OF ok])
  have "fst (lookup_symbol env a reg) = Some (binary_symbol env ?b a)"
    using lookup_symbol_plain [OF assms(1,2), of a] e by (simp add: plain_lookup_def)
  moreover have "rs_function_name (binary_symbol env ?b a) = n" "rs_language (binary_symbol env ?b a) = l"
    using plain by (simp_all add: binary_symbol_def Let_def case_prod_beta) (metis fst_conv snd_conv)+
  moreover have "svma_for ?b a - fs \<le> fe - fs"
    using plain by (auto simp: word_le_nat_alt unat_sub)
  then have "a - ra_base_address r \<le> ra_end_address r - ra_base_address r"
    by (simp add: r avma_for_svma_def svma_for_def algebra_simps)
  ultimately show ?thesis
    by (simp add: r svma_for_def avma_for_svma_def)
qed

definition demo_registry :: "(string \<times> demangled) option registry" where
  "demo_registry = insert_binary demo_binary (new_registry None)"

lemma demo_registry_fields:
  "br_by_base demo_registry = [demo_binary]" "br_index demo_registry = None"
  "br_images demo_registry = []" "br_target_task_port demo_registry = None"
  "br_kernel_symbols demo_registry = Uninitialized" "br_shared_cache demo_registry = None"
  "br_demangle_cache demo_registry = None"
  by (simp_all add: demo_registry_def insert_binary_def new_registry_def invalidate_index_def demo_binary_def Let_def
      sort_by_key_def sort_by_def)

lemma demo_binary_fields:
  "lb_path demo_binary = ''/bin/app''" "lb_base_avma demo_binary = 0x1000" "lb_avma_end demo_binary = 0x2000"
  "lb_text_svma demo_binary = 0x100" "lb_arch demo_binary = None"
  "lb_symbols demo_binary = [\<lparr>sym_start_svma = 0x110, sym_end_svma = 0x120, sym_name = ''f''\<rparr>]"
  "lb_text_bytes demo_binary = Some (replicate 64 CHR ''x'')"
  by (simp_all add: demo_binary_def)

lemma demo_registry_find:
  "binary_for_address 0x1018 demo_registry = (Some 0, demo_registry\<lparr>br_index := Some [(0x1000, 0x2000, 0)]\<rparr>)"
  by (simp add: binary_for_address_def demo_registry_fields fresh_index_def demo_binary_fields sort_by_key_def
      sort_by_def partition_point_def Let_def)

theorem resolve_agrees_with_lookup_witness:
  "\<exists>r. fst (resolve demo_env 0x1018 demo_registry) = Some r \<and>
     map_option rs_function_name (fst (lookup_symbol demo_env 0x1018 demo_registry)) = Some (ra_function_name r) \<and>
     ra_bytes r = replicate 16 CHR ''x''"
proof -
  have "registry_ok demo_registry"
    unfolding demo_registry_def by (intro registry_ok_insert registry_ok_new)
  then have ok: "cache_ok demo_env demo_entries demo_registry"
    by (simp add: cache_ok_def demo_registry_fields demo_entries_def)
  have found: "fst (binary_for_address 0x1018 demo_registry) = Some 0"
    by (simp add: demo_registry_find)
  have disj: "ranges_disjoint sym_start_svma sym_end_svma (lb_symbols (br_by_base demo_registry ! 0))"
    by (simp add: demo_registry_fields demo_binary_fields ranges_disjoint_def)
  have "map_option ra_bytes (fst (resolve demo_env 0x1018 demo_registry)) = Some (replicate 16 CHR ''x'')"
    by (simp add: resolve_def demo_registry_find demo_registry_fields demo_binary_fields image_for_def load_image_def
        demo_env_def function_extent_def function_bytes_def svma_for_def read_target_memory_def
        inline_fetch_def checked_sub_def checked_add_def sat_sub_def Let_def case_prod_beta)
  then obtain r where r: "fst (resolve demo_env 0x1018 demo_registry) = Some r" "ra_bytes r = replicate 16 CHR ''x''"
    by auto
  from resolve_agrees_with_lookup [OF demo_lru_contract ok found disj r(1)] r show ?thesis by blast
qed

end
