(* ===== verification/Highlight.thy ===== *)
theory Highlight
  imports Text
begin

text \<open>
  Syntax highlighting (\<open>stax-live/src/highlight.rs\<close>): from the spans of the highlighting
  engine, which may overlap and leave gaps, to a flat run of classified tokens. The engine
  (package \<open>arborium\<close>) is the parameter \<open>spans\<close>, its capture names the parameter
  \<open>slot_of\<close>. A string slice out of order or out of range panics in Rust: it is \<open>None\<close>.
\<close>

datatype theme_slot =
  SlotKeyword | SlotFunction | SlotString | SlotComment | SlotType | SlotVariable | SlotConstant
| SlotNumber | SlotOperator | SlotPunctuation | SlotProperty | SlotAttribute | SlotTag | SlotMacro
| SlotLabel | SlotNamespace | SlotConstructor | SlotTitle | SlotStrong | SlotEmphasis | SlotLink
| SlotLiteral | SlotStrikethrough | SlotDiffAdd | SlotDiffDelete | SlotEmbedded | SlotError | SlotNone

datatype token_class =
  Plain | Keyword | Function | String | Comment | Type | Variable | Constant | Number | Operator
| Punctuation | Property | Attribute | Tag | Macro | Label | Namespace | Constructor | Title | Strong
| Emphasis | Link | Literal | Strikethrough | DiffAdd | DiffDelete | Embedded | Error

fun slot_to_class :: "theme_slot \<Rightarrow> token_class" where
  "slot_to_class SlotKeyword = Keyword"
| "slot_to_class SlotFunction = Function"
| "slot_to_class SlotString = String"
| "slot_to_class SlotComment = Comment"
| "slot_to_class SlotType = Type"
| "slot_to_class SlotVariable = Variable"
| "slot_to_class SlotConstant = Constant"
| "slot_to_class SlotNumber = Number"
| "slot_to_class SlotOperator = Operator"
| "slot_to_class SlotPunctuation = Punctuation"
| "slot_to_class SlotProperty = Property"
| "slot_to_class SlotAttribute = Attribute"
| "slot_to_class SlotTag = Tag"
| "slot_to_class SlotMacro = Macro"
| "slot_to_class SlotLabel = Label"
| "slot_to_class SlotNamespace = Namespace"
| "slot_to_class SlotConstructor = Constructor"
| "slot_to_class SlotTitle = Title"
| "slot_to_class SlotStrong = Strong"
| "slot_to_class SlotEmphasis = Emphasis"
| "slot_to_class SlotLink = Link"
| "slot_to_class SlotLiteral = Literal"
| "slot_to_class SlotStrikethrough = Strikethrough"
| "slot_to_class SlotDiffAdd = DiffAdd"
| "slot_to_class SlotDiffDelete = DiffDelete"
| "slot_to_class SlotEmbedded = Embedded"
| "slot_to_class SlotError = Error"
| "slot_to_class SlotNone = Plain"

record token =
  tk_text :: string
  tk_kind :: token_class

record span =
  spn_start :: nat
  spn_end :: nat
  spn_capture :: string
  spn_pattern_index :: nat

definition plain :: "string \<Rightarrow> token list" where
  "plain str = (if str = [] then [] else [\<lparr>tk_text = str, tk_kind = Plain\<rparr>])"

definition push_run :: "token list \<Rightarrow> string \<Rightarrow> token_class \<Rightarrow> token list" where
  "push_run out str kind =
     (if str = [] then out
      else if out \<noteq> [] \<and> tk_kind (last out) = kind
      then butlast out @ [(last out)\<lparr>tk_text := tk_text (last out) @ str\<rparr>]
      else out @ [\<lparr>tk_text = str, tk_kind = kind\<rparr>])"

definition slice :: "string \<Rightarrow> nat \<Rightarrow> nat \<Rightarrow> string option" where
  "slice s a b = (if a \<le> b \<and> b \<le> length s then Some (take (b - a) (drop a s)) else None)"

definition by_start_then_priority :: "span \<Rightarrow> span \<Rightarrow> ordering" where
  "by_start_then_priority a b =
     then_with (cmp (spn_start a) (spn_start b)) (cmp (spn_pattern_index b) (spn_pattern_index a))"

definition take_span ::
  "(string \<Rightarrow> theme_slot) \<Rightarrow> string \<Rightarrow> span \<Rightarrow> token list \<times> nat \<Rightarrow> (token list \<times> nat) option" where
  "take_span slot_of str sp st =
     (let (out, cursor) = st in
      if spn_end sp \<le> cursor \<or> length str \<le> spn_start sp then Some st
      else let start = max (spn_start sp) cursor; end_pos = min (spn_end sp) (length str) in
        case (if cursor < start then map_option (\<lambda>t. push_run out t Plain) (slice str cursor start) else Some out) of
          None \<Rightarrow> None
        | Some out1 \<Rightarrow>
            (case slice str start end_pos of
               None \<Rightarrow> None
             | Some t \<Rightarrow> Some (push_run out1 t (slot_to_class (slot_of (spn_capture sp))), end_pos)))"

fun walk_spans ::
  "(string \<Rightarrow> theme_slot) \<Rightarrow> string \<Rightarrow> span list \<Rightarrow> token list \<times> nat \<Rightarrow> (token list \<times> nat) option" where
  "walk_spans slot_of str [] st = Some st"
| "walk_spans slot_of str (sp # sps) st =
     (case take_span slot_of str sp st of None \<Rightarrow> None | Some st' \<Rightarrow> walk_spans slot_of str sps st')"

definition spans_to_tokens :: "(string \<Rightarrow> theme_slot) \<Rightarrow> string \<Rightarrow> span list \<Rightarrow> token list option" where
  "spans_to_tokens slot_of str spans =
     (if str = [] then Some []
      else if spans = [] then Some (plain str)
      else case walk_spans slot_of str (sort_by by_start_then_priority spans) ([], 0) of
        None \<Rightarrow> None
      | Some (out, cursor) \<Rightarrow>
          if cursor < length str
          then map_option (\<lambda>t. push_run out t Plain) (slice str cursor (length str))
          else Some out)"

text \<open>The engine: it fails, or returns spans.\<close>

type_synonym engine = "string \<Rightarrow> string \<Rightarrow> span list option"

definition highlight_in :: "engine \<Rightarrow> (string \<Rightarrow> theme_slot) \<Rightarrow> string \<Rightarrow> string \<Rightarrow> token list option" where
  "highlight_in spans slot_of lang str =
     (case spans lang str of
        Some sps \<Rightarrow> spans_to_tokens slot_of str sps
      | None \<Rightarrow> Some (plain str))"

definition highlight_line :: "engine \<Rightarrow> (string \<Rightarrow> theme_slot) \<Rightarrow> string \<Rightarrow> token list option" where
  "highlight_line spans slot_of asm = highlight_in spans slot_of ''asm'' asm"

section \<open>The tokens cover the text\<close>

definition joined :: "token list \<Rightarrow> string" where
  "joined out = concat (map tk_text out)"

text \<open>Runs are non-empty and maximal: neighbours differ in class.\<close>

definition runs_ok :: "token list \<Rightarrow> bool" where
  "runs_ok out \<longleftrightarrow> list_all (\<lambda>t. tk_text t \<noteq> []) out \<and>
     (\<forall>i. Suc i < length out \<longrightarrow> tk_kind (out ! i) \<noteq> tk_kind (out ! Suc i))"

lemma joined_push_run [simp]: "joined (push_run out str kind) = joined out @ str"
  by (cases out rule: rev_cases) (auto simp: joined_def push_run_def)

lemma runs_ok_push_run: "runs_ok out \<Longrightarrow> runs_ok (push_run out str kind)"
proof (cases out rule: rev_cases)
  case Nil
  then show ?thesis by (simp add: runs_ok_def push_run_def)
next
  case (snoc ys y)
  assume "runs_ok out"
  then show ?thesis
    unfolding snoc runs_ok_def push_run_def
    by (auto simp: nth_append less_Suc_eq split: if_splits)
qed

lemma slice_extends:
  "slice str a b = Some t \<Longrightarrow> take b str = take a str @ t"
  by (auto simp: slice_def take_add [symmetric] split: if_splits)

lemma take_span_ok:
  assumes "spn_start sp \<le> spn_end sp" "cursor \<le> length str" "joined out = take cursor str" "runs_ok out"
  shows "\<exists>out' cursor'. take_span slot_of str sp (out, cursor) = Some (out', cursor') \<and>
    cursor' \<le> length str \<and> joined out' = take cursor' str \<and> runs_ok out'"
proof (cases "spn_end sp \<le> cursor \<or> length str \<le> spn_start sp")
  case True
  then show ?thesis using assms by (simp add: take_span_def)
next
  case False
  define start where "start = max (spn_start sp) cursor"
  define end_pos where "end_pos = min (spn_end sp) (length str)"
  have bounds: "cursor \<le> start" "start \<le> end_pos" "end_pos \<le> length str"
    using False assms(1,2) by (auto simp: start_def end_pos_def)
  obtain g where g: "slice str cursor start = Some g"
    using bounds by (simp add: slice_def)
  obtain t where t: "slice str start end_pos = Some t"
    using bounds by (simp add: slice_def)
  define out1 where "out1 = (if cursor < start then push_run out g Plain else out)"
  have out1: "joined out1 = take start str" "runs_ok out1"
  proof -
    have "start = cursor" if "\<not> cursor < start" using that bounds(1) by linarith
    then show "joined out1 = take start str"
      using assms(3) slice_extends [OF g] by (cases "cursor < start") (simp_all add: out1_def)
    show "runs_ok out1" using assms(4) by (simp add: out1_def runs_ok_push_run)
  qed
  have "take_span slot_of str sp (out, cursor) =
      Some (push_run out1 t (slot_to_class (slot_of (spn_capture sp))), end_pos)"
    unfolding take_span_def Let_def prod.case start_def [symmetric] end_pos_def [symmetric]
    using False g t by (simp add: out1_def)
  then show ?thesis
    using out1 slice_extends [OF t] bounds(3) by (simp add: runs_ok_push_run)
qed

lemma walk_spans_ok:
  assumes "list_all (\<lambda>sp. spn_start sp \<le> spn_end sp) sps" "cursor \<le> length str"
    "joined out = take cursor str" "runs_ok out"
  shows "\<exists>out' cursor'. walk_spans slot_of str sps (out, cursor) = Some (out', cursor') \<and>
    cursor' \<le> length str \<and> joined out' = take cursor' str \<and> runs_ok out'"
  using assms
proof (induction sps arbitrary: out cursor)
  case Nil
  then show ?case by simp
next
  case (Cons sp sps)
  then obtain out1 c1 where "take_span slot_of str sp (out, cursor) = Some (out1, c1)"
    "c1 \<le> length str" "joined out1 = take c1 str" "runs_ok out1"
    using take_span_ok [of sp cursor str out slot_of] by auto
  then show ?case using Cons.IH [of c1 out1] Cons.prems(1) by simp
qed

text \<open>
  Highlighting is lossless: for any spans with start before end, however they overlap
  or leave gaps, it does not panic, the tokens joined give back the text byte for byte, no token
  is empty, and neighbouring tokens differ in class.
\<close>

theorem highlight_lossless:
  assumes "list_all (\<lambda>sp. spn_start sp \<le> spn_end sp) spans"
  shows "\<exists>out. spans_to_tokens slot_of str spans = Some out \<and> joined out = str \<and> runs_ok out"
proof (cases "str = [] \<or> spans = []")
  case True
  then show ?thesis by (auto simp: spans_to_tokens_def plain_def joined_def runs_ok_def)
next
  case False
  have "list_all (\<lambda>sp. spn_start sp \<le> spn_end sp) (sort_by by_start_then_priority spans)"
    using assms by (simp add: list_all_iff)
  then have "\<exists>out c. walk_spans slot_of str (sort_by by_start_then_priority spans) ([], 0) = Some (out, c) \<and>
      c \<le> length str \<and> joined out = take c str \<and> runs_ok out"
    by (rule walk_spans_ok) (simp_all add: joined_def runs_ok_def)
  then obtain out c where w: "walk_spans slot_of str (sort_by by_start_then_priority spans) ([], 0) = Some (out, c)"
    "c \<le> length str" "joined out = take c str" "runs_ok out"
    by blast
  show ?thesis
    using False w by (cases "c < length str")
      (auto simp: spans_to_tokens_def slice_def runs_ok_push_run)
qed

theorem highlight_lossless_witness:
  "\<exists>out. spans_to_tokens (\<lambda>_. SlotKeyword) ''mov x0'' [\<lparr>spn_start = 0, spn_end = 3, spn_capture = [], spn_pattern_index = 0\<rparr>,
     \<lparr>spn_start = 1, spn_end = 5, spn_capture = [], spn_pattern_index = 1\<rparr>] = Some out \<and> joined out = ''mov x0''"
  using highlight_lossless [of "[\<lparr>spn_start = 0, spn_end = 3, spn_capture = [], spn_pattern_index = 0\<rparr>,
     \<lparr>spn_start = 1, spn_end = 5, spn_capture = [], spn_pattern_index = 1\<rparr>]" "\<lambda>_. SlotKeyword" "''mov x0''"]
  by auto

end
