(* ===== verification/Cfg.thy ===== *)
theory Cfg
  imports Highlight
begin

text \<open>
  Disassembly and control-flow graphs (\<open>stax-live/src/disassemble.rs\<close> and \<open>cfg.rs\<close>): the
  instruction walk for both architectures, the classification of terminators, block leaders,
  basic blocks and edges. The instruction decoders (packages \<open>yaxpeax_arm\<close>, \<open>yaxpeax_x86\<close>)
  are parameters: what they decode at a position, with the opcodes the code distinguishes.
  \<open>hl\<close> is \<open>highlight_line\<close> and \<open>self_lookup\<close> the per-address counters of the caller.
\<close>

section \<open>Instructions\<close>

datatype flow =
  Sequential | Return | Indirect | Branch u64 | ConditionalBranch u64 | Call

record annotated_line =
  al_address :: u64
  al_tokens :: "token list"
  al_self_on_cpu_ns :: u64
  al_self_pet_samples :: u64

record decoded_instr =
  di_address :: u64
  di_length :: u64
  di_line :: annotated_line
  di_flow :: flow

datatype a64_opcode =
  A64_B | A64_Bcc | A64_CBZ | A64_CBNZ | A64_TBZ | A64_TBNZ | A64_BR | A64_BRAA | A64_BRAAZ
| A64_BRAB | A64_BRABZ | A64_BL | A64_BLR | A64_BLRAA | A64_BLRAAZ | A64_BLRAB | A64_BLRABZ
| A64_RET | A64_RETAA | A64_RETAB | A64_ERET | A64_ERETAA | A64_ERETAB | A64_other

text \<open>An operand: a PC-relative offset (an \<open>i64\<close>) or anything else.\<close>

datatype a64_operand = PCOffset u64 | A64_other_operand

record a64_instr =
  a64_op :: a64_opcode
  a64_operands :: "a64_operand \<times> a64_operand \<times> a64_operand"
  a64_text :: string

definition pc_target :: "(u64 \<Rightarrow> flow) \<Rightarrow> u64 \<Rightarrow> a64_operand \<Rightarrow> flow" where
  "pc_target mk address opd =
     (case opd of PCOffset off \<Rightarrow> mk (address + off) | A64_other_operand \<Rightarrow> Indirect)"

definition classify_a64 :: "a64_instr \<Rightarrow> u64 \<Rightarrow> flow" where
  "classify_a64 instr address =
     (let (op0, op1, op2) = a64_operands instr in
      if a64_op instr = A64_B then pc_target Branch address op0
      else if a64_op instr = A64_Bcc then pc_target ConditionalBranch address op0
      else if a64_op instr \<in> {A64_CBZ, A64_CBNZ} then pc_target ConditionalBranch address op1
      else if a64_op instr \<in> {A64_TBZ, A64_TBNZ} then pc_target ConditionalBranch address op2
      else if a64_op instr \<in> {A64_BR, A64_BRAA, A64_BRAAZ, A64_BRAB, A64_BRABZ} then Indirect
      else if a64_op instr \<in> {A64_BL, A64_BLR, A64_BLRAA, A64_BLRAAZ, A64_BLRAB, A64_BLRABZ} then Call
      else if a64_op instr \<in> {A64_RET, A64_RETAA, A64_RETAB, A64_ERET, A64_ERETAA, A64_ERETAB} then Return
      else Sequential)"

type_synonym a64_decoder = "string \<Rightarrow> string + a64_instr"

definition annotate ::
  "(string \<Rightarrow> token list) \<Rightarrow> (u64 \<Rightarrow> u64 \<times> u64) \<Rightarrow> u64 \<Rightarrow> string \<Rightarrow> annotated_line" where
  "annotate hl self_lookup address asm =
     \<lparr>al_address = address, al_tokens = hl asm, al_self_on_cpu_ns = fst (self_lookup address),
      al_self_pet_samples = snd (self_lookup address)\<rparr>"

definition decode_error :: "string \<Rightarrow> string" where
  "decode_error err = ''<decode error: '' @ err @ ''>''"

function decode_aarch64 ::
  "a64_decoder \<Rightarrow> (string \<Rightarrow> token list) \<Rightarrow> (u64 \<Rightarrow> u64 \<times> u64) \<Rightarrow> u64 \<Rightarrow> string \<Rightarrow> nat \<Rightarrow> decoded_instr list" where
  "decode_aarch64 dec hl self_lookup base bytes offset =
     (if offset + 4 \<le> length bytes
      then let address = base + of_nat offset;
               (asm, fl) = (case dec (take 4 (drop offset bytes)) of
                  Inr instr \<Rightarrow> (a64_text instr, classify_a64 instr address)
                | Inl err \<Rightarrow> (decode_error err, Sequential)) in
           \<lparr>di_address = address, di_length = 4, di_line = annotate hl self_lookup address asm, di_flow = fl\<rparr>
             # decode_aarch64 dec hl self_lookup base bytes (offset + 4)
      else [])"
  by pat_completeness auto
termination by (relation "measure (\<lambda>(_, _, _, _, bytes, offset). length bytes - offset)") auto

datatype x86_opcode =
  X86_JMP | X86_JMPF | X86_JMPE
| X86_JO | X86_JNO | X86_JB | X86_JNB | X86_JZ | X86_JNZ | X86_JA | X86_JNA | X86_JS | X86_JNS
| X86_JP | X86_JNP | X86_JL | X86_JGE | X86_JLE | X86_JG | X86_JRCXZ | X86_LOOP | X86_LOOPZ | X86_LOOPNZ
| X86_CALL | X86_CALLF | X86_RETURN | X86_RETF | X86_IRET | X86_IRETD | X86_IRETQ | X86_HLT | X86_UD2
| X86_other

datatype x86_operand =
  ImmediateI8 "8 word" | ImmediateI16 "16 word" | ImmediateI32 "32 word" | ImmediateI64 "64 word"
| X86_other_operand

record x86_instr =
  x86_op :: x86_opcode
  x86_operand0 :: x86_operand
  x86_len :: nat
  x86_text :: string

text \<open>Immediates are signed and are sign-extended (\<open>imm as u64\<close>).\<close>

definition x86_target :: "u64 \<Rightarrow> x86_operand \<Rightarrow> u64 option" where
  "x86_target next_address opd =
     (case opd of
        ImmediateI8 imm \<Rightarrow> Some (next_address + scast imm)
      | ImmediateI16 imm \<Rightarrow> Some (next_address + scast imm)
      | ImmediateI32 imm \<Rightarrow> Some (next_address + scast imm)
      | ImmediateI64 imm \<Rightarrow> Some (next_address + imm)
      | X86_other_operand \<Rightarrow> None)"

definition x86_conditional :: "x86_opcode set" where
  "x86_conditional = {X86_JO, X86_JNO, X86_JB, X86_JNB, X86_JZ, X86_JNZ, X86_JA, X86_JNA, X86_JS, X86_JNS,
     X86_JP, X86_JNP, X86_JL, X86_JGE, X86_JLE, X86_JG, X86_JRCXZ, X86_LOOP, X86_LOOPZ, X86_LOOPNZ}"

definition classify_x86 :: "x86_instr \<Rightarrow> u64 \<Rightarrow> flow" where
  "classify_x86 instr next_address =
     (if x86_op instr \<in> {X86_JMP, X86_JMPF, X86_JMPE} then
        (case x86_target next_address (x86_operand0 instr) of Some t \<Rightarrow> Branch t | None \<Rightarrow> Indirect)
      else if x86_op instr \<in> x86_conditional then
        (case x86_target next_address (x86_operand0 instr) of Some t \<Rightarrow> ConditionalBranch t | None \<Rightarrow> Indirect)
      else if x86_op instr \<in> {X86_CALL, X86_CALLF} then Call
      else if x86_op instr \<in> {X86_RETURN, X86_RETF, X86_IRET, X86_IRETD, X86_IRETQ, X86_HLT, X86_UD2} then Return
      else Sequential)"

type_synonym x86_decoder = "string \<Rightarrow> string + x86_instr"

function decode_amd64 ::
  "x86_decoder \<Rightarrow> (string \<Rightarrow> token list) \<Rightarrow> (u64 \<Rightarrow> u64 \<times> u64) \<Rightarrow> u64 \<Rightarrow> string \<Rightarrow> nat \<Rightarrow> decoded_instr list" where
  "decode_amd64 dec hl self_lookup base bytes offset =
     (if offset < length bytes
      then let address = base + of_nat offset in
        case dec (drop offset bytes) of
          Inr instr \<Rightarrow>
            \<lparr>di_address = address, di_length = of_nat (x86_len instr),
             di_line = annotate hl self_lookup address (x86_text instr),
             di_flow = classify_x86 instr (address + of_nat (x86_len instr))\<rparr>
              # decode_amd64 dec hl self_lookup base bytes (offset + max (x86_len instr) 1)
        | Inl err \<Rightarrow>
            \<lparr>di_address = address, di_length = 1,
             di_line = annotate hl self_lookup address (decode_error err), di_flow = Sequential\<rparr>
              # decode_amd64 dec hl self_lookup base bytes (offset + 1)
      else [])"
  by pat_completeness auto
termination by (relation "measure (\<lambda>(_, _, _, _, bytes, offset). length bytes - offset)") auto

declare decode_aarch64.simps [simp del] decode_amd64.simps [simp del]

section \<open>Plain disassembly\<close>

function disassemble_aarch64 ::
  "a64_decoder \<Rightarrow> (string \<Rightarrow> token list) \<Rightarrow> (u64 \<Rightarrow> u64 \<times> u64) \<Rightarrow> u64 \<Rightarrow> string \<Rightarrow> nat \<Rightarrow> annotated_line list" where
  "disassemble_aarch64 dec hl self_lookup base bytes offset =
     (if offset + 4 \<le> length bytes
      then let asm = (case dec (take 4 (drop offset bytes)) of
                  Inr instr \<Rightarrow> a64_text instr | Inl err \<Rightarrow> decode_error err);
               address = base + of_nat offset in
           annotate hl self_lookup address asm # disassemble_aarch64 dec hl self_lookup base bytes (offset + 4)
      else [])"
  by pat_completeness auto
termination by (relation "measure (\<lambda>(_, _, _, _, bytes, offset). length bytes - offset)") auto

function disassemble_amd64 ::
  "x86_decoder \<Rightarrow> (string \<Rightarrow> token list) \<Rightarrow> (u64 \<Rightarrow> u64 \<times> u64) \<Rightarrow> u64 \<Rightarrow> string \<Rightarrow> nat \<Rightarrow> annotated_line list" where
  "disassemble_amd64 dec hl self_lookup base bytes offset =
     (if offset < length bytes
      then let address = base + of_nat offset in
        case dec (drop offset bytes) of
          Inr instr \<Rightarrow> annotate hl self_lookup address (x86_text instr)
            # disassemble_amd64 dec hl self_lookup base bytes (offset + max (x86_len instr) 1)
        | Inl err \<Rightarrow> annotate hl self_lookup address (decode_error err)
            # disassemble_amd64 dec hl self_lookup base bytes (offset + 1)
      else [])"
  by pat_completeness auto
termination by (relation "measure (\<lambda>(_, _, _, _, bytes, offset). length bytes - offset)") auto

declare disassemble_aarch64.simps [simp del] disassemble_amd64.simps [simp del]

definition arm_names :: "string list" where
  "arm_names = [''aarch64'', ''arm64'', ''arm64e'']"

definition amd_names :: "string list" where
  "amd_names = [''amd64'', ''x86_64'', ''x86_64h'']"

definition disassemble ::
  "a64_decoder \<Rightarrow> x86_decoder \<Rightarrow> string \<Rightarrow> (string \<Rightarrow> token list) \<Rightarrow> (u64 \<Rightarrow> u64 \<times> u64) \<Rightarrow>
   string option \<Rightarrow> u64 \<Rightarrow> string \<Rightarrow> annotated_line list" where
  "disassemble arm x86 host_arch hl self_lookup arch base bytes =
     (let a = or_default arch host_arch in
      if a \<in> set arm_names then disassemble_aarch64 arm hl self_lookup base bytes 0
      else if a \<in> set amd_names then disassemble_amd64 x86 hl self_lookup base bytes 0
      else [])"

section \<open>Blocks and edges\<close>

record basic_block =
  bb_id :: u32
  bb_start_address :: u64
  bb_lines :: "annotated_line list"

datatype edge_kind = EFallthrough | EBranch | EConditionalBranch | ECall

record cfg_edge =
  ce_from_id :: u32
  ce_to_id :: u32
  ce_kind :: edge_kind

record cfg_update =
  cu_function_name :: string
  cu_language :: string
  cu_base_address :: u64
  cu_queried_address :: u64
  cu_blocks :: "basic_block list"
  cu_edges :: "cfg_edge list"

definition in_function :: "u64 \<Rightarrow> u64 \<Rightarrow> u64 \<Rightarrow> bool" where
  "in_function fn_lo fn_hi target \<longleftrightarrow> fn_lo \<le> target \<and> target < fn_hi"

text \<open>The body of the leader loop; a \<open>BTreeSet\<close> is a sorted list without duplicates.\<close>

definition add_leaders :: "u64 \<Rightarrow> u64 \<Rightarrow> decoded_instr \<Rightarrow> u64 list \<Rightarrow> u64 list" where
  "add_leaders fn_lo fn_hi instr leaders =
     (let leaders1 = (case di_flow instr of
            Branch target \<Rightarrow> if in_function fn_lo fn_hi target then insort_insert target leaders else leaders
          | ConditionalBranch target \<Rightarrow>
              if in_function fn_lo fn_hi target then insort_insert target leaders else leaders
          | _ \<Rightarrow> leaders);
          next_addr = di_address instr + di_length instr in
      if fn_hi \<le> next_addr then leaders1
      else case di_flow instr of
        Branch _ \<Rightarrow> insort_insert next_addr leaders1
      | ConditionalBranch _ \<Rightarrow> insort_insert next_addr leaders1
      | Return \<Rightarrow> insort_insert next_addr leaders1
      | Indirect \<Rightarrow> insort_insert next_addr leaders1
      | _ \<Rightarrow> leaders1)"

definition block_leaders :: "decoded_instr list \<Rightarrow> u64 \<Rightarrow> u64 \<Rightarrow> u64 list" where
  "block_leaders instrs fn_lo fn_hi =
     fold (add_leaders fn_lo fn_hi) instrs (insort_insert (di_address (hd instrs)) [])"

text \<open>\<open>binary_search\<close> on a sorted vector: \<open>Inr\<close> where it is, \<open>Inl\<close> where it would go.\<close>

definition binary_search :: "u64 list \<Rightarrow> u64 \<Rightarrow> nat + nat" where
  "binary_search xs a =
     (let i = partition_point (\<lambda>x. x < a) xs in
      if i < length xs \<and> xs ! i = a then Inr i else Inl i)"

definition block_id_for :: "u64 list \<Rightarrow> u64 \<Rightarrow> nat option" where
  "block_id_for leader_vec addr =
     (case binary_search leader_vec addr of
        Inr i \<Rightarrow> Some i
      | Inl i \<Rightarrow> if i = 0 then None else Some (i - 1))"

definition empty_blocks :: "u64 list \<Rightarrow> basic_block list" where
  "empty_blocks leader_vec =
     map (\<lambda>(i, addr). \<lparr>bb_id = of_nat i, bb_start_address = addr, bb_lines = []\<rparr>) (enumerate 0 leader_vec)"

definition add_line :: "u64 list \<Rightarrow> decoded_instr \<Rightarrow> basic_block list \<Rightarrow> basic_block list" where
  "add_line leader_vec instr blocks =
     (case block_id_for leader_vec (di_address instr) of
        None \<Rightarrow> blocks
      | Some i \<Rightarrow> blocks[i := (blocks ! i)\<lparr>bb_lines := bb_lines (blocks ! i) @ [di_line instr]\<rparr>])"

definition edge_to :: "basic_block \<Rightarrow> edge_kind \<Rightarrow> nat option \<Rightarrow> cfg_edge list" where
  "edge_to block kind to_block =
     (case to_block of None \<Rightarrow> []
      | Some i \<Rightarrow> [\<lparr>ce_from_id = bb_id block, ce_to_id = of_nat i, ce_kind = kind\<rparr>])"

definition block_edges :: "decoded_instr list \<Rightarrow> u64 list \<Rightarrow> u64 \<Rightarrow> u64 \<Rightarrow> basic_block \<Rightarrow> cfg_edge list" where
  "block_edges instrs leader_vec fn_lo fn_hi block =
     (if bb_lines block = [] then []
      else case find (\<lambda>i. di_address i = al_address (last (bb_lines block))) instrs of
        None \<Rightarrow> []
      | Some decoded \<Rightarrow>
          (let next_addr = di_address decoded + di_length decoded;
               next_block = (if next_addr < fn_hi then block_id_for leader_vec next_addr else None);
               target_block = (\<lambda>target. if in_function fn_lo fn_hi target then block_id_for leader_vec target else None) in
           case di_flow decoded of
             Sequential \<Rightarrow> edge_to block EFallthrough next_block
           | Call \<Rightarrow> edge_to block ECall next_block
           | Branch target \<Rightarrow> edge_to block EBranch (target_block target)
           | ConditionalBranch target \<Rightarrow>
               edge_to block EConditionalBranch (target_block target) @ edge_to block EFallthrough next_block
           | Return \<Rightarrow> []
           | Indirect \<Rightarrow> []))"

definition build_blocks_and_edges ::
  "decoded_instr list \<Rightarrow> u64 \<Rightarrow> u64 \<Rightarrow> basic_block list \<times> cfg_edge list" where
  "build_blocks_and_edges instrs fn_lo fn_hi =
     (if instrs = [] then ([], [])
      else let leader_vec = block_leaders instrs fn_lo fn_hi;
               blocks = fold (add_line leader_vec) instrs (empty_blocks leader_vec) in
        (blocks, concat (map (block_edges instrs leader_vec fn_lo fn_hi) blocks)))"

definition decode_function ::
  "a64_decoder \<Rightarrow> x86_decoder \<Rightarrow> string \<Rightarrow> (string \<Rightarrow> token list) \<Rightarrow> (u64 \<Rightarrow> u64 \<times> u64) \<Rightarrow>
   string option \<Rightarrow> u64 \<Rightarrow> string \<Rightarrow> decoded_instr list" where
  "decode_function arm x86 host_arch hl self_lookup arch base bytes =
     (let a = or_default arch host_arch in
      if a \<in> set arm_names then decode_aarch64 arm hl self_lookup base bytes 0
      else if a \<in> set amd_names then decode_amd64 x86 hl self_lookup base bytes 0
      else [])"

definition compute_cfg_update ::
  "a64_decoder \<Rightarrow> x86_decoder \<Rightarrow> string \<Rightarrow> (string \<Rightarrow> token list) \<Rightarrow> (u64 \<Rightarrow> u64 \<times> u64) \<Rightarrow>
   string option \<Rightarrow> u64 \<Rightarrow> string \<Rightarrow> u64 \<Rightarrow> string \<Rightarrow> string \<Rightarrow> cfg_update" where
  "compute_cfg_update arm x86 host_arch hl self_lookup arch base bytes queried_address function_name language =
     (let instrs = decode_function arm x86 host_arch hl self_lookup arch base bytes;
          fn_hi = base + of_nat (length bytes);
          (blocks, edges) = build_blocks_and_edges instrs base fn_hi in
      \<lparr>cu_function_name = function_name, cu_language = language, cu_base_address = base,
       cu_queried_address = queried_address, cu_blocks = blocks, cu_edges = edges\<rparr>)"

section \<open>Leaders and block lookup\<close>

lemma add_leaders_sorted:
  "sorted ls \<and> distinct ls \<Longrightarrow> sorted (add_leaders lo hi i ls) \<and> distinct (add_leaders lo hi i ls)"
  by (auto simp: add_leaders_def Let_def sorted_insort_insert distinct_insort_insert split: flow.split)

definition ends_block :: "flow \<Rightarrow> bool" where
  "ends_block fl \<longleftrightarrow> fl \<noteq> Sequential \<and> fl \<noteq> Call"

definition targets :: "flow \<Rightarrow> u64 set" where
  "targets fl = (case fl of Branch t \<Rightarrow> {t} | ConditionalBranch t \<Rightarrow> {t} | _ \<Rightarrow> {})"

definition next_of :: "decoded_instr \<Rightarrow> u64" where
  "next_of i = di_address i + di_length i"

lemma set_add_leaders: "set (add_leaders lo hi i ls) =
    set ls \<union> {t \<in> targets (di_flow i). in_function lo hi t} \<union>
    (if ends_block (di_flow i) \<and> next_of i < hi then {next_of i} else {})"
  by (cases "di_flow i")
    (auto simp: add_leaders_def Let_def set_insort_insert ends_block_def targets_def next_of_def not_less)

lemma block_leaders_sorted: "sorted (block_leaders instrs lo hi) \<and> distinct (block_leaders instrs lo hi)"
proof -
  have "sorted ls \<and> distinct ls \<Longrightarrow>
      sorted (fold (add_leaders lo hi) is ls) \<and> distinct (fold (add_leaders lo hi) is ls)" for "is" ls
    by (induction "is" arbitrary: ls) (simp_all add: add_leaders_sorted)
  then show ?thesis by (simp add: block_leaders_def insort_insert_key_def)
qed

lemma set_block_leaders: "set (block_leaders instrs lo hi) = insert (di_address (hd instrs))
    ((\<Union>i \<in> set instrs. {t \<in> targets (di_flow i). in_function lo hi t}) \<union>
     next_of ` {i \<in> set instrs. ends_block (di_flow i) \<and> next_of i < hi})"
proof -
  have "set (fold (add_leaders lo hi) is ls) = set ls \<union>
     (\<Union>i \<in> set is. {t \<in> targets (di_flow i). in_function lo hi t}) \<union>
     next_of ` {i \<in> set is. ends_block (di_flow i) \<and> next_of i < hi}" for "is" ls
  proof (induction "is" arbitrary: ls)
    case Nil
    then show ?case by simp
  next
    case (Cons i "is")
    show ?case unfolding fold_simps o_apply Cons.IH set_add_leaders by auto
  qed
  then show ?thesis by (simp add: block_leaders_def insort_insert_key_def)
qed

text \<open>The leaders as an address table: the block of an address starts at the last leader before it.\<close>

lemma strict_nth: "sorted xs \<Longrightarrow> distinct xs \<Longrightarrow> i < j \<Longrightarrow> j < length xs \<Longrightarrow> xs ! i < (xs ! j :: u64)"
  using sorted_wrt_nth_less [of "(<)" xs i j] by (simp add: strict_sorted_iff)

lemma block_id_for_Some:
  assumes "sorted ls" "distinct ls" "block_id_for ls a = Some i"
  shows "i < length ls \<and> ls ! i \<le> a \<and> (\<forall>j. i < j \<and> j < length ls \<longrightarrow> a < ls ! j)"
proof -
  define p where "p = partition_point (\<lambda>x. x < a) ls"
  have part: "sorted_wrt (\<lambda>x y. y < a \<longrightarrow> x < a) ls"
    using assms(1) unfolding sorted_wrt_iff_nth_less by (auto intro: le_less_trans)
  have below: "ls ! j < a" if "j < p" for j
    using partition_point_before [of j "\<lambda>x. x < a" ls] that by (simp add: p_def)
  have above: "a \<le> ls ! j" if "p \<le> j" "j < length ls" for j
    using partition_point_after [OF part, of j] that by (simp add: p_def not_less)
  have le: "p \<le> length ls" by (simp add: p_def partition_point_le)
  show ?thesis
  proof (cases "p < length ls \<and> ls ! p = a")
    case True
    then have "i = p" using assms(3) by (simp add: block_id_for_def binary_search_def p_def Let_def)
    then show ?thesis using True strict_nth [OF assms(1,2)] by auto
  next
    case False
    then have i: "p \<noteq> 0" "i = p - 1"
      using assms(3) by (auto simp: block_id_for_def binary_search_def p_def Let_def split: if_splits)
    have "a < ls ! j" if "i < j" "j < length ls" for j
    proof (cases "j = p")
      case True
      then show ?thesis using False above [of p] that by auto
    next
      case j: False
      then have "a \<le> ls ! p" "ls ! p < ls ! j"
        using that i above [of p] strict_nth [OF assms(1,2), of p j] by auto
      then show ?thesis by simp
    qed
    then show ?thesis using i below [of i] le by (auto simp: less_imp_le)
  qed
qed

lemma block_id_for_exists:
  assumes "l \<in> set ls" "l \<le> a" "sorted ls"
  shows "\<exists>i. block_id_for ls a = Some i"
proof -
  obtain k where k: "k < length ls" "ls ! k = l" using assms(1) by (auto simp: in_set_conv_nth)
  have "0 < partition_point (\<lambda>x. x < a) ls" if "ls ! 0 \<noteq> a"
  proof -
    have "ls ! 0 \<le> l" using assms(3) k sorted_nth_mono [of ls 0 k] by auto
    then have "ls ! 0 < a" using assms(2) that by simp
    then show ?thesis using k by (cases ls) (simp_all add: partition_point_def)
  qed
  moreover have "partition_point (\<lambda>x. x < a) ls = 0" if "ls ! 0 = a"
    using that k by (cases ls) (simp_all add: partition_point_def)
  moreover have "0 < length ls" using k by auto
  ultimately show ?thesis
    by (cases "ls ! 0 = a") (auto simp: block_id_for_def binary_search_def Let_def)
qed

lemma block_id_for_leader:
  assumes "sorted ls" "distinct ls" "a \<in> set ls"
  shows "\<exists>i < length ls. block_id_for ls a = Some i \<and> ls ! i = a"
proof -
  obtain i where i: "block_id_for ls a = Some i"
    using block_id_for_exists [OF assms(3) order.refl assms(1)] by blast
  obtain k where k: "k < length ls" "ls ! k = a" using assms(3) by (auto simp: in_set_conv_nth)
  note s = block_id_for_Some [OF assms(1,2) i]
  have "\<not> i < k" using s k by auto
  moreover have "\<not> k < i" using s k strict_nth [OF assms(1,2), of k i] by auto
  ultimately show ?thesis using i k by auto
qed

lemma block_id_for_mono:
  assumes "sorted ls" "distinct ls" "a \<le> b" "block_id_for ls a = Some i" "block_id_for ls b = Some j"
  shows "i \<le> j"
  using block_id_for_Some [OF assms(1,2,4)] block_id_for_Some [OF assms(1,2,5)] assms(3)
  by (meson not_le order.trans leD)

section \<open>Blocks\<close>

lemma fold_add_line:
  assumes "\<And>x i. x \<in> set xs \<Longrightarrow> block_id_for ls (di_address x) = Some i \<Longrightarrow> i < length bs"
  shows "length (fold (add_line ls) xs bs) = length bs \<and>
    (\<forall>i < length bs. bb_id (fold (add_line ls) xs bs ! i) = bb_id (bs ! i) \<and>
       bb_start_address (fold (add_line ls) xs bs ! i) = bb_start_address (bs ! i) \<and>
       bb_lines (fold (add_line ls) xs bs ! i) =
         bb_lines (bs ! i) @ map di_line (filter (\<lambda>x. block_id_for ls (di_address x) = Some i) xs))"
  using assms
proof (induction xs arbitrary: bs)
  case Nil
  then show ?case by simp
next
  case (Cons x xs)
  have len: "length (add_line ls x bs) = length bs"
    by (simp add: add_line_def split: option.split)
  have IH: "length (fold (add_line ls) xs (add_line ls x bs)) = length (add_line ls x bs) \<and>
    (\<forall>i < length (add_line ls x bs). bb_id (fold (add_line ls) xs (add_line ls x bs) ! i) = bb_id (add_line ls x bs ! i) \<and>
       bb_start_address (fold (add_line ls) xs (add_line ls x bs) ! i) = bb_start_address (add_line ls x bs ! i) \<and>
       bb_lines (fold (add_line ls) xs (add_line ls x bs) ! i) =
         bb_lines (add_line ls x bs ! i) @ map di_line (filter (\<lambda>x. block_id_for ls (di_address x) = Some i) xs))"
    using Cons.prems by (intro Cons.IH) (auto simp: len)
  show ?case
  proof (cases "block_id_for ls (di_address x)")
    case None
    then have "add_line ls x bs = bs" by (simp add: add_line_def)
    then show ?thesis using IH None by simp
  next
    case (Some k)
    then have "k < length bs" using Cons.prems [of x k] by simp
    then have "bb_id (add_line ls x bs ! i) = bb_id (bs ! i) \<and>
        bb_start_address (add_line ls x bs ! i) = bb_start_address (bs ! i) \<and>
        bb_lines (add_line ls x bs ! i) = bb_lines (bs ! i) @ (if i = k then [di_line x] else [])"
      if "i < length bs" for i
      using that Some by (simp add: add_line_def nth_list_update)
    then show ?thesis using IH Some len by simp
  qed
qed

text \<open>Splitting a list by a key that grows along it, then joining the parts, is the identity.\<close>

lemma concat_by_key:
  fixes k :: "'a \<Rightarrow> nat"
  assumes "sorted (map k xs)"
  shows "concat (map (\<lambda>i. filter (\<lambda>x. k x = i) xs) [0..<n]) = filter (\<lambda>x. k x < n) xs"
proof (induction n)
  case 0
  then show ?case by simp
next
  case (Suc n)
  have "filter (\<lambda>x. k x < n) xs @ filter (\<lambda>x. k x = n) xs = filter (\<lambda>x. k x < Suc n) xs"
    using assms
  proof (induction xs)
    case (Cons x xs)
    have none: "filter (\<lambda>y. k y < n) xs = []" if "n \<le> k x"
      using that Cons.prems by (auto simp: filter_empty_conv)
    have same: "filter (\<lambda>y. k y = n) xs = filter (\<lambda>y. k y < Suc n) xs" if "n \<le> k x"
      using that Cons.prems by (intro filter_cong) auto
    show ?case
      using Cons none same by (cases "k x < n") (auto simp: less_Suc_eq)
  qed simp
  then show ?case using Suc.IH by simp
qed

section \<open>Decoded functions\<close>

definition in_order :: "u64 \<Rightarrow> u64 \<Rightarrow> decoded_instr list \<Rightarrow> bool" where
  "in_order lo hi instrs \<longleftrightarrow> sorted_wrt (\<lambda>x y. next_of x \<le> di_address y) instrs \<and>
     (\<forall>x \<in> set instrs. lo \<le> di_address x \<and> di_address x < next_of x \<and> next_of x \<le> hi \<and>
        al_address (di_line x) = di_address x)"

text \<open>A decoded instruction is at least one byte long and within the bytes the decoder was given.\<close>

definition decoder_in_bounds :: "x86_decoder \<Rightarrow> bool" where
  "decoder_in_bounds dec \<longleftrightarrow>
     (\<forall>bytes instr. dec bytes = Inr instr \<longrightarrow> 0 < x86_len instr \<and> x86_len instr \<le> length bytes)"

lemma in_order_Cons:
  assumes "lo \<le> di_address x" "di_address x < next_of x" "next_of x \<le> hi"
    "al_address (di_line x) = di_address x" "in_order (next_of x) hi xs"
  shows "in_order lo hi (x # xs)"
  using assms by (auto simp: in_order_def)

lemma in_order_Nil [simp]: "in_order lo hi []"
  by (simp add: in_order_def)

lemma pos_mono:
  fixes base :: u64
  assumes "unat base + n < 2 ^ 64" "m \<le> n"
  shows "unat (base + of_nat m) = unat base + m"
  using assms by (simp add: unat_word_ariths unat_of_nat)

lemma decode_aarch64_in_order:
  assumes "unat base + length bytes < 2 ^ 64"
  shows "in_order (base + of_nat off) (base + of_nat (length bytes)) (decode_aarch64 dec hl sl base bytes off)"
proof (induction "length bytes - off" arbitrary: off rule: less_induct)
  case less
  show ?case
  proof (cases "off + 4 \<le> length bytes")
    case True
    have n: "base + of_nat off + 4 = base + of_nat (off + 4)" by simp
    have IH: "in_order (base + of_nat (off + 4)) (base + of_nat (length bytes))
        (decode_aarch64 dec hl sl base bytes (off + 4))"
      using less [of "off + 4"] True by simp
    have lt: "base + of_nat off < base + of_nat (off + 4)"
      using pos_mono [OF assms, of off] pos_mono [OF assms, of "off + 4"] True
      unfolding word_less_nat_alt by simp
    have le: "base + of_nat (off + 4) \<le> base + of_nat (length bytes)"
      using pos_mono [OF assms, of "length bytes"] pos_mono [OF assms, of "off + 4"] True
      unfolding word_le_nat_alt by simp
    show ?thesis using True lt le IH
      by (subst decode_aarch64.simps)
        (auto simp: Let_def next_of_def annotate_def n simp del: of_nat_add split: sum.split intro!: in_order_Cons)
  next
    case False
    then show ?thesis by (subst decode_aarch64.simps) simp
  qed
qed

lemma decode_amd64_in_order:
  assumes "unat base + length bytes < 2 ^ 64" "decoder_in_bounds dec"
  shows "in_order (base + of_nat off) (base + of_nat (length bytes)) (decode_amd64 dec hl sl base bytes off)"
proof (induction "length bytes - off" arbitrary: off rule: less_induct)
  case less
  have step: "in_order (base + of_nat off) (base + of_nat (length bytes))
      (\<lparr>di_address = base + of_nat off, di_length = of_nat l,
        di_line = annotate hl sl (base + of_nat off) asm, di_flow = fl\<rparr> # decode_amd64 dec hl sl base bytes (off + l))"
    if "0 < l" "off + l \<le> length bytes" for l asm fl
  proof (rule in_order_Cons)
    have n: "base + of_nat off + of_nat l = base + of_nat (off + l)" by simp
    show "in_order (next_of \<lparr>di_address = base + of_nat off, di_length = of_nat l,
        di_line = annotate hl sl (base + of_nat off) asm, di_flow = fl\<rparr>) (base + of_nat (length bytes))
        (decode_amd64 dec hl sl base bytes (off + l))"
      using less [of "off + l"] that by (simp add: next_of_def n del: of_nat_add)
  qed (use that pos_mono [OF assms(1), of off] pos_mono [OF assms(1), of "off + l"]
      pos_mono [OF assms(1), of "length bytes"] in
        \<open>simp_all add: next_of_def annotate_def word_less_nat_alt word_le_nat_alt add.assoc flip: of_nat_add\<close>)
  show ?case
  proof (cases "off < length bytes")
    case True
    show ?thesis
    proof (cases "dec (drop off bytes)")
      case (Inl err)
      then show ?thesis using True step [of 1] by (subst decode_amd64.simps) (simp add: Let_def)
    next
      case (Inr instr)
      then have l: "0 < x86_len instr" "x86_len instr \<le> length bytes - off"
        using assms(2) unfolding decoder_in_bounds_def by fastforce+
      then have "max (x86_len instr) 1 = x86_len instr" by simp
      then show ?thesis using Inr True l step [of "x86_len instr"] by (subst decode_amd64.simps) (simp add: Let_def)
    qed
  next
    case False
    then show ?thesis by (subst decode_amd64.simps) simp
  qed
qed

lemma decode_function_in_order:
  assumes "unat base + length bytes < 2 ^ 64" "decoder_in_bounds x86"
  shows "in_order base (base + of_nat (length bytes)) (decode_function arm x86 host hl sl arch base bytes)"
  using decode_aarch64_in_order [OF assms(1), of 0] decode_amd64_in_order [OF assms, of 0]
  by (simp add: decode_function_def Let_def)

lemma decode_aarch64_lines: "map di_line (decode_aarch64 dec hl sl base bytes off) = disassemble_aarch64 dec hl sl base bytes off"
proof (induction "length bytes - off" arbitrary: off rule: less_induct)
  case less
  show ?case
    using less [of "off + 4"]
    by (subst decode_aarch64.simps, subst disassemble_aarch64.simps) (auto simp: Let_def split: sum.split)
qed

lemma decode_amd64_lines: "map di_line (decode_amd64 dec hl sl base bytes off) = disassemble_amd64 dec hl sl base bytes off"
proof (induction "length bytes - off" arbitrary: off rule: less_induct)
  case less
  show ?case
  proof (cases "off < length bytes")
    case True
    then show ?thesis using less [of "off + 1"] less [of "off + max n 1" for n]
      by (subst decode_amd64.simps, subst disassemble_amd64.simps) (auto simp: Let_def split: sum.split)
  qed (simp add: decode_amd64.simps disassemble_amd64.simps)
qed

lemma decode_function_lines:
  "map di_line (decode_function arm x86 host hl sl arch base bytes) = disassemble arm x86 host hl sl arch base bytes"
  by (simp add: decode_function_def disassemble_def Let_def decode_aarch64_lines decode_amd64_lines)

section \<open>The graph of a decoded function\<close>

lemma in_order_strict:
  assumes "in_order lo hi instrs"
  shows "sorted_wrt (\<lambda>x y. di_address x < di_address y) instrs"
proof (rule sorted_wrt_mono_rel)
  show "sorted_wrt (\<lambda>x y. next_of x \<le> di_address y) instrs" using assms by (simp add: in_order_def)
  show "di_address x < di_address y"
    if "x \<in> set instrs" "y \<in> set instrs" "next_of x \<le> di_address y" for x y
    using assms that by (auto simp: in_order_def intro: less_le_trans)
qed

lemma in_order_inj: "in_order lo hi instrs \<Longrightarrow> inj_on di_address (set instrs)"
proof (drule in_order_strict, induction instrs)
  case (Cons i "is")
  then show ?case by (fastforce simp: inj_on_def)
qed simp

lemma find_by_address:
  assumes "in_order lo hi instrs" "x \<in> set instrs"
  shows "find (\<lambda>i. di_address i = al_address (di_line x)) instrs = Some x"
proof (cases "find (\<lambda>i. di_address i = al_address (di_line x)) instrs")
  case None
  then show ?thesis using assms by (auto simp: find_None_iff in_order_def)
next
  case (Some y)
  then have "y \<in> set instrs" "di_address y = al_address (di_line x)" by (auto simp: find_Some_iff)
  then show ?thesis
    using Some assms in_order_inj [OF assms(1)] by (auto simp: in_order_def inj_on_def)
qed

text \<open>The instructions of one block, by its leaders.\<close>

definition block_instrs :: "decoded_instr list \<Rightarrow> u64 list \<Rightarrow> nat \<Rightarrow> decoded_instr list" where
  "block_instrs instrs ls k = filter (\<lambda>x. block_id_for ls (di_address x) = Some k) instrs"

lemma leaders_have_block:
  assumes "in_order lo hi instrs" "x \<in> set instrs"
  shows "\<exists>k < length (block_leaders instrs lo hi). block_id_for (block_leaders instrs lo hi) (di_address x) = Some k"
proof -
  note srt = block_leaders_sorted [of instrs lo hi]
  have "di_address (hd instrs) \<le> di_address x"
    using in_order_strict [OF assms(1)] assms(2) by (cases instrs) (auto simp: less_imp_le)
  then obtain k where "block_id_for (block_leaders instrs lo hi) (di_address x) = Some k"
    using block_id_for_exists [of "di_address (hd instrs)" "block_leaders instrs lo hi" "di_address x"] srt
    by (auto simp: set_block_leaders)
  then show ?thesis using block_id_for_Some srt by blast
qed

lemma build_nth:
  assumes "in_order lo hi instrs" "instrs \<noteq> []"
  defines "ls \<equiv> block_leaders instrs lo hi"
  defines "bs \<equiv> fst (build_blocks_and_edges instrs lo hi)"
  shows "length bs = length ls"
    and "k < length ls \<Longrightarrow> bb_id (bs ! k) = of_nat k"
    and "k < length ls \<Longrightarrow> bb_start_address (bs ! k) = ls ! k"
    and "k < length ls \<Longrightarrow> bb_lines (bs ! k) = map di_line (block_instrs instrs ls k)"
proof -
  have bs: "bs = fold (add_line ls) instrs (empty_blocks ls)"
    using assms(2) by (simp add: bs_def ls_def build_blocks_and_edges_def Let_def)
  have lt: "\<And>x i. x \<in> set instrs \<Longrightarrow> block_id_for ls (di_address x) = Some i \<Longrightarrow> i < length (empty_blocks ls)"
    using block_id_for_Some block_leaders_sorted [of instrs lo hi] by (auto simp: ls_def empty_blocks_def)
  have e: "length (empty_blocks ls) = length ls"
    "\<And>k. k < length ls \<Longrightarrow> empty_blocks ls ! k = \<lparr>bb_id = of_nat k, bb_start_address = ls ! k, bb_lines = []\<rparr>"
    by (simp_all add: empty_blocks_def nth_enumerate_eq)
  show "length bs = length ls"
    and "k < length ls \<Longrightarrow> bb_id (bs ! k) = of_nat k"
    and "k < length ls \<Longrightarrow> bb_start_address (bs ! k) = ls ! k"
    and "k < length ls \<Longrightarrow> bb_lines (bs ! k) = map di_line (block_instrs instrs ls k)"
    using fold_add_line [OF lt] e
    by (simp_all add: bs block_instrs_def)
qed

lemma concat_blocks:
  assumes "in_order lo hi instrs"
  shows "concat (map bb_lines (fst (build_blocks_and_edges instrs lo hi))) = map di_line instrs"
proof (cases "instrs = []")
  case True
  then show ?thesis by (simp add: build_blocks_and_edges_def)
next
  case False
  define ls where "ls = block_leaders instrs lo hi"
  define key where "key x = the (block_id_for ls (di_address x))" for x :: decoded_instr
  have some: "\<exists>k < length ls. block_id_for ls (di_address x) = Some k" if "x \<in> set instrs" for x
    using leaders_have_block [OF assms that] by (simp add: ls_def)
  have mono: "key x \<le> key y" if "x \<in> set instrs" "y \<in> set instrs" "di_address x < di_address y" for x y
    using block_id_for_mono [of ls "di_address x" "di_address y"] some [OF that(1)] some [OF that(2)]
      block_leaders_sorted [of instrs lo hi] that by (auto simp: key_def ls_def)
  have "sorted (map key instrs)"
    unfolding sorted_map using in_order_strict [OF assms]
    by (rule sorted_wrt_mono_rel [rotated]) (use mono in auto)
  then have parts: "concat (map (\<lambda>i. filter (\<lambda>x. key x = i) instrs) [0..<length ls]) = filter (\<lambda>x. key x < length ls) instrs"
    by (rule concat_by_key)
  have all: "filter (\<lambda>x. key x < length ls) instrs = instrs"
    using some by (fastforce simp: key_def filter_id_conv)
  have part: "block_instrs instrs ls = (\<lambda>k. filter (\<lambda>x. key x = k) instrs)"
    unfolding block_instrs_def
    by (intro ext filter_cong refl) (use some in \<open>fastforce simp: key_def\<close>)
  have "map bb_lines (fst (build_blocks_and_edges instrs lo hi)) =
      map (\<lambda>k. map di_line (block_instrs instrs ls k)) [0..<length ls]"
    by (rule nth_equalityI) (simp_all add: build_nth [OF assms False] flip: ls_def)
  then have "concat (map bb_lines (fst (build_blocks_and_edges instrs lo hi))) =
      map di_line (concat (map (block_instrs instrs ls) [0..<length ls]))"
    by (simp add: map_concat o_def)
  then show ?thesis using parts all by (simp add: part)
qed

lemma last_wrt: "sorted_wrt R xs \<Longrightarrow> x \<in> set xs \<Longrightarrow> x = last xs \<or> R x (last xs)"
  by (induction xs) auto

lemma terminator_last:
  assumes ord: "in_order lo hi instrs" and i: "i \<in> set instrs" "ends_block (di_flow i)"
  defines "ls \<equiv> block_leaders instrs lo hi"
  assumes k: "block_id_for ls (di_address i) = Some k"
  shows "last (block_instrs instrs ls k) = i"
proof (rule ccontr)
  let ?F = "block_instrs instrs ls k" and ?y = "last (block_instrs instrs ls k)"
  assume ne: "?y \<noteq> i"
  have inF: "i \<in> set ?F" using i k by (simp add: block_instrs_def)
  then have y: "?y \<in> set ?F" by (intro last_in_set) auto
  then have y': "?y \<in> set instrs" "block_id_for ls (di_address ?y) = Some k" by (auto simp: block_instrs_def)
  have "sorted_wrt (\<lambda>x y. next_of x \<le> di_address y) ?F"
    using ord by (simp add: in_order_def block_instrs_def sorted_wrt_filter)
  from last_wrt [OF this inF] ne have le: "next_of i \<le> di_address ?y" by auto
  have bnd: "di_address i < next_of i" "di_address ?y < hi"
    using ord i(1) y'(1) by (auto simp: in_order_def intro: less_le_trans)
  then have "next_of i \<in> set ls" using le i by (auto simp: ls_def set_block_leaders)
  then obtain m where m: "m < length ls" "ls ! m = next_of i" by (auto simp: in_set_conv_nth)
  have srt: "sorted ls" "distinct ls" using block_leaders_sorted by (auto simp: ls_def)
  have "k < m"
  proof (rule ccontr)
    assume "\<not> k < m"
    then have "ls ! m \<le> ls ! k" using srt(1) block_id_for_Some [OF srt k] by (simp add: sorted_nth_mono)
    then show False using block_id_for_Some [OF srt k] m bnd(1) by auto
  qed
  then show False using block_id_for_Some [OF srt y'(2)] m le by auto
qed

section \<open>Edges\<close>

text \<open>The edges the last instruction of a block gives rise to.\<close>

definition flow_edges :: "u64 list \<Rightarrow> u64 \<Rightarrow> u64 \<Rightarrow> basic_block \<Rightarrow> decoded_instr \<Rightarrow> cfg_edge list" where
  "flow_edges ls lo hi block i =
     (let next_block = (if next_of i < hi then block_id_for ls (next_of i) else None);
          target_block = (\<lambda>t. if in_function lo hi t then block_id_for ls t else None) in
      case di_flow i of
        Sequential \<Rightarrow> edge_to block EFallthrough next_block
      | Call \<Rightarrow> edge_to block ECall next_block
      | Branch t \<Rightarrow> edge_to block EBranch (target_block t)
      | ConditionalBranch t \<Rightarrow> edge_to block EConditionalBranch (target_block t) @ edge_to block EFallthrough next_block
      | Return \<Rightarrow> []
      | Indirect \<Rightarrow> [])"

lemma block_edges_nth:
  assumes "in_order lo hi instrs" "instrs \<noteq> []"
  defines "ls \<equiv> block_leaders instrs lo hi"
  assumes "k < length ls"
  shows "block_edges instrs ls lo hi (fst (build_blocks_and_edges instrs lo hi) ! k) =
     (if block_instrs instrs ls k = [] then []
      else flow_edges ls lo hi (fst (build_blocks_and_edges instrs lo hi) ! k) (last (block_instrs instrs ls k)))"
proof (cases "block_instrs instrs ls k = []")
  case True
  then show ?thesis using build_nth(4) [OF assms(1,2)] assms(4) by (simp add: block_edges_def ls_def)
next
  case False
  then have "last (block_instrs instrs ls k) \<in> set (block_instrs instrs ls k)" by (rule last_in_set)
  then have "last (block_instrs instrs ls k) \<in> set instrs" by (simp add: block_instrs_def)
  then have "find (\<lambda>i. di_address i = al_address (di_line (last (block_instrs instrs ls k)))) instrs =
      Some (last (block_instrs instrs ls k))"
    by (rule find_by_address [OF assms(1)])
  then show ?thesis using False build_nth(4) [OF assms(1,2)] assms(4)
    by (simp add: block_edges_def flow_edges_def next_of_def last_map Let_def ls_def cong: flow.case_cong)
qed

lemma edges_of_build:
  assumes "in_order lo hi instrs" "instrs \<noteq> []"
  defines "ls \<equiv> block_leaders instrs lo hi"
  defines "bs \<equiv> fst (build_blocks_and_edges instrs lo hi)"
  shows "e \<in> set (snd (build_blocks_and_edges instrs lo hi)) \<longleftrightarrow>
    (\<exists>k < length ls. block_instrs instrs ls k \<noteq> [] \<and>
       e \<in> set (flow_edges ls lo hi (bs ! k) (last (block_instrs instrs ls k))))"
proof -
  have "snd (build_blocks_and_edges instrs lo hi) = concat (map (block_edges instrs ls lo hi) bs)"
    using assms(2) by (simp add: bs_def ls_def build_blocks_and_edges_def Let_def)
  moreover have "length bs = length ls" using build_nth(1) [OF assms(1,2)] by (simp add: bs_def ls_def)
  ultimately have "e \<in> set (snd (build_blocks_and_edges instrs lo hi)) \<longleftrightarrow>
      (\<exists>k < length ls. e \<in> set (block_edges instrs ls lo hi (bs ! k)))"
    by (auto simp: set_conv_nth [of bs])
  then show ?thesis
    using block_edges_nth [OF assms(1,2)] by (auto simp: ls_def bs_def split: if_splits)
qed

definition covers :: "basic_block list \<Rightarrow> nat \<Rightarrow> u64 \<Rightarrow> bool" where
  "covers bs j a \<longleftrightarrow> j < length bs \<and> bb_start_address (bs ! j) \<le> a \<and>
     (\<forall>m. j < m \<and> m < length bs \<longrightarrow> a < bb_start_address (bs ! m))"

text \<open>What an edge of each kind has to satisfy, given the last instruction of its source.\<close>

definition justified :: "basic_block list \<Rightarrow> decoded_instr \<Rightarrow> edge_kind \<Rightarrow> nat \<Rightarrow> bool" where
  "justified bs i kind j \<longleftrightarrow> j < length bs \<and>
     (case kind of
        EBranch \<Rightarrow> di_flow i = Branch (bb_start_address (bs ! j))
      | EConditionalBranch \<Rightarrow> di_flow i = ConditionalBranch (bb_start_address (bs ! j))
      | ECall \<Rightarrow> di_flow i = Call \<and> covers bs j (next_of i)
      | EFallthrough \<Rightarrow> (di_flow i = Sequential \<and> covers bs j (next_of i)) \<or>
          (\<exists>t. di_flow i = ConditionalBranch t) \<and> bb_start_address (bs ! j) = next_of i)"

lemma target_leader:
  assumes "i \<in> set instrs" "t \<in> targets (di_flow i)" "in_function lo hi t"
  shows "\<exists>j < length (block_leaders instrs lo hi).
    block_id_for (block_leaders instrs lo hi) t = Some j \<and> block_leaders instrs lo hi ! j = t"
  by (rule block_id_for_leader) (use assms block_leaders_sorted in \<open>auto simp: set_block_leaders\<close>)

lemma next_leader:
  assumes "i \<in> set instrs" "ends_block (di_flow i)" "next_of i < hi"
  shows "\<exists>j < length (block_leaders instrs lo hi).
    block_id_for (block_leaders instrs lo hi) (next_of i) = Some j \<and> block_leaders instrs lo hi ! j = next_of i"
  by (rule block_id_for_leader) (use assms block_leaders_sorted in \<open>auto simp: set_block_leaders\<close>)

lemma edge_to_Some: "e \<in> set (edge_to b kind to_block) \<longleftrightarrow>
    (\<exists>i. to_block = Some i \<and> e = \<lparr>ce_from_id = bb_id b, ce_to_id = of_nat i, ce_kind = kind\<rparr>)"
  by (cases to_block) (auto simp: edge_to_def)

lemma flow_edges_justified:
  assumes ord: "in_order lo hi instrs" "instrs \<noteq> []" and i: "i \<in> set instrs"
  defines "ls \<equiv> block_leaders instrs lo hi"
  defines "bs \<equiv> fst (build_blocks_and_edges instrs lo hi)"
  assumes e: "e \<in> set (flow_edges ls lo hi b i)"
  shows "\<exists>j. ce_from_id e = bb_id b \<and> ce_to_id e = of_nat j \<and> justified bs i (ce_kind e) j"
proof -
  have len: "length bs = length ls" and start: "\<And>k. k < length ls \<Longrightarrow> bb_start_address (bs ! k) = ls ! k"
    using build_nth [OF ord] by (simp_all add: bs_def ls_def)
  have srt: "sorted ls" "distinct ls" using block_leaders_sorted by (auto simp: ls_def)
  have cov: "j < length bs \<and> covers bs j a" if "block_id_for ls a = Some j" for a j
    using block_id_for_Some [OF srt that] by (simp add: covers_def len start)
  have tgt: "j < length bs \<and> bb_start_address (bs ! j) = t"
    if "block_id_for ls t = Some j" "t \<in> targets (di_flow i)" "in_function lo hi t" for t j
    using target_leader [OF i that(2,3)] that(1) by (auto simp: ls_def [symmetric] len start)
  have nxt: "j < length bs \<and> bb_start_address (bs ! j) = next_of i"
    if "block_id_for ls (next_of i) = Some j" "ends_block (di_flow i)" "next_of i < hi" for j
    using next_leader [OF i that(2,3), where lo = lo] that(1) by (auto simp: ls_def [symmetric] len start)
  show ?thesis
    using e cov tgt nxt
    by (cases "di_flow i")
      (auto simp: flow_edges_def Let_def edge_to_Some justified_def targets_def ends_block_def split: if_splits)
qed

section \<open>Properties\<close>

lemma compute_cfg_blocks:
  "cu_blocks (compute_cfg_update arm x86 host hl sl arch base bytes q fn lang) =
     fst (build_blocks_and_edges (decode_function arm x86 host hl sl arch base bytes) base (base + of_nat (length bytes)))"
  "cu_edges (compute_cfg_update arm x86 host hl sl arch base bytes q fn lang) =
     snd (build_blocks_and_edges (decode_function arm x86 host hl sl arch base bytes) base (base + of_nat (length bytes)))"
  by (simp_all add: compute_cfg_update_def Let_def split: prod.split)

lemma build_Nil: "build_blocks_and_edges [] lo hi = ([], [])"
  by (simp add: build_blocks_and_edges_def)

text \<open>A four-instruction function: a conditional branch over one instruction, and a return.\<close>

definition demo_arm :: a64_decoder where
  "demo_arm b =
     (if b = ''cbz_'' then Inr \<lparr>a64_op = A64_CBZ, a64_operands = (A64_other_operand, PCOffset 8, A64_other_operand), a64_text = ''cbz x0''\<rparr>
      else if b = ''nop_'' then Inr \<lparr>a64_op = A64_other, a64_operands = (A64_other_operand, A64_other_operand, A64_other_operand), a64_text = ''nop''\<rparr>
      else if b = ''ret_'' then Inr \<lparr>a64_op = A64_RET, a64_operands = (A64_other_operand, A64_other_operand, A64_other_operand), a64_text = ''ret''\<rparr>
      else Inl ''invalid'')"

definition demo_x86 :: x86_decoder where
  "demo_x86 b = Inl ''invalid''"

definition demo_bytes :: string where
  "demo_bytes = ''cbz_nop_nop_ret_''"

definition demo_cfg :: cfg_update where
  "demo_cfg = compute_cfg_update demo_arm demo_x86 ''aarch64'' (\<lambda>s. []) (\<lambda>a. (0, 0)) None 4096 demo_bytes 4096 ''f'' ''rust''"

definition demo_decoded :: "decoded_instr list" where
  "demo_decoded = decode_function demo_arm demo_x86 ''aarch64'' (\<lambda>s. []) (\<lambda>a. (0, 0)) None 4096 demo_bytes"

lemma demo_in_bounds: "decoder_in_bounds demo_x86"
  by (simp add: decoder_in_bounds_def demo_x86_def)

text \<open>
  C14: The blocks of a function's control-flow graph, read in order, hold exactly the lines of
  its plain disassembly: no instruction is lost, duplicated or moved; block ids are their
  indices and start addresses strictly increase.
\<close>

theorem cfg_lines_are_disassembly:
  fixes arm x86 host hl sl arch base bytes q fn lang
  assumes "unat base + length bytes < 2 ^ 64" "decoder_in_bounds x86"
  defines "bs \<equiv> cu_blocks (compute_cfg_update arm x86 host hl sl arch base bytes q fn lang)"
  shows "concat (map bb_lines bs) = disassemble arm x86 host hl sl arch base bytes \<and>
    map bb_id bs = map of_nat [0..<length bs] \<and> sorted_wrt (<) (map bb_start_address bs)"
proof (cases "decode_function arm x86 host hl sl arch base bytes = []")
  case True
  then show ?thesis
    using decode_function_lines [of arm x86 host hl sl arch base bytes]
    by (simp add: bs_def compute_cfg_blocks build_Nil)
next
  case False
  note ord = decode_function_in_order [OF assms(1,2), of arm host hl sl arch]
  let ?ls = "block_leaders (decode_function arm x86 host hl sl arch base bytes) base (base + of_nat (length bytes))"
  have "map bb_id bs = map of_nat [0..<length bs]"
    by (rule nth_equalityI) (simp_all add: bs_def compute_cfg_blocks build_nth [OF ord False])
  moreover have "map bb_start_address bs = ?ls"
    by (rule nth_equalityI) (simp_all add: bs_def compute_cfg_blocks build_nth [OF ord False])
  moreover have "sorted_wrt (<) ?ls" using block_leaders_sorted by (simp add: strict_sorted_iff)
  ultimately show ?thesis
    using concat_blocks [OF ord] by (simp add: bs_def compute_cfg_blocks decode_function_lines)
qed

theorem cfg_lines_are_disassembly_witness:
  "concat (map bb_lines (cu_blocks demo_cfg)) =
     disassemble demo_arm demo_x86 ''aarch64'' (\<lambda>s. []) (\<lambda>a. (0, 0)) None 4096 demo_bytes \<and>
   length (cu_blocks demo_cfg) = 3"
proof -
  have "length (cu_blocks demo_cfg) = 3" by code_simp
  then show ?thesis
    using cfg_lines_are_disassembly [of 4096 demo_bytes demo_x86 demo_arm "''aarch64''" "\<lambda>s. []" "\<lambda>a. (0, 0)" None
        4096 "''f''" "''rust''"] demo_in_bounds
    by (simp add: demo_cfg_def demo_bytes_def)
qed



text \<open>
  C16: Every branch whose target lies in the function is an edge of the graph, from the block
  the branch ends to the block that starts at its target.
\<close>

theorem cfg_branches_complete:
  fixes arm x86 host hl sl arch base bytes q fn lang
  assumes "unat base + length bytes < 2 ^ 64" "decoder_in_bounds x86"
  defines "u \<equiv> compute_cfg_update arm x86 host hl sl arch base bytes q fn lang"
  assumes "i \<in> set (decode_function arm x86 host hl sl arch base bytes)" "t \<in> targets (di_flow i)"
    "in_function base (base + of_nat (length bytes)) t"
  shows "\<exists>k j. k < length (cu_blocks u) \<and> bb_lines (cu_blocks u ! k) \<noteq> [] \<and>
     last (bb_lines (cu_blocks u ! k)) = di_line i \<and>
     j < length (cu_blocks u) \<and> bb_start_address (cu_blocks u ! j) = t \<and>
     (\<exists>e \<in> set (cu_edges u). ce_from_id e = of_nat k \<and> ce_to_id e = of_nat j \<and> ce_kind e \<in> {EBranch, EConditionalBranch})"
proof -
  let ?is = "decode_function arm x86 host hl sl arch base bytes" and ?hi = "base + of_nat (length bytes)"
  note ord = decode_function_in_order [OF assms(1,2), of arm host hl sl arch]
  have ne: "?is \<noteq> []" using assms(4) by auto
  let ?ls = "block_leaders ?is base ?hi"
  obtain k where k: "k < length ?ls" "block_id_for ?ls (di_address i) = Some k"
    using leaders_have_block [OF ord assms(4)] by blast
  have ends: "ends_block (di_flow i)" using assms(5) by (auto simp: ends_block_def targets_def)
  have l: "last (block_instrs ?is ?ls k) = i" by (rule terminator_last [OF ord assms(4) ends k(2)])
  have nek: "block_instrs ?is ?ls k \<noteq> []" using assms(4) k(2) by (auto simp: block_instrs_def filter_empty_conv)
  obtain j where j: "j < length ?ls" "block_id_for ?ls t = Some j" "?ls ! j = t"
    using target_leader [OF assms(4-6)] by blast
  have "\<exists>e \<in> set (flow_edges ?ls base ?hi (cu_blocks u ! k) i).
      ce_from_id e = of_nat k \<and> ce_to_id e = of_nat j \<and> ce_kind e \<in> {EBranch, EConditionalBranch}"
    using assms(5,6) j(2) build_nth(2) [OF ord ne k(1)]
    by (cases "di_flow i")
      (auto simp: flow_edges_def Let_def edge_to_def targets_def u_def compute_cfg_blocks)
  then have "\<exists>e \<in> set (cu_edges u). ce_from_id e = of_nat k \<and> ce_to_id e = of_nat j \<and> ce_kind e \<in> {EBranch, EConditionalBranch}"
    using edges_of_build [OF ord ne] k(1) nek l by (auto simp: u_def compute_cfg_blocks)
  then show ?thesis
    using k j l nek build_nth [OF ord ne] by (intro exI [of _ k] exI [of _ j]) (simp add: u_def compute_cfg_blocks last_map)
qed

theorem cfg_branches_complete_witness:
  "\<exists>k j. k < length (cu_blocks demo_cfg) \<and> bb_lines (cu_blocks demo_cfg ! k) \<noteq> [] \<and>
     last (bb_lines (cu_blocks demo_cfg ! k)) = di_line (hd demo_decoded) \<and>
     j < length (cu_blocks demo_cfg) \<and> bb_start_address (cu_blocks demo_cfg ! j) = 4104 \<and>
     (\<exists>e \<in> set (cu_edges demo_cfg). ce_from_id e = of_nat k \<and> ce_to_id e = of_nat j \<and> ce_kind e \<in> {EBranch, EConditionalBranch})"
proof -
  have "demo_decoded \<noteq> []" by code_simp
  then have "hd demo_decoded \<in> set demo_decoded" by simp
  moreover have "di_flow (hd demo_decoded) = ConditionalBranch 4104" by code_simp
  moreover have "in_function 4096 (4096 + of_nat (length demo_bytes)) 4104" by code_simp
  ultimately show ?thesis
    using cfg_branches_complete [of 4096 demo_bytes demo_x86 "hd demo_decoded" demo_arm "''aarch64''" "\<lambda>s. []"
        "\<lambda>a. (0, 0)" None 4104 4096 "''f''" "''rust''", folded demo_cfg_def demo_decoded_def] demo_in_bounds
    by (simp add: targets_def) (simp add: demo_bytes_def)
qed

end
