(* ===== verification/Interner.thy ===== *)
theory Interner
  imports Prelude
begin

text \<open>
  The string table of the wire format (\<open>StringInterner\<close> in \<open>stax-live/src/lib.rs\<close>): a vector
  of distinct strings and an index from a string to its position. \<open>intern_str\<close> and \<open>intern\<close>
  differ in ownership only. The contract of a table is the locale \<open>string_table\<close>; the vector
  with its index is its interpretation.
\<close>

section \<open>The interner\<close>

record interner =
  it_strings :: "string list"
  it_index :: "(string, u32) hmap"

definition new_interner :: interner where
  "new_interner = \<lparr>it_strings = [], it_index = []\<rparr>"

definition intern_str :: "string \<Rightarrow> interner \<Rightarrow> u32 \<times> interner" where
  "intern_str s it =
     (case map_of (it_index it) s of
        Some i \<Rightarrow> (i, it)
      | None \<Rightarrow> (let i = of_nat (length (it_strings it)) in
          (i, \<lparr>it_strings = it_strings it @ [s], it_index = hm_insert s i (it_index it)\<rparr>)))"

definition intern_opt :: "string option \<Rightarrow> interner \<Rightarrow> u32 option \<times> interner" where
  "intern_opt s it =
     (case s of None \<Rightarrow> (None, it)
      | Some s' \<Rightarrow> (let (i, it') = intern_str s' it in (Some i, it')))"

definition into_strings :: "interner \<Rightarrow> string list" where
  "into_strings it = it_strings it"

text \<open>
  The invariant: the index holds exactly the positions of the table, which has no duplicates.
  Positions are \<open>u32\<close>, so the invariant bounds the table by \<open>2\<^sup>3\<^sup>2\<close> strings.
\<close>

definition interner_ok :: "interner \<Rightarrow> bool" where
  "interner_ok it \<longleftrightarrow> distinct (it_strings it) \<and> length (it_strings it) \<le> 2 ^ 32 \<and>
     (\<forall>s i. map_of (it_index it) s = Some i \<longleftrightarrow>
        unat i < length (it_strings it) \<and> it_strings it ! unat i = s)"

text \<open>Enough room for \<open>n\<close> more strings.\<close>

definition room :: "nat \<Rightarrow> interner \<Rightarrow> bool" where
  "room n it \<longleftrightarrow> length (it_strings it) + n \<le> 2 ^ 32"

definition names_string :: "interner \<Rightarrow> u32 \<Rightarrow> string \<Rightarrow> bool" where
  "names_string it i s \<longleftrightarrow> unat i < length (it_strings it) \<and> it_strings it ! unat i = s"

definition extends_table :: "interner \<Rightarrow> interner \<Rightarrow> bool" where
  "extends_table it it' \<longleftrightarrow> (\<exists>more. it_strings it' = it_strings it @ more)"

section \<open>The contract of a string table\<close>

locale string_table =
  fixes put :: "string \<Rightarrow> 't \<Rightarrow> 'i \<times> 't"
    and names :: "'t \<Rightarrow> 'i \<Rightarrow> string \<Rightarrow> bool"
    and ok :: "nat \<Rightarrow> 't \<Rightarrow> bool"
  assumes names_put: "ok (Suc n) t \<Longrightarrow> put s t = (i, t') \<Longrightarrow> names t' i s"
    and keeps: "ok (Suc n) t \<Longrightarrow> put s t = (i, t') \<Longrightarrow> names t j r \<Longrightarrow> names t' j r"
    and ok_put: "ok (Suc n) t \<Longrightarrow> put s t = (i, t') \<Longrightarrow> ok n t'"
    and unique: "ok n t \<Longrightarrow> names t i s \<Longrightarrow> names t i r \<Longrightarrow> s = r"
begin

text \<open>Interning a list of strings, left to right.\<close>

primrec put_all :: "string list \<Rightarrow> 't \<Rightarrow> 'i list \<times> 't" where
  "put_all [] t = ([], t)"
| "put_all (s # ss) t = (let (i, t1) = put s t; (is, t2) = put_all ss t1 in (i # is, t2))"

lemma put_all_names:
  "ok (length ss + n) t \<Longrightarrow> put_all ss t = (is, t') \<Longrightarrow>
     ok n t' \<and> list_all2 (names t') is ss \<and> (\<forall>j r. names t j r \<longrightarrow> names t' j r)"
proof (induction ss arbitrary: t t' "is")
  case Nil
  then show ?case by simp
next
  case (Cons s ss)
  obtain i t1 where p: "put s t = (i, t1)" by force
  obtain js t2 where q: "put_all ss t1 = (js, t2)" by force
  have o1: "ok (Suc (length ss + n)) t" using Cons.prems(1) by simp
  note rest = Cons.IH [OF ok_put [OF o1 p] q]
  have "is = i # js" "t' = t2" using Cons.prems(2) p q by simp_all
  then show ?case
    using rest names_put [OF o1 p] keeps [OF o1 p] by simp
qed

end

lemma intern_str_cases:
  assumes "interner_ok it"
  shows "(\<exists>i. map_of (it_index it) s = Some i \<and> intern_str s it = (i, it) \<and> names_string it i s) \<or>
    s \<notin> set (it_strings it) \<and> intern_str s it = (of_nat (length (it_strings it)),
      \<lparr>it_strings = it_strings it @ [s], it_index = hm_insert s (of_nat (length (it_strings it))) (it_index it)\<rparr>)"
proof (cases "map_of (it_index it) s")
  case (Some i)
  then have "names_string it i s" using assms by (simp add: interner_ok_def names_string_def)
  then show ?thesis using Some by (auto simp: intern_str_def)
next
  case None
  have "s \<notin> set (it_strings it)"
  proof
    assume "s \<in> set (it_strings it)"
    then obtain k where k: "k < length (it_strings it)" "it_strings it ! k = s" by (auto simp: in_set_conv_nth)
    have "unat (of_nat k :: u32) = k"
      using k(1) assms by (simp add: interner_ok_def unat_of_nat)
    then have "map_of (it_index it) s = Some (of_nat k)"
      using assms k by (simp add: interner_ok_def)
    then show False using None by simp
  qed
  then show ?thesis using None by (simp add: intern_str_def Let_def)
qed

lemma intern_str_ok:
  assumes "interner_ok it" "room (Suc n) it" "intern_str s it = (i, it')"
  shows "interner_ok it' \<and> room n it' \<and> names_string it' i s \<and> extends_table it it'"
  using intern_str_cases [OF assms(1), of s]
proof
  assume "\<exists>i. map_of (it_index it) s = Some i \<and> intern_str s it = (i, it) \<and> names_string it i s"
  then show ?thesis using assms by (auto simp: room_def extends_table_def)
next
  let ?n = "length (it_strings it)"
  assume new: "s \<notin> set (it_strings it) \<and> intern_str s it = (of_nat ?n,
      \<lparr>it_strings = it_strings it @ [s], it_index = hm_insert s (of_nat ?n) (it_index it)\<rparr>)"
  have n: "unat (of_nat ?n :: u32) = ?n" "?n < 2 ^ 32"
    using assms(2) by (simp_all add: room_def unat_of_nat)
  have it': "it' = \<lparr>it_strings = it_strings it @ [s], it_index = hm_insert s (of_nat ?n) (it_index it)\<rparr>"
    "i = of_nat ?n" using new assms(3) by auto
  have "map_of (it_index it') r = Some j \<longleftrightarrow> unat j < length (it_strings it') \<and> it_strings it' ! unat j = r" for r j
  proof (cases "unat j = ?n")
    case True
    then have "j = of_nat ?n" by (metis of_nat_unat ucast_id)
    moreover have "map_of (it_index it) r \<noteq> Some (of_nat ?n)"
      using assms(1) n by (auto simp: interner_ok_def)
    ultimately show ?thesis using n by (auto simp: it' hm_simps)
  next
    case False
    have "map_of (it_index it) s = None"
      using assms(1) new by (metis interner_ok_def nth_mem option.exhaust)
    moreover have "it_strings it ! unat j \<noteq> s" if "unat j < ?n" using that new nth_mem by blast
    ultimately show ?thesis using False n assms(1)
      by (auto simp: it' hm_simps interner_ok_def nth_append)
  qed
  then show ?thesis
    using new assms(1,2) n by (auto simp: interner_ok_def room_def names_string_def extends_table_def it')
qed

interpretation it: string_table intern_str names_string "\<lambda>n t. interner_ok t \<and> room n t"
proof
  fix n t s i t' j r
  assume a: "interner_ok t \<and> room (Suc n) t" "intern_str s t = (i, t')"
  note f = intern_str_ok [OF a(1) [THEN conjunct1] a(1) [THEN conjunct2] a(2)]
  show "names_string t' i s" "interner_ok t' \<and> room n t'" using f by auto
  show "names_string t' j r" if "names_string t j r"
    using f that by (auto simp: extends_table_def names_string_def nth_append)
qed (auto simp: names_string_def)

lemma new_interner_ok [simp]: "interner_ok new_interner"
  by (simp add: interner_ok_def new_interner_def)

end
