(* ===== verification/Comparator.thy ===== *)
theory Comparator
  imports Prelude
begin

text \<open>
  Comparators built from \<open>Ord::cmp\<close> and \<open>Ordering::then_with\<close>, as the views pass them to
  \<open>sort_by\<close>. The locale \<open>comparator\<close> is what the standard library asks of one: reversing the
  arguments reverses the answer, and "not greater" is transitive.
\<close>

fun reverse_ordering :: "ordering \<Rightarrow> ordering" where
  "reverse_ordering Less = Greater"
| "reverse_ordering Equal = Equal"
| "reverse_ordering Greater = Less"

locale comparator =
  fixes c :: "'a \<Rightarrow> 'a \<Rightarrow> ordering"
  assumes reverse: "c y x = reverse_ordering (c x y)"
    and trans: "c x y \<noteq> Greater \<Longrightarrow> c y z \<noteq> Greater \<Longrightarrow> c x z \<noteq> Greater"
begin

lemma greater_iff: "c x y = Greater \<longleftrightarrow> c y x = Less"
  using reverse [of x y] by (cases "c y x") simp_all

lemma equal_iff: "c x y = Equal \<longleftrightarrow> c y x = Equal"
  using reverse [of x y] by (cases "c y x") simp_all

lemma equal_trans: "c x y = Equal \<Longrightarrow> c y z = Equal \<Longrightarrow> c x z = Equal"
  using trans [of x y z] trans [of z y x] equal_iff greater_iff
  by (metis ordering.distinct(3) ordering.distinct(5) ordering.exhaust)

lemma less_equal: "c x y = Less \<Longrightarrow> c y z \<noteq> Greater \<Longrightarrow> c x z = Less"
  using trans [of y z x] greater_iff reverse
  by (metis ordering.distinct(3) reverse_ordering.simps)

lemma equal_less: "c x y \<noteq> Greater \<Longrightarrow> c y z = Less \<Longrightarrow> c x z = Less"
  using trans [of z x y] greater_iff reverse
  by (metis ordering.distinct(3) reverse_ordering.simps)

lemma total: "total_cmp c"
  unfolding total_cmp_def using greater_iff trans by (metis ordering.distinct(3))

lemma sorted: "sorted_by c (sort_by c xs)"
  by (rule sorted_by_sort_by [OF total])

end

lemma comparator_cmp: "comparator (\<lambda>a b. cmp (f a) (f b))"
  by unfold_locales (auto simp: cmp_def split: if_splits)

lemma comparator_cmp_desc: "comparator (\<lambda>a b. cmp (f b) (f a))"
  by unfold_locales (auto simp: cmp_def split: if_splits)

lemma comparator_then_with:
  assumes "comparator c" "comparator d"
  shows "comparator (\<lambda>a b. then_with (c a b) (d a b))"
proof
  fix x y z
  show "then_with (c y x) (d y x) = reverse_ordering (then_with (c x y) (d x y))"
    using comparator.reverse [OF assms(1), of y x] comparator.reverse [OF assms(2), of y x]
    by (cases "c x y") simp_all
  assume a: "then_with (c x y) (d x y) \<noteq> Greater" "then_with (c y z) (d y z) \<noteq> Greater"
  show "then_with (c x z) (d x z) \<noteq> Greater"
  proof (cases "c x y = Equal \<and> c y z = Equal")
    case True
    then show ?thesis
      using a comparator.trans [OF assms(2), of x y z] comparator.equal_trans [OF assms(1), of x y z] by simp
  next
    case False
    then have "c x z = Less"
      using a comparator.less_equal [OF assms(1), of x y z] comparator.equal_less [OF assms(1), of x y z]
      by (cases "c x y"; cases "c y z") simp_all
    then show ?thesis by simp
  qed
qed

end
