(* ===== verification/Views.thy ===== *)
theory Views
  imports Aggregator Binaries Interner Comparator "HOL-Library.Char_ord" "HOL-Library.List_Lexorder"
    "HOL-Library.Option_ord"
begin

text \<open>
  The views of the live server (\<open>stax-live/src/lib.rs\<close>): filters, threads, wakers, off-CPU
  intervals, samples, the timeline and the table of top functions. A view reads a snapshot of
  the aggregator and of the binary registry; within it \<open>lookup\<close> is
  \<open>BinaryRegistry::lookup_symbol\<close> as a function of the address, which is what
  \<open>lookup_symbol_plain\<close> in \<open>Binaries\<close> proves it to be for a fixed content of the registry.
  Strings are compared byte by byte and \<open>None\<close> sorts before \<open>Some\<close>, as in Rust.
\<close>

type_synonym symbol_lookup = "u64 \<Rightarrow> resolved_symbol option"
type_synonym symbol_key = "string option \<times> string option"

definition symbol_key :: "symbol_lookup \<Rightarrow> u64 \<Rightarrow> symbol_key" where
  "symbol_key lookup addr =
     (case lookup addr of
        Some r \<Rightarrow> (Some (rs_function_name r), Some (rs_binary r))
      | None \<Rightarrow> (None, None))"

definition lookup_name :: "symbol_lookup \<Rightarrow> u64 \<Rightarrow> string option" where
  "lookup_name lookup addr = map_option rs_function_name (lookup addr)"

section \<open>Publishing\<close>

text \<open>Whether a subscription builds a view this tick, and the revision it has seen.\<close>

definition should_publish_revision :: "u64 \<Rightarrow> u64 option \<Rightarrow> bool \<times> u64 option" where
  "should_publish_revision current last_seen =
     (if last_seen = Some current then (False, last_seen) else (True, Some current))"

section \<open>Filters\<close>

record time_range =
  trg_start_ns :: u64
  trg_end_ns :: u64

record symbol_ref =
  sr_function_name :: "string option"
  sr_binary :: "string option"

record live_filter =
  lf_time_range :: "time_range option"
  lf_exclude_symbols :: "symbol_ref list"

definition is_filter_empty :: "live_filter \<Rightarrow> bool" where
  "is_filter_empty filt \<longleftrightarrow> lf_time_range filt = None \<and> lf_exclude_symbols filt = []"

definition outside_range :: "u64 \<Rightarrow> live_filter \<Rightarrow> u64 \<Rightarrow> bool" where
  "outside_range session_start filt timestamp =
     (case lf_time_range filt of
        None \<Rightarrow> False
      | Some tr \<Rightarrow> (let rel = sat_sub timestamp session_start in
          rel < trg_start_ns tr \<or> trg_end_ns tr \<le> rel))"

definition make_predicate :: "symbol_lookup \<Rightarrow> live_filter \<Rightarrow> u64 \<Rightarrow> event_ctx \<Rightarrow> bool" where
  "make_predicate lookup filt session_start_ns ctx =
     (let exclude = map (\<lambda>s. (sr_function_name s, sr_binary s)) (lf_exclude_symbols filt);
          (timestamp, stack) = (case ctx of
             CtxPetSample _ s \<Rightarrow> (smp_time s, smp_stack s)
           | CtxInterval _ iv \<Rightarrow> (ri_start_ns iv,
               (case ri_kind iv of OnCpu \<Rightarrow> [] | OffCpu st _ _ \<Rightarrow> st))) in
      if outside_range session_start_ns filt timestamp then False
      else \<not> (exclude \<noteq> [] \<and> list_ex (\<lambda>addr. symbol_key lookup addr \<in> set exclude) stack))"

definition aggregate_with_filter ::
  "aggregator \<Rightarrow> symbol_lookup \<Rightarrow> u32 option \<Rightarrow> live_filter \<Rightarrow> aggregation" where
  "aggregate_with_filter ag lookup tid filt =
     (if is_filter_empty filt then aggregate ag tid (lookup_name lookup) (\<lambda>_. True)
      else aggregate ag tid (lookup_name lookup)
        (make_predicate lookup filt (or_default (ag_session_start_ns ag) 0)))"

section \<open>Threads and wakers\<close>

definition off_cpu_total_proto :: "off_cpu_breakdown \<Rightarrow> u64" where
  "off_cpu_total_proto b = sat_add (sat_add (sat_add (sat_add (sat_add (sat_add (sat_add (sat_add (sat_add
     (idle_ns b) (lock_ns b)) (semaphore_ns b)) (ipc_ns b)) (io_read_ns b)) (io_write_ns b))
     (readiness_ns b)) (sleep_ns b)) (connect_ns b)) (other_ns b)"

record thread_info =
  ti_tid :: u32
  ti_name :: "string option"
  ti_on_cpu_ns :: u64
  ti_off_cpu :: off_cpu_breakdown
  ti_pet_samples :: u64

definition thread_info_of :: "aggregator \<Rightarrow> symbol_lookup \<Rightarrow> u32 \<Rightarrow> thread_info" where
  "thread_info_of ag lookup tid =
     (let agn = aggregate ag (Some tid) (lookup_name lookup) (\<lambda>_. True) in
      \<lparr>ti_tid = tid, ti_name = thread_name ag tid, ti_on_cpu_ns = agn_total_on_cpu_ns agn,
       ti_off_cpu = agn_total_off_cpu agn,
       ti_pet_samples = (case get_thread_stats ag tid of
          Some st \<Rightarrow> of_nat (length (tst_pet_samples st)) | None \<Rightarrow> 0)\<rparr>)"

definition by_thread_total :: "thread_info \<Rightarrow> thread_info \<Rightarrow> ordering" where
  "by_thread_total a b =
     cmp (sat_add (ti_on_cpu_ns b) (off_cpu_total_proto (ti_off_cpu b)))
       (sat_add (ti_on_cpu_ns a) (off_cpu_total_proto (ti_off_cpu a)))"

definition build_threads_update :: "aggregator \<Rightarrow> symbol_lookup \<Rightarrow> thread_info list" where
  "build_threads_update ag lookup = sort_by by_thread_total (map (thread_info_of ag lookup) (iter_threads ag))"

record waker_entry =
  wk_waker_tid :: u32
  wk_waker_address :: u64
  wk_function_name :: "string option"
  wk_binary :: "string option"
  wk_language :: string
  wk_count :: u64

definition build_wakers_update :: "aggregator \<Rightarrow> symbol_lookup \<Rightarrow> u32 \<Rightarrow> u64 \<times> waker_entry list" where
  "build_wakers_update ag lookup wakee_tid =
     (let raw = top_wakers ag wakee_tid 50;
          total = sum_list (map we_count raw) in
      (total, map (\<lambda>w.
         (let (fn_name, bin, lang) = (case lookup (we_leaf_address w) of
                Some r \<Rightarrow> (Some (rs_function_name r), Some (rs_binary r), as_str (rs_language r))
              | None \<Rightarrow> (None, None, ''unknown'')) in
          \<lparr>wk_waker_tid = we_waker_tid w, wk_waker_address = we_leaf_address w,
           wk_function_name = fn_name, wk_binary = bin, wk_language = lang, wk_count = we_count w\<rparr>)) raw))"

section \<open>Drill-down lists\<close>

definition DRILLDOWN_ENTRY_CAP :: nat where "DRILLDOWN_ENTRY_CAP = 10000"

record interval_entry =
  ie_tid :: u32
  ie_start_ns :: u64
  ie_duration_ns :: u64
  ie_reason :: off_cpu_reason
  ie_waker_tid :: "u32 option"
  ie_waker_address :: "u64 option"
  ie_waker_function_name :: "u32 option"
  ie_waker_binary :: "u32 option"

record interval_list =
  il_interner :: interner
  il_total_intervals :: u64
  il_total_duration_ns :: u64
  il_by_reason :: off_cpu_breakdown
  il_entries :: "interval_entry list"

text \<open>The waker of an interval, its strings interned function name first.\<close>

definition resolve_waker ::
  "symbol_lookup \<Rightarrow> u32 option \<Rightarrow> u64 list option \<Rightarrow> interner \<Rightarrow>
   (u64 option \<times> u32 option \<times> u32 option) \<times> interner" where
  "resolve_waker lookup waker_tid waker_user_stack it =
     (case (waker_tid, waker_user_stack) of
        (Some _, Some (addr # _)) \<Rightarrow>
          (case lookup addr of
             Some r \<Rightarrow> (let (f, it1) = intern_str (rs_function_name r) it;
                            (b, it2) = intern_str (rs_binary r) it1 in
                        ((Some addr, Some f, Some b), it2))
           | None \<Rightarrow> ((Some addr, None, None), it))
      | _ \<Rightarrow> ((None, None, None), it))"

definition add_interval ::
  "symbol_lookup \<Rightarrow> live_filter \<Rightarrow> u64 \<Rightarrow> u32 \<times> raw_interval \<Rightarrow> interval_list \<Rightarrow> interval_list" where
  "add_interval lookup filt session_start ev u =
     (let (event_tid, raw) = ev in
      case ri_kind raw of
        OnCpu \<Rightarrow> u
      | OffCpu stack waker_tid waker_user_stack \<Rightarrow>
          (let interval_ns = sat_sub (ri_end_ns raw) (ri_start_ns raw) in
           if outside_range session_start filt (ri_start_ns raw) \<or> interval_ns = 0 then u
           else let leaf_name = (case stack of [] \<Rightarrow> None | addr # _ \<Rightarrow> lookup_name lookup addr);
                    reason = classify_offcpu leaf_name;
                    u1 = u\<lparr>il_total_intervals := sat_add (il_total_intervals u) 1,
                           il_total_duration_ns := sat_add (il_total_duration_ns u) interval_ns,
                           il_by_reason := add_reason reason interval_ns (il_by_reason u)\<rparr> in
             if length (il_entries u1) < DRILLDOWN_ENTRY_CAP
             then let ((waker_address, fn_id, bin_id), it) =
                        resolve_waker lookup waker_tid waker_user_stack (il_interner u1) in
               u1\<lparr>il_interner := it, il_entries := il_entries u1 @
                   [\<lparr>ie_tid = event_tid, ie_start_ns = sat_sub (ri_start_ns raw) session_start,
                     ie_duration_ns = interval_ns, ie_reason = reason, ie_waker_tid = waker_tid,
                     ie_waker_address = waker_address, ie_waker_function_name = fn_id,
                     ie_waker_binary = bin_id\<rparr>]\<rparr>
             else u1))"

definition by_start_desc :: "interval_entry \<Rightarrow> interval_entry \<Rightarrow> ordering" where
  "by_start_desc a b = cmp (ie_start_ns b) (ie_start_ns a)"

definition build_intervals_update ::
  "aggregator \<Rightarrow> symbol_lookup \<Rightarrow> u32 option \<Rightarrow> live_filter \<Rightarrow> interval_list" where
  "build_intervals_update ag lookup tid filt =
     (let session_start = or_default (ag_session_start_ns ag) 0;
          u = fold (add_interval lookup filt session_start) (iter_intervals ag tid)
            \<lparr>il_interner = new_interner, il_total_intervals = 0, il_total_duration_ns = 0,
             il_by_reason = breakdown_zero, il_entries = []\<rparr> in
      u\<lparr>il_entries := sort_by by_start_desc (il_entries u)\<rparr>)"

record pet_sample_entry =
  pe_tid :: u32
  pe_timestamp_ns :: u64
  pe_pmc :: pmu_sample

definition add_pet_sample ::
  "live_filter \<Rightarrow> u64 \<Rightarrow> u32 \<times> pet_sample \<Rightarrow> u64 \<times> pet_sample_entry list \<Rightarrow> u64 \<times> pet_sample_entry list" where
  "add_pet_sample filt session_start ev u =
     (let (event_tid, s) = ev; (total, entries) = u in
      if outside_range session_start filt (smp_time s) then u
      else (sat_add total 1,
        if length entries < DRILLDOWN_ENTRY_CAP
        then entries @ [\<lparr>pe_tid = event_tid, pe_timestamp_ns = sat_sub (smp_time s) session_start,
                         pe_pmc = smp_pmu s\<rparr>]
        else entries))"

definition by_time_desc :: "pet_sample_entry \<Rightarrow> pet_sample_entry \<Rightarrow> ordering" where
  "by_time_desc a b = cmp (pe_timestamp_ns b) (pe_timestamp_ns a)"

definition build_pet_samples_update ::
  "aggregator \<Rightarrow> u32 option \<Rightarrow> live_filter \<Rightarrow> u64 \<times> pet_sample_entry list" where
  "build_pet_samples_update ag tid filt =
     (let session_start = or_default (ag_session_start_ns ag) 0;
          (total, entries) = fold (add_pet_sample filt session_start) (iter_pet_samples ag tid) (0, []) in
      (total, sort_by by_time_desc entries))"

section \<open>The timeline\<close>

definition TARGET_BUCKETS :: u64 where "TARGET_BUCKETS = 200"
definition MIN_BUCKET_NS :: u64 where "MIN_BUCKET_NS = 50000000"

record timeline_bucket =
  tb_start_ns :: u64
  tb_on_cpu_ns :: u64
  tb_off_cpu_ns :: u64

record timeline_update =
  tl_bucket_size_ns :: u64
  tl_recording_duration_ns :: u64
  tl_total_on_cpu_ns :: u64
  tl_total_off_cpu_ns :: u64
  tl_buckets :: "timeline_bucket list"

text \<open>The accumulators of the loop: the two bucket vectors and the two totals.\<close>

record timeline_acc =
  ta_on :: "u64 list"
  ta_off :: "u64 list"
  ta_total_on :: u64
  ta_total_off :: u64

definition bucket_share :: "u64 \<Rightarrow> u64 \<Rightarrow> u64 \<Rightarrow> nat \<Rightarrow> u64" where
  "bucket_share bucket_size rel_start rel_end b =
     (let b_start = of_nat b * bucket_size; b_end = sat_add b_start bucket_size in
      sat_sub (min b_end rel_end) (max b_start rel_start))"

definition add_share :: "bool \<Rightarrow> nat \<Rightarrow> u64 \<Rightarrow> timeline_acc \<Rightarrow> timeline_acc" where
  "add_share on_cpu b share acc =
     (if share = 0 then acc
      else if on_cpu
      then acc\<lparr>ta_on := (ta_on acc)[b := sat_add (ta_on acc ! b) share],
               ta_total_on := sat_add (ta_total_on acc) share\<rparr>
      else acc\<lparr>ta_off := (ta_off acc)[b := sat_add (ta_off acc ! b) share],
               ta_total_off := sat_add (ta_total_off acc) share\<rparr>)"

definition add_to_timeline ::
  "u64 \<Rightarrow> u64 \<Rightarrow> u64 \<Rightarrow> nat \<Rightarrow> u32 \<times> raw_interval \<Rightarrow> timeline_acc \<Rightarrow> timeline_acc" where
  "add_to_timeline start last_ns bucket_size n_buckets ev acc =
     (let interval = snd ev;
          int_start = ri_start_ns interval;
          int_end = (if ri_end_ns interval = 0 then last_ns else ri_end_ns interval) in
      if int_end \<le> int_start then acc
      else let on_cpu = (ri_kind interval = OnCpu);
               rel_start = sat_sub int_start start;
               rel_end = sat_sub int_end start;
               first_bucket = unat (rel_start div bucket_size);
               last_bucket = unat (sat_sub rel_end 1 div bucket_size) in
        fold (\<lambda>b. add_share on_cpu b (bucket_share bucket_size rel_start rel_end b))
          [first_bucket ..< Suc (min last_bucket (n_buckets - 1))] acc)"

definition bucket_size_for :: "u64 \<Rightarrow> u64" where
  "bucket_size_for recording_duration_ns =
     (if recording_duration_ns = 0 then MIN_BUCKET_NS
      else max (recording_duration_ns div TARGET_BUCKETS) MIN_BUCKET_NS)"

definition build_timeline_update :: "aggregator \<Rightarrow> u32 option \<Rightarrow> timeline_update" where
  "build_timeline_update ag tid =
     (let start = or_default (ag_session_start_ns ag) 0;
          last_ns = or_default (ag_last_event_ns ag) start;
          duration = sat_sub last_ns start;
          bucket_size = bucket_size_for duration;
          n_buckets = unat (duration div bucket_size + 1);
          acc = fold (add_to_timeline start last_ns bucket_size n_buckets) (iter_intervals ag tid)
            \<lparr>ta_on = replicate (max n_buckets 1) 0, ta_off = replicate (max n_buckets 1) 0,
             ta_total_on = 0, ta_total_off = 0\<rparr> in
      \<lparr>tl_bucket_size_ns = bucket_size, tl_recording_duration_ns = duration,
       tl_total_on_cpu_ns = ta_total_on acc, tl_total_off_cpu_ns = ta_total_off acc,
       tl_buckets = map (\<lambda>(i, on_ns, off_ns). \<lparr>tb_start_ns = of_nat i * bucket_size,
          tb_on_cpu_ns = on_ns, tb_off_cpu_ns = off_ns\<rparr>) (enumerate 0 (zip (ta_on acc) (ta_off acc)))\<rparr>)"

section \<open>Top functions\<close>

datatype top_sort = BySelf | ByTotal

text \<open>
  A row of the table: the counters of its addresses (as the address table has them), the
  address shown for it, and its symbol.
\<close>

record top_group =
  tg_address :: u64
  tg_representative_self_ns :: u64
  tg_stats :: address_stats
  tg_function_name :: "string option"
  tg_binary :: "string option"
  tg_is_main :: bool
  tg_language :: language

definition address_stats_add :: "address_stats \<Rightarrow> address_stats \<Rightarrow> address_stats" where
  "address_stats_add st g =
     \<lparr>as_self_on_cpu_ns = sat_add (as_self_on_cpu_ns g) (as_self_on_cpu_ns st),
      as_total_on_cpu_ns = sat_add (as_total_on_cpu_ns g) (as_total_on_cpu_ns st),
      as_self_off_cpu = breakdown_add (as_self_off_cpu st) (as_self_off_cpu g),
      as_total_off_cpu = breakdown_add (as_total_off_cpu st) (as_total_off_cpu g),
      as_self_pet_samples = sat_add (as_self_pet_samples g) (as_self_pet_samples st),
      as_total_pet_samples = sat_add (as_total_pet_samples g) (as_total_pet_samples st),
      as_self_off_cpu_intervals = sat_add (as_self_off_cpu_intervals g) (as_self_off_cpu_intervals st),
      as_total_off_cpu_intervals = sat_add (as_total_off_cpu_intervals g) (as_total_off_cpu_intervals st),
      as_self_pmc = pmc_add_other (as_self_pmc st) (as_self_pmc g),
      as_total_pmc = pmc_add_other (as_total_pmc st) (as_total_pmc g)\<rparr>"

definition row_key :: "symbol_lookup \<Rightarrow> u64 \<Rightarrow> string \<times> string" where
  "row_key lookup address =
     (case lookup address of
        Some r \<Rightarrow> (rs_function_name r, rs_binary r)
      | None \<Rightarrow> (fmt_alt_x address, []))"

definition new_group :: "symbol_lookup \<Rightarrow> u64 \<Rightarrow> address_stats \<Rightarrow> top_group" where
  "new_group lookup address st =
     \<lparr>tg_address = address, tg_representative_self_ns = as_self_on_cpu_ns st, tg_stats = st,
      tg_function_name = fst (symbol_key lookup address), tg_binary = snd (symbol_key lookup address),
      tg_is_main = (case lookup address of Some r \<Rightarrow> rs_is_main r | None \<Rightarrow> False),
      tg_language = (case lookup address of Some r \<Rightarrow> rs_language r | None \<Rightarrow> Unknown)\<rparr>"

definition extend_group :: "u64 \<Rightarrow> address_stats \<Rightarrow> top_group \<Rightarrow> top_group" where
  "extend_group address st g =
     (let g1 = g\<lparr>tg_stats := address_stats_add st (tg_stats g)\<rparr> in
      if tg_representative_self_ns g1 < as_self_on_cpu_ns st
      then g1\<lparr>tg_address := address, tg_representative_self_ns := as_self_on_cpu_ns st\<rparr> else g1)"

text \<open>\<open>entry(key).and_modify(..).or_insert(..)\<close>\<close>

definition add_to_group ::
  "symbol_lookup \<Rightarrow> u64 \<times> address_stats \<Rightarrow> (string \<times> string, top_group) hmap \<Rightarrow> (string \<times> string, top_group) hmap" where
  "add_to_group lookup e groups =
     (let (address, st) = e; key = row_key lookup address in
      case map_of groups key of
        Some g \<Rightarrow> hm_insert key (extend_group address st g) groups
      | None \<Rightarrow> hm_insert key (new_group lookup address st) groups)"

definition row_self :: "top_group \<Rightarrow> u64" where
  "row_self g = sat_add (as_self_on_cpu_ns (tg_stats g)) (off_cpu_total_proto (as_self_off_cpu (tg_stats g)))"

definition row_total :: "top_group \<Rightarrow> u64" where
  "row_total g = sat_add (as_total_on_cpu_ns (tg_stats g)) (off_cpu_total_proto (as_total_off_cpu (tg_stats g)))"

definition by_row :: "top_sort \<Rightarrow> top_group \<Rightarrow> top_group \<Rightarrow> ordering" where
  "by_row ts a b =
     (let primary = (case ts of
            BySelf \<Rightarrow> then_with (cmp (row_self b) (row_self a)) (cmp (row_total b) (row_total a))
          | ByTotal \<Rightarrow> then_with (cmp (row_total b) (row_total a)) (cmp (row_self b) (row_self a))) in
      then_with (then_with (then_with primary (cmp (tg_function_name a) (tg_function_name b)))
        (cmp (tg_binary a) (tg_binary b))) (cmp (tg_address a) (tg_address b)))"

definition group_top_entries :: "aggregation \<Rightarrow> symbol_lookup \<Rightarrow> top_sort \<Rightarrow> nat \<Rightarrow> top_group list" where
  "group_top_entries agn lookup ts limit =
     take limit (sort_by (by_row ts) (map snd (fold (add_to_group lookup) (agn_by_address agn) [])))"

definition top_update ::
  "aggregator \<Rightarrow> symbol_lookup \<Rightarrow> u32 \<Rightarrow> top_sort \<Rightarrow> u32 option \<Rightarrow> live_filter \<Rightarrow>
   u64 \<times> off_cpu_breakdown \<times> top_group list" where
  "top_update ag lookup limit ts tid filt =
     (let agn = aggregate_with_filter ag lookup tid filt in
      (agn_total_on_cpu_ns agn, agn_total_off_cpu agn, group_top_entries agn lookup ts (unat limit)))"

section \<open>The timeline conserves time\<close>

text \<open>The recording-relative part of an interval, open intervals ending at the last event.\<close>

definition rel_span :: "u64 \<Rightarrow> u64 \<Rightarrow> raw_interval \<Rightarrow> u64 \<times> u64" where
  "rel_span start last_ns iv = (sat_sub (ri_start_ns iv) start,
     sat_sub (if ri_end_ns iv = 0 then last_ns else ri_end_ns iv) start)"

definition span_ns :: "u64 \<Rightarrow> u64 \<Rightarrow> raw_interval \<Rightarrow> u64" where
  "span_ns start last_ns iv = (let (s, e) = rel_span start last_ns iv in sat_sub e s)"

text \<open>The shares an interval gives to the buckets, as a list.\<close>

definition interval_shares :: "u64 \<Rightarrow> u64 \<Rightarrow> u64 \<Rightarrow> nat \<Rightarrow> u32 \<times> raw_interval \<Rightarrow> (bool \<times> nat \<times> u64) list" where
  "interval_shares start last_ns bs n ev =
     (let iv = snd ev; int_end = (if ri_end_ns iv = 0 then last_ns else ri_end_ns iv);
          (s, e) = rel_span start last_ns iv in
      if int_end \<le> ri_start_ns iv then []
      else map (\<lambda>b. (ri_kind iv = OnCpu, b, bucket_share bs s e b))
        [unat (s div bs) ..< Suc (min (unat (sat_sub e 1 div bs)) (n - 1))])"

lemma add_to_timeline_shares:
  "add_to_timeline start last_ns bs n ev acc =
     fold (\<lambda>(on, b, share). add_share on b share) (interval_shares start last_ns bs n ev) acc"
  by (simp add: add_to_timeline_def interval_shares_def rel_span_def Let_def fold_map o_def)

lemma fold_add_to_timeline:
  "fold (add_to_timeline start last_ns bs n) evs acc =
     fold (\<lambda>(on, b, share). add_share on b share) (concat (map (interval_shares start last_ns bs n) evs)) acc"
  by (induction evs arbitrary: acc) (simp_all add: add_to_timeline_shares)

lemma fold_add_share:
  assumes "\<forall>(on, b, sh) \<in> set hits. b < n" "length (ta_on acc) = n" "length (ta_off acc) = n"
  defines "r \<equiv> fold (\<lambda>(on, b, share). add_share on b share) hits acc"
  shows "length (ta_on r) = n \<and> length (ta_off r) = n \<and>
    (\<forall>k < n. ta_on r ! k = sat_add (ta_on acc ! k) (sat_sum (map (snd \<circ> snd) (filter (\<lambda>h. fst h \<and> fst (snd h) = k) hits))) \<and>
             ta_off r ! k = sat_add (ta_off acc ! k) (sat_sum (map (snd \<circ> snd) (filter (\<lambda>h. \<not> fst h \<and> fst (snd h) = k) hits)))) \<and>
    ta_total_on r = sat_add (ta_total_on acc) (sat_sum (map (snd \<circ> snd) (filter fst hits))) \<and>
    ta_total_off r = sat_add (ta_total_off acc) (sat_sum (map (snd \<circ> snd) (filter (\<lambda>h. \<not> fst h) hits)))"
  unfolding r_def using assms(1-3)
proof (induction hits arbitrary: acc)
  case Nil
  then show ?case by simp
next
  case (Cons h hits)
  obtain on b sh where h: "h = (on, b, sh)" by (metis prod_cases3)
  have b: "b < n" using Cons.prems(1) h by simp
  define acc' where "acc' = add_share on b sh acc"
  have len: "length (ta_on acc') = n" "length (ta_off acc') = n"
    using Cons.prems by (simp_all add: acc'_def add_share_def)
  have vals: "ta_on acc' ! k = (if on \<and> b = k then sat_add (ta_on acc ! k) sh else ta_on acc ! k) \<and>
      ta_off acc' ! k = (if \<not> on \<and> b = k then sat_add (ta_off acc ! k) sh else ta_off acc ! k)"
    if "k < n" for k
    using that b Cons.prems(2,3) by (simp add: acc'_def add_share_def nth_list_update)
  have tot: "ta_total_on acc' = (if on then sat_add (ta_total_on acc) sh else ta_total_on acc)"
    "ta_total_off acc' = (if on then ta_total_off acc else sat_add (ta_total_off acc) sh)"
    by (simp_all add: acc'_def add_share_def)
  have pre: "\<forall>(on, b, sh) \<in> set hits. b < n" using Cons.prems(1) by simp
  show ?case
    using Cons.IH [OF pre len] vals tot by (simp add: h acc'_def [symmetric] sat_add_assoc)
qed

lemma sat_sum_split:
  assumes "\<And>x. x \<in> set xs \<Longrightarrow> \<not> (P x \<and> Q x)"
  shows "sat_add (sat_sum (map f (filter P xs))) (sat_sum (map f (filter Q xs))) =
    sat_sum (map f (filter (\<lambda>x. P x \<or> Q x) xs))"
  using assms
proof (induction xs)
  case (Cons x xs)
  then have IH: "sat_add (sat_sum (map f (filter P xs))) (sat_sum (map f (filter Q xs))) =
      sat_sum (map f (filter (\<lambda>x. P x \<or> Q x) xs))" by simp
  have x: "\<not> (P x \<and> Q x)" using Cons.prems by simp
  show ?case
    using x by (cases "P x"; cases "Q x") (simp_all add: IH [symmetric] sat_add_ac)
qed simp

lemma sat_sum_by_key:
  "sat_sum (map (\<lambda>k. sat_sum (map f (filter (\<lambda>x. P x \<and> g x = k) xs))) [0..<n]) =
     sat_sum (map f (filter (\<lambda>x. P x \<and> g x < n) xs))"
proof (induction n)
  case 0
  then show ?case by simp
next
  case (Suc n)
  have "sat_add (sat_sum (map f (filter (\<lambda>x. P x \<and> g x < n) xs))) (sat_sum (map f (filter (\<lambda>x. P x \<and> g x = n) xs)))
      = sat_sum (map f (filter (\<lambda>x. (P x \<and> g x < n) \<or> (P x \<and> g x = n)) xs))"
    by (rule sat_sum_split) auto
  moreover have "filter (\<lambda>x. (P x \<and> g x < n) \<or> (P x \<and> g x = n)) xs = filter (\<lambda>x. P x \<and> g x < Suc n) xs"
    by (rule filter_cong) auto
  ultimately show ?case using Suc.IH by simp
qed

lemma bucket_sum_nat:
  fixes B S E k :: nat
  assumes "0 < B" "S \<le> E" "S div B \<le> k"
  shows "(\<Sum>b \<leftarrow> [S div B ..< k]. min (Suc b * B) E - max (b * B) S) = min (k * B) E - S"
  using assms(3)
proof (induction k rule: dec_induct)
  case base
  have "S div B * B \<le> S" by (rule div_times_less_eq_dividend)
  then show ?case by (simp add: min.coboundedI1)
next
  case (step k)
  have low: "S \<le> k * B \<or> k = S div B"
  proof (cases "k = S div B")
    case False
    then have "S < k * B" using step.hyps(1) assms(1) by (simp add: div_less_iff_less_mult [symmetric])
    then show ?thesis by simp
  qed simp
  have "k * B \<le> S" if "k = S div B" using that by simp
  then show ?case
    using step.IH low step.hyps(1) assms(2) by (auto simp: max_def min_def)
qed

lemma u64_less: "unat (x :: u64) < 2 ^ 64"
  using unsigned_less [of x] by simp

lemma bucket_share_unat:
  assumes "b * unat bs < 2 ^ 64"
  shows "unat (bucket_share bs s e b) = min (Suc b * unat bs) (unat e) - max (b * unat bs) (unat s)"
proof -
  have m: "unat (of_nat b * bs) = b * unat bs"
  proof (cases "bs = 0")
    case False
    then have "0 < unat bs" by (simp add: unat_gt_0)
    then have "b * 1 \<le> b * unat bs" by (intro mult_le_mono2) simp
    then have "b < 2 ^ 64" using assms by linarith
    then show ?thesis using assms by (simp add: unat_word_ariths unat_of_nat)
  qed simp
  note u64_less [of e]
  moreover have u: "unat (max x y) = max (unat x) (unat y)" "unat (min x y) = min (unat x) (unat y)" for x y :: u64
    by (simp_all add: max_def min_def word_le_nat_alt)
  moreover have "unat (bucket_share bs s e b) =
      min (min (b * unat bs + unat bs) (2 ^ 64 - 1)) (unat e) - max (b * unat bs) (unat s)"
    unfolding bucket_share_def Let_def unat_sat_sub u unat_sat_add m by simp
  moreover have "min (min x (2 ^ 64 - 1)) y = min x y" if "y < 2 ^ 64" for x y :: nat
    using that by (simp add: min_def)
  ultimately show ?thesis by (simp add: add.commute)
qed

lemma bucket_count:
  fixes bs d :: u64
  assumes "2 \<le> unat bs"
  shows "unat (d div bs + 1) = unat d div unat bs + 1"
proof -
  have "unat d div unat bs \<le> unat d div 2" using assms by (simp add: div_le_mono2)
  also have "\<dots> < 2 ^ 63" using u64_less [of d] by simp
  finally show ?thesis by (simp add: unat_word_ariths unat_div)
qed

lemma interval_shares_sum:
  assumes bs: "2 \<le> unat bs" and le: "s \<le> e" "e \<le> d"
  shows "sat_sum (map (bucket_share bs s e)
     [unat (s div bs) ..< Suc (min (unat (sat_sub e 1 div bs)) (unat (d div bs + 1) - 1))]) = sat_sub e s"
proof -
  let ?B = "unat bs" and ?S = "unat s" and ?E = "unat e"
  let ?l = "(?E - 1) div ?B"
  have E: "?S \<le> ?E" "?E \<le> unat d" using le by (simp_all add: word_le_nat_alt)
  have l: "min (unat (sat_sub e 1 div bs)) (unat (d div bs + 1) - 1) = ?l"
  proof -
    have "?l \<le> unat d div ?B" using E by (intro div_le_mono) simp
    then show ?thesis by (simp add: bucket_count [OF bs] unat_div sat_simps)
  qed
  have small: "b * ?B < 2 ^ 64" if "b < Suc ?l" for b
  proof -
    have "b * ?B \<le> ?l * ?B" using that by simp
    also have "\<dots> \<le> ?E - 1" by simp
    also have "\<dots> < 2 ^ 64" using u64_less [of e] by simp
    finally show ?thesis .
  qed
  have k: "?S div ?B \<le> Suc ?l"
  proof (cases "?S = ?E")
    case True
    have "?E \<le> (?E - 1) + ?B" using bs by simp
    then have "?E div ?B \<le> ((?E - 1) + ?B) div ?B" by (rule div_le_mono)
    moreover have "((?E - 1) + ?B) div ?B = Suc ?l" using bs by (subst div_add_self2) simp_all
    ultimately show ?thesis using True by simp
  next
    case False
    then have "?S div ?B \<le> ?l" using E by (intro div_le_mono) simp
    then show ?thesis by simp
  qed
  have top: "?E \<le> Suc ?l * ?B"
  proof -
    have "?E - 1 < Suc ?l * ?B" using bs by (simp add: dividend_less_div_times)
    then show ?thesis by simp
  qed
  have "(\<Sum>b \<leftarrow> [?S div ?B ..< Suc ?l]. unat (bucket_share bs s e b)) =
      (\<Sum>b \<leftarrow> [?S div ?B ..< Suc ?l]. min (Suc b * ?B) ?E - max (b * ?B) ?S)"
    using small by (intro arg_cong [where f = sum_list] map_cong refl bucket_share_unat) auto
  also have "\<dots> = ?E - ?S"
    using bucket_sum_nat [of ?B ?S ?E "Suc ?l"] bs E k top by simp
  finally have "unat (sat_sum (map (bucket_share bs s e) [?S div ?B ..< Suc ?l])) = ?E - ?S"
    using u64_less [of e] by (simp add: unat_sat_sum o_def del: upt_Suc)
  then show ?thesis
    unfolding l unfolding unat_div by (simp add: word_unat_eq_iff unat_sat_sub del: upt_Suc)
qed

lemma sat_sub_mono1: "a \<le> b \<Longrightarrow> sat_sub a c \<le> sat_sub b (c :: 'a::len word)"
  by (simp add: word_le_nat_alt sat_simps)

lemma interval_shares_total:
  fixes bs last_ns start :: u64
  assumes "2 \<le> unat bs" "ri_end_ns (snd ev) \<le> last_ns"
  defines "hits \<equiv> interval_shares start last_ns bs (unat (sat_sub last_ns start div bs + 1)) ev"
  shows "sat_sum (map (snd \<circ> snd) hits) = span_ns start last_ns (snd ev)"
    and "\<forall>(on, b, sh) \<in> set hits. on = (ri_kind (snd ev) = OnCpu) \<and> b < unat (sat_sub last_ns start div bs + 1)"
proof -
  let ?iv = "snd ev"
  let ?stop = "if ri_end_ns ?iv = 0 then last_ns else ri_end_ns ?iv"
  let ?s = "sat_sub (ri_start_ns ?iv) start" and ?e = "sat_sub ?stop start"
  have le: "?e \<le> sat_sub last_ns start" using assms(2) by (intro sat_sub_mono1) simp
  show "sat_sum (map (snd \<circ> snd) hits) = span_ns start last_ns ?iv"
  proof (cases "?stop \<le> ri_start_ns ?iv")
    case True
    then have "?e \<le> ?s" by (rule sat_sub_mono1)
    then show ?thesis using True
      by (simp add: hits_def interval_shares_def span_ns_def rel_span_def word_unat_eq_iff sat_simps word_le_nat_alt)
  next
    case False
    then have "?s \<le> ?e" by (intro sat_sub_mono1) simp
    from interval_shares_sum [OF assms(1) this le] False
    show ?thesis
      by (simp add: hits_def interval_shares_def span_ns_def rel_span_def o_def Let_def del: upt_Suc)
  qed
  have "0 < unat (sat_sub last_ns start div bs + 1)" using bucket_count [OF assms(1)] by simp
  then show "\<forall>(on, b, sh) \<in> set hits. on = (ri_kind (snd ev) = OnCpu) \<and> b < unat (sat_sub last_ns start div bs + 1)"
    by (auto simp: hits_def interval_shares_def rel_span_def Let_def simp del: upt_Suc)
qed

lemma shares_on_total:
  fixes bs last_ns start :: u64
  assumes "2 \<le> unat bs" "\<forall>ev \<in> set evs. ri_end_ns (snd ev) \<le> last_ns"
  defines "hits \<equiv> concat (map (interval_shares start last_ns bs (unat (sat_sub last_ns start div bs + 1))) evs)"
  shows "sat_sum (map (snd \<circ> snd) (filter (\<lambda>h. fst h = on) hits)) =
    sat_sum (map (span_ns start last_ns) (filter (\<lambda>iv. (ri_kind iv = OnCpu) = on) (map snd evs)))"
  unfolding hits_def using assms(2)
proof (induction evs)
  case (Cons ev evs)
  let ?h = "interval_shares start last_ns bs (unat (sat_sub last_ns start div bs + 1)) ev"
  note t = interval_shares_total [OF assms(1), of ev last_ns start]
  have "filter (\<lambda>h. fst h = on) ?h = (if (ri_kind (snd ev) = OnCpu) = on then ?h else [])"
    using t(2) Cons.prems by (auto simp: filter_id_conv filter_empty_conv)
  then show ?case using Cons t(1) by (simp add: o_def)
qed simp

lemma intervals_noted:
  assumes "ev \<in> set (iter_intervals (agg_run evs) tid)"
  shows "ri_end_ns (snd ev) \<le> or_default (ag_last_event_ns (agg_run evs)) 0"
proof -
  obtain t st where st: "map_of (ag_threads (agg_run evs)) t = Some st" "snd ev \<in> set (tst_intervals st)"
    using assms keys_distinct_agg_run [of evs]
    by (fastforce simp: iter_intervals_def hm_keys_distinct_def split: option.splits)
  then have "st = thread_logs evs t" by (simp add: threads_agg_run split: if_splits)
  then have "snd ev \<in> set (concat (map (interval_of t) evs))"
    using st(2) by (auto simp: thread_logs_def logged_def take_last_def dest!: in_set_dropD)
  then obtain x where x: "x \<in> set evs" "snd ev \<in> set (interval_of t x)" by auto
  have "ri_end_ns (snd ev) \<in> set (event_times x)"
    using x(2) by (cases x) (auto split: if_splits)
  then have mem: "ri_end_ns (snd ev) \<in> set (concat (map event_times evs))" using x(1) by auto
  have le: "t \<in> set (y # r) \<Longrightarrow> t \<le> fold max r y" for t y :: u64 and r
    using Max_ge [OF finite_set, of t "y # r"] unfolding Max.set_eq_fold .
  show ?thesis
  proof (cases "filter (\<lambda>t. t \<noteq> 0) (concat (map event_times evs))")
    case Nil
    then have "ri_end_ns (snd ev) = 0" using mem by (auto simp: filter_empty_conv)
    then show ?thesis by simp
  next
    case (Cons y r)
    then have "ag_last_event_ns (agg_run evs) = Some (fold max r y)"
      using span_agg_run [of evs] by (auto simp: span_of_def ag_span_def split: option.splits)
    moreover have "ri_end_ns (snd ev) \<in> set (y # r)" if "ri_end_ns (snd ev) \<noteq> 0"
      using mem that unfolding Cons [symmetric] by simp
    ultimately show ?thesis using le [of "ri_end_ns (snd ev)" y r] by (cases "ri_end_ns (snd ev) = 0") auto
  qed
qed

lemma bucket_size_ge: "2 \<le> unat (bucket_size_for d)"
proof -
  have "MIN_BUCKET_NS \<le> bucket_size_for d" by (simp add: bucket_size_for_def)
  then have "unat MIN_BUCKET_NS \<le> unat (bucket_size_for d)" by (simp add: word_le_nat_alt)
  then show ?thesis by (simp add: MIN_BUCKET_NS_def)
qed

lemma sum_buckets:
  assumes "\<forall>(on, b, sh) \<in> set hits. b < n"
  shows "sat_sum (map (\<lambda>k. sat_sum (map (snd \<circ> snd) (filter (\<lambda>h. P (fst h) \<and> fst (snd h) = k) hits))) [0..<n]) =
    sat_sum (map (snd \<circ> snd) (filter (\<lambda>h. P (fst h)) hits))"
proof -
  have "filter (\<lambda>h. P (fst h) \<and> fst (snd h) < n) hits = filter (\<lambda>h. P (fst h)) hits"
    using assms by (intro filter_cong) auto
  then show ?thesis using sat_sum_by_key [of "snd \<circ> snd" "\<lambda>h. P (fst h)" "\<lambda>h. fst (snd h)" hits n] by simp
qed

text \<open>
  C17: The timeline loses and invents no time: its on-CPU total is the saturating sum of the
  recording-relative durations of the on-CPU intervals, its off-CPU total that of the off-CPU
  intervals (open intervals end at the last event), and in both cases the buckets add up to
  the total, whatever the recording length, the number of buckets and the bucket borders the
  intervals cross.
\<close>

theorem timeline_conserves_time:
  "let ag = agg_run evs; u = build_timeline_update ag tid;
       start = or_default (ag_session_start_ns ag) 0; last_ns = or_default (ag_last_event_ns ag) start;
       ivs = map snd (iter_intervals ag tid) in
   tl_total_on_cpu_ns u = sat_sum (map (span_ns start last_ns) (filter (\<lambda>iv. ri_kind iv = OnCpu) ivs)) \<and>
   tl_total_off_cpu_ns u = sat_sum (map (span_ns start last_ns) (filter (\<lambda>iv. ri_kind iv \<noteq> OnCpu) ivs)) \<and>
   sat_sum (map tb_on_cpu_ns (tl_buckets u)) = tl_total_on_cpu_ns u \<and>
   sat_sum (map tb_off_cpu_ns (tl_buckets u)) = tl_total_off_cpu_ns u"
proof -
  define ag where "ag = agg_run evs"
  define start where "start = or_default (ag_session_start_ns ag) 0"
  define last_ns where "last_ns = or_default (ag_last_event_ns ag) start"
  define bs where "bs = bucket_size_for (sat_sub last_ns start)"
  define n where "n = unat (sat_sub last_ns start div bs + 1)"
  define hits where "hits = concat (map (interval_shares start last_ns bs n) (iter_intervals ag tid))"
  define acc where "acc = fold (\<lambda>(on, b, share). add_share on b share) hits
     \<lparr>ta_on = replicate n 0, ta_off = replicate n 0, ta_total_on = 0, ta_total_off = 0\<rparr>"
  have bs: "2 \<le> unat bs" by (simp add: bs_def bucket_size_ge)
  have n: "max n 1 = n" using bucket_count [OF bs] by (simp add: n_def)
  have start0: "ag_last_event_ns ag = None \<Longrightarrow> start = 0"
    using span_agg_run [of evs] by (simp add: start_def ag_def)
  have last_ge: "\<forall>ev \<in> set (iter_intervals ag tid). ri_end_ns (snd ev) \<le> last_ns"
  proof
    fix ev assume "ev \<in> set (iter_intervals ag tid)"
    then have "ri_end_ns (snd ev) \<le> or_default (ag_last_event_ns ag) 0" unfolding ag_def by (rule intervals_noted)
    then show "ri_end_ns (snd ev) \<le> last_ns" using start0 by (cases "ag_last_event_ns ag") (simp_all add: last_ns_def)
  qed
  have lt: "\<forall>(on, b, sh) \<in> set hits. b < n"
    using interval_shares_total(2) [OF bs, of _ last_ns start] last_ge by (fastforce simp: hits_def n_def)
  note f = fold_add_share [OF lt, of "\<lparr>ta_on = replicate n 0, ta_off = replicate n 0, ta_total_on = 0, ta_total_off = 0\<rparr>",
      folded acc_def, simplified]
  have on: "ta_on acc = map (\<lambda>k. sat_sum (map (snd \<circ> snd) (filter (\<lambda>h. fst h \<and> fst (snd h) = k) hits))) [0..<n]"
    and off: "ta_off acc = map (\<lambda>k. sat_sum (map (snd \<circ> snd) (filter (\<lambda>h. \<not> fst h \<and> fst (snd h) = k) hits))) [0..<n]"
    using f by (auto intro!: nth_equalityI)
  have u: "tl_total_on_cpu_ns (build_timeline_update ag tid) = ta_total_on acc"
    "tl_total_off_cpu_ns (build_timeline_update ag tid) = ta_total_off acc"
    "map tb_on_cpu_ns (tl_buckets (build_timeline_update ag tid)) = ta_on acc"
    "map tb_off_cpu_ns (tl_buckets (build_timeline_update ag tid)) = ta_off acc"
    using f n
    by (simp_all add: build_timeline_update_def Let_def start_def [symmetric] last_ns_def [symmetric]
        bs_def [symmetric] n_def [symmetric] fold_add_to_timeline hits_def [symmetric] acc_def [symmetric])
      (auto intro!: nth_equalityI simp: nth_enumerate_eq)
  have t: "sat_sum (map (snd \<circ> snd) (filter (\<lambda>h. fst h = on) hits)) =
      sat_sum (map (span_ns start last_ns) (filter (\<lambda>iv. (ri_kind iv = OnCpu) = on) (map snd (iter_intervals ag tid))))" for on
    unfolding hits_def n_def by (rule shares_on_total [OF bs last_ge])
  show ?thesis
    unfolding Let_def ag_def [symmetric] start_def [symmetric] last_ns_def [symmetric] u
    using f t [of True] t [of False] on off sum_buckets [OF lt, of "\<lambda>x. x"] sum_buckets [OF lt, of Not]
    by simp
qed

theorem timeline_conserves_time_witness:
  "tl_total_on_cpu_ns (build_timeline_update (agg_run [RecInterval 7 10 40 OnCpu]) None) = 30"
proof -
  have "ag_session_start_ns (agg_run [RecInterval 7 10 40 OnCpu]) = Some 10"
    "ag_last_event_ns (agg_run [RecInterval 7 10 40 OnCpu]) = Some 40"
    "iter_intervals (agg_run [RecInterval 7 10 40 OnCpu]) None =
       [(7, \<lparr>ri_start_ns = 10, ri_end_ns = 40, ri_kind = OnCpu\<rparr>)]"
    by (simp_all add: agg_run_def demo_defs iter_intervals_def)
  then show ?thesis
    using timeline_conserves_time [of "[RecInterval 7 10 40 OnCpu]" None]
    by (simp add: Let_def span_ns_def rel_span_def sat_sub_def)
qed

section \<open>Excluded symbols\<close>

definition excluded :: "symbol_lookup \<Rightarrow> live_filter \<Rightarrow> u64 \<Rightarrow> bool" where
  "excluded lookup filt a \<longleftrightarrow>
     symbol_key lookup a \<in> set (map (\<lambda>s. (sr_function_name s, sr_binary s)) (lf_exclude_symbols filt))"

lemma credits_avoid_excluded:
  assumes "excluded lookup filt a"
    and "c \<in> set (session_credits ag tid ln (make_predicate lookup filt start))"
  shows "a \<notin> set (credit_stack c)"
proof -
  obtain t and st :: thread_stats and iv :: raw_interval where iv: "c \<in> set (interval_credits ln (make_predicate lookup filt start)
      (or_default (ag_last_event_ns ag) 0) t (tst_pet_samples st) iv)"
    using assms(2) by (auto simp: session_credits_def thread_credits_def)
  have no: "\<not> make_predicate lookup filt start (CtxPetSample t s)" if "a \<in> set (smp_stack s)" for s
    using assms(1) that by (auto simp: make_predicate_def excluded_def list_ex_iff Let_def)
  show ?thesis
  proof (cases "ri_kind iv")
    case OnCpu
    then show ?thesis using iv no by (auto simp: interval_credits_def Let_def split: if_splits)
  next
    case (OffCpu stack w ws)
    then have "\<not> make_predicate lookup filt start (CtxInterval t iv)" if "a \<in> set stack"
      using assms(1) that by (auto simp: make_predicate_def excluded_def list_ex_iff Let_def)
    then show ?thesis using iv OffCpu by (auto simp: interval_credits_def Let_def split: if_splits)
  qed
qed

text \<open>
  A symbol the filter excludes does not appear in the view: no path of the filtered call
  tree goes through one of its addresses, and the filtered address table has no entry for one.
\<close>

theorem excluded_symbols_absent:
  assumes "streams_sorted ag" "hm_keys_distinct (ag_threads ag)"
    and "excluded lookup filt a" "a \<in> set path"
  shows "stats_at path (agn_flame_root (aggregate_with_filter ag lookup tid filt)) = None \<and>
    map_of (agn_by_address (aggregate_with_filter ag lookup tid filt)) a = None"
proof -
  let ?pred = "make_predicate lookup filt (or_default (ag_session_start_ns ag) 0)"
  let ?cs = "session_credits ag tid (lookup_name lookup) ?pred"
  have "\<not> is_filter_empty filt" using assms(3) by (auto simp: is_filter_empty_def excluded_def)
  then have agn: "agn_flame_root (aggregate_with_filter ag lookup tid filt) = fst (apply_credits ?cs)"
    "agn_by_address (aggregate_with_filter ag lookup tid filt) = snd (apply_credits ?cs)"
    by (simp_all add: aggregate_with_filter_def aggregate_add_credits [OF assms(1,2)] add_credits_def
        empty_aggregation_def apply_credits_def Let_def)
  have none: "a \<notin> set (credit_stack c)" if "c \<in> set ?cs" for c
    by (rule credits_avoid_excluded [OF assms(3) that])
  then have "\<not> on_path path c" if "c \<in> set ?cs" for c
    using none [OF that] assms(4) set_mono_prefix [of path "rev (credit_stack c)"] by auto
  moreover have "path \<noteq> []" using assms(4) by auto
  ultimately show ?thesis
    using none by (auto simp: agn stats_at_apply_credits map_of_apply_credits)
qed

definition demo_lookup :: symbol_lookup where
  "demo_lookup a = (if a = 10 then Some \<lparr>rs_function_name = ''wait'', rs_binary = ''libc'',
     rs_is_main = False, rs_language = Unknown\<rparr> else None)"

definition demo_filter :: live_filter where
  "demo_filter = \<lparr>lf_time_range = None,
     lf_exclude_symbols = [\<lparr>sr_function_name = Some ''wait'', sr_binary = Some ''libc''\<rparr>]\<rparr>"

theorem excluded_symbols_absent_witness:
  "stats_at [30, 10] (agn_flame_root (aggregate_with_filter demo_aggregator demo_lookup None demo_filter)) = None \<and>
   map_of (agn_by_address (aggregate_with_filter demo_aggregator demo_lookup None demo_filter)) 10 = None"
  using excluded_symbols_absent [OF demo_aggregator_sorted, of demo_lookup demo_filter 10 "[30, 10]" None]
  by (simp add: excluded_def symbol_key_def demo_lookup_def demo_filter_def)

section \<open>Rows of the table of top functions\<close>

interpretation row_order: comparator "by_row ts" for ts
proof -
  have "comparator (\<lambda>a b. then_with (cmp (row_self b) (row_self a)) (cmp (row_total b) (row_total a)))"
    "comparator (\<lambda>a b. then_with (cmp (row_total b) (row_total a)) (cmp (row_self b) (row_self a)))"
    by (intro comparator_then_with comparator_cmp_desc)+
  then have "comparator (\<lambda>a b. case ts of
       BySelf \<Rightarrow> then_with (cmp (row_self b) (row_self a)) (cmp (row_total b) (row_total a))
     | ByTotal \<Rightarrow> then_with (cmp (row_total b) (row_total a)) (cmp (row_self b) (row_self a)))"
    by (cases ts) simp_all
  then show "comparator (by_row ts)"
    unfolding by_row_def Let_def
    by (intro comparator_then_with comparator_cmp) auto
qed

definition entries_of :: "symbol_lookup \<Rightarrow> string \<times> string \<Rightarrow> addr_table \<Rightarrow> (u64 \<times> address_stats) list" where
  "entries_of lookup key t = filter (\<lambda>e. row_key lookup (fst e) = key) t"

text \<open>What a row has to say about the entries of the address table that share its key.\<close>

definition row_ok :: "symbol_lookup \<Rightarrow> addr_table \<Rightarrow> string \<times> string \<Rightarrow> top_group \<Rightarrow> bool" where
  "row_ok lookup t key g \<longleftrightarrow> (let es = entries_of lookup key t; sums = (\<lambda>f. sat_sum (map (f \<circ> snd) es)) in
     as_self_on_cpu_ns (tg_stats g) = sums as_self_on_cpu_ns \<and>
     as_total_on_cpu_ns (tg_stats g) = sums as_total_on_cpu_ns \<and>
     as_self_pet_samples (tg_stats g) = sums as_self_pet_samples \<and>
     as_total_pet_samples (tg_stats g) = sums as_total_pet_samples \<and>
     as_self_off_cpu_intervals (tg_stats g) = sums as_self_off_cpu_intervals \<and>
     as_total_off_cpu_intervals (tg_stats g) = sums as_total_off_cpu_intervals \<and>
     (\<forall>r. reason_ns r (as_self_off_cpu (tg_stats g)) = sums (\<lambda>s. reason_ns r (as_self_off_cpu s)) \<and>
          reason_ns r (as_total_off_cpu (tg_stats g)) = sums (\<lambda>s. reason_ns r (as_total_off_cpu s))) \<and>
     (\<exists>st. (tg_address g, st) \<in> set es \<and> as_self_on_cpu_ns st = tg_representative_self_ns g) \<and>
     (\<forall>e \<in> set es. as_self_on_cpu_ns (snd e) \<le> tg_representative_self_ns g) \<and>
     (\<exists>e \<in> set es. symbol_key lookup (fst e) = (tg_function_name g, tg_binary g)))"

lemma entries_of_snoc:
  "entries_of lookup key (t @ [(a, st)]) =
     (if row_key lookup a = key then entries_of lookup key t @ [(a, st)] else entries_of lookup key t)"
  by (simp add: entries_of_def)

lemma row_ok_new:
  assumes "entries_of lookup (row_key lookup a) t = []"
  shows "row_ok lookup (t @ [(a, st)]) (row_key lookup a) (new_group lookup a st)"
  using assms by (simp add: row_ok_def entries_of_snoc new_group_def)

lemma row_ok_extend:
  assumes "row_ok lookup t (row_key lookup a) g"
  shows "row_ok lookup (t @ [(a, st)]) (row_key lookup a) (extend_group a st g)"
proof -
  let ?es = "entries_of lookup (row_key lookup a) t"
  have "tg_stats (extend_group a st g) = address_stats_add st (tg_stats g)"
    "tg_function_name (extend_group a st g) = tg_function_name g" "tg_binary (extend_group a st g) = tg_binary g"
    by (simp_all add: extend_group_def Let_def)
  moreover have "(\<exists>st'. (tg_address (extend_group a st g), st') \<in> set (?es @ [(a, st)]) \<and>
        as_self_on_cpu_ns st' = tg_representative_self_ns (extend_group a st g)) \<and>
      (\<forall>e \<in> set (?es @ [(a, st)]). as_self_on_cpu_ns (snd e) \<le> tg_representative_self_ns (extend_group a st g))"
  proof (cases "tg_representative_self_ns g < as_self_on_cpu_ns st")
    case True
    then have "\<forall>e \<in> set ?es. as_self_on_cpu_ns (snd e) \<le> as_self_on_cpu_ns st"
      using assms by (fastforce simp: row_ok_def Let_def)
    then show ?thesis using True by (auto simp: extend_group_def)
  next
    case False
    then show ?thesis using assms by (auto simp: extend_group_def row_ok_def Let_def)
  qed
  ultimately show ?thesis
    using assms
    by (simp add: row_ok_def entries_of_snoc address_stats_add_def reason_ns_breakdown_add Let_def)
qed

lemma row_ok_other:
  "row_key lookup a \<noteq> key \<Longrightarrow> row_ok lookup (t @ [(a, st)]) key g \<longleftrightarrow> row_ok lookup t key g"
  by (simp add: row_ok_def entries_of_snoc)

lemma groups_ok:
  "let groups = fold (add_to_group lookup) t [] in
   hm_keys_distinct groups \<and> set (map fst groups) = row_key lookup ` fst ` set t \<and>
   (\<forall>key g. map_of groups key = Some g \<longrightarrow> row_ok lookup t key g)"
proof (induction t rule: rev_induct)
  case Nil
  then show ?case by (simp add: hm_simps)
next
  case (snoc e t)
  obtain a st where e: "e = (a, st)" by force
  let ?m = "fold (add_to_group lookup) t []" and ?k = "row_key lookup a"
  have IH: "hm_keys_distinct ?m" "set (map fst ?m) = row_key lookup ` fst ` set t"
    "\<And>key g. map_of ?m key = Some g \<Longrightarrow> row_ok lookup t key g"
    using snoc.IH unfolding Let_def by blast+
  define g where "g = (case map_of ?m ?k of Some g \<Rightarrow> extend_group a st g | None \<Rightarrow> new_group lookup a st)"
  have step: "fold (add_to_group lookup) (t @ [e]) [] = hm_insert ?k g ?m"
    by (simp add: e add_to_group_def g_def split: option.split)
  have "row_ok lookup (t @ [e]) ?k g"
  proof (cases "map_of ?m ?k")
    case None
    then have "?k \<notin> row_key lookup ` fst ` set t" using IH(2) by (auto simp: map_of_eq_None_iff)
    then have "entries_of lookup ?k t = []" by (auto simp: entries_of_def filter_empty_conv image_iff)
    then show ?thesis using None row_ok_new by (simp add: g_def e)
  next
    case (Some g')
    then show ?thesis using IH(3) row_ok_extend by (simp add: g_def e)
  qed
  moreover have "set (map fst (hm_insert ?k g ?m)) = insert ?k (set (map fst ?m))"
    by (simp only: hm_insert_def keys_hm_entry) (simp add: insert_absorb)
  ultimately show ?case
    unfolding step Let_def using IH by (auto simp: hm_simps e row_ok_other)
qed


end
