(* ===== verification/FlameView.thy ===== *)
theory FlameView
  imports Views
begin

text \<open>
  The flame graph view (\<open>compute_flame_update\<close>, \<open>build_children\<close>, \<open>fold_recursion\<close> in
  \<open>stax-live/src/lib.rs\<close>): the call tree keyed by address becomes a tree keyed by symbol, with
  its strings in a shared table, and a frame that repeats its parent's symbol is folded into it.
  \<open>named_children\<close> is the same tree without the string table and the symbol cache; it is what
  \<open>build_children\<close> is proved to encode.
\<close>

section \<open>Flame nodes\<close>

record flame_data =
  fd_address :: u64
  fd_function_name :: "u32 option"
  fd_binary :: "u32 option"
  fd_is_main :: bool
  fd_language :: u32
  fd_stats :: node_stats

datatype flame_node = FlameNode (fl_data: flame_data) (fl_children: "flame_node list")

text \<open>
  \<open>Acc\<close>: the counters of one symbol among the children of the sources (the five counters are
  a \<open>node_stats\<close>), and the source nodes for the next level.
\<close>

record flame_acc =
  fa_stats :: node_stats
  fa_rep_addr :: u64
  fa_rep_self_ns :: u64
  fa_is_main :: bool
  fa_language :: language
  fa_sub_sources :: "stack_node list"

type_synonym symbol_cache = "(u64, resolved_symbol) hmap"

definition resolve_cached :: "symbol_lookup \<Rightarrow> u64 \<Rightarrow> symbol_cache \<Rightarrow> resolved_symbol option \<times> symbol_cache" where
  "resolve_cached lookup addr cache =
     (case map_of cache addr of
        Some r \<Rightarrow> (Some r, cache)
      | None \<Rightarrow> (case lookup addr of
          None \<Rightarrow> (None, cache)
        | Some r \<Rightarrow> (Some r, hm_insert addr r cache)))"

definition new_acc :: "u64 \<Rightarrow> bool \<Rightarrow> language \<Rightarrow> flame_acc" where
  "new_acc addr is_main lang = \<lparr>fa_stats = node_stats_zero, fa_rep_addr = addr, fa_rep_self_ns = 0,
     fa_is_main = is_main, fa_language = lang, fa_sub_sources = []\<rparr>"

definition extend_acc :: "u64 \<Rightarrow> stack_node \<Rightarrow> bool \<Rightarrow> language \<Rightarrow> flame_acc \<Rightarrow> flame_acc" where
  "extend_acc addr child is_main lang acc =
     (let acc1 = acc\<lparr>fa_stats := node_stats_add (sn_stats child) (fa_stats acc)\<rparr>;
          candidate = nd_on_cpu_ns (sn_stats child);
          acc2 = (if fa_rep_self_ns acc1 < candidate
                  then acc1\<lparr>fa_rep_addr := addr, fa_rep_self_ns := candidate, fa_is_main := is_main,
                            fa_language := lang\<rparr>
                  else acc1) in
      acc2\<lparr>fa_sub_sources := fa_sub_sources acc2 @ [child]\<rparr>)"

definition symbol_of :: "resolved_symbol option \<Rightarrow> symbol_key \<times> bool \<times> language" where
  "symbol_of resolved =
     (case resolved of
        Some r \<Rightarrow> ((Some (rs_function_name r), Some (rs_binary r)), rs_is_main r, rs_language r)
      | None \<Rightarrow> ((None, None), False, Unknown))"

definition put_child ::
  "symbol_key \<times> bool \<times> language \<Rightarrow> u64 \<times> stack_node \<Rightarrow> (symbol_key, flame_acc) hmap \<Rightarrow> (symbol_key, flame_acc) hmap" where
  "put_child sm e groups =
     (let (key, is_main, lang) = sm; (addr, child) = e in
      hm_entry key (new_acc addr is_main lang) (extend_acc addr child is_main lang) groups)"

definition add_child ::
  "symbol_lookup \<Rightarrow> u64 \<times> stack_node \<Rightarrow> (symbol_key, flame_acc) hmap \<times> symbol_cache \<Rightarrow>
   (symbol_key, flame_acc) hmap \<times> symbol_cache" where
  "add_child lookup e st =
     (let (groups, cache) = st; (resolved, cache') = resolve_cached lookup (fst e) cache in
      (put_child (symbol_of resolved) e groups, cache'))"

definition acc_total :: "flame_acc \<Rightarrow> u64" where
  "acc_total acc = sat_add (nd_on_cpu_ns (fa_stats acc)) (total_ns (nd_off_cpu (fa_stats acc)))"

definition by_flame :: "symbol_key \<times> flame_acc \<Rightarrow> symbol_key \<times> flame_acc \<Rightarrow> ordering" where
  "by_flame a b =
     then_with (then_with (cmp (acc_total (snd b)) (acc_total (snd a))) (cmp (fst (fst a)) (fst (fst b))))
       (cmp (snd (fst a)) (snd (fst b)))"

section \<open>Termination\<close>

text \<open>The number of nodes of a call tree; the children of the sources have fewer than the sources.\<close>

primrec node_count :: "stack_node \<Rightarrow> nat" where
  "node_count (StackNode s cs) = Suc (sum_list (map snd (map (map_prod id node_count) cs)))"

lemma node_count_eq: "node_count n = Suc (sum_list (map (node_count \<circ> snd) (sn_children n)))"
  by (cases n) (simp add: o_def)

declare node_count.simps [simp del]

definition all_children :: "stack_node list \<Rightarrow> (u64 \<times> stack_node) list" where
  "all_children sources = concat (map sn_children sources)"

lemma count_all_children:
  "sum_list (map node_count sources) = length sources + sum_list (map (node_count \<circ> snd) (all_children sources))"
proof (induction sources)
  case (Cons n ns)
  then show ?case using node_count_eq [of n] by (simp add: all_children_def o_def)
qed (simp add: all_children_def)

lemma mset_hm_entry:
  assumes "f d = []" "\<And>v. f (upd v) = f v @ [x]"
  shows "mset (concat (map (f \<circ> snd) (hm_entry k d upd m))) = add_mset x (mset (concat (map (f \<circ> snd) m)))"
  using assms by (induction k d upd m rule: hm_entry.induct) simp_all

lemma fa_sub_sources_simps [simp]:
  "fa_sub_sources (new_acc addr is_main lang) = []"
  "fa_sub_sources (extend_acc addr child is_main lang acc) = fa_sub_sources acc @ [child]"
  by (simp_all add: new_acc_def extend_acc_def Let_def)

lemma mset_put_child:
  "mset (concat (map (fa_sub_sources \<circ> snd) (put_child sm e groups))) =
     add_mset (snd e) (mset (concat (map (fa_sub_sources \<circ> snd) groups)))"
  by (cases sm; cases e) (simp add: put_child_def mset_hm_entry)

lemma mset_add_children:
  "mset (concat (map (fa_sub_sources \<circ> snd) (fst (fold (add_child lookup) es st)))) =
     mset (map snd es) + mset (concat (map (fa_sub_sources \<circ> snd) (fst st)))"
  by (induction es arbitrary: st) (simp_all add: add_child_def mset_put_child split: prod.split)

lemma group_count_less:
  assumes "mset (concat (map (fa_sub_sources \<circ> snd) groups)) = mset (map snd (all_children sources))"
    and "(key, acc) \<in> set groups"
  shows "sum_list (map node_count (fa_sub_sources acc)) < sum_list (map node_count sources) \<or>
    fa_sub_sources acc = [] \<and> sources = []"
proof -
  obtain as bs where "groups = as @ (key, acc) # bs" using assms(2) by (meson split_list)
  then have "mset (fa_sub_sources acc) \<subseteq># mset (map snd (all_children sources))"
    unfolding assms(1) [symmetric] by simp
  then have "sum_mset (image_mset node_count (mset (fa_sub_sources acc))) \<le>
      sum_mset (image_mset node_count (mset (map snd (all_children sources))))"
    by (metis image_mset_union le_add1 subset_mset.le_iff_add sum_mset.union)
  then have "sum_list (map node_count (fa_sub_sources acc)) \<le> sum_list (map (node_count \<circ> snd) (all_children sources))"
    by (simp flip: sum_mset_sum_list mset_map)
  then show ?thesis
    using count_all_children [of sources] \<open>mset (fa_sub_sources acc) \<subseteq># _\<close>
    by (cases sources) (auto simp: all_children_def)
qed

lemma grouped_count_less:
  assumes "(key, acc) \<in> set (fst (fold (add_child lookup) (all_children sources) ([], cache)))"
  shows "sum_list (map node_count (fa_sub_sources acc)) < sum_list (map node_count sources)"
proof -
  have "sources \<noteq> []" using assms by (auto simp: all_children_def)
  then show ?thesis
    using group_count_less [OF _ assms, of sources] mset_add_children [of lookup "all_children sources" "([], cache)"]
    by simp
qed

section \<open>The flame graph\<close>

definition flame_entry ::
  "symbol_key \<times> flame_acc \<Rightarrow> flame_node list \<Rightarrow> interner \<Rightarrow> flame_node \<times> interner" where
  "flame_entry e grandchildren it =
     (let ((fname, bin), acc) = e;
          (f, it1) = intern_opt fname it;
          (b, it2) = intern_opt bin it1;
          (l, it3) = intern_str (as_str (fa_language acc)) it2 in
      (FlameNode \<lparr>fd_address = fa_rep_addr acc, fd_function_name = f, fd_binary = b,
         fd_is_main = fa_is_main acc, fd_language = l, fd_stats = fa_stats acc\<rparr> grandchildren, it3))"

function build_children ::
  "symbol_lookup \<Rightarrow> stack_node list \<Rightarrow> interner \<Rightarrow> symbol_cache \<Rightarrow> flame_node list \<times> interner \<times> symbol_cache" where
  "build_children lookup sources it cache =
     (let (groups, cache1) = fold (add_child lookup) (all_children sources) ([], cache);
          entries = sort_by by_flame groups in
      fold (\<lambda>e (visible, it, cache).
        let (grandchildren, it1, cache1) = build_children lookup (fa_sub_sources (snd e)) it cache;
            (node, it2) = flame_entry e grandchildren it1 in
        (visible @ [node], it2, cache1)) entries ([], it, cache1))"
  by pat_completeness auto
termination
proof (relation "measure (\<lambda>(_, sources, _, _). sum_list (map node_count sources))")
  fix lookup sources it cache x groups cache1 entries e
  assume "x = fold (add_child lookup) (all_children sources) ([], cache)" "(groups, cache1) = x"
    "entries = sort_by by_flame groups" "e \<in> set entries"
  then have "(fst e, snd e) \<in> set (fst (fold (add_child lookup) (all_children sources) ([], cache)))"
    by (metis fst_conv prod.collapse set_sort_by)
  from grouped_count_less [OF this]
  show "((lookup, fa_sub_sources (snd e), it', cache'), lookup, sources, it, cache)
      \<in> measure (\<lambda>(_, sources, _, _). sum_list (map node_count sources))" for it' cache'
    by simp
qed simp

declare build_children.simps [simp del]

section \<open>Folding recursion\<close>

definition symbol_eq :: "flame_node \<Rightarrow> flame_node \<Rightarrow> bool" where
  "symbol_eq a b \<longleftrightarrow> fd_function_name (fl_data a) \<noteq> None \<and>
     fd_function_name (fl_data a) = fd_function_name (fl_data b) \<and> fd_binary (fl_data a) = fd_binary (fl_data b)"

primrec flame_count :: "flame_node \<Rightarrow> nat" where
  "flame_count (FlameNode d cs) = Suc (sum_list (map flame_count cs))"

lemma flame_count_eq: "flame_count n = Suc (sum_list (map flame_count (fl_children n)))"
  by (cases n) simp

text \<open>
  The loop of \<open>fold_recursion\<close>: at \<open>i\<close>, a child with the symbol of its parent is removed and
  its own children spliced in its place, to be examined at the same \<open>i\<close>.
\<close>

function splice_recursive :: "flame_node \<Rightarrow> nat \<Rightarrow> flame_node list \<Rightarrow> flame_node list" where
  "splice_recursive node i children =
     (if i < length children
      then if symbol_eq (children ! i) node
        then splice_recursive node i (take i children @ fl_children (children ! i) @ drop (Suc i) children)
        else splice_recursive node (i + 1) children
      else children)"
  by pat_completeness auto
termination
proof (relation "measure (\<lambda>(_, i, cs). sum_list (map flame_count (drop i cs)))")
  fix node :: flame_node and i and cs :: "flame_node list"
  assume i: "i < length cs"
  have d: "drop i cs = cs ! i # drop (Suc i) cs" using i by (simp add: Cons_nth_drop_Suc)
  have pos: "sum_list (map flame_count (fl_children (cs ! i))) < flame_count (cs ! i)"
    using flame_count_eq [of "cs ! i"] by simp
  show "((node, i, take i cs @ fl_children (cs ! i) @ drop (Suc i) cs), node, i, cs)
      \<in> measure (\<lambda>(_, i, cs). sum_list (map flame_count (drop i cs)))"
    using i d pos by simp
  show "((node, i + 1, cs), node, i, cs) \<in> measure (\<lambda>(_, i, cs). sum_list (map flame_count (drop i cs)))"
    using i d pos by simp
qed simp

declare splice_recursive.simps [simp del]

lemma splice_recursive_count:
  "i \<le> length cs \<Longrightarrow> sum_list (map flame_count (splice_recursive node i cs)) \<le> sum_list (map flame_count cs)"
proof (induction node i cs rule: splice_recursive.induct)
  case (1 node i cs)
  show ?case
  proof (cases "i < length cs \<and> symbol_eq (cs ! i) node")
    case True
    then have "i \<le> length (take i cs @ fl_children (cs ! i) @ drop (Suc i) cs)" by auto
    with True have "sum_list (map flame_count (splice_recursive node i (take i cs @ fl_children (cs ! i) @ drop (Suc i) cs)))
        \<le> sum_list (map flame_count (take i cs @ fl_children (cs ! i) @ drop (Suc i) cs))"
      by (intro 1(1)) simp_all
    also have "\<dots> \<le> sum_list (map flame_count (take i cs @ cs ! i # drop (Suc i) cs))"
      using flame_count_eq [of "cs ! i"] by simp
    also have "take i cs @ cs ! i # drop (Suc i) cs = cs" using True by (simp add: id_take_nth_drop [symmetric])
    finally show ?thesis using True by (simp add: splice_recursive.simps [of node i cs])
  next
    case False
    then show ?thesis using 1 by (auto simp: splice_recursive.simps [of node i cs])
  qed
qed

lemma member_le_sum_list: "x \<in> set xs \<Longrightarrow> f x \<le> (sum_list (map f xs) :: nat)"
  by (induction xs) auto

function fold_recursion :: "flame_node \<Rightarrow> flame_node" where
  "fold_recursion node = FlameNode (fl_data node) (map fold_recursion (splice_recursive node 0 (fl_children node)))"
  by pat_completeness auto
termination
proof (relation "measure flame_count")
  fix node x
  assume "x \<in> set (splice_recursive node 0 (fl_children node))"
  then have "flame_count x \<le> sum_list (map flame_count (splice_recursive node 0 (fl_children node)))"
    by (rule member_le_sum_list)
  also have "\<dots> \<le> sum_list (map flame_count (fl_children node))" by (rule splice_recursive_count) simp
  also have "\<dots> < flame_count node" using flame_count_eq [of node] by simp
  finally show "(x, node) \<in> measure flame_count" by simp
qed simp

declare fold_recursion.simps [simp del]

section \<open>The update\<close>

record flame_update =
  fu_total_on_cpu_ns :: u64
  fu_total_off_cpu :: off_cpu_breakdown
  fu_strings :: "string list"
  fu_root :: flame_node

text \<open>The counters of the root row; \<open>sum\<close> wraps around.\<close>

definition root_stats :: "aggregation \<Rightarrow> flame_node list \<Rightarrow> node_stats" where
  "root_stats agn children =
     (let total = (\<lambda>f. sum_list (map (f \<circ> fd_stats \<circ> fl_data) children)) in
      \<lparr>nd_on_cpu_ns = agn_total_on_cpu_ns agn, nd_off_cpu = agn_total_off_cpu agn,
       nd_pet_samples = total nd_pet_samples, nd_off_cpu_intervals = total nd_off_cpu_intervals,
       nd_pmc = \<lparr>pa_cycles = total (pa_cycles \<circ> nd_pmc), pa_instructions = total (pa_instructions \<circ> nd_pmc),
         pa_l1d_misses = total (pa_l1d_misses \<circ> nd_pmc), pa_branch_mispreds = total (pa_branch_mispreds \<circ> nd_pmc)\<rparr>\<rparr>)"

definition compute_flame_update :: "aggregation \<Rightarrow> symbol_lookup \<Rightarrow> flame_update" where
  "compute_flame_update agn lookup =
     (let (children0, it1, _) = build_children lookup [agn_flame_root agn] new_interner [];
          children = map fold_recursion children0;
          (unknown_lang, it2) = intern_str (as_str Unknown) it1;
          (all_label, it3) = intern_str ''(all)'' it2 in
      \<lparr>fu_total_on_cpu_ns = agn_total_on_cpu_ns agn, fu_total_off_cpu = agn_total_off_cpu agn,
       fu_strings = into_strings it3,
       fu_root = FlameNode \<lparr>fd_address = 0, fd_function_name = Some all_label, fd_binary = None,
         fd_is_main = False, fd_language = unknown_lang, fd_stats = root_stats agn children\<rparr> children\<rparr>)"

definition flamegraph :: "aggregator \<Rightarrow> symbol_lookup \<Rightarrow> u32 option \<Rightarrow> live_filter \<Rightarrow> flame_update" where
  "flamegraph ag lookup tid filt = compute_flame_update (aggregate_with_filter ag lookup tid filt) lookup"

section \<open>The tree without strings and cache\<close>

record named_data =
  nm_key :: symbol_key
  nm_address :: u64
  nm_is_main :: bool
  nm_language :: language
  nm_stats :: node_stats

datatype named_node = NamedNode (nn_data: named_data) (nn_children: "named_node list")

definition symbol_groups :: "symbol_lookup \<Rightarrow> (u64 \<times> stack_node) list \<Rightarrow> (symbol_key, flame_acc) hmap" where
  "symbol_groups lookup es = fold (\<lambda>e. put_child (symbol_of (lookup (fst e))) e) es []"

definition cache_ok :: "symbol_lookup \<Rightarrow> symbol_cache \<Rightarrow> bool" where
  "cache_ok lookup cache \<longleftrightarrow> (\<forall>a r. map_of cache a = Some r \<longrightarrow> lookup a = Some r)"

lemma resolve_cached_ok:
  assumes "cache_ok lookup cache" "resolve_cached lookup a cache = (r, cache')"
  shows "r = lookup a \<and> cache_ok lookup cache'"
proof (cases "map_of cache a")
  case None
  then show ?thesis
    using assms by (cases "lookup a") (auto simp: resolve_cached_def cache_ok_def hm_simps split: if_splits)
next
  case (Some s)
  then have "lookup a = Some s" using assms(1) by (simp add: cache_ok_def)
  then show ?thesis using assms Some by (simp add: resolve_cached_def)
qed

lemma fold_add_child:
  assumes "cache_ok lookup cache"
  shows "fst (fold (add_child lookup) es (groups, cache)) = fold (\<lambda>e. put_child (symbol_of (lookup (fst e))) e) es groups \<and>
    cache_ok lookup (snd (fold (add_child lookup) es (groups, cache)))"
  using assms
proof (induction es arbitrary: groups cache)
  case (Cons e es)
  obtain r cache' where r: "resolve_cached lookup (fst e) cache = (r, cache')" by force
  then have "r = lookup (fst e)" "cache_ok lookup cache'" using resolve_cached_ok Cons.prems by blast+
  then show ?case using Cons.IH r by (simp add: add_child_def)
qed simp

lemma symbol_groups_sources:
  "mset (concat (map (fa_sub_sources \<circ> snd) (symbol_groups lookup es))) = mset (map snd es)"
  using mset_add_children [of lookup es "([], [])"] fold_add_child [of lookup "[]" es "[]"]
  by (simp add: symbol_groups_def cache_ok_def)

function named_children :: "symbol_lookup \<Rightarrow> stack_node list \<Rightarrow> named_node list" where
  "named_children lookup sources =
     map (\<lambda>(key, acc). NamedNode \<lparr>nm_key = key, nm_address = fa_rep_addr acc, nm_is_main = fa_is_main acc,
          nm_language = fa_language acc, nm_stats = fa_stats acc\<rparr> (named_children lookup (fa_sub_sources acc)))
       (sort_by by_flame (symbol_groups lookup (all_children sources)))"
  by pat_completeness auto
termination
proof (relation "measure (\<lambda>(_, sources). sum_list (map node_count sources))")
  fix lookup sources x key and acc :: flame_acc
  assume x: "x \<in> set (sort_by by_flame (symbol_groups lookup (all_children sources)))" "(key, acc) = x"
  then have mem: "(key, acc) \<in> set (symbol_groups lookup (all_children sources))" by simp
  then have "sources \<noteq> []" by (auto simp: all_children_def symbol_groups_def)
  then show "((lookup, fa_sub_sources acc), lookup, sources) \<in> measure (\<lambda>(_, sources). sum_list (map node_count sources))"
    using group_count_less [OF symbol_groups_sources mem] by simp
qed simp

declare named_children.simps [simp del]

section \<open>The encoding\<close>

definition names_opt :: "interner \<Rightarrow> u32 option \<Rightarrow> string option \<Rightarrow> bool" where
  "names_opt t i s \<longleftrightarrow> (case (i, s) of (None, None) \<Rightarrow> True | (Some i', Some s') \<Rightarrow> names_string t i' s' | _ \<Rightarrow> False)"

definition names_data :: "interner \<Rightarrow> named_data \<Rightarrow> flame_data \<Rightarrow> bool" where
  "names_data t d fd \<longleftrightarrow> names_opt t (fd_function_name fd) (fst (nm_key d)) \<and>
     names_opt t (fd_binary fd) (snd (nm_key d)) \<and> names_string t (fd_language fd) (as_str (nm_language d)) \<and>
     fd_address fd = nm_address d \<and> fd_is_main fd = nm_is_main d \<and> fd_stats fd = nm_stats d"

inductive encodes :: "interner \<Rightarrow> named_node \<Rightarrow> flame_node \<Rightarrow> bool" for t where
  node: "names_data t d fd \<Longrightarrow> list_all2 (encodes t) ns fs \<Longrightarrow> encodes t (NamedNode d ns) (FlameNode fd fs)"

inductive_cases encodesE: "encodes t (NamedNode d ns) f"
inductive_simps encodes_node: "encodes t (NamedNode d ns) (FlameNode fd fs)"

definition table_le :: "interner \<Rightarrow> interner \<Rightarrow> bool" where
  "table_le t t' \<longleftrightarrow> (\<forall>i s. names_string t i s \<longrightarrow> names_string t' i s)"

definition table_ok :: "nat \<Rightarrow> interner \<Rightarrow> bool" where
  "table_ok n t \<longleftrightarrow> interner_ok t \<and> room n t"

lemma table_le_refl [simp]: "table_le t t" and table_le_trans: "table_le t u \<Longrightarrow> table_le u v \<Longrightarrow> table_le t v"
  by (simp_all add: table_le_def)

lemma encodes_mono: "encodes t n f \<Longrightarrow> table_le t t' \<Longrightarrow> encodes t' n f"
proof (induction rule: encodes.induct)
  case (node d fd ns fs)
  have "names_opt t i s \<Longrightarrow> names_opt t' i s" for i s
    using node.prems by (auto simp: names_opt_def table_le_def split: option.splits)
  then have "names_data t' d fd" using node.hyps(1) node.prems by (auto simp: names_data_def table_le_def)
  moreover have "list_all2 (encodes t') ns fs"
    using node.IH node.prems by (auto elim!: list_all2_mono)
  ultimately show ?case by (rule encodes.node)
qed

lemma encodes_list_mono: "list_all2 (encodes t) ns fs \<Longrightarrow> table_le t t' \<Longrightarrow> list_all2 (encodes t') ns fs"
  by (auto elim!: list_all2_mono encodes_mono)

lemma intern_str_table:
  assumes "table_ok (Suc n) t" "intern_str s t = (i, t')"
  shows "table_ok n t' \<and> table_le t t' \<and> names_string t' i s"
  using assms it.names_put [where n = n and t = t and s = s] it.keeps [where n = n and t = t and s = s]
    it.ok_put [where n = n and t = t and s = s]
  by (auto simp: table_ok_def table_le_def)

lemma intern_opt_table:
  assumes "table_ok (Suc n) t" "intern_opt s t = (i, t')"
  shows "table_ok n t' \<and> table_le t t' \<and> names_opt t' i s"
proof (cases s)
  case None
  then show ?thesis using assms by (simp add: intern_opt_def table_ok_def room_def names_opt_def)
next
  case (Some s')
  then show ?thesis
    using assms intern_str_table [of n t s'] by (auto simp: intern_opt_def names_opt_def split: prod.splits)
qed

abbreviation named_entry :: "symbol_key \<times> flame_acc \<Rightarrow> named_data" where
  "named_entry e \<equiv> \<lparr>nm_key = fst e, nm_address = fa_rep_addr (snd e), nm_is_main = fa_is_main (snd e),
     nm_language = fa_language (snd e), nm_stats = fa_stats (snd e)\<rparr>"

lemma flame_entry_encodes:
  assumes "table_ok (Suc (Suc (Suc n))) t" "flame_entry e fs t = (node, t')" "list_all2 (encodes t) ns fs"
  shows "table_ok n t' \<and> table_le t t' \<and> encodes t' (NamedNode (named_entry e) ns) node"
proof -
  obtain fname bin acc where e: "e = ((fname, bin), acc)" by (metis prod.collapse)
  obtain f t1 where 1: "intern_opt fname t = (f, t1)" by force
  obtain b t2 where 2: "intern_opt bin t1 = (b, t2)" by force
  obtain l t3 where 3: "intern_str (as_str (fa_language acc)) t2 = (l, t3)" by force
  note i1 = intern_opt_table [OF _ 1, of "Suc (Suc n)"] and i2 = intern_opt_table [OF _ 2, of "Suc n"]
    and i3 = intern_str_table [OF _ 3, of n]
  have ok: "table_ok (Suc (Suc n)) t1" "table_le t t1" "names_opt t1 f fname" using i1 assms(1) by simp_all
  have ok2: "table_ok (Suc n) t2" "table_le t1 t2" "names_opt t2 b bin" using i2 ok(1) by simp_all
  have ok3: "table_ok n t3" "table_le t2 t3" "names_string t3 l (as_str (fa_language acc))" using i3 ok2(1) by simp_all
  have le: "table_le t t3" using ok(2) ok2(2) ok3(2) table_le_trans by blast
  have "names_opt t3 f fname" "names_opt t3 b bin"
    using ok(3) ok2(2,3) ok3(2) by (auto simp: names_opt_def table_le_def split: option.splits)
  then show ?thesis
    using assms(2) ok3 le encodes_list_mono [OF assms(3) le]
    by (auto simp: flame_entry_def e 1 2 3 names_data_def intro!: encodes.node)
qed

section \<open>\<open>build_children\<close> encodes the named tree\<close>

text \<open>How many nodes lie below the sources; every one of them interns at most three strings.\<close>

definition below :: "stack_node list \<Rightarrow> nat" where
  "below sources = sum_list (map (node_count \<circ> snd) (all_children sources))"

definition entry_weight :: "symbol_key \<times> flame_acc \<Rightarrow> nat" where
  "entry_weight e = 3 * (1 + below (fa_sub_sources (snd e)))"

lemma group_nonempty:
  assumes "e \<in> set (symbol_groups lookup es)"
  shows "fa_sub_sources (snd e) \<noteq> []"
proof -
  let ?P = "list_all (\<lambda>e. fa_sub_sources (snd e) \<noteq> [])"
  have "?P g \<Longrightarrow> ?P (hm_entry k (new_acc a m l) (extend_acc b c m' l') g)" for k a m l b c m' l' g
    by (induction g) auto
  then have put: "?P g \<Longrightarrow> ?P (put_child sm e g)" for sm e g
    by (cases sm; cases e) (simp add: put_child_def)
  have "?P g \<Longrightarrow> ?P (fold (\<lambda>e. put_child (symbol_of (lookup (fst e))) e) es g)" for g
    by (induction es arbitrary: g) (simp_all add: put)
  from this [of "[]"] show ?thesis using assms by (simp add: symbol_groups_def list_all_iff)
qed

lemma sum_list_map_concat: "sum_list (map f (concat xss)) = sum_list (map (\<lambda>xs. sum_list (map f xs)) xss)"
  by (induction xss) simp_all

lemma sum_entry_weight:
  "sum_list (map entry_weight (symbol_groups lookup (all_children sources))) \<le> 3 * below sources"
proof -
  let ?g = "symbol_groups lookup (all_children sources)"
  have w: "entry_weight e \<le> 3 * sum_list (map node_count (fa_sub_sources (snd e)))" if "e \<in> set ?g" for e
    using group_nonempty [OF that] count_all_children [of "fa_sub_sources (snd e)"]
    by (cases "fa_sub_sources (snd e)") (simp_all add: entry_weight_def below_def)
  have "sum_list (map entry_weight ?g) \<le> sum_list (map (\<lambda>e. 3 * sum_list (map node_count (fa_sub_sources (snd e)))) ?g)"
    using w by (rule sum_list_mono)
  also have "\<dots> = 3 * sum_list (map (\<lambda>e. sum_list (map node_count (fa_sub_sources (snd e)))) ?g)"
    by (simp add: sum_list_const_mult)
  also have "sum_list (map (\<lambda>e. sum_list (map node_count (fa_sub_sources (snd e)))) ?g) =
      sum_list (map node_count (concat (map (fa_sub_sources \<circ> snd) ?g)))"
    by (simp add: sum_list_map_concat o_def)
  also have "\<dots> = sum_mset (image_mset node_count (mset (map snd (all_children sources))))"
    unfolding symbol_groups_sources [of lookup, symmetric] by (simp only: sum_mset_sum_list flip: mset_map)
  also have "\<dots> = below sources"
    by (simp only: below_def sum_mset_sum_list list.map_comp flip: mset_map)
  finally show ?thesis .
qed

lemma build_entries_encode:
  assumes "\<forall>e \<in> set es. \<forall>n t c fs t' c'. cache_ok lookup c \<longrightarrow> table_ok (3 * below (fa_sub_sources (snd e)) + n) t \<longrightarrow>
      build_children lookup (fa_sub_sources (snd e)) t c = (fs, t', c') \<longrightarrow>
      table_ok n t' \<and> table_le t t' \<and> cache_ok lookup c' \<and>
      list_all2 (encodes t') (named_children lookup (fa_sub_sources (snd e))) fs"
    and "cache_ok lookup c" "table_ok (sum_list (map entry_weight es) + n) t" "list_all2 (encodes t) ns vis"
    and "fold (\<lambda>e (visible, it, cache).
        let (grandchildren, it1, cache1) = build_children lookup (fa_sub_sources (snd e)) it cache;
            (node, it2) = flame_entry e grandchildren it1 in
        (visible @ [node], it2, cache1)) es (vis, t, c) = (fs, t', c')"
  shows "table_ok n t' \<and> table_le t t' \<and> cache_ok lookup c' \<and>
    list_all2 (encodes t') (ns @ map (\<lambda>e. NamedNode (named_entry e) (named_children lookup (fa_sub_sources (snd e)))) es) fs"
  using assms
proof (induction es arbitrary: ns vis t c)
  case Nil
  then show ?case by simp
next
  case (Cons e es)
  let ?n = "sum_list (map entry_weight es) + n"
  obtain gs t1 c1 where b: "build_children lookup (fa_sub_sources (snd e)) t c = (gs, t1, c1)" by (metis prod_cases3)
  obtain nd t2 where f: "flame_entry e gs t1 = (nd, t2)" by force
  have "table_ok (3 * below (fa_sub_sources (snd e)) + Suc (Suc (Suc ?n))) t"
    using Cons.prems(3) by (simp add: entry_weight_def [of e] table_ok_def room_def)
  then have 1: "table_ok (Suc (Suc (Suc ?n))) t1" "table_le t t1" "cache_ok lookup c1"
    "list_all2 (encodes t1) (named_children lookup (fa_sub_sources (snd e))) gs"
    using Cons.prems(1,2) b by (meson list.set_intros(1))+
  note 2 = flame_entry_encodes [OF 1(1) f 1(4)]
  have le: "table_le t t2" using 1(2) 2 table_le_trans by blast
  have "list_all2 (encodes t2) (ns @ [NamedNode (named_entry e) (named_children lookup (fa_sub_sources (snd e)))]) (vis @ [nd])"
    using 2 encodes_list_mono [OF Cons.prems(4) le] by (simp add: list_all2_appendI)
  note enc = this
  have run: "fold (\<lambda>e (visible, it, cache).
        let (grandchildren, it1, cache1) = build_children lookup (fa_sub_sources (snd e)) it cache;
            (node, it2) = flame_entry e grandchildren it1 in
        (visible @ [node], it2, cache1)) es (vis @ [nd], t2, c1) = (fs, t', c')"
    using Cons.prems(5) by (simp add: b f)
  have ok: "table_ok ?n t2" using 2 by simp
  have "table_ok n t' \<and> table_le t2 t' \<and> cache_ok lookup c' \<and>
      list_all2 (encodes t') ((ns @ [NamedNode (named_entry e) (named_children lookup (fa_sub_sources (snd e)))]) @
        map (\<lambda>e. NamedNode (named_entry e) (named_children lookup (fa_sub_sources (snd e)))) es) fs"
    by (rule Cons.IH [OF ballI [OF bspec [OF Cons.prems(1) list.set_intros(2)]] 1(3) ok enc run])
  then show ?case using table_le_trans [OF le] by simp
qed

lemma build_children_encodes:
  assumes "cache_ok lookup c" "table_ok (3 * below sources + n) t" "build_children lookup sources t c = (fs, t', c')"
  shows "table_ok n t' \<and> table_le t t' \<and> cache_ok lookup c' \<and> list_all2 (encodes t') (named_children lookup sources) fs"
  using assms
proof (induction "sum_list (map node_count sources)" arbitrary: sources t c fs t' c' n rule: less_induct)
  case less
  define es where "es = sort_by by_flame (symbol_groups lookup (all_children sources))"
  obtain g c1 where g: "fold (add_child lookup) (all_children sources) ([], c) = (g, c1)" by force
  then have c1: "g = symbol_groups lookup (all_children sources)" "cache_ok lookup c1"
    using fold_add_child [OF less.prems(1), of "all_children sources" "[]"] by (simp_all add: symbol_groups_def)
  have run: "fold (\<lambda>e (visible, it, cache).
        let (grandchildren, it1, cache1) = build_children lookup (fa_sub_sources (snd e)) it cache;
            (node, it2) = flame_entry e grandchildren it1 in
        (visible @ [node], it2, cache1)) es ([], t, c1) = (fs, t', c')"
    using less.prems(3) by (simp add: build_children.simps [of lookup sources t c] g c1(1) es_def)
  have small: "sum_list (map node_count (fa_sub_sources (snd e))) < sum_list (map node_count sources)"
    if "e \<in> set es" for e
  proof -
    have "(fst e, snd e) \<in> set g" using that by (simp add: es_def c1(1))
    then show ?thesis using grouped_count_less [of "fst e" "snd e" lookup sources c] g by simp
  qed
  have "mset (map entry_weight es) = mset (map entry_weight (symbol_groups lookup (all_children sources)))"
    by (simp add: es_def)
  then have w: "sum_list (map entry_weight es) \<le> 3 * below sources"
    using sum_entry_weight [of lookup sources] by (metis sum_mset_sum_list)
  have "table_ok (sum_list (map entry_weight es) + n) t"
    using less.prems(2) w by (simp add: table_ok_def room_def)
  note ok = this
  have IH: "\<forall>e \<in> set es. \<forall>n t c fs t' c'. cache_ok lookup c \<longrightarrow> table_ok (3 * below (fa_sub_sources (snd e)) + n) t \<longrightarrow>
      build_children lookup (fa_sub_sources (snd e)) t c = (fs, t', c') \<longrightarrow>
      table_ok n t' \<and> table_le t t' \<and> cache_ok lookup c' \<and>
      list_all2 (encodes t') (named_children lookup (fa_sub_sources (snd e))) fs"
    using less.hyps [OF small] by blast
  note r = build_entries_encode [OF IH c1(2) ok _ run, of "[]"]
  have "named_children lookup sources =
      map (\<lambda>e. NamedNode (named_entry e) (named_children lookup (fa_sub_sources (snd e)))) es"
    by (simp add: named_children.simps [of lookup sources] es_def case_prod_beta)
  then show ?case using r by simp
qed

end
