(* ===== verification/FlameExact.thy ===== *)
theory FlameExact
  imports FlameView
begin

text \<open>
  What the flame graph view shows: the cell at a path of symbols holds the counters of exactly
  the events whose stack, read as symbols from the outermost frame, starts with that path. The
  proof reads the symbol tree off the call tree one level at a time.
\<close>

section \<open>Reading the symbol tree\<close>

text \<open>The nodes of the call tree a path of symbols leads to.\<close>

primrec sym_nodes :: "symbol_lookup \<Rightarrow> symbol_key list \<Rightarrow> stack_node list \<Rightarrow> stack_node list" where
  "sym_nodes lookup [] sources = sources"
| "sym_nodes lookup (k # ks) sources =
     sym_nodes lookup ks (map snd (filter (\<lambda>e. symbol_key lookup (fst e) = k) (all_children sources)))"

fun named_at :: "symbol_key list \<Rightarrow> named_node list \<Rightarrow> named_data option" where
  "named_at [] ns = None"
| "named_at (k # ks) ns =
     (case find (\<lambda>n. nm_key (nn_data n) = k) ns of
        None \<Rightarrow> None
      | Some n \<Rightarrow> if ks = [] then Some (nn_data n) else named_at ks (nn_children n))"

definition shown_key :: "string list \<Rightarrow> flame_data \<Rightarrow> symbol_key" where
  "shown_key strings d =
     (map_option (\<lambda>i. strings ! unat i) (fd_function_name d), map_option (\<lambda>i. strings ! unat i) (fd_binary d))"

text \<open>What a client reads at a path of symbols, with the strings of the table.\<close>

fun cell_at :: "string list \<Rightarrow> symbol_key list \<Rightarrow> flame_node list \<Rightarrow> flame_data option" where
  "cell_at strings [] fs = None"
| "cell_at strings (k # ks) fs =
     (case find (\<lambda>f. shown_key strings (fl_data f) = k) fs of
        None \<Rightarrow> None
      | Some f \<Rightarrow> if ks = [] then Some (fl_data f) else cell_at strings ks (fl_children f))"

lemma shown_key_encodes:
  assumes "encodes t n f"
  shows "shown_key (it_strings t) (fl_data f) = nm_key (nn_data n) \<and> fd_stats (fl_data f) = nm_stats (nn_data n) \<and>
    list_all2 (encodes t) (nn_children n) (fl_children f)"
proof -
  have o: "names_opt t i s \<Longrightarrow> map_option (\<lambda>i. it_strings t ! unat i) i = s" for i s
    by (cases i; cases s) (simp_all add: names_opt_def names_string_def)
  show ?thesis
    using assms by (cases rule: encodes.cases)
      (auto simp: names_data_def shown_key_def o prod_eq_iff)
qed

lemma find_encodes:
  "list_all2 (encodes t) ns fs \<Longrightarrow>
     rel_option (encodes t) (find (\<lambda>n. nm_key (nn_data n) = k) ns) (find (\<lambda>f. shown_key (it_strings t) (fl_data f) = k) fs)"
  by (induction rule: list_all2_induct) (simp_all add: shown_key_encodes)

lemma cell_at_encodes:
  "list_all2 (encodes t) ns fs \<Longrightarrow>
     map_option fd_stats (cell_at (it_strings t) ks fs) = map_option nm_stats (named_at ks ns)"
proof (induction ks arbitrary: ns fs)
  case Nil
  then show ?case by simp
next
  case (Cons k ks)
  from find_encodes [OF Cons.prems, of k] show ?case
  proof (cases rule: option.rel_cases)
    case None
    then show ?thesis by simp
  next
    case (Some n f)
    then show ?thesis using shown_key_encodes [of t n f] Cons.IH by simp
  qed
qed

section \<open>One level of the symbol tree\<close>

lemma fst_symbol_of: "fst (symbol_of (lookup a)) = symbol_key lookup a"
  by (simp add: symbol_of_def symbol_key_def split: option.split)

lemma fa_stats_simps [simp]:
  "fa_stats (new_acc a m l) = node_stats_zero"
  "fa_stats (extend_acc a c m l acc) = node_stats_add (sn_stats c) (fa_stats acc)"
  by (simp_all add: new_acc_def extend_acc_def Let_def)

definition sum_nodes :: "stack_node list \<Rightarrow> node_stats" where
  "sum_nodes ns = fold (\<lambda>n. node_stats_add (sn_stats n)) ns node_stats_zero"

text \<open>The group of a symbol: the children with that symbol, in order, and their counters.\<close>

lemma symbol_groups_exact:
  "hm_keys_distinct (symbol_groups lookup es) \<and>
   (let sel = map snd (filter (\<lambda>e. symbol_key lookup (fst e) = k) es) in
    case map_of (symbol_groups lookup es) k of
      None \<Rightarrow> sel = []
    | Some acc \<Rightarrow> sel \<noteq> [] \<and> fa_sub_sources acc = sel \<and> fa_stats acc = sum_nodes sel)"
proof (induction es rule: rev_induct)
  case Nil
  then show ?case by (simp add: symbol_groups_def hm_simps)
next
  case (snoc e es)
  obtain a c where e: "e = (a, c)" by force
  obtain key m l where s: "symbol_of (lookup a) = (key, m, l)" by (metis prod_cases3)
  then have key: "symbol_key lookup a = key" using fst_symbol_of [of lookup a] by simp
  have step: "symbol_groups lookup (es @ [e]) =
      hm_entry key (new_acc a m l) (extend_acc a c m l) (symbol_groups lookup es)"
    by (simp add: symbol_groups_def put_child_def e s)
  show ?case
    using snoc.IH unfolding step
    by (cases "map_of (symbol_groups lookup es) k") (auto simp: hm_simps e key sum_nodes_def Let_def)
qed

lemma find_map_of:
  "find (\<lambda>n. nm_key (nn_data n) = k) (map (\<lambda>(key, acc). NamedNode (d key acc) (f acc)) xs) =
     map_option (\<lambda>acc. NamedNode (d k acc) (f acc)) (map_of xs k)"
  if "\<And>key acc. nm_key (d key acc) = key" for d and f and xs :: "(symbol_key \<times> flame_acc) list"
  using that by (induction xs) auto

lemma find_named_children:
  "find (\<lambda>n. nm_key (nn_data n) = k) (named_children lookup sources) =
     map_option (\<lambda>acc. NamedNode (named_entry (k, acc)) (named_children lookup (fa_sub_sources acc)))
       (map_of (symbol_groups lookup (all_children sources)) k)"
proof -
  let ?g = "symbol_groups lookup (all_children sources)"
  have d: "distinct (map fst ?g)" using symbol_groups_exact [of lookup "all_children sources"] by (simp add: hm_keys_distinct_def)
  have "mset (map fst (sort_by by_flame ?g)) = mset (map fst ?g)" by simp
  then have "distinct (map fst (sort_by by_flame ?g))" using d mset_eq_imp_distinct_iff by blast
  then have "map_of (sort_by by_flame ?g) = map_of ?g"
    using d by (simp add: map_of_inject_set)
  then show ?thesis
    using find_map_of [of "\<lambda>key acc. named_entry (key, acc)" k "\<lambda>acc. named_children lookup (fa_sub_sources acc)"
        "sort_by by_flame ?g"]
    by (simp add: named_children.simps [of lookup sources])
qed

lemma sym_nodes_Nil [simp]: "sym_nodes lookup ks [] = []"
  by (induction ks) (simp_all add: all_children_def)

lemma named_at_exact:
  "ks \<noteq> [] \<Longrightarrow> map_option nm_stats (named_at ks (named_children lookup sources)) =
     (let ns = sym_nodes lookup ks sources in if ns = [] then None else Some (sum_nodes ns))"
proof (induction ks arbitrary: sources)
  case Nil
  then show ?case by simp
next
  case (Cons k ks)
  note g = symbol_groups_exact [of lookup "all_children sources" k]
  show ?case
  proof (cases "map_of (symbol_groups lookup (all_children sources)) k")
    case None
    then show ?thesis using g by (simp add: find_named_children Let_def)
  next
    case (Some acc)
    then show ?thesis using g Cons.IH [of "fa_sub_sources acc"]
      by (cases "ks = []") (simp_all add: find_named_children Let_def)
  qed
qed

section \<open>Symbol paths and credited events\<close>

text \<open>
  A node stands for a list of weighted paths when each of its nodes counts, in the counter
  \<open>g\<close>, exactly the paths that go through it.
\<close>

type_synonym weighted = "(u64 list \<times> u64) list"

definition counts_at :: "(node_stats \<Rightarrow> u64) \<Rightarrow> u64 list \<Rightarrow> stack_node \<Rightarrow> weighted \<Rightarrow> bool" where
  "counts_at g q n xs \<longleftrightarrow> (case stats_at q n of
        None \<Rightarrow> filter (prefix q \<circ> fst) xs = []
      | Some s \<Rightarrow> filter (prefix q \<circ> fst) xs \<noteq> [] \<and> g s = sat_sum (map snd (filter (prefix q \<circ> fst) xs)))"

definition represents :: "(node_stats \<Rightarrow> u64) \<Rightarrow> stack_node \<Rightarrow> weighted \<Rightarrow> bool" where
  "represents g n xs \<longleftrightarrow> tree_wf n \<and> (\<forall>q. q \<noteq> [] \<longrightarrow> counts_at g q n xs)"

definition tl_path :: "u64 list \<times> u64 \<Rightarrow> u64 list \<times> u64" where
  "tl_path x = (tl (fst x), snd x)"

lemma tl_path_simps [simp]: "fst (tl_path x) = tl (fst x)" "snd (tl_path x) = snd x"
  by (simp_all add: tl_path_def)

definition tails :: "u64 \<Rightarrow> weighted \<Rightarrow> weighted" where
  "tails a xs = map tl_path (filter (\<lambda>x. fst x \<noteq> [] \<and> hd (fst x) = a) xs)"

lemma filter_tails: "map snd (filter (prefix q \<circ> fst) (tails a xs)) = map snd (filter (prefix (a # q) \<circ> fst) xs)"
proof (induction xs)
  case (Cons x xs)
  obtain p w where x: "x = (p, w)" by force
  show ?case using Cons by (cases p) (simp_all add: x tails_def)
qed (simp add: tails_def)

lemma represents_child:
  assumes "represents g n xs" "(a, c) \<in> set (sn_children n)"
  shows "represents g c (tails a xs) \<and> tails a xs \<noteq> [] \<and> g (sn_stats c) = sat_sum (map snd (tails a xs))"
proof -
  have wf: "tree_wf n" using assms(1) by (simp add: represents_def)
  then have "map_of (sn_children n) a = Some c" and c: "tree_wf c"
    using assms(2) by (auto simp: tree_wf_iff [of n] hm_keys_distinct_def)
  then have at: "stats_at (a # q) n = stats_at q c" for q by (simp add: stats_at_Cons)
  have emp: "filter (prefix q \<circ> fst) (tails a xs) = [] \<longleftrightarrow> filter (prefix (a # q) \<circ> fst) xs = []" for q
    using filter_tails [of q a xs] by (metis map_is_Nil_conv)
  have "counts_at g q c (tails a xs) \<longleftrightarrow> counts_at g (a # q) n xs" for q
    by (simp only: counts_at_def at emp filter_tails)
  then have all: "counts_at g q c (tails a xs)" for q using assms(1) by (simp add: represents_def)
  have "filter (prefix [] \<circ> fst) (tails a xs) = tails a xs" by simp
  then show ?thesis using all all [of "[]"] c by (simp add: represents_def counts_at_def)
qed

lemma mset_by_head:
  "distinct as \<Longrightarrow> mset (concat (map (\<lambda>a. filter (\<lambda>x. h x = a \<and> P x) xs) as)) = mset (filter (\<lambda>x. h x \<in> set as \<and> P x) xs)"
proof (induction as)
  case (Cons a as)
  have "mset (filter (\<lambda>x. h x = a \<and> P x) xs) + mset (filter (\<lambda>x. h x \<in> set as \<and> P x) xs) =
      mset (filter (\<lambda>x. h x \<in> set (a # as) \<and> P x) xs)"
    using Cons.prems by (induction xs) auto
  then show ?case using Cons by simp
qed simp

text \<open>The paths of all the children that share a symbol are the tails of the paths that enter it.\<close>

definition enters :: "symbol_lookup \<Rightarrow> symbol_key \<Rightarrow> u64 list \<times> u64 \<Rightarrow> bool" where
  "enters lookup k x \<longleftrightarrow> fst x \<noteq> [] \<and> symbol_key lookup (hd (fst x)) = k"

lemma mset_children_tails:
  assumes "represents g n xs"
  shows "mset (concat (map (\<lambda>e. tails (fst e) xs) (filter (\<lambda>e. symbol_key lookup (fst e) = k) (sn_children n)))) =
    mset (map tl_path (filter (enters lookup k) xs))"
proof -
  let ?cs = "filter (\<lambda>e. symbol_key lookup (fst e) = k) (sn_children n)"
  let ?P = "\<lambda>x :: u64 list \<times> u64. fst x \<noteq> []"
  have d: "distinct (map fst ?cs)"
    using assms by (auto simp: represents_def tree_wf_iff [of n] hm_keys_distinct_def intro: distinct_map_filter)
  have heads: "hd (fst x) \<in> set (map fst (sn_children n))" if x: "x \<in> set xs" "fst x \<noteq> []" for x
  proof -
    have "filter (prefix [hd (fst x)] \<circ> fst) xs \<noteq> []"
      using x by (auto simp: filter_empty_conv intro!: bexI [of _ x]) (metis list.collapse prefix_bot.bot_least Cons_prefix_Cons)
    then have "stats_at [hd (fst x)] n \<noteq> None"
      using assms by (auto simp: represents_def counts_at_def split: option.splits)
    then have "map_of (sn_children n) (hd (fst x)) \<noteq> None" by (auto simp: stats_at_Cons split: option.splits)
    then show ?thesis by (simp add: map_of_eq_None_iff)
  qed
  have "concat (map (\<lambda>e. tails (fst e) xs) ?cs) =
      map tl_path (concat (map (\<lambda>a. filter (\<lambda>x. hd (fst x) = a \<and> ?P x) xs) (map fst ?cs)))"
    by (simp add: tails_def map_concat o_def conj_commute)
  also have "mset \<dots> = image_mset tl_path (mset (filter (\<lambda>x. hd (fst x) \<in> set (map fst ?cs) \<and> ?P x) xs))"
    unfolding mset_map mset_by_head [OF d] ..
  also have "filter (\<lambda>x. hd (fst x) \<in> set (map fst ?cs) \<and> ?P x) xs = filter (enters lookup k) xs"
  proof (intro filter_cong refl)
    have "set (map fst ?cs) = {a \<in> set (map fst (sn_children n)). symbol_key lookup a = k}" by auto
    then show "hd (fst x) \<in> set (map fst ?cs) \<and> fst x \<noteq> [] \<longleftrightarrow> enters lookup k x" if "x \<in> set xs" for x
      using heads [OF that] by (auto simp: enters_def)
  qed
  finally show ?thesis by simp
qed

text \<open>A list of nodes with what each stands for, and one step along a symbol.\<close>

definition full :: "(node_stats \<Rightarrow> u64) \<Rightarrow> stack_node \<times> weighted \<Rightarrow> bool" where
  "full g z \<longleftrightarrow> represents g (fst z) (snd z) \<and> snd z \<noteq> [] \<and> g (sn_stats (fst z)) = sat_sum (map snd (snd z))"

definition step_into :: "symbol_lookup \<Rightarrow> symbol_key \<Rightarrow> (stack_node \<times> weighted) list \<Rightarrow> (stack_node \<times> weighted) list" where
  "step_into lookup k zs = concat (map (\<lambda>z. map (\<lambda>e. (snd e, tails (fst e) (snd z)))
     (filter (\<lambda>e. symbol_key lookup (fst e) = k) (sn_children (fst z)))) zs)"

definition weights :: "(stack_node \<times> weighted) list \<Rightarrow> weighted" where
  "weights zs = concat (map snd zs)"

lemma step_into_nodes:
  "map fst (step_into lookup k zs) =
     map snd (filter (\<lambda>e. symbol_key lookup (fst e) = k) (all_children (map fst zs)))"
  by (induction zs) (simp_all add: step_into_def all_children_def)

lemma step_into_full:
  assumes "\<forall>z \<in> set zs. represents g (fst z) (snd z)" "z \<in> set (step_into lookup k zs)"
  shows "full g z"
proof -
  obtain y e where y: "y \<in> set zs" "e \<in> set (sn_children (fst y))" "z = (snd e, tails (fst e) (snd y))"
    using assms(2) by (auto simp: step_into_def)
  show ?thesis
    using represents_child [of g "fst y" "snd y" "fst e" "snd e"] assms(1) y by (simp add: full_def)
qed

lemma step_into_weights:
  assumes "\<forall>z \<in> set zs. represents g (fst z) (snd z)"
  shows "mset (weights (step_into lookup k zs)) = mset (map tl_path (filter (enters lookup k) (weights zs)))"
  using assms
proof (induction zs)
  case (Cons z zs)
  have "weights (step_into lookup k (z # zs)) =
      concat (map (\<lambda>e. tails (fst e) (snd z)) (filter (\<lambda>e. symbol_key lookup (fst e) = k) (sn_children (fst z)))) @
      weights (step_into lookup k zs)"
    by (simp add: step_into_def weights_def o_def)
  then show ?case
    using Cons mset_children_tails [of g "fst z" "snd z" lookup k] by (simp add: weights_def)
qed (simp add: step_into_def weights_def)

definition sym_prefix :: "symbol_lookup \<Rightarrow> symbol_key list \<Rightarrow> u64 list \<Rightarrow> bool" where
  "sym_prefix lookup ks p \<longleftrightarrow> prefix ks (map (symbol_key lookup) p)"

lemma sym_prefix_Nil [simp]: "sym_prefix lookup [] p"
  by (simp add: sym_prefix_def)

lemma sym_prefix_Cons: "sym_prefix lookup (k # ks) (fst x) \<longleftrightarrow> enters lookup k x \<and> sym_prefix lookup ks (tl (fst x))"
  by (cases "fst x") (auto simp: sym_prefix_def enters_def)

lemma step_into_prefix:
  assumes "\<forall>z \<in> set zs. represents g (fst z) (snd z)"
  shows "mset (map snd (filter (sym_prefix lookup ks \<circ> fst) (weights (step_into lookup k zs)))) =
    mset (map snd (filter (sym_prefix lookup (k # ks) \<circ> fst) (weights zs)))"
proof -
  have "mset (map snd (filter (sym_prefix lookup ks \<circ> fst) (weights (step_into lookup k zs)))) =
      image_mset snd (filter_mset (sym_prefix lookup ks \<circ> fst) (mset (weights (step_into lookup k zs))))"
    by (simp only: mset_map mset_filter)
  also have "\<dots> = mset (map snd (filter (sym_prefix lookup ks \<circ> fst) (map tl_path (filter (enters lookup k) (weights zs)))))"
    unfolding step_into_weights [OF assms] by (simp only: mset_map mset_filter)
  also have "map snd (filter (sym_prefix lookup ks \<circ> fst) (map tl_path (filter (enters lookup k) (weights zs)))) =
      map snd (filter (sym_prefix lookup (k # ks) \<circ> fst) (weights zs))"
    by (simp add: filter_map o_def sym_prefix_Cons conj_commute)
  finally show ?thesis .
qed

lemma mset_map_Nil: "mset (map f xs) = mset (map f ys) \<Longrightarrow> xs = [] \<longleftrightarrow> ys = []"
  by (cases xs; cases ys) simp_all

lemma sym_nodes_full:
  assumes "\<forall>z \<in> set zs. full g z"
  shows "sat_sum (map (g \<circ> sn_stats) (sym_nodes lookup ks (map fst zs))) =
      sat_sum (map snd (filter (sym_prefix lookup ks \<circ> fst) (weights zs))) \<and>
    (sym_nodes lookup ks (map fst zs) = [] \<longleftrightarrow> filter (sym_prefix lookup ks \<circ> fst) (weights zs) = [])"
  using assms
proof (induction ks arbitrary: zs)
  case Nil
  have "sat_sum (map (g \<circ> sn_stats \<circ> fst) zs) = sat_sum (map snd (weights zs))"
    using Nil by (induction zs) (simp_all add: weights_def full_def)
  moreover have "zs = [] \<longleftrightarrow> weights zs = []" using Nil by (cases zs) (auto simp: weights_def full_def)
  ultimately show ?case by (simp add: o_def)
next
  case (Cons k ks)
  have r: "\<forall>z \<in> set zs. represents g (fst z) (snd z)" using Cons.prems by (simp add: full_def)
  have IH: "sat_sum (map (g \<circ> sn_stats) (sym_nodes lookup (k # ks) (map fst zs))) =
      sat_sum (map snd (filter (sym_prefix lookup ks \<circ> fst) (weights (step_into lookup k zs)))) \<and>
    (sym_nodes lookup (k # ks) (map fst zs) = [] \<longleftrightarrow>
      filter (sym_prefix lookup ks \<circ> fst) (weights (step_into lookup k zs)) = [])"
    using Cons.IH [of "step_into lookup k zs"] step_into_full [OF r] by (simp add: step_into_nodes o_def)
  note p = step_into_prefix [OF r, of lookup ks k]
  have "filter (sym_prefix lookup ks \<circ> fst) (weights (step_into lookup k zs)) = [] \<longleftrightarrow>
      filter (sym_prefix lookup (k # ks) \<circ> fst) (weights zs) = []"
    by (rule mset_map_Nil [OF p])
  with IH sat_sum_mset [OF p] show ?case by (simp add: o_def)
qed

text \<open>The same from the root, whose own counters are not used.\<close>

lemma sym_nodes_root:
  assumes "represents g n xs" "ks \<noteq> []"
  shows "sat_sum (map (g \<circ> sn_stats) (sym_nodes lookup ks [n])) =
      sat_sum (map snd (filter (sym_prefix lookup ks \<circ> fst) xs)) \<and>
    (sym_nodes lookup ks [n] = [] \<longleftrightarrow> filter (sym_prefix lookup ks \<circ> fst) xs = [])"
proof -
  obtain k r where ks: "ks = k # r" using assms(2) by (cases ks) auto
  have rep: "\<forall>z \<in> set [(n, xs)]. represents g (fst z) (snd z)" using assms(1) by simp
  have nodes: "sym_nodes lookup ks [n] = sym_nodes lookup r (map fst (step_into lookup k [(n, xs)]))"
    using step_into_nodes [of lookup k "[(n, xs)]"] by (simp add: ks)
  note p = step_into_prefix [OF rep, of lookup r k]
  have w: "weights [(n, xs)] = xs" by (simp add: weights_def)
  have "filter (sym_prefix lookup r \<circ> fst) (weights (step_into lookup k [(n, xs)])) = [] \<longleftrightarrow>
      filter (sym_prefix lookup ks \<circ> fst) xs = []"
    unfolding ks by (rule mset_map_Nil [OF p [unfolded w]])
  then show ?thesis
    using sym_nodes_full [of "step_into lookup k [(n, xs)]" g lookup r] step_into_full [OF rep]
      sat_sum_mset [OF p] unfolding nodes by (simp add: w ks)
qed

section \<open>The view of a list of credited events\<close>

lemma represents_credits:
  assumes "\<And>c s. g (credit_stats c s) = sat_add (g s) (w c)" "g node_stats_zero = 0"
  shows "represents g (fst (apply_credits cs)) (map (\<lambda>c. (rev (credit_stack c), w c)) cs)"
proof -
  have "counts_at g q (fst (apply_credits cs)) (map (\<lambda>c. (rev (credit_stack c), w c)) cs)" if "q \<noteq> []" for q
  proof -
    have "filter (prefix q \<circ> fst) (map (\<lambda>c. (rev (credit_stack c), w c)) cs) =
        map (\<lambda>c. (rev (credit_stack c), w c)) (filter (on_path q) cs)"
      by (simp add: filter_map o_def)
    moreover have "g (fold credit_stats (filter (on_path q) cs) node_stats_zero) = sat_sum (map w (filter (on_path q) cs))"
      using fold_counter [of _ g credit_stats w node_stats_zero] assms by simp
    ultimately show ?thesis
      using that by (auto simp: counts_at_def stats_at_apply_credits o_def filter_empty_conv)
  qed
  then show ?thesis by (simp add: represents_def tree_wf_apply_credits)
qed

lemma sum_nodes_counter:
  assumes "\<And>a b. g (node_stats_add a b) = sat_add (g b) (g a)" "g node_stats_zero = 0"
  shows "g (sum_nodes ns) = sat_sum (map (g \<circ> sn_stats) ns)"
  unfolding sum_nodes_def using fold_counter [of ns g "\<lambda>n. node_stats_add (sn_stats n)" "g \<circ> sn_stats" node_stats_zero] assms
  by simp

lemma sum_nodes_credits:
  fixes g :: "node_stats \<Rightarrow> u64"
  assumes "\<And>c s. g (credit_stats c s) = sat_add (g s) (w c)" "g node_stats_zero = 0"
    "\<And>a b. g (node_stats_add a b) = sat_add (g b) (g a)" "ks \<noteq> []"
  shows "g (sum_nodes (sym_nodes lookup ks [fst (apply_credits cs)])) =
    sat_sum (map w (filter (\<lambda>c. sym_prefix lookup ks (rev (credit_stack c))) cs))"
proof -
  have "filter (sym_prefix lookup ks \<circ> fst) (map (\<lambda>c. (rev (credit_stack c), w c)) cs) =
      map (\<lambda>c. (rev (credit_stack c), w c)) (filter (\<lambda>c. sym_prefix lookup ks (rev (credit_stack c))) cs)"
    by (simp add: filter_map o_def)
  then show ?thesis
    using sym_nodes_root [OF represents_credits [of g w cs, OF assms(1,2)] assms(4), of lookup]
      sum_nodes_counter [of g, OF assms(3,2)]
    by (simp add: o_def)
qed

lemma sym_nodes_Nil_credits:
  assumes "ks \<noteq> []"
  shows "sym_nodes lookup ks [fst (apply_credits cs)] = [] \<longleftrightarrow>
    filter (\<lambda>c. sym_prefix lookup ks (rev (credit_stack c))) cs = []"
  using sym_nodes_root [OF represents_credits [of nd_on_cpu_ns on_ns cs] assms, of lookup]
  by (simp add: credit_stats_counters node_stats_zero_def filter_map o_def)

lemma node_stats_add_counters:
  "nd_on_cpu_ns (node_stats_add a b) = sat_add (nd_on_cpu_ns b) (nd_on_cpu_ns a)"
  "nd_pet_samples (node_stats_add a b) = sat_add (nd_pet_samples b) (nd_pet_samples a)"
  "nd_off_cpu_intervals (node_stats_add a b) = sat_add (nd_off_cpu_intervals b) (nd_off_cpu_intervals a)"
  "reason_ns r (nd_off_cpu (node_stats_add a b)) = sat_add (reason_ns r (nd_off_cpu b)) (reason_ns r (nd_off_cpu a))"
  by (simp_all add: node_stats_add_def reason_ns_breakdown_add sat_add_commute)

lemma build_children_cells:
  assumes "3 * node_count root \<le> 2 ^ 32" "build_children lookup [root] new_interner [] = (fs, it, cache)"
  shows "map_option fd_stats (cell_at (it_strings it) ks fs) = map_option nm_stats (named_at ks (named_children lookup [root]))"
proof -
  have "3 * below [root] + 0 \<le> (2 :: nat) ^ 32"
    using assms(1) count_all_children [of "[root]"] by (simp add: below_def)
  then have "table_ok (3 * below [root] + 0) new_interner"
    using new_interner_ok by (simp add: table_ok_def room_def) (simp add: new_interner_def)
  from build_children_encodes [OF _ this assms(2)] show ?thesis
    by (intro cell_at_encodes) (simp add: cache_ok_def)
qed


definition demo_credits :: "credit list" where
  "demo_credits = [CreditOn [10, 30] 15 demo_pmu, CreditOn [20, 30] 25 demo_pmu]"


section \<open>Folding recursion\<close>

text \<open>A frame of the same symbol as its parent: both are named, and alike.\<close>

definition same_symbol :: "flame_data \<Rightarrow> flame_data \<Rightarrow> bool" where
  "same_symbol a b \<longleftrightarrow> fd_function_name a \<noteq> None \<and> fd_function_name a = fd_function_name b \<and> fd_binary a = fd_binary b"

lemma symbol_eq_data: "symbol_eq a b \<longleftrightarrow> same_symbol (fl_data a) (fl_data b)"
  by (simp add: symbol_eq_def same_symbol_def)

primrec no_repeat :: "flame_node \<Rightarrow> bool" where
  "no_repeat (FlameNode d cs) \<longleftrightarrow> list_all (\<lambda>c. \<not> same_symbol (fl_data c) d) cs \<and> list_all id (map no_repeat cs)"

primrec all_data :: "flame_node \<Rightarrow> flame_data list" where
  "all_data (FlameNode d cs) = d # concat (map all_data cs)"

lemma all_data_eq: "all_data n = fl_data n # concat (map all_data (fl_children n))"
  by (cases n) simp

lemma splice_recursive_other:
  assumes "i \<le> length cs" "\<forall>c \<in> set (take i cs). \<not> symbol_eq c node"
  shows "\<forall>c \<in> set (splice_recursive node i cs). \<not> symbol_eq c node"
  using assms
proof (induction node i cs rule: splice_recursive.induct)
  case (1 node i cs)
  consider "i = length cs" | "i < length cs" "symbol_eq (cs ! i) node" | "i < length cs" "\<not> symbol_eq (cs ! i) node"
    using "1.prems"(1) by linarith
  then show ?case
  proof cases
    case 1
    then have "splice_recursive node i cs = cs" by (subst splice_recursive.simps) simp
    then show ?thesis using 1 "1.prems"(2) by simp
  next
    case 2
    let ?cs = "take i cs @ fl_children (cs ! i) @ drop (Suc i) cs"
    have eq: "splice_recursive node i cs = splice_recursive node i ?cs"
      using 2 by (subst splice_recursive.simps) simp
    have t: "take i ?cs = take i cs" and l: "i \<le> length ?cs" using 2 by auto
    show ?thesis
      unfolding eq by (rule "1.IH"(1) [OF 2 l]) (use "1.prems"(2) in \<open>simp only: t\<close>)
  next
    case 3
    have eq: "splice_recursive node i cs = splice_recursive node (i + 1) cs"
      using 3 by (subst splice_recursive.simps) simp
    show ?thesis
      unfolding eq using "1.IH"(2) [OF 3] "1.prems"(2) 3 by (simp add: take_Suc_conv_app_nth)
  qed
qed

text \<open>The spliced frames are those of the node's own symbol; everything else stays, in number and value.\<close>

lemma splice_recursive_data:
  "\<exists>dropped. mset (concat (map all_data cs)) = mset (concat (map all_data (splice_recursive node i cs))) + dropped \<and>
     (\<forall>d \<in># dropped. same_symbol d (fl_data node))"
proof (induction node i cs rule: splice_recursive.induct)
  case (1 node i cs)
  show ?case
  proof (cases "i < length cs")
    case False
    then show ?thesis by (intro exI [of _ "{#}"]) (simp add: splice_recursive.simps [of node i cs])
  next
    case i: True
    show ?thesis
    proof (cases "symbol_eq (cs ! i) node")
      case False
      then show ?thesis using "1.IH"(2) [OF i] i by (simp add: splice_recursive.simps [of node i cs])
    next
      case True
      let ?cs = "take i cs @ fl_children (cs ! i) @ drop (Suc i) cs"
      obtain dropped where d: "mset (concat (map all_data ?cs)) = mset (concat (map all_data (splice_recursive node i ?cs))) + dropped"
        "\<forall>d \<in># dropped. same_symbol d (fl_data node)" using "1.IH"(1) [OF i True] by blast
      have cs: "cs = take i cs @ cs ! i # drop (Suc i) cs" using i by (simp add: id_take_nth_drop)
      have "mset (concat (map all_data cs)) = mset (concat (map all_data ?cs)) + {#fl_data (cs ! i)#}"
        by (subst cs) (simp add: all_data_eq [of "cs ! i"])
      then have "mset (concat (map all_data cs)) =
          mset (concat (map all_data (splice_recursive node i cs))) + (dropped + {#fl_data (cs ! i)#})"
        using d(1) i True by (simp add: splice_recursive.simps [of node i cs] ac_simps)
      moreover have "\<forall>d \<in># dropped + {#fl_data (cs ! i)#}. same_symbol d (fl_data node)"
        using d(2) True by (simp add: symbol_eq_data)
      ultimately show ?thesis by blast
    qed
  qed
qed

lemma fl_data_fold [simp]: "fl_data (fold_recursion n) = fl_data n"
  by (subst fold_recursion.simps) simp

text \<open>
  After folding, no frame of the flame graph has the symbol of its parent. Folding only
  removes frames: every frame that is left has the counters it had, no frame without a symbol
  is removed, and the root keeps its data.
\<close>

theorem fold_recursion_no_repeat:
  "no_repeat (fold_recursion n) \<and> fl_data (fold_recursion n) = fl_data n \<and>
   mset (all_data (fold_recursion n)) \<subseteq># mset (all_data n) \<and>
   filter_mset (\<lambda>d. fd_function_name d = None) (mset (all_data (fold_recursion n))) =
     filter_mset (\<lambda>d. fd_function_name d = None) (mset (all_data n))"
proof (induction n rule: fold_recursion.induct)
  case (1 n)
  let ?cs = "splice_recursive n 0 (fl_children n)"
  let ?un = "filter_mset (\<lambda>d. fd_function_name d = None)"
  have f: "fold_recursion n = FlameNode (fl_data n) (map fold_recursion ?cs)"
    by (subst fold_recursion.simps) simp
  have "\<forall>c \<in> set ?cs. \<not> same_symbol (fl_data c) (fl_data n)"
    using splice_recursive_other [of 0 "fl_children n" n] by (simp add: symbol_eq_data)
  then have nr: "no_repeat (fold_recursion n)" using "1.IH" by (simp add: f list_all_iff)
  have sub: "mset (concat (map all_data (map fold_recursion xs))) \<subseteq># mset (concat (map all_data xs)) \<and>
      ?un (mset (concat (map all_data (map fold_recursion xs)))) = ?un (mset (concat (map all_data xs)))"
    if "set xs \<subseteq> set ?cs" for xs
    using that "1.IH" by (induction xs) (auto intro: subset_mset.add_mono)
  obtain dropped where d: "mset (concat (map all_data (fl_children n))) = mset (concat (map all_data ?cs)) + dropped"
    "\<forall>d \<in># dropped. same_symbol d (fl_data n)" using splice_recursive_data [of "fl_children n" n 0] by blast
  have "?un dropped = filter_mset (\<lambda>d. False) dropped"
    using d(2) by (intro filter_mset_cong) (auto simp: same_symbol_def)
  then show ?case
    using nr sub [OF order.refl] d(1)
    by (simp add: f all_data_eq [of n] subset_mset.add_increasing2)
qed

end
