(* ===== verification/Neighbors.thy ===== *)
theory Neighbors
  imports FlameExact
begin

text \<open>
  The family tree of a symbol (\<open>compute_neighbors_update\<close> in \<open>stax-live/src/lib.rs\<close>): one walk
  over the call tree merges, for every node of the target symbol, its ancestors into a tree of
  callers and its descendants into a tree of callees, both keyed by symbol.
\<close>

section \<open>Symbol nodes\<close>

record symbol_data =
  sy_on_cpu_ns :: u64
  sy_off_cpu :: off_cpu_breakdown
  sy_pet_samples :: u64
  sy_off_cpu_intervals :: u64
  sy_rep_address :: u64
  sy_rep_self_ns :: u64
  sy_is_main :: bool
  sy_language :: language

datatype symbol_node = SymbolNode (sy_data: symbol_data) (sy_children: "(symbol_key \<times> symbol_node) list")

definition default_data :: symbol_data where
  "default_data = \<lparr>sy_on_cpu_ns = 0, sy_off_cpu = breakdown_zero, sy_pet_samples = 0, sy_off_cpu_intervals = 0,
     sy_rep_address = 0, sy_rep_self_ns = 0, sy_is_main = False, sy_language = Unknown\<rparr>"

definition default_symbol_node :: symbol_node where
  "default_symbol_node = SymbolNode default_data []"

definition accumulate :: "u64 \<Rightarrow> stack_node \<Rightarrow> bool \<Rightarrow> language \<Rightarrow> symbol_data \<Rightarrow> symbol_data" where
  "accumulate addr src is_main lang d =
     (let d1 = d\<lparr>sy_on_cpu_ns := sat_add (sy_on_cpu_ns d) (nd_on_cpu_ns (sn_stats src)),
                 sy_off_cpu := breakdown_add (nd_off_cpu (sn_stats src)) (sy_off_cpu d),
                 sy_pet_samples := sat_add (sy_pet_samples d) (nd_pet_samples (sn_stats src)),
                 sy_off_cpu_intervals := sat_add (sy_off_cpu_intervals d) (nd_off_cpu_intervals (sn_stats src))\<rparr>;
          candidate = nd_on_cpu_ns (sn_stats src) in
      if sy_rep_self_ns d1 < candidate
      then d1\<lparr>sy_rep_address := addr, sy_rep_self_ns := candidate, sy_is_main := is_main, sy_language := lang\<rparr>
      else d1)"

definition accumulate_at :: "symbol_lookup \<Rightarrow> u64 \<Rightarrow> stack_node \<Rightarrow> symbol_node \<Rightarrow> symbol_node" where
  "accumulate_at lookup addr src n =
     (let (_, is_main, lang) = symbol_of (lookup addr) in
      SymbolNode (accumulate addr src is_main lang (sy_data n)) (sy_children n))"

fun merge_descendants :: "symbol_lookup \<Rightarrow> stack_node \<Rightarrow> symbol_node \<Rightarrow> symbol_node" where
  "merge_descendants lookup (StackNode s cs) dst =
     fold (\<lambda>(caddr, child) dst. SymbolNode (sy_data dst)
       (hm_entry (fst (symbol_of (lookup caddr))) default_symbol_node
         (\<lambda>entry. merge_descendants lookup child (accumulate_at lookup caddr child entry)) (sy_children dst))) cs dst"

text \<open>The chain of ancestors, innermost first, below the node \<open>cur\<close>.\<close>

primrec insert_callers :: "symbol_lookup \<Rightarrow> stack_node \<Rightarrow> u64 list \<Rightarrow> symbol_node \<Rightarrow> symbol_node" where
  "insert_callers lookup node [] cur = cur"
| "insert_callers lookup node (caller_addr # rest) cur =
     SymbolNode (sy_data cur) (hm_entry (fst (symbol_of (lookup caller_addr))) default_symbol_node
       (\<lambda>entry. insert_callers lookup node rest (accumulate_at lookup caller_addr node entry)) (sy_children cur))"

record walk_state =
  ws_callers :: symbol_node
  ws_callees :: symbol_node
  ws_own :: symbol_node

definition visit_target :: "symbol_lookup \<Rightarrow> stack_node \<Rightarrow> u64 \<Rightarrow> u64 list \<Rightarrow> walk_state \<Rightarrow> walk_state" where
  "visit_target lookup node node_addr ancestors st =
     \<lparr>ws_callers = insert_callers lookup node (rev ancestors) (ws_callers st),
      ws_callees = merge_descendants lookup node (ws_callees st),
      ws_own = accumulate_at lookup node_addr node (ws_own st)\<rparr>"

fun walk :: "symbol_lookup \<Rightarrow> symbol_key \<Rightarrow> stack_node \<Rightarrow> u64 \<Rightarrow> u64 list \<Rightarrow> walk_state \<Rightarrow> walk_state" where
  "walk lookup target_key (StackNode s cs) node_addr ancestors st =
     (let st1 = (if node_addr \<noteq> 0 \<and> fst (symbol_of (lookup node_addr)) = target_key
                 then visit_target lookup (StackNode s cs) node_addr ancestors st else st);
          ancestors' = (if node_addr \<noteq> 0 then ancestors @ [node_addr] else ancestors) in
      fold (\<lambda>(caddr, child). walk lookup target_key child caddr ancestors') cs st1)"

section \<open>The update\<close>

definition symbol_total :: "symbol_data \<Rightarrow> u64" where
  "symbol_total d = sat_add (sy_on_cpu_ns d) (total_ns (sy_off_cpu d))"

definition by_symbol :: "symbol_key \<times> symbol_node \<Rightarrow> symbol_key \<times> symbol_node \<Rightarrow> ordering" where
  "by_symbol a b =
     then_with (then_with (cmp (symbol_total (sy_data (snd b))) (symbol_total (sy_data (snd a))))
       (cmp (fst (fst a)) (fst (fst b)))) (cmp (snd (fst a)) (snd (fst b)))"

primrec symbol_count :: "symbol_node \<Rightarrow> nat" where
  "symbol_count (SymbolNode d cs) = Suc (sum_list (map snd (map (map_prod id symbol_count) cs)))"

lemma symbol_count_child: "e \<in> set (sy_children sn) \<Longrightarrow> symbol_count (snd e) < symbol_count sn"
  using member_le_sum_list [of e "sy_children sn" "symbol_count \<circ> snd"] by (cases sn) (simp add: o_def)

definition symbol_entry ::
  "symbol_data \<Rightarrow> symbol_key \<Rightarrow> flame_node list \<Rightarrow> interner \<Rightarrow> flame_node \<times> interner" where
  "symbol_entry d key child_nodes it =
     (let (f, it1) = intern_opt (fst key) it;
          (b, it2) = intern_opt (snd key) it1;
          (l, it3) = intern_str (as_str (sy_language d)) it2 in
      (FlameNode \<lparr>fd_address = sy_rep_address d, fd_function_name = f, fd_binary = b, fd_is_main = sy_is_main d,
         fd_language = l, fd_stats = \<lparr>nd_on_cpu_ns = sy_on_cpu_ns d, nd_off_cpu = sy_off_cpu d,
           nd_pet_samples = sy_pet_samples d, nd_off_cpu_intervals = sy_off_cpu_intervals d,
           nd_pmc = pmc_zero\<rparr>\<rparr> child_nodes, it3))"

function to_flame_node :: "u64 \<Rightarrow> symbol_key \<Rightarrow> symbol_node \<Rightarrow> interner \<Rightarrow> flame_node \<times> interner" where
  "to_flame_node threshold key sn it =
     (let entries = sort_by by_symbol (filter (\<lambda>e. threshold \<le> symbol_total (sy_data (snd e))) (sy_children sn));
          (child_nodes, it1) = fold (\<lambda>e (nodes, it).
             let (node, it') = to_flame_node threshold (fst e) (snd e) it in (nodes @ [node], it')) entries ([], it) in
      symbol_entry (sy_data sn) key child_nodes it1)"
  by pat_completeness auto
termination
  by (relation "measure (\<lambda>(_, _, sn, _). symbol_count sn)") (auto dest: symbol_count_child)

declare to_flame_node.simps [simp del]

record neighbors_update =
  nb_strings :: "string list"
  nb_function_name :: "u32 option"
  nb_binary :: "u32 option"
  nb_is_main :: bool
  nb_language :: u32
  nb_own :: symbol_data
  nb_callers_tree :: flame_node
  nb_callees_tree :: flame_node

text \<open>The roots of both trees carry the counters of the target itself.\<close>

definition stamp :: "symbol_data \<Rightarrow> u64 \<Rightarrow> bool \<Rightarrow> language \<Rightarrow> symbol_node \<Rightarrow> symbol_node" where
  "stamp own target_address is_main lang n =
     SymbolNode ((sy_data n)\<lparr>sy_on_cpu_ns := sy_on_cpu_ns own, sy_off_cpu := sy_off_cpu own,
       sy_pet_samples := sy_pet_samples own, sy_off_cpu_intervals := sy_off_cpu_intervals own,
       sy_rep_address := target_address, sy_is_main := is_main, sy_language := lang\<rparr>) (sy_children n)"

definition walk_from_root :: "symbol_lookup \<Rightarrow> symbol_key \<Rightarrow> stack_node \<Rightarrow> walk_state" where
  "walk_from_root lookup target_key flame_root = walk lookup target_key flame_root 0 []
     \<lparr>ws_callers = default_symbol_node, ws_callees = default_symbol_node, ws_own = default_symbol_node\<rparr>"

definition compute_neighbors_update :: "stack_node \<Rightarrow> symbol_lookup \<Rightarrow> u64 \<Rightarrow> neighbors_update" where
  "compute_neighbors_update flame_root lookup target_address =
     (let (target_key, is_main, lang) = symbol_of (lookup target_address);
          st = walk_from_root lookup target_key flame_root;
          own = sy_data (ws_own st);
          callers = stamp own target_address is_main lang (ws_callers st);
          callees = stamp own target_address is_main lang (ws_callees st);
          threshold = max (symbol_total own div 2000) 1;
          (target_fname, it1) = intern_opt (fst target_key) new_interner;
          (target_bin, it2) = intern_opt (snd target_key) it1;
          (target_lang, it3) = intern_str (as_str lang) it2;
          (callers_tree, it4) = to_flame_node threshold target_key callers it3;
          (callees_tree, it5) = to_flame_node threshold target_key callees it4 in
      \<lparr>nb_strings = into_strings it5, nb_function_name = target_fname, nb_binary = target_bin,
       nb_is_main = is_main, nb_language = target_lang, nb_own = own,
       nb_callers_tree = callers_tree, nb_callees_tree = callees_tree\<rparr>)"

definition neighbors :: "aggregator \<Rightarrow> symbol_lookup \<Rightarrow> u64 \<Rightarrow> u32 option \<Rightarrow> live_filter \<Rightarrow> neighbors_update" where
  "neighbors ag lookup address tid filt =
     compute_neighbors_update (agn_flame_root (aggregate_with_filter ag lookup tid filt)) lookup address"

section \<open>Occurrences of the target\<close>

text \<open>The nodes of the target symbol in walk order, each with its ancestors, outermost first.\<close>

fun occurrences :: "symbol_lookup \<Rightarrow> symbol_key \<Rightarrow> stack_node \<Rightarrow> u64 \<Rightarrow> u64 list \<Rightarrow> (u64 list \<times> u64 \<times> stack_node) list" where
  "occurrences lookup target_key (StackNode s cs) node_addr ancestors =
     (if node_addr \<noteq> 0 \<and> symbol_key lookup node_addr = target_key
      then [(ancestors, node_addr, StackNode s cs)] else []) @
     concat (map (\<lambda>(caddr, child). occurrences lookup target_key child caddr
       (if node_addr \<noteq> 0 then ancestors @ [node_addr] else ancestors)) cs)"

lemma fold_concat_map: "fold f (concat (map g xs)) st = fold (\<lambda>x. fold f (g x)) xs st"
  by (induction xs arbitrary: st) simp_all

lemma walk_occurrences:
  "walk lookup tk n node_addr ancestors st =
     fold (\<lambda>(anc, addr, node). visit_target lookup node addr anc) (occurrences lookup tk n node_addr ancestors) st"
proof (induction lookup tk n node_addr ancestors st rule: walk.induct)
  case (1 lookup tk s cs node_addr ancestors st)
  let ?anc = "if node_addr \<noteq> 0 then ancestors @ [node_addr] else ancestors"
  have "fold (\<lambda>(caddr, child). walk lookup tk child caddr ?anc) xs st' =
      fold (\<lambda>(anc, addr, node). visit_target lookup node addr anc)
        (concat (map (\<lambda>(caddr, child). occurrences lookup tk child caddr ?anc) xs)) st'"
    if "set xs \<subseteq> set cs" for xs st'
    using that
  proof (induction xs arbitrary: st')
    case (Cons x xs)
    obtain a c where x: "x = (a, c)" by force
    have mem: "(a, c) \<in> set cs" using Cons.prems x by simp
    have "walk lookup tk c a ?anc st' =
        fold (\<lambda>(anc, addr, node). visit_target lookup node addr anc) (occurrences lookup tk c a ?anc) st'"
      by (rule "1.IH" [OF refl refl mem refl])
    then show ?case using Cons x by simp
  qed simp
  from this [of cs] show ?case
    by (simp add: Let_def fst_symbol_of del: occurrences.simps) (simp add: fst_symbol_of)
qed

lemma visit_fields:
  "ws_callers (visit_target lookup node addr anc st) = insert_callers lookup node (rev anc) (ws_callers st)"
  "ws_callees (visit_target lookup node addr anc st) = merge_descendants lookup node (ws_callees st)"
  "ws_own (visit_target lookup node addr anc st) = accumulate_at lookup addr node (ws_own st)"
  by (simp_all add: visit_target_def)

section \<open>Counters of symbol trees\<close>

lemma sym_nodes_append: "sym_nodes lookup ks (xs @ ys) = sym_nodes lookup ks xs @ sym_nodes lookup ks ys"
  by (induction ks arbitrary: xs ys) (simp_all add: all_children_def)

primrec node_at_symbols :: "symbol_key list \<Rightarrow> symbol_node \<Rightarrow> symbol_node option" where
  "node_at_symbols [] n = Some n"
| "node_at_symbols (k # ks) n =
     (case map_of (sy_children n) k of None \<Rightarrow> None | Some c \<Rightarrow> node_at_symbols ks c)"

definition counter_at :: "(symbol_data \<Rightarrow> u64) \<Rightarrow> symbol_key list \<Rightarrow> symbol_node \<Rightarrow> u64" where
  "counter_at g ks n = (case node_at_symbols ks n of None \<Rightarrow> 0 | Some c \<Rightarrow> g (sy_data c))"

text \<open>
  A counter of symbol nodes \<open>g\<close> and the counter of call-tree nodes \<open>h\<close> it adds up;
  \<open>grows\<close> says what a tree gained: at each path of symbols, the nodes listed there.
\<close>

locale symbol_counter =
  fixes g :: "symbol_data \<Rightarrow> u64" and h :: "node_stats \<Rightarrow> u64"
  assumes g_accumulate: "g (accumulate addr src m l d) = sat_add (g d) (h (sn_stats src))"
    and g_default: "g default_data = 0"
begin

definition grows :: "(symbol_key list \<Rightarrow> stack_node list) \<Rightarrow> symbol_node \<Rightarrow> symbol_node \<Rightarrow> bool" where
  "grows gain n n' \<longleftrightarrow> sy_data n' = sy_data n \<and> (\<forall>ks. ks \<noteq> [] \<longrightarrow>
     counter_at g ks n' = sat_add (counter_at g ks n) (sat_sum (map (h \<circ> sn_stats) (gain ks))) \<and>
     (node_at_symbols ks n' \<noteq> None \<longleftrightarrow> node_at_symbols ks n \<noteq> None \<or> gain ks \<noteq> []))"

lemma grows_refl: "grows (\<lambda>_. []) n n"
  by (simp add: grows_def)

lemma grows_trans: "grows p a b \<Longrightarrow> grows q b c \<Longrightarrow> grows (\<lambda>ks. p ks @ q ks) a c"
  by (auto simp: grows_def sat_add_assoc)

text \<open>One entry below a node: its own counters, then what is inserted below it.\<close>

lemma grows_entry:
  assumes "\<And>e. grows gain (accumulate_at lookup a src e) (f (accumulate_at lookup a src e))"
  shows "grows (\<lambda>ks. if hd ks = k then (if tl ks = [] then [src] else gain (tl ks)) else []) n
     (SymbolNode (sy_data n) (hm_entry k default_symbol_node (\<lambda>e. f (accumulate_at lookup a src e)) (sy_children n)))"
proof -
  let ?n' = "SymbolNode (sy_data n) (hm_entry k default_symbol_node (\<lambda>e. f (accumulate_at lookup a src e)) (sy_children n))"
  let ?e = "or_default (map_of (sy_children n) k) default_symbol_node"
  let ?acc = "accumulate_at lookup a src ?e"
  have acc: "sy_children ?acc = sy_children ?e" "g (sy_data ?acc) = sat_add (g (sy_data ?e)) (h (sn_stats src))"
    by (simp_all add: accumulate_at_def g_accumulate split: prod.split)
  have same: "node_at_symbols ks ?acc = node_at_symbols ks ?e" if "ks \<noteq> []" for ks
    using that acc(1) by (cases ks) simp_all
  have none: "node_at_symbols ks default_symbol_node = None" if "ks \<noteq> []" for ks
    using that by (cases ks) (simp_all add: default_symbol_node_def)
  have old: "node_at_symbols (k # ks) n = None \<and> node_at_symbols ks ?e = (if ks = [] then Some default_symbol_node else None) \<or>
      node_at_symbols (k # ks) n = node_at_symbols ks ?e" for ks
    using none by (cases "map_of (sy_children n) k") auto
  have g0: "g (sy_data default_symbol_node) = 0" by (simp add: default_symbol_node_def g_default)
  have "counter_at g (k' # ks) ?n' = sat_add (counter_at g (k' # ks) n) (sat_sum (map (h \<circ> sn_stats) (if k' = k then (if ks = [] then [src] else gain ks) else []))) \<and>
     (node_at_symbols (k' # ks) ?n' \<noteq> None \<longleftrightarrow> node_at_symbols (k' # ks) n \<noteq> None \<or>
        (if k' = k then (if ks = [] then [src] else gain ks) else []) \<noteq> [])" for k' ks
  proof (cases "k' = k")
    case False
    then show ?thesis by (simp add: counter_at_def hm_simps)
  next
    case True
    have new: "node_at_symbols (k # ks) ?n' = node_at_symbols ks (f ?acc)" by (simp add: hm_simps)
    show ?thesis
    proof (cases "ks = []")
      case nil: True
      have "sy_data (f ?acc) = sy_data ?acc" using assms by (simp add: grows_def)
      then show ?thesis using True nil new old [of ks] acc(2) g0 by (auto simp: counter_at_def)
    next
      case False
      then have "counter_at g ks (f ?acc) = sat_add (counter_at g ks ?e) (sat_sum (map (h \<circ> sn_stats) (gain ks)))"
        "node_at_symbols ks (f ?acc) \<noteq> None \<longleftrightarrow> node_at_symbols ks ?e \<noteq> None \<or> gain ks \<noteq> []"
        using assms [of ?e] same by (simp_all add: grows_def counter_at_def)
      then show ?thesis using True False new old [of ks] by (auto simp: counter_at_def)
    qed
  qed
  note this
  then show ?thesis unfolding grows_def by (metis list.collapse symbol_node.sel(1))
qed

text \<open>What the descendants of a call-tree node add below a symbol node.\<close>

lemma grows_merge:
  "grows (\<lambda>ks. sym_nodes lookup ks [src]) dst (merge_descendants lookup src dst)"
proof (induction lookup src dst rule: merge_descendants.induct)
  case (1 lookup s cs dst)
  let ?put = "\<lambda>(caddr, child) dst. SymbolNode (sy_data dst)
       (hm_entry (fst (symbol_of (lookup caddr))) default_symbol_node
         (\<lambda>entry. merge_descendants lookup child (accumulate_at lookup caddr child entry)) (sy_children dst))"
  let ?gain = "\<lambda>xs ks. sym_nodes lookup (tl ks) (map snd (filter (\<lambda>e. symbol_key lookup (fst e) = hd ks) xs))"
  have all: "grows (?gain xs) dst (fold ?put xs dst)" if "set xs \<subseteq> set cs" for xs
    using that
  proof (induction xs rule: rev_induct)
    case Nil
    then show ?case by (simp add: grows_refl)
  next
    case (snoc x xs)
    obtain a c where x: "x = (a, c)" by force
    have mem: "(a, c) \<in> set cs" using snoc.prems x by simp
    have IH: "grows (\<lambda>ks. sym_nodes lookup ks [c]) (accumulate_at lookup a c e)
        (merge_descendants lookup c (accumulate_at lookup a c e))" for e
      using "1.IH" [OF mem refl] .
    note one = grows_entry [OF IH, of "symbol_key lookup a" "fold ?put xs dst"]
    have rest: "grows (?gain xs) dst (fold ?put xs dst)" using snoc by simp
    have "?gain (xs @ [x]) ks = ?gain xs ks @
        (if hd ks = symbol_key lookup a then (if tl ks = [] then [c] else sym_nodes lookup (tl ks) [c]) else [])" for ks
      using sym_nodes_append [of lookup "tl ks"] by (simp add: x)
    then show ?case using grows_trans [OF rest one] by (simp add: x fst_symbol_of)
  qed
  have "?gain cs ks = sym_nodes lookup ks [StackNode s cs]" if "ks \<noteq> []" for ks
    using that by (cases ks) (simp_all add: all_children_def)
  then show ?case using all [OF order.refl] by (simp add: grows_def)
qed

lemma grows_insert:
  "grows (\<lambda>ks. if sym_prefix lookup ks callers then [node] else []) cur (insert_callers lookup node callers cur)"
proof (induction callers arbitrary: cur)
  case Nil
  have "sym_prefix lookup ks [] \<longleftrightarrow> ks = []" for ks by (simp add: sym_prefix_def)
  then show ?case by (simp add: grows_def)
next
  case (Cons a rest)
  note one = grows_entry [where k = "symbol_key lookup a" and n = cur, OF Cons.IH]
  have "(if hd ks = symbol_key lookup a then if tl ks = [] then [node] else
        if sym_prefix lookup (tl ks) rest then [node] else [] else []) =
      (if sym_prefix lookup ks (a # rest) then [node] else [])" if "ks \<noteq> []" for ks
    using that by (cases ks) (auto simp: sym_prefix_def)
  then show ?case using one by (simp add: fst_symbol_of grows_def)
qed

text \<open>All occurrences together.\<close>

lemma grows_callees:
  "grows (\<lambda>ks. concat (map (\<lambda>(anc, addr, node). sym_nodes lookup ks [node]) occ)) (ws_callees st)
     (ws_callees (fold (\<lambda>(anc, addr, node). visit_target lookup node addr anc) occ st))"
proof (induction occ rule: rev_induct)
  case Nil
  then show ?case by (simp add: grows_refl)
next
  case (snoc x occ)
  obtain anc addr node where x: "x = (anc, addr, node)" by (metis prod_cases3)
  show ?case using grows_trans [OF snoc.IH grows_merge, of lookup node] by (simp add: x visit_fields)
qed

lemma grows_callers:
  "grows (\<lambda>ks. map (snd \<circ> snd) (filter (\<lambda>x. sym_prefix lookup ks (rev (fst x))) occ)) (ws_callers st)
     (ws_callers (fold (\<lambda>(anc, addr, node). visit_target lookup node addr anc) occ st))"
proof (induction occ rule: rev_induct)
  case Nil
  then show ?case by (simp add: grows_refl)
next
  case (snoc x occ)
  obtain anc addr node where x: "x = (anc, addr, node)" by (metis prod_cases3)
  let ?one = "\<lambda>ks. if sym_prefix lookup ks (rev anc) then [node] else []"
  let ?gain = "\<lambda>xs ks. map (snd \<circ> snd) (filter (\<lambda>x. sym_prefix lookup ks (rev (fst x))) xs)"
  have "?gain (occ @ [x]) ks = ?gain occ ks @ ?one ks" for ks by (simp add: x)
  then have gain: "?gain (occ @ [x]) = (\<lambda>ks. ?gain occ ks @ ?one ks)" by blast
  have step: "ws_callers (fold (\<lambda>(anc, addr, node). visit_target lookup node addr anc) (occ @ [x]) st) =
      insert_callers lookup node (rev anc)
        (ws_callers (fold (\<lambda>(anc, addr, node). visit_target lookup node addr anc) occ st))"
    by (simp add: x visit_fields)
  show ?case unfolding gain step by (rule grows_trans [OF snoc.IH grows_insert])
qed

lemma own_visits:
  "g (sy_data (ws_own (fold (\<lambda>(anc, addr, node). visit_target lookup node addr anc) occ st))) =
     sat_add (g (sy_data (ws_own st))) (sat_sum (map (h \<circ> sn_stats \<circ> snd \<circ> snd) occ))"
proof (induction occ rule: rev_induct)
  case (snoc x occ)
  obtain anc addr node where x: "x = (anc, addr, node)" by (metis prod_cases3)
  have "g (sy_data (accumulate_at lookup addr node n)) = sat_add (g (sy_data n)) (h (sn_stats node))" for n
    by (simp add: accumulate_at_def g_accumulate split: prod.split)
  then show ?case using snoc.IH by (simp add: x visit_fields sat_add_assoc)
qed simp

lemma counter_counter_at_default: "ks \<noteq> [] \<Longrightarrow> counter_at g ks default_symbol_node = 0"
  by (cases ks) (simp_all add: counter_at_def default_symbol_node_def)

lemma walk_counts:
  fixes lookup :: symbol_lookup and target_key :: symbol_key and root :: stack_node
  defines "occ \<equiv> occurrences lookup target_key root 0 []"
    and "st \<equiv> walk_from_root lookup target_key root"
  shows walk_own: "g (sy_data (ws_own st)) = sat_sum (map (h \<circ> sn_stats \<circ> snd \<circ> snd) occ)"
    and walk_callees: "ks \<noteq> [] \<Longrightarrow> counter_at g ks (ws_callees st) =
      sat_sum (map (h \<circ> sn_stats) (concat (map (\<lambda>(anc, addr, node). sym_nodes lookup ks [node]) occ)))"
    and walk_callers: "ks \<noteq> [] \<Longrightarrow> counter_at g ks (ws_callers st) =
      sat_sum (map (h \<circ> sn_stats \<circ> snd \<circ> snd) (filter (\<lambda>x. sym_prefix lookup ks (rev (fst x))) occ))"
proof -
  let ?st0 = "\<lparr>ws_callers = default_symbol_node, ws_callees = default_symbol_node, ws_own = default_symbol_node\<rparr>"
  have st: "st = fold (\<lambda>(anc, addr, node). visit_target lookup node addr anc) occ ?st0"
    unfolding st_def occ_def walk_from_root_def by (rule walk_occurrences)
  show "g (sy_data (ws_own st)) = sat_sum (map (h \<circ> sn_stats \<circ> snd \<circ> snd) occ)"
    unfolding st own_visits by (simp add: default_symbol_node_def g_default)
  show "ks \<noteq> [] \<Longrightarrow> counter_at g ks (ws_callees st) =
      sat_sum (map (h \<circ> sn_stats) (concat (map (\<lambda>(anc, addr, node). sym_nodes lookup ks [node]) occ)))"
    using grows_callees [of lookup occ ?st0] unfolding st grows_def by (simp add: counter_counter_at_default)
  show "ks \<noteq> [] \<Longrightarrow> counter_at g ks (ws_callers st) =
      sat_sum (map (h \<circ> sn_stats \<circ> snd \<circ> snd) (filter (\<lambda>x. sym_prefix lookup ks (rev (fst x))) occ))"
    using grows_callers [of lookup occ ?st0] unfolding st grows_def by (simp add: counter_counter_at_default o_assoc)
qed

end

interpretation on_cpu: symbol_counter sy_on_cpu_ns nd_on_cpu_ns
  by unfold_locales (simp_all add: accumulate_def default_data_def Let_def)

interpretation pet_samples: symbol_counter sy_pet_samples nd_pet_samples
  by unfold_locales (simp_all add: accumulate_def default_data_def Let_def)

interpretation off_cpu_intervals: symbol_counter sy_off_cpu_intervals nd_off_cpu_intervals
  by unfold_locales (simp_all add: accumulate_def default_data_def Let_def)

interpretation off_cpu_reason: symbol_counter "\<lambda>d. reason_ns r (sy_off_cpu d)" "\<lambda>s. reason_ns r (nd_off_cpu s)" for r
  by unfold_locales (simp_all add: accumulate_def default_data_def Let_def reason_ns_breakdown_add)

text \<open>The counters of a symbol node that add up a counter of call-tree nodes.\<close>

definition summed_counters :: "((symbol_data \<Rightarrow> u64) \<times> (node_stats \<Rightarrow> u64)) set" where
  "summed_counters = {(sy_on_cpu_ns, nd_on_cpu_ns), (sy_pet_samples, nd_pet_samples),
     (sy_off_cpu_intervals, nd_off_cpu_intervals)} \<union>
     range (\<lambda>r. (\<lambda>d. reason_ns r (sy_off_cpu d), \<lambda>s. reason_ns r (nd_off_cpu s)))"

text \<open>
  C19: the family tree of a symbol is exact. For each summed counter, the target's own value is the
  saturating sum over the call-tree nodes of the target symbol; the callee tree shows, at a path of
  symbols, the sum over the nodes reached from those by that path; the caller tree shows, at a path
  of symbols read outwards, the sum over the nodes of the target whose ancestors carry it.\<close>

theorem neighbors_exact:
  assumes "(g, h) \<in> summed_counters" "ks \<noteq> []"
  shows "let occ = occurrences lookup target_key root 0 [];
             st = walk_from_root lookup target_key root in
    g (sy_data (ws_own st)) = sat_sum (map (h \<circ> sn_stats \<circ> snd \<circ> snd) occ) \<and>
    counter_at g ks (ws_callees st) =
      sat_sum (map (h \<circ> sn_stats) (concat (map (\<lambda>(anc, addr, node). sym_nodes lookup ks [node]) occ))) \<and>
    counter_at g ks (ws_callers st) =
      sat_sum (map (h \<circ> sn_stats \<circ> snd \<circ> snd) (filter (\<lambda>x. sym_prefix lookup ks (rev (fst x))) occ))"
  using assms
  unfolding Let_def summed_counters_def
  by (auto simp: on_cpu.walk_own on_cpu.walk_callees on_cpu.walk_callers
      pet_samples.walk_own pet_samples.walk_callees pet_samples.walk_callers
      off_cpu_intervals.walk_own off_cpu_intervals.walk_callees off_cpu_intervals.walk_callers
      off_cpu_reason.walk_own off_cpu_reason.walk_callees off_cpu_reason.walk_callers)

text \<open>Direct recursion: the outer node already contains the inner one, and the target's own time counts both.\<close>

definition recursive_tree :: stack_node where
  "recursive_tree = fst (apply_credits [CreditOn [10, 10] 15 demo_pmu])"

theorem neighbors_exact_witness:
  "sy_on_cpu_ns (sy_data (ws_own (walk_from_root demo_lookup (symbol_key demo_lookup 10) recursive_tree))) = 30"
proof -
  have "(sy_on_cpu_ns, nd_on_cpu_ns) \<in> summed_counters" by (simp add: summed_counters_def)
  from neighbors_exact [OF this, of "[(None, None)]" demo_lookup "symbol_key demo_lookup 10" recursive_tree]
  have "sy_on_cpu_ns (sy_data (ws_own (walk_from_root demo_lookup (symbol_key demo_lookup 10) recursive_tree))) =
      sat_sum (map (nd_on_cpu_ns \<circ> sn_stats \<circ> snd \<circ> snd)
        (occurrences demo_lookup (symbol_key demo_lookup 10) recursive_tree 0 []))"
    by (simp add: Let_def)
  also have "\<dots> = 30" by code_simp
  finally show ?thesis .
qed

end
