(* ===== verification/Runs.thy ===== *)
theory Runs
  imports Views
begin

text \<open>
  The run registry of the server (\<open>stax-server/src/main.rs\<close>, with the wire types of
  \<open>stax-live-proto\<close> and \<open>stax-shade-proto\<close>): one active run and a history, the attached shade
  process, the ingest of recorder events into the aggregator and the binary registry, and the
  control requests. A section of code that holds the lock of \<open>Inner\<close> is a function on \<open>inner\<close>;
  an operation is the composition of its sections. \<open>RunSteps\<close> interleaves the sections.

  A \<open>Notify\<close> handle is named by the run it was made for, a channel and a child handle by a
  number. The clock, the process table and the file system are arguments.
\<close>

section \<open>Runs\<close>

datatype run_state = Recording | Stopped

datatype stop_reason = TargetExited | TimeLimit | UserStop | RecorderError string

record run_summary =
  rn_id :: u64
  rn_state :: run_state
  rn_stop_reason :: "stop_reason option"
  rn_started_at_unix_ns :: u64
  rn_stopped_at_unix_ns :: "u64 option"
  rn_target_pid :: "u32 option"
  rn_label :: string
  rn_pet_samples :: u64
  rn_off_cpu_intervals :: u64

record run_config =
  rc_label :: string
  rc_frequency_hz :: u32

record shade_capabilities =
  cap_peek :: bool
  cap_poke :: bool
  cap_framehop_walker :: bool
  cap_breakpoint_step :: bool

record shade_info =
  shi_run_id :: u64
  shi_target_pid :: u32
  shi_shade_pid :: u32
  shi_capabilities :: shade_capabilities

record shade_ack =
  sa_accepted :: bool
  sa_reason :: "string option"

record shade_child =
  sc_pid :: u32
  sc_child :: nat

record inner =
  in_active :: "run_summary option"
  in_cancel :: "u64 option"
  in_active_shade :: "shade_info option"
  in_active_shade_commands :: "nat option"
  in_ingest_attached :: bool
  in_shade_child :: "shade_child option"
  in_history :: "run_summary list"

definition new_inner :: inner where
  "new_inner = \<lparr>in_active = None, in_cancel = None, in_active_shade = None, in_active_shade_commands = None,
     in_ingest_attached = False, in_shade_child = None, in_history = []\<rparr>"

definition run_mismatch :: "u64 \<Rightarrow> u64 \<Rightarrow> string" where
  "run_mismatch run_id active = ''run id mismatch: ingest for '' @ fmt_dec run_id @ '', active run is '' @ fmt_dec active"

section \<open>Sections under the lock\<close>

text \<open>The slots of a run that is no longer active; the child handle is dealt with by each caller.\<close>

definition release :: "inner \<Rightarrow> inner" where
  "release i = i\<lparr>in_active := None, in_cancel := None, in_active_shade := None,
     in_active_shade_commands := None, in_ingest_attached := False\<rparr>"

text \<open>The first section of \<open>begin_run\<close>: a stopped run that is still marked active is moved to the history.\<close>

definition clear_stale :: "inner \<Rightarrow> shade_child option \<times> inner" where
  "clear_stale i =
     (case in_active i of
        None \<Rightarrow> (None, i)
      | Some active \<Rightarrow>
          if rn_state active = Stopped
          then (in_shade_child i, (release i)\<lparr>in_shade_child := None,
            in_history := (if list_ex (\<lambda>run. rn_id run = rn_id active) (in_history i) then in_history i
                           else in_history i @ [active])\<rparr>)
          else (None, i))"

definition new_summary :: "u64 \<Rightarrow> run_config \<Rightarrow> u64 \<Rightarrow> run_summary" where
  "new_summary rid config now =
     \<lparr>rn_id = rid, rn_state = Recording, rn_stop_reason = None, rn_started_at_unix_ns = now,
      rn_stopped_at_unix_ns = None, rn_target_pid = None, rn_label = rc_label config,
      rn_pet_samples = 0, rn_off_cpu_intervals = 0\<rparr>"

definition already_active :: string where
  "already_active = ''another run is already active; call RunControl::stop_active or wait_active first''"

definition activate :: "run_summary \<Rightarrow> inner \<Rightarrow> string + inner" where
  "activate summary i =
     (if in_active i \<noteq> None then Inl already_active
      else Inr (i\<lparr>in_active := Some summary, in_cancel := Some (rn_id summary), in_ingest_attached := False\<rparr>))"

definition stop_summary :: "stop_reason \<Rightarrow> u64 \<Rightarrow> run_summary \<Rightarrow> run_summary" where
  "stop_summary reason now s =
     s\<lparr>rn_state := Stopped, rn_stop_reason := Some reason, rn_stopped_at_unix_ns := Some now\<rparr>"

text \<open>\<open>finalize_run\<close> under the lock: the flag says whether the child is reaped after it.\<close>

definition finalize_inner :: "u64 \<Rightarrow> stop_reason \<Rightarrow> u64 \<Rightarrow> inner \<Rightarrow> bool \<times> inner" where
  "finalize_inner run_id default_reason now i =
     (case in_active i of
        None \<Rightarrow> (False, i)
      | Some active \<Rightarrow>
          if rn_id active \<noteq> run_id then (False, i)
          else let summary = (if rn_state active \<noteq> Stopped then stop_summary default_reason now active else active) in
            (True, (release i)\<lparr>in_history := in_history i @ [summary]\<rparr>))"

definition discard_inner :: "u64 \<Rightarrow> string \<Rightarrow> u64 \<Rightarrow> inner \<Rightarrow> inner" where
  "discard_inner run_id message now i =
     (case in_active i of
        None \<Rightarrow> i
      | Some active \<Rightarrow>
          if rn_id active \<noteq> run_id then i
          else (release i)\<lparr>in_shade_child := None,
            in_history := in_history i @ [stop_summary (RecorderError message) now active]\<rparr>)"

text \<open>
  \<open>stop_active\<close> under the lock: the snapshot, the cancel handle and the shade's command channel
  it takes. The run stays active, stopped, until it is finalized or cleared.
\<close>

definition stop_inner :: "u64 \<Rightarrow> inner \<Rightarrow> (run_summary \<times> u64 option \<times> nat option \<times> inner) option" where
  "stop_inner now i =
     (case in_active i of
        None \<Rightarrow> None
      | Some summary \<Rightarrow>
          (let snapshot = stop_summary UserStop now summary in
           Some (snapshot, in_cancel i, in_active_shade_commands i,
             i\<lparr>in_active := Some snapshot, in_cancel := None, in_active_shade := None,
               in_active_shade_commands := None, in_ingest_attached := False\<rparr>)))"

definition detach_ingest :: "u64 \<Rightarrow> inner \<Rightarrow> inner" where
  "detach_ingest run_id i =
     (case in_active i of
        None \<Rightarrow> i
      | Some active \<Rightarrow> if rn_id active \<noteq> run_id then i else i\<lparr>in_ingest_attached := False\<rparr>)"

definition try_register_shade :: "shade_info \<Rightarrow> nat \<Rightarrow> inner \<Rightarrow> shade_ack \<times> inner" where
  "try_register_shade info commands i =
     (case in_active i of
        None \<Rightarrow> (\<lparr>sa_accepted = False, sa_reason = Some ''no active run''\<rparr>, i)
      | Some active \<Rightarrow>
          if rn_id active \<noteq> shi_run_id info
          then (\<lparr>sa_accepted = False, sa_reason = Some (''run id mismatch: shade for '' @ fmt_dec (shi_run_id info) @
                  '', server's active run is '' @ fmt_dec (rn_id active))\<rparr>, i)
          else if in_active_shade i \<noteq> None
          then (\<lparr>sa_accepted = False, sa_reason = Some ''a shade is already registered for this run''\<rparr>, i)
          else (\<lparr>sa_accepted = True, sa_reason = None\<rparr>,
                i\<lparr>in_active_shade := Some info, in_active_shade_commands := Some commands\<rparr>))"

definition shade_session_closed :: "u32 \<Rightarrow> inner \<Rightarrow> inner" where
  "shade_session_closed shade_pid i =
     (case in_active_shade i of
        Some info \<Rightarrow> if shi_shade_pid info = shade_pid
          then i\<lparr>in_active_shade := None, in_active_shade_commands := None\<rparr> else i
      | None \<Rightarrow> i)"

text \<open>
  One tick of the watchdog with nothing between its two locks; the second one is
  \<open>shade_session_closed\<close> for the pid the first one read.
\<close>

definition watchdog_tick :: "(u32 \<Rightarrow> bool) \<Rightarrow> inner \<Rightarrow> inner" where
  "watchdog_tick alive i =
     (case in_active_shade i of
        None \<Rightarrow> i
      | Some info \<Rightarrow> if alive (shi_shade_pid info) then i else shade_session_closed (shi_shade_pid info) i)"

definition pid_is_alive :: "int \<Rightarrow> int \<Rightarrow> bool" where
  "pid_is_alive r errno \<longleftrightarrow> r = 0 \<or> errno \<noteq> 3"

text \<open>The first section of \<open>shade_child_exited\<close>, with whether the run is to be finalized.\<close>

definition child_exited_inner :: "u64 \<Rightarrow> u32 \<Rightarrow> inner \<Rightarrow> bool \<times> inner" where
  "child_exited_inner run_id shade_pid i =
     (let i1 = (case in_shade_child i of
          Some child \<Rightarrow> if sc_pid child = shade_pid then i\<lparr>in_shade_child := None\<rparr> else i
        | None \<Rightarrow> i) in
      (case in_active i1 of Some active \<Rightarrow> rn_id active = run_id | None \<Rightarrow> False, i1))"

definition exit_reason :: "bool \<Rightarrow> string \<Rightarrow> stop_reason" where
  "exit_reason success status = (if success then TargetExited else RecorderError (''stax-shade exited: '' @ status))"

definition ensure_active_run :: "u64 \<Rightarrow> inner \<Rightarrow> string + unit" where
  "ensure_active_run run_id i =
     (case in_active i of
        None \<Rightarrow> Inl ''no active run''
      | Some active \<Rightarrow> if rn_id active \<noteq> run_id then Inl (run_mismatch run_id (rn_id active)) else Inr ())"

definition cancel_for_run :: "u64 \<Rightarrow> inner \<Rightarrow> string + u64" where
  "cancel_for_run run_id i =
     (case in_active i of
        None \<Rightarrow> Inl ''no active run''
      | Some active \<Rightarrow>
          if rn_id active \<noteq> run_id then Inl (run_mismatch run_id (rn_id active))
          else (case in_cancel i of Some c \<Rightarrow> Inr c | None \<Rightarrow> Inl ''active run has no cancel handle''))"

section \<open>Ingest events\<close>

record wire_symbol =
  ws_start_svma :: u64
  ws_end_svma :: u64
  ws_name :: string

record wire_binary_loaded =
  wb_path :: string
  wb_base_avma :: u64
  wb_vmsize :: u64
  wb_text_svma :: u64
  wb_arch :: "string option"
  wb_is_executable :: bool
  wb_symbols :: "wire_symbol list"
  wb_text_bytes :: "string option"

record wire_binary_unloaded =
  wu_path :: string
  wu_base_avma :: u64

record wire_sample_event =
  wse_timestamp_ns :: u64
  wse_pid :: u32
  wse_tid :: u32
  wse_kernel_backtrace :: "u64 list"
  wse_user_backtrace :: "u64 list"
  wse_pmu :: pmu_sample

record wire_on_cpu_interval =
  won_tid :: u32
  won_start_ns :: u64
  won_end_ns :: u64

record wire_off_cpu_interval =
  woff_tid :: u32
  woff_start_ns :: u64
  woff_end_ns :: u64
  woff_stack :: "u64 list"
  woff_waker_tid :: "u32 option"
  woff_waker_user_stack :: "u64 list option"

record wire_wakeup =
  ww_timestamp_ns :: u64
  ww_waker_tid :: u32
  ww_wakee_tid :: u32
  ww_waker_user_stack :: "u64 list"
  ww_waker_kernel_stack :: "u64 list"

datatype ingest_event =
  TargetAttached u32 u64
| Sample wire_sample_event
| OnCpuInterval wire_on_cpu_interval
| OffCpuInterval wire_off_cpu_interval
| BinaryLoaded wire_binary_loaded
| BinaryUnloaded wire_binary_unloaded
| ThreadName u32 u32 string
| Wakeup wire_wakeup

fun ingest_event_kind :: "ingest_event \<Rightarrow> string" where
  "ingest_event_kind (Sample _) = ''sample''"
| "ingest_event_kind (OnCpuInterval _) = ''on_cpu''"
| "ingest_event_kind (OffCpuInterval _) = ''off_cpu''"
| "ingest_event_kind (BinaryLoaded _) = ''binary_loaded''"
| "ingest_event_kind (BinaryUnloaded _) = ''binary_unloaded''"
| "ingest_event_kind (TargetAttached _ _) = ''target_attached''"
| "ingest_event_kind (ThreadName _ _ _) = ''thread_name''"
| "ingest_event_kind (Wakeup _) = ''wakeup''"

record drain_counts =
  dc_samples :: u64
  dc_on_cpu :: u64
  dc_off_cpu :: u64
  dc_binaries_loaded :: u64
  dc_binaries_unloaded :: u64
  dc_target_attached :: u64
  dc_thread_names :: u64
  dc_wakeups :: u64

definition new_counts :: drain_counts where
  "new_counts = \<lparr>dc_samples = 0, dc_on_cpu = 0, dc_off_cpu = 0, dc_binaries_loaded = 0,
     dc_binaries_unloaded = 0, dc_target_attached = 0, dc_thread_names = 0, dc_wakeups = 0\<rparr>"

fun record_count :: "ingest_event \<Rightarrow> drain_counts \<Rightarrow> drain_counts" where
  "record_count (Sample _) c = c\<lparr>dc_samples := dc_samples c + 1\<rparr>"
| "record_count (OnCpuInterval _) c = c\<lparr>dc_on_cpu := dc_on_cpu c + 1\<rparr>"
| "record_count (OffCpuInterval _) c = c\<lparr>dc_off_cpu := dc_off_cpu c + 1\<rparr>"
| "record_count (BinaryLoaded _) c = c\<lparr>dc_binaries_loaded := dc_binaries_loaded c + 1\<rparr>"
| "record_count (BinaryUnloaded _) c = c\<lparr>dc_binaries_unloaded := dc_binaries_unloaded c + 1\<rparr>"
| "record_count (TargetAttached _ _) c = c\<lparr>dc_target_attached := dc_target_attached c + 1\<rparr>"
| "record_count (ThreadName _ _ _) c = c\<lparr>dc_thread_names := dc_thread_names c + 1\<rparr>"
| "record_count (Wakeup _) c = c\<lparr>dc_wakeups := dc_wakeups c + 1\<rparr>"

definition counts_summary :: "drain_counts \<Rightarrow> string" where
  "counts_summary c =
     ''samples='' @ fmt_dec (dc_samples c) @ '' on_cpu='' @ fmt_dec (dc_on_cpu c) @
     '' off_cpu='' @ fmt_dec (dc_off_cpu c) @ '' bin_load='' @ fmt_dec (dc_binaries_loaded c) @
     '' bin_unload='' @ fmt_dec (dc_binaries_unloaded c) @ '' target='' @ fmt_dec (dc_target_attached c) @
     '' threads='' @ fmt_dec (dc_thread_names c) @ '' wakeups='' @ fmt_dec (dc_wakeups c)"

text \<open>The first half of \<open>apply_event\<close>, under the lock: \<open>None\<close> drops the event.\<close>

fun count_in_summary :: "ingest_event \<Rightarrow> run_summary \<Rightarrow> run_summary" where
  "count_in_summary (Sample _) s = s\<lparr>rn_pet_samples := rn_pet_samples s + 1\<rparr>"
| "count_in_summary (OffCpuInterval _) s = s\<lparr>rn_off_cpu_intervals := rn_off_cpu_intervals s + 1\<rparr>"
| "count_in_summary (TargetAttached pid _) s = s\<lparr>rn_target_pid := Some pid\<rparr>"
| "count_in_summary _ s = s"

definition count_event :: "u64 \<Rightarrow> ingest_event \<Rightarrow> inner \<Rightarrow> inner option" where
  "count_event run_id ev i =
     (case in_active i of
        None \<Rightarrow> None
      | Some active \<Rightarrow>
          if rn_id active \<noteq> run_id then None
          else Some (i\<lparr>in_active := Some (count_in_summary ev active)\<rparr>))"

section \<open>The server\<close>

record 'c server =
  sv_inner :: inner
  sv_aggregator :: aggregator
  sv_binaries :: "'c registry"
  sv_revision :: u64
  sv_paused :: bool
  sv_started_at_unix_ns :: u64
  sv_next_run_id :: u64
  sv_terminals :: "(u64, nat) hmap"
  sv_socket_path :: string

text \<open>
  What the server is given: an empty demangling cache, and the host's shared cache with the
  bytes it serves, when there is one.
\<close>

record 'c server_env =
  se_new_lru :: 'c
  se_host_cache :: "(shared_cache \<times> (u64 \<Rightarrow> u64 \<Rightarrow> string option)) option"

definition attach_local_shared_cache :: "'c server_env \<Rightarrow> 'c server \<Rightarrow> 'c server" where
  "attach_local_shared_cache env sv =
     (case se_host_cache env of
        Some (cache, source) \<Rightarrow>
          sv\<lparr>sv_binaries := set_shared_cache cache (set_macho_byte_source source (sv_binaries sv))\<rparr>
      | None \<Rightarrow> sv)"

definition new_server :: "'c server_env \<Rightarrow> string \<Rightarrow> u64 \<Rightarrow> 'c server" where
  "new_server env socket_path now =
     \<lparr>sv_inner = new_inner, sv_aggregator = empty_aggregator, sv_binaries = new_registry (se_new_lru env),
      sv_revision = 1, sv_paused = False, sv_started_at_unix_ns = now, sv_next_run_id = 1,
      sv_terminals = [], sv_socket_path = socket_path\<rparr>"

definition bump_revision :: "'c server \<Rightarrow> 'c server" where
  "bump_revision sv = sv\<lparr>sv_revision := sv_revision sv + 1\<rparr>"

definition reset_data :: "'c server_env \<Rightarrow> 'c server \<Rightarrow> 'c server" where
  "reset_data env sv = attach_local_shared_cache env (bump_revision
     (sv\<lparr>sv_aggregator := empty_aggregator, sv_binaries := new_registry (se_new_lru env)\<rparr>))"

text \<open>\<open>begin_run\<close>, with the stale child it hands to \<open>reap_taken_shade_child\<close>.\<close>

definition begin_run ::
  "'c server_env \<Rightarrow> run_config \<Rightarrow> u64 \<Rightarrow> 'c server \<Rightarrow> (string + u64) \<times> shade_child option \<times> 'c server" where
  "begin_run env config now sv =
     (let (stale_child, i1) = clear_stale (sv_inner sv);
          rid = sv_next_run_id sv;
          sv1 = sv\<lparr>sv_inner := i1, sv_next_run_id := rid + 1\<rparr> in
      case activate (new_summary rid config now) i1 of
        Inl e \<Rightarrow> (Inl e, stale_child, sv1)
      | Inr i2 \<Rightarrow> (Inr rid, stale_child, reset_data env (sv1\<lparr>sv_inner := i2\<rparr>)))"

section \<open>Applying events\<close>

definition apply_target_attached :: "u64 \<Rightarrow> u32 \<Rightarrow> u64 \<Rightarrow> 'c server \<Rightarrow> (string + unit) \<times> 'c server" where
  "apply_target_attached run_id pid task_port sv =
     (case in_active (sv_inner sv) of
        None \<Rightarrow> (Inl ''no active run'', sv)
      | Some active \<Rightarrow>
          if rn_id active \<noteq> run_id then (Inl (run_mismatch run_id (rn_id active)), sv)
          else (Inr (), bump_revision
            (sv\<lparr>sv_inner := (sv_inner sv)\<lparr>in_active := Some (active\<lparr>rn_target_pid := Some pid\<rparr>)\<rparr>,
                sv_binaries := set_target pid task_port (sv_binaries sv)\<rparr>)))"

definition live_symbol_of :: "wire_symbol \<Rightarrow> live_symbol" where
  "live_symbol_of s = \<lparr>sym_start_svma = ws_start_svma s, sym_end_svma = ws_end_svma s, sym_name = ws_name s\<rparr>"

definition loaded_binary_of :: "wire_binary_loaded \<Rightarrow> loaded_binary" where
  "loaded_binary_of b =
     \<lparr>lb_path = wb_path b, lb_base_avma = wb_base_avma b,
      lb_avma_end = sat_add (wb_base_avma b) (wb_vmsize b), lb_text_svma = wb_text_svma b,
      lb_arch = wb_arch b, lb_is_executable = wb_is_executable b,
      lb_symbols = map live_symbol_of (wb_symbols b), lb_text_bytes = wb_text_bytes b\<rparr>"

definition apply_binary_loaded :: "u64 \<Rightarrow> wire_binary_loaded \<Rightarrow> 'c server \<Rightarrow> (string + unit) \<times> 'c server" where
  "apply_binary_loaded run_id b sv =
     (case ensure_active_run run_id (sv_inner sv) of
        Inl e \<Rightarrow> (Inl e, sv)
      | Inr _ \<Rightarrow> (Inr (), bump_revision
          (sv\<lparr>sv_binaries := insert_binary (loaded_binary_of b) (sv_binaries sv)\<rparr>)))"

definition apply_binary_unloaded :: "u64 \<Rightarrow> u64 \<Rightarrow> 'c server \<Rightarrow> (string + unit) \<times> 'c server" where
  "apply_binary_unloaded run_id base_avma sv =
     (case ensure_active_run run_id (sv_inner sv) of
        Inl e \<Rightarrow> (Inl e, sv)
      | Inr _ \<Rightarrow> (Inr (), bump_revision sv))"

text \<open>The second half of \<open>apply_event\<close>, after the lock on the summary is released.\<close>

fun record_in_aggregator :: "ingest_event \<Rightarrow> aggregator \<Rightarrow> aggregator" where
  "record_in_aggregator (Sample s) ag =
     record_pet_sample (wse_tid s) (wse_timestamp_ns s) (wse_user_backtrace s) (wse_kernel_backtrace s) (wse_pmu s) ag"
| "record_in_aggregator (OnCpuInterval i) ag =
     record_interval (won_tid i) (won_start_ns i) (won_end_ns i) OnCpu ag"
| "record_in_aggregator (OffCpuInterval i) ag =
     record_interval (woff_tid i) (woff_start_ns i) (woff_end_ns i)
       (OffCpu (woff_stack i) (woff_waker_tid i) (woff_waker_user_stack i)) ag"
| "record_in_aggregator (Wakeup w) ag =
     record_wakeup (ww_timestamp_ns w) (ww_waker_tid w) (ww_wakee_tid w) (ww_waker_user_stack w)
       (ww_waker_kernel_stack w) ag"
| "record_in_aggregator (ThreadName _ tid name) ag = set_thread_name tid name ag"
| "record_in_aggregator _ ag = ag"

fun record_event :: "u64 \<Rightarrow> ingest_event \<Rightarrow> 'c server \<Rightarrow> 'c server" where
  "record_event run_id (BinaryLoaded b) sv = snd (apply_binary_loaded run_id b sv)"
| "record_event run_id (BinaryUnloaded b) sv = snd (apply_binary_unloaded run_id (wu_base_avma b) sv)"
| "record_event run_id (TargetAttached pid task_port) sv = snd (apply_target_attached run_id pid task_port sv)"
| "record_event run_id ev sv = bump_revision (sv\<lparr>sv_aggregator := record_in_aggregator ev (sv_aggregator sv)\<rparr>)"

definition apply_event :: "u64 \<Rightarrow> ingest_event \<Rightarrow> 'c server \<Rightarrow> 'c server" where
  "apply_event run_id ev sv =
     (case count_event run_id ev (sv_inner sv) of
        None \<Rightarrow> sv
      | Some i \<Rightarrow> record_event run_id ev (sv\<lparr>sv_inner := i\<rparr>))"

text \<open>The reliable plane: a batch stops at the first refused binary.\<close>

fun publish_binaries_loaded :: "u64 \<Rightarrow> wire_binary_loaded list \<Rightarrow> 'c server \<Rightarrow> (string + unit) \<times> 'c server" where
  "publish_binaries_loaded run_id [] sv = (Inr (), sv)"
| "publish_binaries_loaded run_id (b # bs) sv =
     (case apply_binary_loaded run_id b sv of
        (Inl e, sv') \<Rightarrow> (Inl e, sv')
      | (Inr _, sv') \<Rightarrow> publish_binaries_loaded run_id bs sv')"

fun publish_binaries_unloaded :: "u64 \<Rightarrow> wire_binary_unloaded list \<Rightarrow> 'c server \<Rightarrow> (string + unit) \<times> 'c server" where
  "publish_binaries_unloaded run_id [] sv = (Inr (), sv)"
| "publish_binaries_unloaded run_id (b # bs) sv =
     (case apply_binary_unloaded run_id (wu_base_avma b) sv of
        (Inl e, sv') \<Rightarrow> (Inl e, sv')
      | (Inr _, sv') \<Rightarrow> publish_binaries_unloaded run_id bs sv')"

section \<open>Reaping the shade\<close>

text \<open>
  \<open>reap_taken_shade_child\<close>: \<open>poll n\<close> is the answer of the \<open>n\<close>-th \<open>try_wait\<close>. After the first
  poll the child has twenty more, 50 ms apart, before it is killed and waited for.
\<close>

datatype try_wait = Exited | Running | WaitFailed

datatype reap_result = HandleGone | AlreadyExited | WaitError | ExitedAtPoll nat | Killed

primrec grace_polls :: "(nat \<Rightarrow> try_wait) \<Rightarrow> nat \<Rightarrow> nat \<Rightarrow> reap_result" where
  "grace_polls poll n 0 = Killed"
| "grace_polls poll n (Suc k) = (if poll n = Exited then ExitedAtPoll n else grace_polls poll (Suc n) k)"

definition reap_taken_shade_child :: "bool \<Rightarrow> (nat \<Rightarrow> try_wait) \<Rightarrow> reap_result" where
  "reap_taken_shade_child held poll =
     (if \<not> held then HandleGone
      else case poll 0 of
        Exited \<Rightarrow> AlreadyExited
      | WaitFailed \<Rightarrow> WaitError
      | Running \<Rightarrow> grace_polls poll 1 20)"

definition take_shade_child :: "inner \<Rightarrow> shade_child option \<times> inner" where
  "take_shade_child i = (in_shade_child i, i\<lparr>in_shade_child := None\<rparr>)"

definition finalize_run :: "u64 \<Rightarrow> stop_reason \<Rightarrow> u64 \<Rightarrow> 'c server \<Rightarrow> shade_child option \<times> 'c server" where
  "finalize_run run_id default_reason now sv =
     (let sv1 = sv\<lparr>sv_terminals := hm_remove run_id (sv_terminals sv)\<rparr>;
          (finalized, i1) = finalize_inner run_id default_reason now (sv_inner sv1) in
      if finalized
      then let (child, i2) = take_shade_child i1 in (child, sv1\<lparr>sv_inner := i2\<rparr>)
      else (None, sv1\<lparr>sv_inner := i1\<rparr>))"

definition shade_child_exited ::
  "u64 \<Rightarrow> u32 \<Rightarrow> bool \<Rightarrow> string \<Rightarrow> u64 \<Rightarrow> 'c server \<Rightarrow> shade_child option \<times> 'c server" where
  "shade_child_exited run_id shade_pid success status now sv =
     (let (should_finalize, i1) = child_exited_inner run_id shade_pid (sv_inner sv);
          sv1 = sv\<lparr>sv_inner := i1\<rparr> in
      if should_finalize then finalize_run run_id (exit_reason success status) now sv1 else (None, sv1))"

definition discard_start_failed :: "u64 \<Rightarrow> string \<Rightarrow> u64 \<Rightarrow> 'c server \<Rightarrow> 'c server" where
  "discard_start_failed run_id message now sv =
     sv\<lparr>sv_terminals := hm_remove run_id (sv_terminals sv),
        sv_inner := discard_inner run_id message now (sv_inner sv)\<rparr>"

section \<open>Spawning the shade\<close>

record terminal_size =
  tsz_rows :: u16
  tsz_cols :: u16

record launch_request =
  lr_command :: "string list"
  lr_cwd :: string
  lr_env :: "(string \<times> string) list"
  lr_config :: run_config
  lr_daemon_socket :: string
  lr_time_limit_secs :: "u64 option"
  lr_terminal_size :: "terminal_size option"

datatype shade_target = Attach u32 | Launch launch_request

text \<open>
  A process to spawn: the program, its arguments, and for a launch the working directory and
  the whole environment; an attached shade inherits both.
\<close>

record spawn_command =
  cmd_program :: string
  cmd_args :: "string list"
  cmd_dir :: "string option"
  cmd_env :: "(string \<times> string) list option"

definition resolve_shade_path :: "(string \<Rightarrow> string option) \<Rightarrow> (string \<Rightarrow> bool) \<Rightarrow> string option" where
  "resolve_shade_path env_var exists =
     (let usr_local = (if exists ''/usr/local/bin/stax-shade'' then Some ''/usr/local/bin/stax-shade'' else None);
          cargo = (case env_var ''HOME'' of
             Some home \<Rightarrow> (let p = path_join (path_join (path_join home ''.cargo'') ''bin'') ''stax-shade'' in
               if exists p then Some p else usr_local)
           | None \<Rightarrow> usr_local) in
      case env_var ''STAX_SHADE_BIN'' of
        Some p \<Rightarrow> if exists p then Some p else cargo
      | None \<Rightarrow> cargo)"

definition resolve_socket_path :: "(string \<Rightarrow> string option) \<Rightarrow> u32 \<Rightarrow> string" where
  "resolve_socket_path env_var uid =
     (case env_var ''STAX_SERVER_SOCKET'' of
        Some p \<Rightarrow> p
      | None \<Rightarrow> (case env_var ''XDG_RUNTIME_DIR'' of
          Some rt \<Rightarrow> path_join rt ''stax-server.sock''
        | None \<Rightarrow> ''/tmp/stax-server-'' @ fmt_dec uid @ ''.sock''))"

definition shade_command ::
  "string \<Rightarrow> string \<Rightarrow> u64 \<Rightarrow> shade_target \<Rightarrow> u32 \<Rightarrow> string \<Rightarrow> u64 option \<Rightarrow> spawn_command" where
  "shade_command bin socket run_id target frequency_hz daemon_socket time_limit_secs =
     (let (args, dir, env, launch) = (case target of
            Attach pid \<Rightarrow> ([''--attach'', fmt_dec pid], None, None, None)
          | Launch request \<Rightarrow>
              ([''--launch'', ''--cwd'', lr_cwd request] @
                 (case lr_terminal_size request of
                    Some sz \<Rightarrow> [''--terminal-rows'', fmt_dec (tsz_rows sz), ''--terminal-cols'', fmt_dec (tsz_cols sz)]
                  | None \<Rightarrow> []),
               Some (lr_cwd request), Some (lr_env request), Some (lr_command request))) in
      \<lparr>cmd_program = bin,
       cmd_args = args @ [''--server-socket'', socket, ''--run-id'', fmt_dec run_id,
           ''--daemon-socket'', daemon_socket, ''--frequency'', fmt_dec frequency_hz] @
         (case time_limit_secs of Some limit \<Rightarrow> [''--time-limit'', fmt_dec limit] | None \<Rightarrow> []) @
         (case launch of Some command \<Rightarrow> ''--'' # command | None \<Rightarrow> []),
       cmd_dir = dir, cmd_env = env\<rparr>)"

text \<open>
  What spawning needs from the system: where the shade binary is, and the outcome of the spawn,
  an error text or the new process with its handle.
\<close>

record system =
  sys_shade_path :: "string option"
  sys_spawn :: "spawn_command \<Rightarrow> string + shade_child"

definition spawn_shade ::
  "system \<Rightarrow> u64 \<Rightarrow> shade_target \<Rightarrow> u32 \<Rightarrow> string \<Rightarrow> u64 option \<Rightarrow> 'c server \<Rightarrow> (string + unit) \<times> 'c server" where
  "spawn_shade sys run_id target frequency_hz daemon_socket time_limit_secs sv =
     (case sys_shade_path sys of
        None \<Rightarrow> (Inl ''stax-shade binary not found; run `cargo xtask install` or set STAX_SHADE_BIN'', sv)
      | Some bin \<Rightarrow>
          (case sys_spawn sys (shade_command bin (sv_socket_path sv) run_id target frequency_hz daemon_socket
                  time_limit_secs) of
             Inl e \<Rightarrow> (Inl (''failed to spawn '' @ bin @ '': '' @ e), sv)
           | Inr child \<Rightarrow> (Inr (), sv\<lparr>sv_inner := (sv_inner sv)\<lparr>in_shade_child := Some child\<rparr>\<rparr>)))"

section \<open>Control requests\<close>

datatype run_control_error = NoActiveRun | AlreadyActive | SpawnFailed string | Internal string

text \<open>Each start returns its reply, the stale child to reap and the new state.\<close>

definition start_attach ::
  "'c server_env \<Rightarrow> system \<Rightarrow> u32 \<Rightarrow> run_config \<Rightarrow> string \<Rightarrow> u64 option \<Rightarrow> u64 \<Rightarrow> u64 \<Rightarrow> 'c server \<Rightarrow>
   (run_control_error + u64) \<times> shade_child option \<times> 'c server" where
  "start_attach env sys pid config daemon_socket time_limit_secs now1 now2 sv =
     (case begin_run env config now1 sv of
        (Inl e, stale, sv1) \<Rightarrow> (Inl (Internal e), stale, sv1)
      | (Inr run_id, stale, sv1) \<Rightarrow>
          (case spawn_shade sys run_id (Attach pid) (rc_frequency_hz config) daemon_socket time_limit_secs sv1 of
             (Inl e, sv2) \<Rightarrow> (Inl (Internal e), stale, discard_start_failed run_id e now2 sv2)
           | (Inr _, sv2) \<Rightarrow> (Inr run_id, stale, sv2)))"

definition start_launch ::
  "'c server_env \<Rightarrow> system \<Rightarrow> launch_request \<Rightarrow> nat \<Rightarrow> u64 \<Rightarrow> u64 \<Rightarrow> 'c server \<Rightarrow>
   (run_control_error + u64) \<times> shade_child option \<times> 'c server" where
  "start_launch env sys request terminal now1 now2 sv =
     (if lr_command request = [] then (Inl (Internal ''launch command is empty''), None, sv)
      else case begin_run env (lr_config request) now1 sv of
        (Inl e, stale, sv1) \<Rightarrow> (Inl (Internal e), stale, sv1)
      | (Inr run_id, stale, sv1) \<Rightarrow>
          (let sv2 = sv1\<lparr>sv_terminals := hm_insert run_id terminal (sv_terminals sv1)\<rparr> in
           case spawn_shade sys run_id (Launch request) (rc_frequency_hz (lr_config request))
                  (lr_daemon_socket request) (lr_time_limit_secs request) sv2 of
             (Inl e, sv3) \<Rightarrow> (Inl (Internal e), stale, discard_start_failed run_id e now2 sv3)
           | (Inr _, sv3) \<Rightarrow> (Inr run_id, stale, sv3)))"

definition attach_terminal_channels :: "u64 \<Rightarrow> 'c server \<Rightarrow> (string + nat) \<times> 'c server" where
  "attach_terminal_channels run_id sv =
     (case map_of (sv_terminals sv) run_id of
        None \<Rightarrow> (Inl (''no pending terminal for run '' @ fmt_dec run_id), sv)
      | Some terminal \<Rightarrow> (Inr terminal, sv\<lparr>sv_terminals := hm_remove run_id (sv_terminals sv)\<rparr>))"

definition status :: "'c server \<Rightarrow> u64 \<times> run_summary list" where
  "status sv = (sv_started_at_unix_ns sv, (case in_active (sv_inner sv) of Some a \<Rightarrow> [a] | None \<Rightarrow> []))"

definition list_runs :: "inner \<Rightarrow> run_summary list" where
  "list_runs i = in_history i @ (case in_active i of Some a \<Rightarrow> [a] | None \<Rightarrow> [])"

text \<open>
  \<open>stop_active\<close>: the reply, the channel the stop command is sent to, the handle that is
  notified and the child that is reaped.
\<close>

record stop_effects =
  se_command_to :: "nat option"
  se_notified :: "u64 option"
  se_reaped :: "shade_child option"

definition stop_active :: "u64 \<Rightarrow> 'c server \<Rightarrow> (run_control_error + run_summary \<times> stop_effects) \<times> 'c server" where
  "stop_active now sv =
     (case stop_inner now (sv_inner sv) of
        None \<Rightarrow> (Inl NoActiveRun, sv)
      | Some (snapshot, cancel, commands, i1) \<Rightarrow>
          (let (child, i2) = take_shade_child i1 in
           (Inr (snapshot, \<lparr>se_command_to = commands, se_notified = cancel, se_reaped = child\<rparr>),
            sv\<lparr>sv_inner := i2\<rparr>)))"

section \<open>Waiting\<close>

datatype wait_condition = UntilStopped | ForSamples u64 | ForSeconds u64 | UntilSymbolSeen string

datatype wait_outcome = ConditionMet run_summary | WaitStopped run_summary | TimedOut run_summary | WaitNoActiveRun

text \<open>
  One poll of \<open>wait_active\<close>: what it reads, with the clock (in nanoseconds since the call) as
  the condition and the deadline read it.
\<close>

record 'c wait_poll =
  wp_active :: "run_summary option"
  wp_condition_now :: nat
  wp_deadline_now :: nat
  wp_binaries :: "'c registry"

definition condition_met :: "wait_condition \<Rightarrow> 'c wait_poll \<Rightarrow> run_summary \<Rightarrow> bool" where
  "condition_met condition p active =
     (case condition of
        UntilStopped \<Rightarrow> False
      | ForSamples n \<Rightarrow> n \<le> rn_pet_samples active
      | ForSeconds seconds \<Rightarrow> unat seconds * 10 ^ 9 \<le> wp_condition_now p
      | UntilSymbolSeen needle \<Rightarrow> any_symbol_contains needle (wp_binaries p))"

definition poll_outcome :: "wait_condition \<Rightarrow> u64 option \<Rightarrow> 'c wait_poll \<Rightarrow> wait_outcome option" where
  "poll_outcome condition timeout_ms p =
     (case wp_active p of
        None \<Rightarrow> Some WaitNoActiveRun
      | Some active \<Rightarrow>
          if rn_state active = Stopped then Some (WaitStopped active)
          else if condition_met condition p active then Some (ConditionMet active)
          else (case timeout_ms of
             Some ms \<Rightarrow> if unat ms * 10 ^ 6 \<le> wp_deadline_now p then Some (TimedOut active) else None
           | None \<Rightarrow> None))"

partial_function (option) wait_loop ::
  "wait_condition \<Rightarrow> u64 option \<Rightarrow> (nat \<Rightarrow> 'c wait_poll) \<Rightarrow> nat \<Rightarrow> wait_outcome option" where
  "wait_loop condition timeout_ms polls n =
     (case poll_outcome condition timeout_ms (polls n) of
        Some outcome \<Rightarrow> Some outcome
      | None \<Rightarrow> wait_loop condition timeout_ms polls (Suc n))"

definition wait_active :: "wait_condition \<Rightarrow> u64 option \<Rightarrow> (nat \<Rightarrow> 'c wait_poll) \<Rightarrow> wait_outcome option" where
  "wait_active condition timeout_ms polls = wait_loop condition timeout_ms polls 0"

section \<open>Drainers, relays and sessions\<close>

text \<open>What a channel yields to its receiver.\<close>

datatype 'a recv = Received 'a | ChannelClosed | RecvFailed string

text \<open>What wakes the drainer: the cancel handle, tried first, or the channel.\<close>

datatype drain_input = Cancelled | FromChannel "ingest_event list recv"

definition apply_batch :: "u64 \<Rightarrow> ingest_event list \<Rightarrow> drain_counts \<times> 'c server \<Rightarrow> drain_counts \<times> 'c server" where
  "apply_batch run_id events st = fold (\<lambda>ev (counts, sv). (record_count ev counts, apply_event run_id ev sv)) events st"

fun drain :: "u64 \<Rightarrow> drain_input list \<Rightarrow> drain_counts \<times> 'c server \<Rightarrow> string option \<times> drain_counts \<times> 'c server" where
  "drain run_id [] st = (None, st)"
| "drain run_id (Cancelled # rest) st = (Some ''cancel'', st)"
| "drain run_id (FromChannel (Received events) # rest) st = drain run_id rest (apply_batch run_id events st)"
| "drain run_id (FromChannel ChannelClosed # rest) st = (Some ''channel_closed'', st)"
| "drain run_id (FromChannel (RecvFailed _) # rest) st = (Some ''recv_error'', st)"

text \<open>The drainer task, with the child that finalizing the run hands to the reaper.\<close>

definition ingest_drainer :: "u64 \<Rightarrow> drain_input list \<Rightarrow> u64 \<Rightarrow> 'c server \<Rightarrow> shade_child option \<times> 'c server" where
  "ingest_drainer run_id inputs now sv =
     (let (exit_reason, _, sv1) = drain run_id inputs (new_counts, sv) in
      case exit_reason of
        None \<Rightarrow> (None, sv1)
      | Some reason \<Rightarrow>
          if reason = ''cancel'' then finalize_run run_id UserStop now sv1
          else (None, sv1\<lparr>sv_inner := detach_ingest run_id (sv_inner sv1)\<rparr>))"

datatype terminal_input = InputBytes string | Resize terminal_size | InputClose

datatype terminal_output = OutputBytes string | ExitStatus "int option" "int option" | OutputError string

text \<open>
  The two relays of a terminal, as the messages they send on; the flag with each message says
  whether the send succeeds. A relay that runs out of inputs is still waiting.
\<close>

fun relay_input :: "(terminal_input recv \<times> bool) list \<Rightarrow> terminal_input list" where
  "relay_input [] = []"
| "relay_input ((Received input, ok) # rest) = input # (if ok then relay_input rest else [])"
| "relay_input ((ChannelClosed, _) # rest) = [InputClose]"
| "relay_input ((RecvFailed _, _) # rest) = [InputClose]"

fun relay_output :: "(terminal_output recv \<times> bool) list \<Rightarrow> terminal_output list" where
  "relay_output [] = []"
| "relay_output ((Received output, ok) # rest) = output # (if ok then relay_output rest else [])"
| "relay_output ((ChannelClosed, _) # rest) = []"
| "relay_output ((RecvFailed e, _) # rest) = [OutputError (''terminal output channel failed: '' @ e)]"

datatype service = RunControl | RunIngest | TerminalBroker | Profiler | ShadeRegistry

definition route :: "string \<Rightarrow> service option" where
  "route name =
     (if name = ''RunControl'' then Some RunControl
      else if name = ''RunIngest'' then Some RunIngest
      else if name = ''TerminalBroker'' then Some TerminalBroker
      else if name = ''Profiler'' then Some Profiler
      else if name = ''ShadeRegistry'' then Some ShadeRegistry
      else None)"

text \<open>A session remembers the shade that registered through it, to clear it when it closes.\<close>

definition register_shade :: "shade_info \<Rightarrow> nat \<Rightarrow> u32 option \<times> inner \<Rightarrow> shade_ack \<times> u32 option \<times> inner" where
  "register_shade info commands st =
     (let (shade_slot, i) = st; (ack, i') = try_register_shade info commands i in
      (ack, if sa_accepted ack then Some (shi_shade_pid info) else shade_slot, i'))"

definition cleanup_session_shade :: "u32 option \<times> inner \<Rightarrow> u32 option \<times> inner" where
  "cleanup_session_shade st =
     (case fst st of Some pid \<Rightarrow> (None, shade_session_closed pid (snd st)) | None \<Rightarrow> st)"

section \<open>Properties\<close>

text \<open>The first poll with an outcome decides the wait.\<close>

lemma wait_loop_first:
  assumes "poll_outcome condition timeout_ms (polls (n + k)) = Some outcome"
    "\<And>i. i < k \<Longrightarrow> poll_outcome condition timeout_ms (polls (n + i)) = None"
  shows "wait_loop condition timeout_ms polls n = Some outcome"
  using assms
proof (induction k arbitrary: n)
  case 0
  then show ?case by (subst wait_loop.simps) simp
next
  case (Suc k)
  have "poll_outcome condition timeout_ms (polls n) = None" using Suc.prems(2) [of 0] by simp
  moreover have "wait_loop condition timeout_ms polls (Suc n) = Some outcome"
    by (rule Suc.IH) (use Suc.prems(1) Suc.prems(2) [of "Suc i" for i] in auto)
  ultimately show ?case by (subst wait_loop.simps) simp
qed


definition demo_polls :: "nat \<Rightarrow> unit wait_poll" where
  "demo_polls n = \<lparr>wp_active = Some (new_summary 1 \<lparr>rc_label = ''demo'', rc_frequency_hz = 900\<rparr> 0),
     wp_condition_now = n * 50000000, wp_deadline_now = n * 50000000, wp_binaries = new_registry ()\<rparr>"


text \<open>
  Starting a run fails exactly while another run is recording, and then nothing changes but
  the id counter; otherwise the reply is the next id, every earlier run is still listed, a run that
  was stopped but still active no longer is, and the aggregator and the binary registry start empty.\<close>

theorem begin_run_exact:
  "let (reply, stale, sv') = begin_run env config now sv; i = sv_inner sv; i' = sv_inner sv';
       recording = (\<exists>a. in_active i = Some a \<and> rn_state a = Recording) in
   case reply of
     Inl e \<Rightarrow> recording \<and> e = already_active \<and> stale = None \<and>
       sv' = sv\<lparr>sv_next_run_id := sv_next_run_id sv + 1\<rparr>
   | Inr r \<Rightarrow> \<not> recording \<and> r = sv_next_run_id sv \<and> sv_next_run_id sv' = r + 1 \<and>
       set (map rn_id (list_runs i')) = insert r (set (map rn_id (list_runs i))) \<and>
       stale = (if in_active i = None then None else in_shade_child i) \<and>
       in_active i' = Some (new_summary r config now) \<and> in_cancel i' = Some r \<and>
       sv_aggregator sv' = empty_aggregator \<and> br_by_base (sv_binaries sv') = []"
proof -
  have st: "(rn_state a = Recording) = (rn_state a \<noteq> Stopped)" for a by (cases "rn_state a") simp_all
  show ?thesis
    by (cases "in_active (sv_inner sv)";
      auto simp: begin_run_def clear_stale_def release_def activate_def reset_data_def bump_revision_def
        attach_local_shared_cache_def set_shared_cache_def set_macho_byte_source_def new_registry_def
        new_summary_def list_ex_iff list_runs_def image_iff st Let_def split: option.splits prod.splits; metis)
qed

text \<open>
  Stopping frees the server. Whatever the state of the recorder, after stopping of an
  active run the next start succeeds with a fresh id, the stopped run is in the history with the
  reason the user gave, and a shade of the stopped run can no longer register.\<close>

theorem stop_frees_server:
  assumes "in_active (sv_inner sv) = Some a" "rn_id a \<notin> rn_id ` set (in_history (sv_inner sv))"
    "rn_id a \<noteq> sv_next_run_id sv"
  shows "let (reply, sv1) = stop_active now sv; (started, stale, sv2) = begin_run env config now' sv1 in
    (\<exists>effects. reply = Inr (stop_summary UserStop now a, effects) \<and> se_notified effects = in_cancel (sv_inner sv) \<and>
       se_command_to effects = in_active_shade_commands (sv_inner sv) \<and>
       se_reaped effects = in_shade_child (sv_inner sv)) \<and>
    started = Inr (sv_next_run_id sv) \<and> in_history (sv_inner sv2) = in_history (sv_inner sv) @ [stop_summary UserStop now a] \<and>
    (\<forall>info commands. \<not> sa_accepted (fst (try_register_shade (info\<lparr>shi_run_id := rn_id a\<rparr>) commands (sv_inner sv2))))"
  using assms
  by (auto simp: stop_active_def stop_inner_def take_shade_child_def begin_run_def clear_stale_def release_def
      activate_def reset_data_def bump_revision_def attach_local_shared_cache_def stop_summary_def
      try_register_shade_def new_summary_def list_ex_iff image_iff Let_def split: option.splits prod.splits)

definition demo_recording :: run_summary where
  "demo_recording = new_summary 1 \<lparr>rc_label = ''demo'', rc_frequency_hz = 900\<rparr> 0"

definition demo_running :: "unit server" where
  "demo_running = (new_server \<lparr>se_new_lru = (), se_host_cache = None\<rparr> ''/tmp/s'' 0)\<lparr>sv_next_run_id := 2,
     sv_inner := new_inner\<lparr>in_active := Some demo_recording, in_cancel := Some 1\<rparr>\<rparr>"

theorem stop_frees_server_witness:
  "let (reply, sv1) = stop_active 7 demo_running;
       (started, stale, sv2) = begin_run \<lparr>se_new_lru = (), se_host_cache = None\<rparr> \<lparr>rc_label = ''next'', rc_frequency_hz = 1\<rparr> 8 sv1 in
   started = Inr 2 \<and> in_history (sv_inner sv2) = [stop_summary UserStop 7 demo_recording]"
proof -
  have a: "in_active (sv_inner demo_running) = Some demo_recording" by (simp add: demo_running_def)
  have b: "rn_id demo_recording \<notin> rn_id ` set (in_history (sv_inner demo_running))"
    by (simp add: demo_running_def new_inner_def)
  have c: "rn_id demo_recording \<noteq> sv_next_run_id demo_running"
    by (simp add: demo_running_def demo_recording_def new_summary_def)
  have h: "sv_next_run_id demo_running = 2" "in_history (sv_inner demo_running) = []"
    by (simp_all add: demo_running_def new_inner_def)
  show ?thesis
    using stop_frees_server [OF a b c, of 7 "\<lparr>se_new_lru = (), se_host_cache = None\<rparr>"
        "\<lparr>rc_label = ''next'', rc_frequency_hz = 1\<rparr>" 8]
    by (auto simp: h Let_def)
qed

section \<open>The data of a run\<close>

text \<open>What a drained event means to the aggregator and to the binary registry.\<close>

fun agg_event_of :: "ingest_event \<Rightarrow> agg_event option" where
  "agg_event_of (Sample s) = Some (RecPet (wse_tid s) (wse_timestamp_ns s) (wse_user_backtrace s)
     (wse_kernel_backtrace s) (wse_pmu s))"
| "agg_event_of (OnCpuInterval i) = Some (RecInterval (won_tid i) (won_start_ns i) (won_end_ns i) OnCpu)"
| "agg_event_of (OffCpuInterval i) = Some (RecInterval (woff_tid i) (woff_start_ns i) (woff_end_ns i)
     (OffCpu (woff_stack i) (woff_waker_tid i) (woff_waker_user_stack i)))"
| "agg_event_of (Wakeup w) = Some (RecWakeup (ww_timestamp_ns w) (ww_waker_tid w) (ww_wakee_tid w)
     (ww_waker_user_stack w) (ww_waker_kernel_stack w))"
| "agg_event_of (ThreadName _ tid name) = Some (RecName tid name)"
| "agg_event_of _ = None"

fun binary_of :: "ingest_event \<Rightarrow> loaded_binary option" where
  "binary_of (BinaryLoaded b) = Some (loaded_binary_of b)"
| "binary_of _ = None"

definition recorded :: "ingest_event list \<Rightarrow> agg_event list" where
  "recorded events = List.map_filter agg_event_of events"

definition loaded :: "ingest_event list \<Rightarrow> loaded_binary list" where
  "loaded events = List.map_filter binary_of events"

text \<open>The list of images after loading them in order; a new image replaces one at its base.\<close>

definition load_images :: "loaded_binary list \<Rightarrow> loaded_binary list \<Rightarrow> loaded_binary list" where
  "load_images bs images = fold (\<lambda>b images. filter (\<lambda>b'. lb_base_avma b' \<noteq> lb_base_avma b) images @
     [b\<lparr>lb_symbols := sort_by_key sym_start_svma (lb_symbols b)\<rparr>]) bs images"

lemma by_base_insert:
  "br_by_base (insert_binary b reg) = load_images [b] (br_by_base reg)"
  by (simp add: insert_binary_def invalidate_index_def load_images_def Let_def)

lemma apply_event_active:
  assumes "in_active (sv_inner sv) = Some a" "rn_id a = r"
  shows "\<exists>a'. in_active (sv_inner (apply_event r ev sv)) = Some a' \<and> rn_id a' = r"
    and "sv_aggregator (apply_event r ev sv) = fold agg_step (recorded [ev]) (sv_aggregator sv)"
    and "br_by_base (sv_binaries (apply_event r ev sv)) = load_images (loaded [ev]) (br_by_base (sv_binaries sv))"
  using assms
  by (cases ev; auto simp: apply_event_def count_event_def recorded_def loaded_def List.map_filter_simps
      apply_binary_loaded_def apply_binary_unloaded_def apply_target_attached_def ensure_active_run_def
      bump_revision_def by_base_insert set_target_def Let_def load_images_def)+

lemma drain_events:
  assumes "in_active (sv_inner sv) = Some a" "rn_id a = r" "drain r (map (FromChannel \<circ> Received) batches) (counts, sv) = (reason, counts', sv')"
  shows "reason = None \<and> sv_aggregator sv' = fold agg_step (recorded (concat batches)) (sv_aggregator sv) \<and>
    br_by_base (sv_binaries sv') = load_images (loaded (concat batches)) (br_by_base (sv_binaries sv))"
proof -
  have app: "recorded (xs @ ys) = recorded xs @ recorded ys" "loaded (xs @ ys) = loaded xs @ loaded ys"
    "recorded (x # ys) = recorded [x] @ recorded ys" "loaded (x # ys) = loaded [x] @ loaded ys" for xs ys x
    by (simp_all add: recorded_def loaded_def List.map_filter_def)
  have li: "load_images (bs @ cs) images = load_images cs (load_images bs images)" for bs cs images
    by (simp add: load_images_def)
  have batch: "\<exists>counts' sv' a'. apply_batch r events (counts, sv) = (counts', sv') \<and>
      in_active (sv_inner sv') = Some a' \<and> rn_id a' = r \<and>
      sv_aggregator sv' = fold agg_step (recorded events) (sv_aggregator sv) \<and>
      br_by_base (sv_binaries sv') = load_images (loaded events) (br_by_base (sv_binaries sv))"
    if "in_active (sv_inner sv) = Some a" "rn_id a = r" for events counts a and sv :: "'a server"
    using that
  proof (induction events arbitrary: counts sv a)
    case Nil
    then show ?case by (simp add: apply_batch_def recorded_def loaded_def load_images_def List.map_filter_simps)
  next
    case (Cons ev events)
    note one = apply_event_active [OF Cons.prems, of ev]
    from one(1) obtain a1 where a1: "in_active (sv_inner (apply_event r ev sv)) = Some a1" "rn_id a1 = r" by blast
    from Cons.IH [OF a1, of "record_count ev counts"] show ?case
      using one(2,3) by (simp add: apply_batch_def app(3) [of ev events] app(4) [of ev events] li)
  qed
  show ?thesis
    using assms
  proof (induction batches arbitrary: counts sv a)
    case Nil
    then show ?case by (simp add: recorded_def loaded_def load_images_def List.map_filter_simps)
  next
    case (Cons b bs)
    from batch [OF Cons.prems(1,2), of b counts] obtain c1 sv1 a1 where
      b1: "apply_batch r b (counts, sv) = (c1, sv1)" "in_active (sv_inner sv1) = Some a1" "rn_id a1 = r"
        "sv_aggregator sv1 = fold agg_step (recorded b) (sv_aggregator sv)"
        "br_by_base (sv_binaries sv1) = load_images (loaded b) (br_by_base (sv_binaries sv))" by blast
    from Cons.IH [OF b1(2,3)] Cons.prems(3) show ?case by (simp add: b1 app li)
  qed
qed



end
