(* ===== verification/RunSteps.thy ===== *)
theory RunSteps
  imports Runs "HOL-Library.Multiset"
begin

text \<open>
  The server under concurrency: requests, ingest drainers, shade monitors and the watchdog run
  as tasks, and a step is one section of a task under a lock. The state is the server with the
  multiset of tasks in flight, each at the point it has reached; the labels of a run record
  what was claimed, counted, recorded, spawned and reaped.
\<close>

section \<open>Tasks and steps\<close>

datatype task =
  Claiming run_config
| Activating u64 run_config
| ResettingAggregator u64
| ResettingBinaries u64
| Begun u64
| Attaching u64 u64
| Draining u64 u64
| Applying u64 u64 ingest_event
| Notifying "u64 option"
| Finalizing u64 stop_reason
| Reaping
| Monitoring u64 shade_child

datatype label =
  Silent
| Claimed u64
| Counted u64 ingest_event
| Recorded u64 ingest_event
| Spawned u64 shade_child
| Reaped shade_child

text \<open>
  \<open>notify_waiters\<close> wakes the drainers that wait for the handle now; one that is applying an
  event does not hear it.
\<close>

fun wake :: "u64 \<Rightarrow> task \<Rightarrow> task" where
  "wake c (Draining run_id c') = (if c' = c then Finalizing run_id UserStop else Draining run_id c')"
| "wake c t = t"

fun wake_all :: "u64 option \<Rightarrow> task multiset \<Rightarrow> task multiset" where
  "wake_all None T = T"
| "wake_all (Some c) T = image_mset (wake c) T"

definition reaped_label :: "shade_child option \<Rightarrow> label" where
  "reaped_label child = (case child of Some c \<Rightarrow> Reaped c | None \<Rightarrow> Silent)"

fun is_binary_event :: "ingest_event \<Rightarrow> bool" where
  "is_binary_event (BinaryLoaded _) = True"
| "is_binary_event (BinaryUnloaded _) = True"
| "is_binary_event (TargetAttached _ _) = True"
| "is_binary_event _ = False"

abbreviation with_inner :: "'c server \<Rightarrow> inner \<Rightarrow> 'c server" where
  "with_inner sv i \<equiv> sv\<lparr>sv_inner := i\<rparr>"

inductive server_step ::
  "'c server_env \<Rightarrow> 'c server \<times> task multiset \<Rightarrow> label \<Rightarrow> 'c server \<times> task multiset \<Rightarrow> bool" for env where
  begin_clear: "clear_stale (sv_inner sv) = (stale, i) \<Longrightarrow>
    server_step env (sv, T) (reaped_label stale) (with_inner sv i, add_mset (Claiming config) T)"
| begin_take_id:
    "server_step env (sv, add_mset (Claiming config) T) Silent
      (sv\<lparr>sv_next_run_id := sv_next_run_id sv + 1\<rparr>, add_mset (Activating (sv_next_run_id sv) config) T)"
| begin_activate: "activate (new_summary run_id config now) (sv_inner sv) = Inr i \<Longrightarrow>
    server_step env (sv, add_mset (Activating run_id config) T) (Claimed run_id)
      (with_inner sv i, add_mset (ResettingAggregator run_id) T)"
| begin_refused: "activate (new_summary run_id config now) (sv_inner sv) = Inl e \<Longrightarrow>
    server_step env (sv, add_mset (Activating run_id config) T) Silent (sv, T)"
| begin_reset_aggregator:
    "server_step env (sv, add_mset (ResettingAggregator run_id) T) Silent
      (sv\<lparr>sv_aggregator := empty_aggregator\<rparr>, add_mset (ResettingBinaries run_id) T)"
| begin_reset_binaries:
    "server_step env (sv, add_mset (ResettingBinaries run_id) T) Silent
      (attach_local_shared_cache env (bump_revision (sv\<lparr>sv_binaries := new_registry (se_new_lru env)\<rparr>)),
       add_mset (Begun run_id) T)"
| spawn_ok:
    "server_step env (sv, add_mset (Begun run_id) T) (Spawned run_id child)
      (with_inner sv ((sv_inner sv)\<lparr>in_shade_child := Some child\<rparr>), add_mset (Monitoring run_id child) T)"
| spawn_failed:
    "server_step env (sv, add_mset (Begun run_id) T) Silent (discard_start_failed run_id message now sv, T)"
| start_ingest:
    "server_step env (sv, add_mset (Begun run_id) T) Silent (sv, add_mset (Attaching run_id run_id) T)"
| attach_run: "cancel_for_run run_id (sv_inner sv) = Inr c \<Longrightarrow>
    server_step env (sv, T) Silent (sv, add_mset (Attaching run_id c) T)"
| attach_drainer:
    "server_step env (sv, add_mset (Attaching run_id c) T) Silent
      (with_inner sv ((sv_inner sv)\<lparr>in_ingest_attached := True\<rparr>), add_mset (Draining run_id c) T)"
| drain_count: "count_event run_id ev (sv_inner sv) = Some i \<Longrightarrow>
    server_step env (sv, add_mset (Draining run_id c) T) (Counted run_id ev)
      (with_inner sv i, add_mset (Applying run_id c ev) T)"
| drain_record:
    "server_step env (sv, add_mset (Applying run_id c ev) T) (Recorded run_id ev)
      (record_event run_id ev sv, add_mset (Draining run_id c) T)"
| drain_closed:
    "server_step env (sv, add_mset (Draining run_id c) T) Silent
      (with_inner sv (detach_ingest run_id (sv_inner sv)), T)"
| publish: "is_binary_event ev \<Longrightarrow>
    server_step env (sv, T) Silent (record_event run_id ev sv, T)"
| stop: "stop_inner now (sv_inner sv) = Some (snapshot, cancel, commands, i) \<Longrightarrow>
    server_step env (sv, T) Silent (with_inner sv i, add_mset (Notifying cancel) T)"
| notify:
    "server_step env (sv, add_mset (Notifying cancel) T) Silent (sv, add_mset Reaping (wake_all cancel T))"
| finalize: "finalize_inner run_id reason now (sv_inner sv) = (finalized, i) \<Longrightarrow>
    server_step env (sv, add_mset (Finalizing run_id reason) T) Silent
      (sv\<lparr>sv_terminals := hm_remove run_id (sv_terminals sv), sv_inner := i\<rparr>,
       if finalized then add_mset Reaping T else T)"
| reap: "take_shade_child (sv_inner sv) = (child, i) \<Longrightarrow>
    server_step env (sv, add_mset Reaping T) (reaped_label child) (with_inner sv i, T)"
| child_exited: "child_exited_inner run_id (sc_pid child) (sv_inner sv) = (should_finalize, i) \<Longrightarrow>
    server_step env (sv, add_mset (Monitoring run_id child) T) Silent
      (with_inner sv i, if should_finalize then add_mset (Finalizing run_id (exit_reason success state)) T else T)"
| monitor_ends: "server_step env (sv, add_mset (Monitoring run_id child) T) Silent (sv, T)"
| register: "try_register_shade info commands (sv_inner sv) = (ack, i) \<Longrightarrow>
    server_step env (sv, T) Silent (with_inner sv i, T)"
| session_closed: "server_step env (sv, T) Silent (with_inner sv (shade_session_closed pid (sv_inner sv)), T)"

inductive server_run :: "'c server_env \<Rightarrow> label list \<Rightarrow> 'c server \<times> task multiset \<Rightarrow> bool" for env where
  started: "server_run env [] (new_server env socket_path now, {#})"
| continued: "server_run env tr s \<Longrightarrow> server_step env s l s' \<Longrightarrow> server_run env (tr @ [l]) s'"

section \<open>What the sections keep\<close>

text \<open>The ids of the runs and of the tasks about to claim the active slot.\<close>

definition run_ids :: "inner \<Rightarrow> u64 list" where
  "run_ids i = map rn_id (list_runs i)"

definition finished :: "run_summary \<Rightarrow> bool" where
  "finished s \<longleftrightarrow> rn_state s = Stopped \<and> rn_stop_reason s \<noteq> None \<and> rn_stopped_at_unix_ns s \<noteq> None"

text \<open>
  The slots of the registry: nothing is held for no run; a recording run has its cancel handle
  and no end, a stopped run that is still active has an end and no handle, and a shade in the
  slot is one of the active run.
\<close>

fun slots_ok :: "run_summary option \<Rightarrow> u64 option \<Rightarrow> shade_info option \<Rightarrow> bool" where
  "slots_ok None cancel shade \<longleftrightarrow> cancel = None \<and> shade = None"
| "slots_ok (Some a) cancel shade \<longleftrightarrow>
     (if rn_state a = Recording
      then cancel = Some (rn_id a) \<and> rn_stop_reason a = None \<and> rn_stopped_at_unix_ns a = None
      else cancel = None \<and> finished a) \<and>
     (case shade of None \<Rightarrow> True | Some info \<Rightarrow> shi_run_id info = rn_id a)"

definition active_ok :: "inner \<Rightarrow> bool" where
  "active_ok i \<longleftrightarrow> slots_ok (in_active i) (in_cancel i) (in_active_shade i) \<and>
     (in_active_shade_commands i = None \<longleftrightarrow> in_active_shade i = None) \<and> list_all finished (in_history i)"

fun activating :: "task \<Rightarrow> u64 option" where
  "activating (Activating run_id _) = Some run_id"
| "activating _ = None"

definition claims :: "task multiset \<Rightarrow> u64 multiset" where
  "claims T = {#the (activating t). t \<in># filter_mset (\<lambda>t. activating t \<noteq> None) T#}"

named_theorems section_defs "the sections of code that hold the lock"

lemmas [section_defs] = clear_stale_def activate_def new_summary_def finalize_inner_def discard_inner_def
  stop_inner_def stop_summary_def detach_ingest_def try_register_shade_def shade_session_closed_def
  child_exited_inner_def count_event_def take_shade_child_def release_def

lemma count_in_summary_fields [simp]:
  "rn_id (count_in_summary ev s) = rn_id s" "rn_state (count_in_summary ev s) = rn_state s"
  "rn_stop_reason (count_in_summary ev s) = rn_stop_reason s"
  "rn_stopped_at_unix_ns (count_in_summary ev s) = rn_stopped_at_unix_ns s"
  by (cases ev; simp)+

lemma finished_count_in_summary [simp]: "finished (count_in_summary ev s) = finished s"
  by (simp add: finished_def)

text \<open>Which sections move a run, and that no section loses one.\<close>

lemma run_ids_sections:
  "clear_stale i = (stale, i') \<Longrightarrow> distinct (run_ids i) \<Longrightarrow> mset (run_ids i') = mset (run_ids i)"
  "activate (new_summary r config now) i = Inr i' \<Longrightarrow> mset (run_ids i') = add_mset r (mset (run_ids i))"
  "finalize_inner r reason now i = (flag, i') \<Longrightarrow> mset (run_ids i') = mset (run_ids i)"
  "mset (run_ids (discard_inner r message now i)) = mset (run_ids i)"
  "stop_inner now i = Some (snapshot, cancel, commands, i') \<Longrightarrow> mset (run_ids i') = mset (run_ids i)"
  "mset (run_ids (detach_ingest r i)) = mset (run_ids i)"
  "try_register_shade info ch i = (ack, i') \<Longrightarrow> mset (run_ids i') = mset (run_ids i)"
  "mset (run_ids (shade_session_closed pid i)) = mset (run_ids i)"
  "child_exited_inner r pid i = (flag, i') \<Longrightarrow> mset (run_ids i') = mset (run_ids i)"
  "count_event r ev i = Some i' \<Longrightarrow> mset (run_ids i') = mset (run_ids i)"
  "take_shade_child i = (child, i') \<Longrightarrow> mset (run_ids i') = mset (run_ids i)"
  by (auto simp: section_defs run_ids_def list_runs_def list_ex_iff Let_def image_iff split: option.splits if_splits)

lemma active_ok_clear: "clear_stale i = (stale, i') \<Longrightarrow> active_ok i \<Longrightarrow> active_ok i'"
  by (cases "in_active i") (auto simp: clear_stale_def release_def active_ok_def split: if_splits)

lemma active_ok_activate:
  "activate (new_summary r config now) i = Inr i' \<Longrightarrow> active_ok i \<Longrightarrow> active_ok i'"
  by (cases "in_active i") (auto simp: activate_def new_summary_def active_ok_def)

lemma finished_stop_summary: "finished (stop_summary reason now s)"
  by (simp add: stop_summary_def finished_def)

lemma not_stopped: "rn_state s \<noteq> Stopped \<longleftrightarrow> rn_state s = Recording"
  by (cases "rn_state s") simp_all

lemma active_ok_finalize: "finalize_inner r reason now i = (flag, i') \<Longrightarrow> active_ok i \<Longrightarrow> active_ok i'"
  by (cases "in_active i")
    (auto simp: finalize_inner_def release_def active_ok_def finished_stop_summary Let_def not_stopped split: if_splits)

lemma active_ok_discard: "active_ok i \<Longrightarrow> active_ok (discard_inner r message now i)"
  by (cases "in_active i") (auto simp: discard_inner_def release_def active_ok_def finished_stop_summary)

lemma stop_summary_fields [simp]:
  "rn_id (stop_summary reason now s) = rn_id s" "rn_state (stop_summary reason now s) = Stopped"
  by (simp_all add: stop_summary_def)

lemma active_ok_stop: "stop_inner now i = Some (snapshot, cancel, commands, i') \<Longrightarrow> active_ok i \<Longrightarrow> active_ok i'"
  by (cases "in_active i") (auto simp: stop_inner_def Let_def active_ok_def finished_stop_summary)

lemma active_ok_detach: "active_ok i \<Longrightarrow> active_ok (detach_ingest r i)"
  by (cases "in_active i") (auto simp: detach_ingest_def active_ok_def)

lemma active_ok_register: "try_register_shade info ch i = (ack, i') \<Longrightarrow> active_ok i \<Longrightarrow> active_ok i'"
  by (cases "in_active i") (auto simp: try_register_shade_def active_ok_def split: if_splits)

lemma active_ok_closed: "active_ok i \<Longrightarrow> active_ok (shade_session_closed pid i)"
  by (cases "in_active i"; cases "in_active_shade i") (auto simp: shade_session_closed_def active_ok_def)

lemma active_ok_set_child: "active_ok (i\<lparr>in_shade_child := child\<rparr>) = active_ok i"
  by (simp add: active_ok_def)

lemma active_ok_set_ingest: "active_ok (i\<lparr>in_ingest_attached := flag\<rparr>) = active_ok i"
  by (simp add: active_ok_def)

lemma active_ok_exited: "child_exited_inner r pid i = (flag, i') \<Longrightarrow> active_ok i \<Longrightarrow> active_ok i'"
  by (auto simp: child_exited_inner_def Let_def active_ok_set_child split: option.splits if_splits)

lemma active_ok_take: "take_shade_child i = (child, i') \<Longrightarrow> active_ok i \<Longrightarrow> active_ok i'"
  by (auto simp: take_shade_child_def active_ok_set_child)

text \<open>A section that only rewrites fields of the active run which the invariant does not read.\<close>

lemma active_ok_update:
  assumes "in_active i = Some a" "rn_id a' = rn_id a" "rn_state a' = rn_state a"
    "rn_stop_reason a' = rn_stop_reason a" "rn_stopped_at_unix_ns a' = rn_stopped_at_unix_ns a" "active_ok i"
  shows "active_ok (i\<lparr>in_active := Some a'\<rparr>)"
proof -
  have "finished a' = finished a" using assms by (simp add: finished_def)
  then show ?thesis using assms by (cases "in_active_shade i") (simp_all add: active_ok_def)
qed

lemma active_ok_count: "count_event r ev i = Some i' \<Longrightarrow> active_ok i \<Longrightarrow> active_ok i'"
  by (auto simp: count_event_def active_ok_update split: option.splits if_splits)

lemmas active_ok_sections = active_ok_clear active_ok_activate active_ok_finalize active_ok_discard
  active_ok_stop active_ok_detach active_ok_register active_ok_closed active_ok_exited active_ok_take active_ok_count

text \<open>Recording an event leaves the registry as it is, but for the target pid.\<close>

lemma record_event_inner:
  "sv_inner (record_event r ev sv) = sv_inner sv \<or>
   (\<exists>a pid. in_active (sv_inner sv) = Some a \<and>
     sv_inner (record_event r ev sv) = (sv_inner sv)\<lparr>in_active := Some (a\<lparr>rn_target_pid := Some pid\<rparr>)\<rparr>)"
  by (cases ev) (auto simp: apply_binary_loaded_def apply_binary_unloaded_def apply_target_attached_def
      bump_revision_def split: sum.splits option.splits)

lemma record_event_keeps:
  "mset (run_ids (sv_inner (record_event r ev sv))) = mset (run_ids (sv_inner sv))"
  "active_ok (sv_inner sv) \<Longrightarrow> active_ok (sv_inner (record_event r ev sv))"
  using record_event_inner [of r ev sv] by (auto simp: run_ids_def list_runs_def simp del: record_event.simps intro!: active_ok_update)

lemma record_event_fields [simp]:
  "sv_next_run_id (record_event r ev sv) = sv_next_run_id sv"
  by (cases ev) (auto simp: apply_binary_loaded_def apply_binary_unloaded_def apply_target_attached_def
      bump_revision_def split: sum.splits option.splits)

section \<open>The registry under every interleaving\<close>

lemma claims_add [simp]:
  "claims (add_mset t T) = (case activating t of Some r \<Rightarrow> add_mset r (claims T) | None \<Rightarrow> claims T)"
  by (simp add: claims_def split: option.splits)

lemma claims_empty [simp]: "claims {#} = {#}"
  by (simp add: claims_def)

lemma activating_wake [simp]: "activating (wake c t) = activating t"
  by (cases t) simp_all

lemma claims_wake_all [simp]: "claims (wake_all c T) = claims T"
proof (cases c)
  case (Some r)
  then show ?thesis by (induction T) (simp_all split: option.splits)
qed simp

definition used_ids :: "'c server \<times> task multiset \<Rightarrow> u64 multiset" where
  "used_ids s = mset (run_ids (sv_inner (fst s))) + claims (snd s)"

definition registry_inv :: "nat \<Rightarrow> 'c server \<times> task multiset \<Rightarrow> bool" where
  "registry_inv n s \<longleftrightarrow> active_ok (sv_inner (fst s)) \<and> unat (sv_next_run_id (fst s)) \<le> Suc n \<and>
     (\<forall>r. count (used_ids s) r \<le> 1) \<and> (\<forall>r \<in># used_ids s. r < sv_next_run_id (fst s))"

fun claimed_id :: "label \<Rightarrow> u64 list" where
  "claimed_id (Claimed r) = [r]"
| "claimed_id _ = []"

lemma registry_inv_same:
  assumes "registry_inv n s" "active_ok (sv_inner (fst s'))" "used_ids s' \<subseteq># used_ids s"
    "sv_next_run_id (fst s') = sv_next_run_id (fst s)"
  shows "registry_inv (Suc n) s'"
  using assms mset_subset_eq_count [OF assms(3)] set_mset_mono [OF assms(3)]
  unfolding registry_inv_def by (fastforce intro: le_trans)

lemma registry_inv_distinct: "registry_inv n s \<Longrightarrow> distinct (run_ids (sv_inner (fst s)))"
proof -
  assume inv: "registry_inv n s"
  let ?ids = "run_ids (sv_inner (fst s))"
  have "count (mset ?ids) r \<le> 1" for r
    using inv by (auto simp: registry_inv_def used_ids_def intro: add_leD1)
  moreover have "0 < count (mset ?ids) r" if "r \<in> set ?ids" for r using that by simp
  ultimately have "count (mset ?ids) r = (if r \<in> set ?ids then 1 else 0)" for r
    by (cases "r \<in> set ?ids") (simp_all add: le_antisym Suc_le_eq not_in_iff)
  then show ?thesis by (simp add: distinct_count_atmost_1)
qed

lemma attach_local_shared_cache_inner [simp]:
  "sv_inner (attach_local_shared_cache env sv) = sv_inner sv"
  "sv_next_run_id (attach_local_shared_cache env sv) = sv_next_run_id sv"
  "sv_aggregator (attach_local_shared_cache env sv) = sv_aggregator sv"
  by (simp_all add: attach_local_shared_cache_def split: option.splits)

lemma bump_revision_fields [simp]:
  "sv_inner (bump_revision sv) = sv_inner sv" "sv_next_run_id (bump_revision sv) = sv_next_run_id sv"
  "sv_aggregator (bump_revision sv) = sv_aggregator sv"
  by (simp_all add: bump_revision_def)

lemma run_ids_update [simp]:
  "run_ids (i\<lparr>in_shade_child := child\<rparr>) = run_ids i" "run_ids (i\<lparr>in_ingest_attached := flag\<rparr>) = run_ids i"
  by (simp_all add: run_ids_def list_runs_def)

lemma reaped_label_claims [simp]: "claimed_id (reaped_label child) = []"
  by (simp add: reaped_label_def split: option.splits)

lemma registry_inv_keep:
  assumes "registry_inv n s" "active_ok (sv_inner (fst s)) \<Longrightarrow> active_ok (sv_inner (fst s'))"
    "mset (run_ids (sv_inner (fst s'))) = mset (run_ids (sv_inner (fst s)))"
    "claims (snd s') \<subseteq># claims (snd s)" "sv_next_run_id (fst s') = sv_next_run_id (fst s)" "claimed_id l = []"
  shows "registry_inv (Suc n) s' \<and>
    mset (run_ids (sv_inner (fst s'))) = mset (claimed_id l) + mset (run_ids (sv_inner (fst s)))"
proof -
  have "registry_inv (Suc n) s'"
    by (rule registry_inv_same [OF assms(1)]) (use assms in \<open>auto simp: registry_inv_def used_ids_def\<close>)
  then show ?thesis using assms(3,6) by simp
qed

lemma discard_start_failed_fields [simp]:
  "sv_inner (discard_start_failed r message now sv) = discard_inner r message now (sv_inner sv)"
  "sv_next_run_id (discard_start_failed r message now sv) = sv_next_run_id sv"
  by (simp_all add: discard_start_failed_def)

lemma step_ids:
  assumes "server_step env s l s'" "registry_inv n s" "Suc (Suc n) < 2 ^ 64"
  shows "registry_inv (Suc n) s' \<and> mset (run_ids (sv_inner (fst s'))) = mset (claimed_id l) + mset (run_ids (sv_inner (fst s)))"
  using assms(1)
proof (cases rule: server_step.cases)
  case (begin_take_id sv config T)
  have "unat (sv_next_run_id sv + 1) = Suc (unat (sv_next_run_id sv))"
    using assms(2,3) begin_take_id(1) by (auto simp: registry_inv_def unat_word_ariths)
  then show ?thesis using assms(2) begin_take_id
    by (auto simp: registry_inv_def used_ids_def word_less_nat_alt less_Suc_eq not_less_iff_gr_or_eq)
next
  case (begin_activate run_id config now sv i T)
  have ids: "mset (run_ids i) = add_mset run_id (mset (run_ids (sv_inner sv)))"
    by (rule run_ids_sections(2) [OF begin_activate(4)])
  have ok: "active_ok (sv_inner sv) \<Longrightarrow> active_ok i" by (rule active_ok_activate [OF begin_activate(4)])
  have "registry_inv (Suc n) s'"
    by (rule registry_inv_same [OF assms(2)])
      (use assms(2) begin_activate ok ids in \<open>auto simp: registry_inv_def used_ids_def\<close>)
  then show ?thesis using begin_activate ids by simp
next
  case (begin_clear sv stale i T config)
  have d: "distinct (run_ids (sv_inner sv))" using registry_inv_distinct [OF assms(2)] begin_clear(1) by simp
  show ?thesis
    by (rule registry_inv_keep [OF assms(2)])
      (use begin_clear run_ids_sections(1) [OF begin_clear(4) d] active_ok_clear [OF begin_clear(4)] in simp_all)
qed (rule registry_inv_keep [OF assms(2)];
    simp add: run_ids_sections(4,6,8) record_event_keeps active_ok_set_child active_ok_set_ingest
      active_ok_detach active_ok_closed active_ok_discard;
    blast intro: run_ids_sections(3,5,7,9,10,11) active_ok_sections)+

lemma registry_inv_start: "registry_inv 0 (new_server env socket_path now, {#})"
  by (simp add: registry_inv_def used_ids_def new_server_def new_inner_def active_ok_def run_ids_def list_runs_def)

lemma server_run_inv:
  assumes "server_run env tr s" "Suc (length tr) < 2 ^ 64"
  shows "registry_inv (length tr) s \<and> mset (run_ids (sv_inner (fst s))) = mset (concat (map claimed_id tr))"
  using assms
proof (induction rule: server_run.induct)
  case (started socket_path now)
  show ?case using registry_inv_start
    by (simp add: new_server_def new_inner_def run_ids_def list_runs_def) blast
next
  case (continued tr s l s')
  then have IH: "registry_inv (length tr) s" "mset (run_ids (sv_inner (fst s))) = mset (concat (map claimed_id tr))"
    by simp_all
  have "Suc (Suc (length tr)) < 2 ^ 64" using continued.prems by simp
  from step_ids [OF continued.hyps(2) IH(1) this] IH(2) show ?case by (simp add: union_commute)
qed

section \<open>Tallies\<close>

text \<open>The counters of the runs, and the events that were counted for a run.\<close>

definition tally :: "run_summary \<Rightarrow> u64 \<times> u64 \<times> u64" where
  "tally s = (rn_id s, rn_pet_samples s, rn_off_cpu_intervals s)"

definition tallies :: "inner \<Rightarrow> (u64 \<times> u64 \<times> u64) set" where
  "tallies i = tally ` set (list_runs i)"

fun is_sample :: "ingest_event \<Rightarrow> bool" where
  "is_sample (Sample _) = True"
| "is_sample _ = False"

fun is_off_cpu :: "ingest_event \<Rightarrow> bool" where
  "is_off_cpu (OffCpuInterval _) = True"
| "is_off_cpu _ = False"

definition bump_tally :: "u64 \<Rightarrow> ingest_event \<Rightarrow> u64 \<times> u64 \<times> u64 \<Rightarrow> u64 \<times> u64 \<times> u64" where
  "bump_tally r ev = (\<lambda>(r', p, n). if r' = r then (r', p + of_bool (is_sample ev), n + of_bool (is_off_cpu ev)) else (r', p, n))"

fun counted_of :: "u64 \<Rightarrow> label \<Rightarrow> ingest_event list" where
  "counted_of r (Counted r' ev) = (if r' = r then [ev] else [])"
| "counted_of _ _ = []"

definition counted_events :: "u64 \<Rightarrow> label list \<Rightarrow> ingest_event list" where
  "counted_events r tr = concat (map (counted_of r) tr)"

fun tally_step :: "label \<Rightarrow> (u64 \<times> u64 \<times> u64) set \<Rightarrow> (u64 \<times> u64 \<times> u64) set" where
  "tally_step (Claimed r) ts = insert (r, 0, 0) ts"
| "tally_step (Counted r ev) ts = bump_tally r ev ` ts"
| "tally_step _ ts = ts"

lemma tally_count: "tally (count_in_summary ev s) = bump_tally (rn_id s) ev (tally s)"
  by (cases ev) (simp_all add: tally_def bump_tally_def)

lemma tally_stop [simp]: "tally (stop_summary reason now s) = tally s"
  by (simp add: tally_def stop_summary_def)

lemma tallies_sections:
  "distinct (run_ids i) \<Longrightarrow> clear_stale i = (stale, i') \<Longrightarrow> tallies i' = tallies i"
  "activate (new_summary r config now) i = Inr i' \<Longrightarrow> tallies i' = insert (r, 0, 0) (tallies i)"
  "finalize_inner r reason now i = (flag, i') \<Longrightarrow> tallies i' = tallies i"
  "tallies (discard_inner r message now i) = tallies i"
  "stop_inner now i = Some (snapshot, cancel, commands, i') \<Longrightarrow> tallies i' = tallies i"
  "tallies (detach_ingest r i) = tallies i"
  "try_register_shade info ch i = (ack, i') \<Longrightarrow> tallies i' = tallies i"
  "tallies (shade_session_closed pid i) = tallies i"
  "child_exited_inner r pid i = (flag, i') \<Longrightarrow> tallies i' = tallies i"
  "take_shade_child i = (child, i') \<Longrightarrow> tallies i' = tallies i"
proof -
  show "distinct (run_ids i) \<Longrightarrow> clear_stale i = (stale, i') \<Longrightarrow> tallies i' = tallies i"
    by (auto simp: clear_stale_def release_def tallies_def list_runs_def run_ids_def list_ex_iff image_iff
        split: option.splits if_splits)
  show "activate (new_summary r config now) i = Inr i' \<Longrightarrow> tallies i' = insert (r, 0, 0) (tallies i)"
    by (auto simp: activate_def new_summary_def tallies_def list_runs_def tally_def split: if_splits)
  show "finalize_inner r reason now i = (flag, i') \<Longrightarrow> tallies i' = tallies i"
    by (auto simp: finalize_inner_def release_def tallies_def list_runs_def Let_def split: option.splits if_splits)
  show "tallies (discard_inner r message now i) = tallies i"
    by (simp add: discard_inner_def release_def tallies_def list_runs_def split: option.splits)
  show "stop_inner now i = Some (snapshot, cancel, commands, i') \<Longrightarrow> tallies i' = tallies i"
    by (auto simp: stop_inner_def tallies_def list_runs_def Let_def split: option.splits)
qed (auto simp: detach_ingest_def try_register_shade_def shade_session_closed_def child_exited_inner_def
    take_shade_child_def tallies_def list_runs_def Let_def split: option.splits if_splits)

lemma tallies_count:
  assumes "count_event r ev i = Some i'" "distinct (run_ids i)"
  shows "tallies i' = bump_tally r ev ` tallies i" and "r \<in> set (run_ids i)"
proof -
  from assms(1) obtain a where a: "in_active i = Some a" "rn_id a = r" "i' = i\<lparr>in_active := Some (count_in_summary ev a)\<rparr>"
    by (auto simp: count_event_def split: option.splits if_splits)
  have "bump_tally r ev (tally s) = tally s" if "s \<in> set (in_history i)" for s
    using that assms(2) a by (auto simp: run_ids_def list_runs_def bump_tally_def tally_def image_iff)
  then show "tallies i' = bump_tally r ev ` tallies i"
    using a by (simp add: tallies_def list_runs_def tally_count image_Un image_image cong: image_cong)
  show "r \<in> set (run_ids i)" using a by (simp add: run_ids_def list_runs_def)
qed

lemma record_event_tallies: "tallies (sv_inner (record_event r ev sv)) = tallies (sv_inner sv)"
  using record_event_inner [of r ev sv] by (auto simp: tallies_def list_runs_def tally_def)

lemma tallies_update [simp]:
  "tallies (i\<lparr>in_shade_child := child\<rparr>) = tallies i" "tallies (i\<lparr>in_ingest_attached := flag\<rparr>) = tallies i"
  by (simp_all add: tallies_def list_runs_def)

lemma tally_step_reaped [simp]: "tally_step (reaped_label child) ts = ts"
  by (simp add: reaped_label_def split: option.splits)

lemma step_tallies:
  assumes "server_step env s l s'" "distinct (run_ids (sv_inner (fst s)))"
  shows "tallies (sv_inner (fst s')) = tally_step l (tallies (sv_inner (fst s))) \<and>
    (\<forall>r ev. l = Counted r ev \<longrightarrow> r \<in> set (run_ids (sv_inner (fst s))))"
  using assms(1)
proof (cases rule: server_step.cases)
  case (drain_count run_id ev sv i c T)
  then show ?thesis using tallies_count [OF drain_count(4)] assms(2) by simp
next
  case (begin_clear sv stale i T config)
  then show ?thesis using tallies_sections(1) [OF _ begin_clear(4)] assms(2)
    by (simp add: reaped_label_def split: option.splits)
next
  case (begin_activate run_id config now sv i T)
  then show ?thesis using tallies_sections(2) [OF begin_activate(4)] by simp
next
  case (finalize run_id reason now sv finalized i T)
  then show ?thesis using tallies_sections(3) [OF finalize(4)] by simp
next
  case (stop now sv snapshot cancel commands i T)
  then show ?thesis using tallies_sections(5) [OF stop(4)] by simp
next
  case (register info commands sv ack i T)
  then show ?thesis using tallies_sections(7) [OF register(4)] by simp
next
  case (child_exited run_id child sv should_finalize i T success state)
  then show ?thesis using tallies_sections(9) [OF child_exited(4)] by simp
next
  case (reap sv child i T)
  then show ?thesis using tallies_sections(10) [OF reap(4)] by (simp add: reaped_label_def split: option.splits)
qed (simp_all add: tallies_sections(4,6,8) record_event_tallies)

lemma tally_ids: "set (run_ids i) = fst ` tallies i"
  by (simp add: run_ids_def tallies_def tally_def image_image)

definition tally_of :: "label list \<Rightarrow> u64 \<Rightarrow> u64 \<times> u64 \<times> u64" where
  "tally_of tr r = (r, of_nat (length (filter is_sample (counted_events r tr))),
     of_nat (length (filter is_off_cpu (counted_events r tr))))"

lemma tally_of_snoc: "tally_of (tr @ [Counted r' ev]) r = bump_tally r' ev (tally_of tr r)"
  by (simp add: tally_of_def counted_events_def bump_tally_def)

lemma tally_of_other: "counted_of r l = [] \<Longrightarrow> tally_of (tr @ [l]) r = tally_of tr r"
  by (simp add: tally_of_def counted_events_def)

lemma server_run_tallies:
  assumes "server_run env tr s" "Suc (length tr) < 2 ^ 64"
  shows "tallies (sv_inner (fst s)) = tally_of tr ` set (run_ids (sv_inner (fst s))) \<and>
    (\<forall>r. counted_events r tr \<noteq> [] \<longrightarrow> r \<in> set (run_ids (sv_inner (fst s))))"
  using assms
proof (induction rule: server_run.induct)
  case (started socket_path now)
  then show ?case by (simp add: new_server_def new_inner_def tallies_def run_ids_def list_runs_def counted_events_def)
next
  case (continued tr s l s')
  let ?i = "sv_inner (fst s)" and ?i' = "sv_inner (fst s')"
  have IH: "tallies ?i = tally_of tr ` set (run_ids ?i)" "\<forall>r. counted_events r tr \<noteq> [] \<longrightarrow> r \<in> set (run_ids ?i)"
    using continued by simp_all
  have inv: "registry_inv (length tr) s" using server_run_inv [OF continued.hyps(1)] continued.prems by simp
  have "distinct (run_ids ?i)" using registry_inv_distinct [OF inv] .
  note st = step_tallies [OF continued.hyps(2) this]
  have ids: "mset (run_ids ?i') = mset (claimed_id l) + mset (run_ids ?i)" and inv': "registry_inv (Suc (length tr)) s'"
    using step_ids [OF continued.hyps(2) inv] continued.prems by simp_all
  have set_ids: "set (run_ids ?i') = set (claimed_id l) \<union> set (run_ids ?i)"
    using arg_cong [OF ids, of set_mset] by simp
  show ?case
  proof (cases l)
    case (Counted r ev)
    then have "counted_events r' (tr @ [l]) \<noteq> [] \<longrightarrow> r' \<in> set (run_ids ?i')" for r'
      using st IH(2) set_ids by (auto simp: counted_events_def)
    then show ?thesis using Counted st IH(1) set_ids by (simp add: image_image tally_of_snoc)
  next
    case (Claimed r)
    have "distinct (run_ids ?i')" using registry_inv_distinct [OF inv'] .
    moreover have "mset (run_ids ?i') = mset (r # run_ids ?i)" using ids Claimed by simp
    ultimately have "distinct (r # run_ids ?i)" by (metis mset_eq_imp_distinct_iff)
    then have "counted_events r tr = []" using IH(2) by auto
    then have "tally_of tr r = (r, 0, 0)" by (simp add: tally_of_def)
    moreover have "counted_events r' (tr @ [l]) = counted_events r' tr" for r'
      using Claimed by (simp add: counted_events_def)
    ultimately show ?thesis using Claimed st IH set_ids by (simp add: tally_of_other)
  qed (use st IH set_ids in \<open>simp_all add: tally_of_other counted_events_def\<close>)
qed

section \<open>Properties\<close>


text \<open>
  The summary of a run counts the samples and off-CPU intervals that its drainers were given,
  modulo the width of the counters, and no event of another run.\<close>

theorem run_counts_exact:
  assumes "server_run env tr (sv, T)" "Suc (length tr) < 2 ^ 64" "s \<in> set (list_runs (sv_inner sv))"
  shows "rn_pet_samples s = of_nat (length (filter is_sample (counted_events (rn_id s) tr))) \<and>
    rn_off_cpu_intervals s = of_nat (length (filter is_off_cpu (counted_events (rn_id s) tr)))"
proof -
  have "tally s \<in> tally_of tr ` set (run_ids (sv_inner sv))"
    using server_run_tallies [OF assms(1,2)] assms(3) by (auto simp: tallies_def)
  then show ?thesis by (auto simp: tally_def tally_of_def)
qed

section \<open>Concrete runs\<close>

text \<open>A run that reaches a registry, an aggregator, a next id and tasks.\<close>

definition reach :: "'c server_env \<Rightarrow> label list \<Rightarrow> inner \<Rightarrow> aggregator \<Rightarrow> u64 \<Rightarrow> task multiset \<Rightarrow> bool" where
  "reach env tr i ag n T \<longleftrightarrow> (\<exists>sv. server_run env tr (sv, T) \<and> sv_inner sv = i \<and>
     sv_aggregator sv = ag \<and> sv_next_run_id sv = n)"

lemma reach_start: "reach env [] new_inner empty_aggregator 1 {#}"
  unfolding reach_def by (rule exI, rule conjI, rule server_run.started) (simp_all add: new_server_def)

lemma reach_step:
  assumes "reach env tr i ag n T"
    "\<And>sv. sv_inner sv = i \<Longrightarrow> sv_aggregator sv = ag \<Longrightarrow> sv_next_run_id sv = n \<Longrightarrow>
      \<exists>sv'. server_step env (sv, T) l (sv', T') \<and> sv_inner sv' = i' \<and> sv_aggregator sv' = ag' \<and> sv_next_run_id sv' = n'"
  shows "reach env (tr @ [l]) i' ag' n' T'"
proof -
  from assms(1) obtain sv where sv: "server_run env tr (sv, T)" "sv_inner sv = i" "sv_aggregator sv = ag"
    "sv_next_run_id sv = n" by (auto simp: reach_def)
  from assms(2) [OF sv(2-4)] obtain sv' where "server_step env (sv, T) l (sv', T')" "sv_inner sv' = i'"
    "sv_aggregator sv' = ag'" "sv_next_run_id sv' = n'" by blast
  with server_run.continued [OF sv(1)] show ?thesis unfolding reach_def by blast
qed

lemma reach_clear:
  "reach env tr i ag n T \<Longrightarrow> clear_stale i = (stale, i') \<Longrightarrow>
   reach env (tr @ [reaped_label stale]) i' ag n (add_mset (Claiming config) T)"
  by (erule reach_step, rule exI, rule conjI, rule server_step.begin_clear) simp_all

lemma reach_take_id:
  "reach env tr i ag n (add_mset (Claiming config) T) \<Longrightarrow>
   reach env (tr @ [Silent]) i ag (n + 1) (add_mset (Activating n config) T)"
proof (erule reach_step)
  fix sv :: "'a server"
  assume sv: "sv_inner sv = i" "sv_aggregator sv = ag" "sv_next_run_id sv = n"
  show "\<exists>sv'. server_step env (sv, add_mset (Claiming config) T) Silent (sv', add_mset (Activating n config) T) \<and>
      sv_inner sv' = i \<and> sv_aggregator sv' = ag \<and> sv_next_run_id sv' = n + 1"
    using server_step.begin_take_id [of env sv config T] sv
    by (intro exI [of _ "sv\<lparr>sv_next_run_id := n + 1\<rparr>"]) simp
qed

lemma reach_activate:
  "reach env tr i ag n (add_mset (Activating r config) T) \<Longrightarrow> activate (new_summary r config now) i = Inr i' \<Longrightarrow>
   reach env (tr @ [Claimed r]) i' ag n (add_mset (ResettingAggregator r) T)"
  by (erule reach_step, rule exI, rule conjI, rule server_step.begin_activate) simp_all

lemma reach_reset_aggregator:
  "reach env tr i ag n (add_mset (ResettingAggregator r) T) \<Longrightarrow>
   reach env (tr @ [Silent]) i empty_aggregator n (add_mset (ResettingBinaries r) T)"
  by (erule reach_step, rule exI, rule conjI, rule server_step.begin_reset_aggregator) simp_all

lemma reach_reset_binaries:
  "reach env tr i ag n (add_mset (ResettingBinaries r) T) \<Longrightarrow> reach env (tr @ [Silent]) i ag n (add_mset (Begun r) T)"
  by (erule reach_step, rule exI, rule conjI, rule server_step.begin_reset_binaries) simp_all

lemma reach_spawn:
  "reach env tr i ag n (add_mset (Begun r) T) \<Longrightarrow>
   reach env (tr @ [Spawned r child]) (i\<lparr>in_shade_child := Some child\<rparr>) ag n (add_mset (Monitoring r child) T)"
  by (erule reach_step, rule exI, rule conjI, rule server_step.spawn_ok) simp_all

lemma reach_ingest:
  "reach env tr i ag n (add_mset (Begun r) T) \<Longrightarrow> reach env (tr @ [Silent]) i ag n (add_mset (Attaching r r) T)"
  by (erule reach_step, rule exI, rule conjI, rule server_step.start_ingest) simp_all

lemma reach_drainer:
  "reach env tr i ag n (add_mset (Attaching r c) T) \<Longrightarrow>
   reach env (tr @ [Silent]) (i\<lparr>in_ingest_attached := True\<rparr>) ag n (add_mset (Draining r c) T)"
  by (erule reach_step, rule exI, rule conjI, rule server_step.attach_drainer) simp_all

lemma reach_count:
  "reach env tr i ag n (add_mset (Draining r c) T) \<Longrightarrow> count_event r ev i = Some i' \<Longrightarrow>
   reach env (tr @ [Counted r ev]) i' ag n (add_mset (Applying r c ev) T)"
  by (erule reach_step, rule exI, rule conjI, rule server_step.drain_count) simp_all

lemma reach_record:
  "reach env tr i ag n (add_mset (Applying r c (Sample s)) T) \<Longrightarrow>
   reach env (tr @ [Recorded r (Sample s)]) i (record_in_aggregator (Sample s) ag) n (add_mset (Draining r c) T)"
  by (erule reach_step, rule exI, rule conjI, rule server_step.drain_record) simp_all

lemma reach_stop:
  "reach env tr i ag n T \<Longrightarrow> stop_inner now i = Some (snapshot, cancel, commands, i') \<Longrightarrow>
   reach env (tr @ [Silent]) i' ag n (add_mset (Notifying cancel) T)"
  by (erule reach_step, rule exI, rule conjI, rule server_step.stop) simp_all

lemma reach_notify:
  "reach env tr i ag n (add_mset (Notifying cancel) T) \<Longrightarrow> reach env (tr @ [Silent]) i ag n (add_mset Reaping (wake_all cancel T))"
  by (erule reach_step, rule exI, rule conjI, rule server_step.notify) simp_all

lemma reach_reap:
  "reach env tr i ag n (add_mset Reaping T) \<Longrightarrow> take_shade_child i = (child, i') \<Longrightarrow>
   reach env (tr @ [reaped_label child]) i' ag n T"
  by (erule reach_step, rule exI, rule conjI, rule server_step.reap) simp_all

text \<open>A run of the server from the call of \<open>begin_run\<close> to its return.\<close>

lemma reach_begin:
  assumes "reach env tr i ag n T" "clear_stale i = (stale, i1)" "activate (new_summary n config now) i1 = Inr i2"
  shows "reach env (tr @ [reaped_label stale, Silent, Claimed n, Silent, Silent]) i2 empty_aggregator (n + 1)
    (add_mset (Begun n) T)"
  using reach_reset_binaries [OF reach_reset_aggregator [OF reach_activate [OF reach_take_id
    [OF reach_clear [OF assms(1,2)]] assms(3)]]]
  by simp

definition demo_server_env :: "unit server_env" where
  "demo_server_env = \<lparr>se_new_lru = (), se_host_cache = None\<rparr>"

definition demo_config :: run_config where
  "demo_config = \<lparr>rc_label = ''demo'', rc_frequency_hz = 900\<rparr>"

definition demo_sample :: ingest_event where
  "demo_sample = Sample \<lparr>wse_timestamp_ns = 5, wse_pid = 40, wse_tid = 41, wse_kernel_backtrace = [],
     wse_user_backtrace = [10], wse_pmu = demo_pmu\<rparr>"

text \<open>One run with one drainer, idle and after one sample was counted for it.\<close>

definition demo_inner :: "u64 \<Rightarrow> bool \<Rightarrow> u64 \<Rightarrow> inner" where
  "demo_inner r ingest samples =
     \<lparr>in_active = Some ((new_summary r demo_config 100)\<lparr>rn_pet_samples := samples\<rparr>), in_cancel = Some r,
      in_active_shade = None, in_active_shade_commands = None, in_ingest_attached = ingest,
      in_shade_child = None, in_history = []\<rparr>"

lemma demo_begin: "activate (new_summary r demo_config 100) new_inner = Inr (demo_inner r False 0)"
  by (simp add: activate_def new_inner_def demo_inner_def new_summary_def)

lemma demo_draining:
  "reach demo_server_env [Silent, Silent, Claimed 1, Silent, Silent, Silent, Silent, Counted 1 demo_sample]
     (demo_inner 1 True 1) empty_aggregator 2 {#Applying 1 1 demo_sample#}"
proof -
  have b: "reach demo_server_env [Silent, Silent, Claimed 1, Silent, Silent] (demo_inner 1 False 0)
      empty_aggregator 2 {#Begun 1#}"
    using reach_begin [OF reach_start, of None new_inner demo_config 100 "demo_inner 1 False 0" demo_server_env]
    by (simp add: clear_stale_def new_inner_def demo_begin [unfolded new_inner_def] reaped_label_def)
  have "count_event 1 demo_sample (demo_inner 1 True 0) = Some (demo_inner 1 True 1)"
    by (simp add: count_event_def demo_inner_def demo_sample_def new_summary_def)
  then show ?thesis
    using reach_count [OF reach_drainer [OF reach_ingest [OF b]], of demo_sample "demo_inner 1 True 1"]
    by (simp add: demo_inner_def)
qed


theorem run_counts_exact_witness:
  "\<exists>tr sv T s. server_run demo_server_env tr (sv, T) \<and> s \<in> set (list_runs (sv_inner sv)) \<and>
     counted_events (rn_id s) tr = [demo_sample] \<and> rn_pet_samples s = 1"
proof -
  let ?tr = "[Silent, Silent, Claimed 1, Silent, Silent, Silent, Silent, Counted 1 demo_sample]"
  obtain sv where run: "server_run demo_server_env ?tr (sv, {#Applying 1 1 demo_sample#})"
    and i: "sv_inner sv = demo_inner 1 True 1" using demo_draining unfolding reach_def by blast
  let ?s = "(new_summary 1 demo_config 100)\<lparr>rn_pet_samples := 1\<rparr>"
  have s: "?s \<in> set (list_runs (sv_inner sv))" using i by (simp add: demo_inner_def list_runs_def)
  have "counted_events (rn_id ?s) ?tr = [demo_sample]" by (simp add: counted_events_def new_summary_def)
  moreover from this have "rn_pet_samples ?s = 1"
    using run_counts_exact [OF run _ s] by (simp add: demo_sample_def)
  ultimately show ?thesis using run s by blast
qed

section \<open>Races\<close>

text \<open>
  An event that was counted for a run just before the run is replaced is recorded in the data of
  the next run: the drainer checks the run under one lock and records under another, and
  \<open>notify_waiters\<close> does not reach a drainer that is applying an event.
\<close>

lemma late_event_in_next_run:
  "\<exists>tr sv T s. server_run demo_server_env tr (sv, T) \<and> in_active (sv_inner sv) = Some s \<and>
     rn_state s = Recording \<and> rn_pet_samples s = 0 \<and> counted_events (rn_id s) tr = [] \<and>
     sv_aggregator sv = record_in_aggregator demo_sample empty_aggregator"
proof -
  let ?old = "stop_summary UserStop 200 ((new_summary 1 demo_config 100)\<lparr>rn_pet_samples := 1\<rparr>)"
  let ?stopped = "(demo_inner 1 True 1)\<lparr>in_active := Some ?old, in_cancel := None, in_ingest_attached := False\<rparr>"
  let ?cleared = "new_inner\<lparr>in_history := [?old]\<rparr>"
  let ?next = "(demo_inner 2 False 0)\<lparr>in_history := [?old]\<rparr>"
  have stop: "stop_inner 200 (demo_inner 1 True 1) = Some (?old, Some 1, None, ?stopped)"
    by (simp add: stop_inner_def demo_inner_def Let_def)
  have clear: "clear_stale ?stopped = (None, ?cleared)"
    by (simp add: clear_stale_def release_def demo_inner_def new_inner_def)
  have act: "activate (new_summary 2 demo_config 100) ?cleared = Inr ?next"
    by (simp add: activate_def new_inner_def demo_inner_def new_summary_def)
  note run = reach_begin [OF reach_stop [OF demo_draining stop] clear act]
  define tr where "tr = ([Silent, Silent, Claimed 1, Silent, Silent, Silent, Silent, Counted 1 demo_sample] @ [Silent]) @
      [reaped_label None, Silent, Claimed 2, Silent, Silent]"
  have tr: "counted_events 2 tr = []" by (simp add: tr_def counted_events_def reaped_label_def)
  have tasks: "{#Begun 2, Notifying (Some 1), Applying 1 1 demo_sample#} =
      add_mset (Applying 1 1 demo_sample) {#Begun 2, Notifying (Some 1)#}" by simp
  have "reach demo_server_env tr ?next empty_aggregator 3
      (add_mset (Applying 1 1 demo_sample) {#Begun 2, Notifying (Some 1)#})"
    using run [folded tr_def, unfolded tasks] by simp
  from reach_record [OF this [unfolded demo_sample_def]]
  have "reach demo_server_env (tr @ [Recorded 1 demo_sample]) ?next (record_in_aggregator demo_sample empty_aggregator) 3
      (add_mset (Draining 1 1) {#Begun 2, Notifying (Some 1)#})" by (simp add: demo_sample_def)
  moreover have "counted_events 2 (tr @ [Recorded 1 demo_sample]) = []" using tr by (simp add: counted_events_def)
  moreover have "in_active ?next = Some (new_summary 2 demo_config 100)" by (simp add: demo_inner_def new_summary_def)
  ultimately show ?thesis unfolding reach_def by (fastforce simp: new_summary_def)
qed

text \<open>
  The child of the next run is reaped by the tail of \<open>stop_active\<close> of the run before it: the
  slot is read after the lock was released and taken again.
\<close>

lemma stop_reaps_next_shade:
  "\<exists>tr sv T s child. server_run demo_server_env tr (sv, T) \<and> in_active (sv_inner sv) = Some s \<and>
     rn_state s = Recording \<and> Spawned (rn_id s) child \<in> set tr \<and> Reaped child \<in> set tr"
proof -
  define c1 c2 where "c1 = \<lparr>sc_pid = 500, sc_child = 1\<rparr>" and "c2 = \<lparr>sc_pid = 501, sc_child = 2\<rparr>"
  let ?i1 = "(demo_inner 1 False 0)\<lparr>in_shade_child := Some c1\<rparr>"
  let ?old = "stop_summary UserStop 200 (new_summary 1 demo_config 100)"
  let ?stopped = "?i1\<lparr>in_active := Some ?old, in_cancel := None\<rparr>"
  let ?cleared = "new_inner\<lparr>in_history := [?old]\<rparr>"
  let ?next = "(demo_inner 2 False 0)\<lparr>in_history := [?old]\<rparr>"
  have zero: "(new_summary r demo_config 100)\<lparr>rn_pet_samples := 0\<rparr> = new_summary r demo_config 100" for r
    by (simp add: new_summary_def)
  have stop: "stop_inner 200 ?i1 = Some (?old, Some 1, None, ?stopped)"
    by (simp add: stop_inner_def demo_inner_def zero Let_def)
  have clear: "clear_stale ?stopped = (Some c1, ?cleared)"
    by (simp add: clear_stale_def release_def demo_inner_def new_inner_def)
  have act: "activate (new_summary 2 demo_config 100) ?cleared = Inr ?next"
    by (simp add: activate_def new_inner_def demo_inner_def zero) (simp add: new_summary_def)
  have take: "take_shade_child (?next\<lparr>in_shade_child := Some c2\<rparr>) = (Some c2, ?next)"
    by (simp add: take_shade_child_def demo_inner_def)
  have b: "reach demo_server_env [Silent, Silent, Claimed 1, Silent, Silent] (demo_inner 1 False 0)
      empty_aggregator 2 {#Begun 1#}"
    using reach_begin [OF reach_start, of None new_inner demo_config 100 "demo_inner 1 False 0" demo_server_env]
    by (simp add: clear_stale_def new_inner_def demo_begin [unfolded new_inner_def] reaped_label_def)
  note stopped = reach_notify [OF reach_stop [OF reach_spawn [OF b, of c1] stop]]
  note spawned = reach_spawn [OF reach_begin [OF stopped clear act], of c2]
  obtain tr where "reach demo_server_env tr (?next\<lparr>in_shade_child := Some c2\<rparr>) empty_aggregator 3
      (add_mset Reaping {#Monitoring 2 c2, Monitoring 1 c1#})" and tr: "Spawned 2 c2 \<in> set tr"
    using spawned by (fastforce simp: add_mset_commute)
  from reach_reap [OF this(1) take] have "reach demo_server_env (tr @ [Reaped c2]) ?next empty_aggregator 3
      {#Monitoring 2 c2, Monitoring 1 c1#}" by (simp add: reaped_label_def)
  then show ?thesis using tr unfolding reach_def
    by (auto simp: demo_inner_def new_summary_def intro!: exI [of _ "tr @ [Reaped c2]"] exI [of _ c2])
qed

end
