(* ===== verification/Source.thy ===== *)
theory Source
  imports Cfg Views
begin

text \<open>
  Source lines for annotated disassembly (\<open>stax-live/src/source.rs\<close> and
  \<open>compute_annotated_view\<close>, \<open>compute_cfg_view\<close> in \<open>lib.rs\<close>): line tables from debug information,
  the file and line of an address, cached source files and the header a line of disassembly
  carries when its source location changes. The debug-information reader (package \<open>symbolic\<close>),
  the language detector, the highlighting engine and the file system are parameters. Which of
  several equal keys a binary search finds is left open by Rust, so the search is a parameter with
  its contract.
\<close>

section \<open>Line tables\<close>

record debug_line =
  dl_address :: u64
  dl_size :: "u64 option"
  dl_line :: u64
  dl_file :: string

record debug_function =
  df_compilation_dir :: string
  df_lines :: "debug_line list"

record line_record =
  lrc_start :: u64
  lrc_end :: "u64 option"
  lrc_file :: string
  lrc_line :: u32

definition join_compilation_dir :: "string \<Rightarrow> string \<Rightarrow> string" where
  "join_compilation_dir compilation_dir file =
     (if take 1 file = ''/'' then file
      else if compilation_dir = [] then file
      else from_utf8_lossy (path_join compilation_dir file))"

definition line_record_of :: "string \<Rightarrow> debug_line \<Rightarrow> line_record option" where
  "line_record_of compilation_dir l =
     (if dl_line l = 0 \<or> 2 ^ 32 \<le> unat (dl_line l) then None
      else Some \<lparr>lrc_start = dl_address l,
        lrc_end = (case dl_size l of None \<Rightarrow> None
          | Some sz \<Rightarrow> (case checked_add (dl_address l) sz of None \<Rightarrow> None
              | Some end_address \<Rightarrow> if dl_address l < end_address then Some end_address else None)),
        lrc_file = join_compilation_dir compilation_dir (dl_file l), lrc_line = ucast (dl_line l)\<rparr>)"

text \<open>\<open>None\<close> among the functions is a function the reader fails on; it fails the table.\<close>

fun function_lines :: "debug_function option list \<Rightarrow> line_record list option" where
  "function_lines [] = Some []"
| "function_lines (None # fs) = None"
| "function_lines (Some f # fs) =
     map_option (\<lambda>ls. List.map_filter (line_record_of (from_utf8_lossy (df_compilation_dir f))) (df_lines f) @ ls)
       (function_lines fs)"

definition build_line_table :: "debug_function option list option \<Rightarrow> line_record list option" where
  "build_line_table session =
     (case session of None \<Rightarrow> None
      | Some functions \<Rightarrow> (case function_lines functions of None \<Rightarrow> None
          | Some lines \<Rightarrow> if lines = [] then None else Some (sort_by_key lrc_start lines)))"

type_synonym line_search = "line_record list \<Rightarrow> u64 \<Rightarrow> nat + nat"

text \<open>\<open>binary_search_by_key\<close>: \<open>Inr\<close> an index of the key, \<open>Inl\<close> where it would be inserted.\<close>

definition line_search_contract :: "line_search \<Rightarrow> bool" where
  "line_search_contract search \<longleftrightarrow> (\<forall>lines address. sorted (map lrc_start lines) \<longrightarrow>
     (case search lines address of
        Inr i \<Rightarrow> i < length lines \<and> lrc_start (lines ! i) = address
      | Inl i \<Rightarrow> i \<le> length lines \<and> (\<forall>r \<in> set (take i lines). lrc_start r < address) \<and>
          (\<forall>r \<in> set (drop i lines). address < lrc_start r)))"

definition find_location :: "line_search \<Rightarrow> line_record list \<Rightarrow> u64 \<Rightarrow> (string \<times> u32) option" where
  "find_location search lines address =
     (case (case search lines address of Inr i \<Rightarrow> Some i | Inl 0 \<Rightarrow> None | Inl (Suc i) \<Rightarrow> Some i) of
        None \<Rightarrow> None
      | Some idx \<Rightarrow>
          if length lines \<le> idx then None
          else let l = lines ! idx;
                   end_address = (case lrc_end l of Some e \<Rightarrow> Some e
                     | None \<Rightarrow> if idx + 1 < length lines then Some (lrc_start (lines ! (idx + 1))) else None) in
            (case end_address of
               Some e \<Rightarrow> if e \<le> address then None else Some (lrc_file l, lrc_line l)
             | None \<Rightarrow> Some (lrc_file l, lrc_line l)))"

section \<open>The resolver\<close>

record source_resolver =
  srs_line_tables :: "(string, line_record list option) hmap"
  srs_sources :: "(string, string list option) hmap"

definition new_source_resolver :: source_resolver where
  "new_source_resolver = \<lparr>srs_line_tables = [], srs_sources = []\<rparr>"

text \<open>
  What the resolver is given: the debug information of an image, the line search, a text file or
  nothing, the installed Rust sources, the detected language and the highlighted tokens.
\<close>

record source_env =
  sen_debug_session :: "string \<Rightarrow> debug_function option list option"
  sen_search :: line_search
  sen_read_to_string :: "string \<Rightarrow> string option"
  sen_rust_sysroot :: "string option"
  sen_detect_language :: "string \<Rightarrow> string option"
  sen_highlight :: "string \<Rightarrow> string \<Rightarrow> token list"

definition locate ::
  "source_env \<Rightarrow> string \<Rightarrow> code_image \<Rightarrow> u64 \<Rightarrow> source_resolver \<Rightarrow> (string \<times> u32) option \<times> source_resolver" where
  "locate env binary_path img svma st =
     (let st1 = (if map_of (srs_line_tables st) binary_path = None
                 then st\<lparr>srs_line_tables := hm_insert binary_path
                        (build_line_table (sen_debug_session env (cim_bytes img))) (srs_line_tables st)\<rparr>
                 else st) in
      (case map_of (srs_line_tables st1) binary_path of
         Some (Some table) \<Rightarrow> find_location (sen_search env) table svma
       | _ \<Rightarrow> None, st1))"

text \<open>\<open>str::split_once('/')\<close> after the prefix, and the path in the installed sources.\<close>

definition rust_src_translate :: "string option \<Rightarrow> string \<Rightarrow> string option" where
  "rust_src_translate sysroot file =
     (case strip_prefix_str ''/rustc/'' file of None \<Rightarrow> None
      | Some rest \<Rightarrow>
          if CHR ''/'' \<notin> set rest then None
          else (case sysroot of None \<Rightarrow> None
            | Some root \<Rightarrow> Some (path_join (path_join root ''lib/rustlib/src/rust'')
                (tl (dropWhile (\<lambda>c. c \<noteq> CHR ''/'') rest)))))"

definition read_source :: "source_env \<Rightarrow> string \<Rightarrow> string option" where
  "read_source env file =
     (case sen_read_to_string env file of
        Some s \<Rightarrow> Some s
      | None \<Rightarrow> (case rust_src_translate (sen_rust_sysroot env) file of
          Some path \<Rightarrow> sen_read_to_string env path
        | None \<Rightarrow> None))"

definition source_lines :: "source_env \<Rightarrow> string \<Rightarrow> source_resolver \<Rightarrow> string list option \<times> source_resolver" where
  "source_lines env file st =
     (case map_of (srs_sources st) file of
        Some entry \<Rightarrow> (entry, st)
      | None \<Rightarrow> (let loaded = map_option str_lines (read_source env file) in
          (loaded, st\<lparr>srs_sources := hm_insert file loaded (srs_sources st)\<rparr>)))"

definition snippet :: "source_env \<Rightarrow> string \<Rightarrow> u32 \<Rightarrow> source_resolver \<Rightarrow> token list \<times> source_resolver" where
  "snippet env file line st =
     (let (lines, st1) = source_lines env file st; idx = unat (sat_sub line 1) in
      case lines of
        Some ls \<Rightarrow>
          if idx < length ls
          then (sen_highlight env (or_default (sen_detect_language env file) ''rust'') (str_trim (ls ! idx)), st1)
          else ([], st1)
      | None \<Rightarrow> ([], st1))"

section \<open>Views of one function\<close>

record source_header =
  shd_file :: string
  shd_line :: u32
  shd_tokens :: "token list"

record source_line =
  sl_line :: annotated_line
  sl_source_header :: "source_header option"

record annotated_view =
  av_function_name :: string
  av_language :: string
  av_base_address :: u64
  av_queried_address :: u64
  av_lines :: "source_line list"

text \<open>The loop over the lines of disassembly: the location of the line before is \<open>last_loc\<close>.\<close>

fun add_headers ::
  "source_env \<Rightarrow> resolved_address \<Rightarrow> code_image \<Rightarrow> annotated_line list \<Rightarrow> (string \<times> u32) option \<Rightarrow>
   source_resolver \<Rightarrow> source_line list \<times> source_resolver" where
  "add_headers env r img [] last_loc st = ([], st)"
| "add_headers env r img (l # ls) last_loc st =
     (let svma = ra_fn_start_svma r + (al_address l - ra_base_address r);
          (here, st1) = locate env (ra_binary_path r) img svma st;
          (header, st2) = (if here \<noteq> last_loc
             then (case here of
                Some (file, ln) \<Rightarrow> (let (tokens, st2) = snippet env file ln st1 in
                  (Some \<lparr>shd_file = file, shd_line = ln, shd_tokens = tokens\<rparr>, st2))
              | None \<Rightarrow> (None, st1))
             else (None, st1));
          (rest, st3) = add_headers env r img ls here st2 in
      (\<lparr>sl_line = l, sl_source_header = header\<rparr> # rest, st3))"

record disassembler =
  das_arm :: a64_decoder
  das_x86 :: x86_decoder
  das_host_arch :: string
  das_highlight_line :: "string \<Rightarrow> token list"

definition no_binary_mapped :: "u64 \<Rightarrow> string" where
  "no_binary_mapped address = ''(no binary mapped at '' @ fmt_alt_x address @ '')''"

definition compute_annotated_view ::
  "'c registry_env \<Rightarrow> source_env \<Rightarrow> disassembler \<Rightarrow> u64 \<Rightarrow> (u64 \<Rightarrow> u64 \<times> u64) \<Rightarrow> 'c registry \<Rightarrow> source_resolver \<Rightarrow>
   annotated_view \<times> 'c registry \<times> source_resolver" where
  "compute_annotated_view renv senv das address self_lookup reg st =
     (let (resolved, reg') = resolve renv address reg;
          lines = (case resolved of
             Some r \<Rightarrow> disassemble (das_arm das) (das_x86 das) (das_host_arch das) (das_highlight_line das) self_lookup
               (ra_arch r) (ra_base_address r) (ra_bytes r)
           | None \<Rightarrow> []);
          plain_lines = map (\<lambda>l. \<lparr>sl_line = l, sl_source_header = None\<rparr>) lines;
          (out, st') = (case resolved of
             Some r \<Rightarrow> (case ra_image r of Some img \<Rightarrow> add_headers senv r img lines None st | None \<Rightarrow> (plain_lines, st))
           | None \<Rightarrow> (plain_lines, st)) in
      (\<lparr>av_function_name = (case resolved of Some r \<Rightarrow> ra_function_name r | None \<Rightarrow> no_binary_mapped address),
        av_language = as_str (case resolved of Some r \<Rightarrow> ra_language r | None \<Rightarrow> Unknown),
        av_base_address = (case resolved of Some r \<Rightarrow> ra_base_address r | None \<Rightarrow> address),
        av_queried_address = address, av_lines = out\<rparr>, reg', st'))"

definition compute_cfg_view ::
  "'c registry_env \<Rightarrow> disassembler \<Rightarrow> u64 \<Rightarrow> (u64 \<Rightarrow> u64 \<times> u64) \<Rightarrow> 'c registry \<Rightarrow> cfg_update \<times> 'c registry" where
  "compute_cfg_view renv das address self_lookup reg =
     (let (resolved, reg') = resolve renv address reg in
      (case resolved of
         Some r \<Rightarrow> compute_cfg_update (das_arm das) (das_x86 das) (das_host_arch das) (das_highlight_line das)
           self_lookup (ra_arch r) (ra_base_address r) (ra_bytes r) address (ra_function_name r) (as_str (ra_language r))
       | None \<Rightarrow> \<lparr>cu_function_name = no_binary_mapped address, cu_language = as_str Unknown,
           cu_base_address = address, cu_queried_address = address, cu_blocks = [], cu_edges = []\<rparr>, reg'))"

section \<open>Locations\<close>

lemma sorted_nth_le: "sorted (map f xs) \<Longrightarrow> i \<le> j \<Longrightarrow> j < length xs \<Longrightarrow> f (xs ! i) \<le> f (xs ! j)"
  using sorted_nth_mono [of "map f xs" i j] by simp

text \<open>The record the search settles on has the greatest start at or before the address.\<close>

definition found_index :: "line_search \<Rightarrow> line_record list \<Rightarrow> u64 \<Rightarrow> nat option" where
  "found_index search lines address =
     (case search lines address of Inr i \<Rightarrow> Some i | Inl 0 \<Rightarrow> None | Inl (Suc i) \<Rightarrow> Some i)"

lemma found_index_nearest:
  assumes "line_search_contract search" "sorted (map lrc_start lines)"
  shows "case found_index search lines address of
      None \<Rightarrow> \<forall>r \<in> set lines. address < lrc_start r
    | Some i \<Rightarrow> i < length lines \<and> lrc_start (lines ! i) \<le> address \<and>
        (\<forall>r \<in> set lines. lrc_start r \<le> address \<longrightarrow> lrc_start r \<le> lrc_start (lines ! i)) \<and>
        (i + 1 < length lines \<longrightarrow> lrc_start (lines ! i) < address \<longrightarrow> address < lrc_start (lines ! (i + 1)))"
proof -
  note c = assms(1) [unfolded line_search_contract_def, rule_format, OF assms(2), of address]
  show ?thesis
  proof (cases "search lines address")
    case (Inr i)
    then show ?thesis using c by (simp add: found_index_def)
  next
    case (Inl n)
    show ?thesis
    proof (cases n)
      case 0
      then show ?thesis using Inl c by (simp add: found_index_def)
    next
      case (Suc i)
      then have len: "i < length lines" using Inl c by simp
      then have "lines ! i \<in> set (take n lines)" using Suc by (auto simp: in_set_conv_nth)
      then have lt: "lrc_start (lines ! i) < address" using Inl c by simp
      have max: "lrc_start r \<le> lrc_start (lines ! i)" if "r \<in> set lines" "lrc_start r \<le> address" for r
      proof -
        from that(1) obtain j where j: "j < length lines" "lines ! j = r" by (auto simp: in_set_conv_nth)
        have "j < n"
        proof (rule ccontr)
          assume "\<not> j < n"
          then have "r \<in> set (drop n lines)" using j by (auto simp: in_set_conv_nth intro!: exI [of _ "j - n"])
          then show False using Inl c that(2) by auto
        qed
        then show ?thesis using sorted_nth_le [OF assms(2), of j i] j len Suc by simp
      qed
      have next_after: "address < lrc_start (lines ! (i + 1))" if "i + 1 < length lines"
      proof -
        have "lines ! (i + 1) \<in> set (drop n lines)"
          using that Suc by (auto simp: in_set_conv_nth intro!: exI [of _ 0])
        then show ?thesis using Inl c by simp
      qed
      show ?thesis using Inl Suc len lt max next_after by (auto simp: found_index_def)
    qed
  qed
qed

definition nearest_record :: "line_record list \<Rightarrow> u64 \<Rightarrow> line_record \<Rightarrow> bool" where
  "nearest_record lines address r \<longleftrightarrow> r \<in> set lines \<and> lrc_start r \<le> address \<and>
    (\<forall>r' \<in> set lines. lrc_start r' \<le> address \<longrightarrow> lrc_start r' \<le> lrc_start r)"

lemma line_record_numbered: "line_record_of d l = Some r \<Longrightarrow> lrc_line r \<noteq> 0"
proof -
  assume "line_record_of d l = Some r"
  then have l: "lrc_line r = ucast (dl_line l)" "dl_line l \<noteq> 0" "unat (dl_line l) < 2 ^ 32"
    by (auto simp: line_record_of_def split: if_splits)
  have "unat (ucast (dl_line l) :: u32) = unat (dl_line l)" using l(3)
    by (simp add: unsigned_ucast_eq unsigned_take_bit_eq take_bit_eq_mod)
  moreover have "0 < unat (dl_line l)" using l(2) by (simp add: unat_gt_0)
  ultimately show ?thesis using l(1) by (metis less_numeral_extra(3) unat_0)
qed

lemma function_lines_numbered: "function_lines fs = Some ls \<Longrightarrow> \<forall>r \<in> set ls. lrc_line r \<noteq> 0"
proof (induction fs arbitrary: ls rule: function_lines.induct)
  case (3 f fs)
  have "lrc_line r \<noteq> 0" if "r \<in> set (List.map_filter (line_record_of d) xs)" for r d xs
    using that by (auto simp: List.map_filter_def line_record_numbered)
  then show ?case using 3 by auto
qed auto

text \<open>
  The source location of an address is that of the line record that covers it: it starts at or
  before the address, no other record starts closer, and the address lies before its end; no location
  is given only before the first record or where the nearest record has ended (or, having no end,
  shares its start with another).\<close>

theorem source_location_nearest:
  assumes "line_search_contract search" "build_line_table session = Some lines"
  shows "case find_location search lines address of
      Some (file, line) \<Rightarrow> \<exists>r. nearest_record lines address r \<and> lrc_file r = file \<and> lrc_line r = line \<and> line \<noteq> 0 \<and>
        (case lrc_end r of Some e \<Rightarrow> address < e | None \<Rightarrow> True)
    | None \<Rightarrow> (\<forall>r \<in> set lines. address < lrc_start r) \<or>
        (\<exists>r. nearest_record lines address r \<and> (case lrc_end r of Some e \<Rightarrow> e \<le> address | None \<Rightarrow> lrc_start r = address))"
proof -
  from assms(2) obtain fs ls where ls: "function_lines fs = Some ls" "lines = sort_by_key lrc_start ls"
    by (auto simp: build_line_table_def split: option.splits if_splits)
  have nz: "\<forall>r \<in> set lines. lrc_line r \<noteq> 0" using function_lines_numbered [OF ls(1)] ls(2) by simp
  have "sorted (map lrc_start lines)" unfolding ls(2) sorted_map by (rule sorted_sort_by_key)
  note near = found_index_nearest [OF assms(1) this, of address]
  show ?thesis
  proof (cases "found_index search lines address")
    case None
    then show ?thesis using near unfolding find_location_def found_index_def [symmetric] by simp
  next
    case (Some i)
    then have i: "i < length lines" "nearest_record lines address (lines ! i)" "lines ! i \<in> set lines"
      and after: "i + 1 < length lines \<Longrightarrow> lrc_start (lines ! i) < address \<Longrightarrow> address < lrc_start (lines ! (i + 1))"
      using near by (auto simp: nearest_record_def)
    have le: "lrc_start (lines ! i) \<le> address" using i(2) by (simp add: nearest_record_def)
    show ?thesis
    proof (cases "lrc_end (lines ! i)")
      case (Some e)
      then show ?thesis using \<open>found_index search lines address = Some i\<close> i nz
        unfolding find_location_def found_index_def [symmetric] by (auto simp: Let_def not_le)
    next
      case None
      have eq: "lrc_start (lines ! i) = address" if "i + 1 < length lines" "lrc_start (lines ! (i + 1)) \<le> address"
        using after [OF that(1)] that(2) le by (metis leD order_le_less)
      show ?thesis using None \<open>found_index search lines address = Some i\<close> i nz eq
        unfolding find_location_def found_index_def [symmetric]
        by (auto simp: Let_def not_le split: if_splits intro!: exI [of _ "lines ! i"])
    qed
  qed
qed

section \<open>Headers\<close>

text \<open>
  The table of a binary is built once: what a path resolves to is fixed by the first lookup, and
  a lookup changes no other answer.
\<close>

definition table_for :: "source_env \<Rightarrow> string \<Rightarrow> code_image \<Rightarrow> source_resolver \<Rightarrow> line_record list option" where
  "table_for env path img st =
     (case map_of (srs_line_tables st) path of Some t \<Rightarrow> t | None \<Rightarrow> build_line_table (sen_debug_session env (cim_bytes img)))"

definition location :: "source_env \<Rightarrow> line_record list option \<Rightarrow> u64 \<Rightarrow> (string \<times> u32) option" where
  "location env table svma = (case table of Some t \<Rightarrow> find_location (sen_search env) t svma | None \<Rightarrow> None)"

lemma fst_locate: "fst (locate env path img svma st) = location env (table_for env path img st) svma"
  by (simp add: locate_def table_for_def location_def hm_simps Let_def split: option.splits)

lemma table_for_locate: "table_for env path img (snd (locate env path img svma st)) = table_for env path img st"
  by (auto simp: locate_def table_for_def hm_simps Let_def split: option.splits)

lemma table_for_snippet: "table_for env path img (snd (snippet env file line st)) = table_for env path img st"
  by (auto simp: snippet_def source_lines_def table_for_def Let_def split: option.splits prod.splits)

definition header_location :: "source_line \<Rightarrow> (string \<times> u32) option" where
  "header_location l = map_option (\<lambda>h. (shd_file h, shd_line h)) (sl_source_header l)"

lemma add_headers_Cons:
  fixes l :: annotated_line and env :: source_env and r :: resolved_address and img :: code_image and st :: source_resolver
  defines "here \<equiv> location env (table_for env (ra_binary_path r) img st) (ra_fn_start_svma r + (al_address l - ra_base_address r))"
  shows "\<exists>x st'. add_headers env r img (l # ls) last_loc st =
      (x # fst (add_headers env r img ls here st'), snd (add_headers env r img ls here st')) \<and>
    sl_line x = l \<and> header_location x = (if here \<noteq> last_loc then here else None) \<and>
    table_for env (ra_binary_path r) img st' = table_for env (ra_binary_path r) img st"
proof -
  let ?svma = "ra_fn_start_svma r + (al_address l - ra_base_address r)"
  obtain st1 where loc: "locate env (ra_binary_path r) img ?svma st = (here, st1)"
    using fst_locate [of env "ra_binary_path r" img ?svma st] unfolding here_def by (metis prod.collapse)
  have t1: "table_for env (ra_binary_path r) img st1 = table_for env (ra_binary_path r) img st"
    using table_for_locate [of env "ra_binary_path r" img ?svma st] loc by simp
  show ?thesis
  proof (cases "\<exists>fl ln. here = Some (fl, ln) \<and> here \<noteq> last_loc")
    case True
    then obtain fl ln where h: "here = Some (fl, ln)" "here \<noteq> last_loc" by blast
    obtain tokens st2 where sn: "snippet env fl ln st1 = (tokens, st2)" by force
    have "table_for env (ra_binary_path r) img st2 = table_for env (ra_binary_path r) img st"
      using table_for_snippet [of env "ra_binary_path r" img fl ln st1] sn t1 by simp
    then show ?thesis using h loc sn
      by (simp add: header_location_def Let_def split: prod.split) (metis fst_conv snd_conv)
  next
    case False
    then show ?thesis using loc t1
      by (cases here; auto simp: header_location_def Let_def split: prod.split; metis fst_conv snd_conv)
  qed
qed

text \<open>
  Annotated disassembly keeps every line of the disassembly, and puts a source header on exactly
  the lines whose location is known and differs from that of the line before, with that location;
  what is cached on the way does not matter.\<close>

theorem source_headers_exact:
  "let out = fst (add_headers env r img ls last_loc st);
       locs = map (\<lambda>l. location env (table_for env (ra_binary_path r) img st)
         (ra_fn_start_svma r + (al_address l - ra_base_address r))) ls in
   map sl_line out = ls \<and>
   map header_location out = map2 (\<lambda>before here. if here \<noteq> before then here else None) (butlast (last_loc # locs)) locs"
proof (induction ls arbitrary: last_loc st)
  case Nil
  then show ?case by simp
next
  case (Cons l ls)
  let ?here = "location env (table_for env (ra_binary_path r) img st) (ra_fn_start_svma r + (al_address l - ra_base_address r))"
  from add_headers_Cons [of env r img l ls last_loc st] obtain x st' where
    x: "add_headers env r img (l # ls) last_loc st =
      (x # fst (add_headers env r img ls ?here st'), snd (add_headers env r img ls ?here st'))"
      "sl_line x = l" "header_location x = (if ?here \<noteq> last_loc then ?here else None)"
      "table_for env (ra_binary_path r) img st' = table_for env (ra_binary_path r) img st" by blast
  from Cons.IH [of ?here st', unfolded x(4)] show ?case
    unfolding x(1) Let_def by (simp add: x(2,3))
qed

section \<open>A concrete table\<close>

definition demo_table :: "line_record list" where
  "demo_table = [\<lparr>lrc_start = 100, lrc_end = Some 108, lrc_file = ''/a.rs'', lrc_line = 3\<rparr>,
     \<lparr>lrc_start = 108, lrc_end = None, lrc_file = ''/a.rs'', lrc_line = 4\<rparr>]"

definition demo_session :: "debug_function option list option" where
  "demo_session = Some [Some \<lparr>df_compilation_dir = ''/src'', df_lines =
     [\<lparr>dl_address = 108, dl_size = None, dl_line = 4, dl_file = ''/a.rs''\<rparr>,
      \<lparr>dl_address = 100, dl_size = Some 8, dl_line = 3, dl_file = ''/a.rs''\<rparr>]\<rparr>]"

text \<open>A linear search meets the contract of the binary one.\<close>

definition linear_search :: line_search where
  "linear_search lines address =
     (let before = takeWhile (\<lambda>r. lrc_start r < address) lines; n = length before in
      if n < length lines \<and> lrc_start (lines ! n) = address then Inr n else Inl n)"

lemma linear_search_contract: "line_search_contract linear_search"
  unfolding line_search_contract_def
proof (intro allI impI)
  fix lines :: "line_record list" and address
  assume srt: "sorted (map lrc_start lines)"
  define n where "n = length (takeWhile (\<lambda>r. lrc_start r < address) lines)"
  have tk: "take n lines = takeWhile (\<lambda>r. lrc_start r < address) lines"
    by (simp add: n_def takeWhile_eq_take [symmetric])
  have len: "n \<le> length lines" by (simp add: n_def length_takeWhile_le)
  have before: "\<forall>r \<in> set (take n lines). lrc_start r < address" unfolding tk by (auto dest: set_takeWhileD)
  have after: "\<forall>r \<in> set (drop n lines). address < lrc_start r" if "\<not> (n < length lines \<and> lrc_start (lines ! n) = address)"
  proof
    fix r assume "r \<in> set (drop n lines)"
    then obtain k where k: "n + k < length lines" "r = lines ! (n + k)" 
      by (fastforce simp: in_set_conv_nth less_diff_conv add.commute)
    have "\<not> lrc_start (lines ! n) < address"
      using nth_length_takeWhile [of "\<lambda>r. lrc_start r < address" lines] k(1) by (simp add: n_def)
    moreover have "lrc_start (lines ! n) \<le> lrc_start r" using sorted_nth_le [OF srt, of n "n + k"] k by simp
    ultimately show "address < lrc_start r" using that k(1) by auto
  qed
  show "case linear_search lines address of
      Inr i \<Rightarrow> i < length lines \<and> lrc_start (lines ! i) = address
    | Inl i \<Rightarrow> i \<le> length lines \<and> (\<forall>r \<in> set (take i lines). lrc_start r < address) \<and>
        (\<forall>r \<in> set (drop i lines). address < lrc_start r)"
    using len before after by (simp add: linear_search_def Let_def flip: n_def)
qed

theorem source_location_nearest_witness:
  "find_location linear_search demo_table 104 = Some (''/a.rs'', 3) \<and>
   (\<exists>r. nearest_record demo_table 104 r \<and> lrc_line r = 3)"
proof -
  have "build_line_table demo_session = Some demo_table"
    by (simp add: build_line_table_def demo_session_def demo_table_def List.map_filter_def line_record_of_def
        join_compilation_dir_def checked_add_def sort_by_key_def sort_by_def cmp_def)
  note near = source_location_nearest [OF linear_search_contract this, of 104]
  have "find_location linear_search demo_table 104 = Some (''/a.rs'', 3)" by code_simp
  then show ?thesis using near by auto
qed

end
