(* ===== verification/LiveServer.thy ===== *)
theory LiveServer
  imports Source Neighbors Runs
begin

text \<open>
  The query service (\<open>LiveServer\<close> in \<open>stax-live/src/lib.rs\<close>): the requests, which read the
  aggregator, the binary registry and the source resolver of the server, and the subscriptions,
  which publish a view whenever the server's revision has moved since the last one. A subscription
  runs beside the writers: they change the data under one lock and bump the revision after it, and
  the subscription reads the revision and, later, the data.
\<close>

section \<open>Requests\<close>

record view_params =
  vp_tid :: "u32 option"
  vp_filter :: live_filter

record 'c live_server =
  lvs_aggregator :: aggregator
  lvs_binaries :: "'c registry"
  lvs_source :: source_resolver
  lvs_paused :: bool

text \<open>What the requests use beside the state: the registry's, the resolver's and the disassembler's parameters.\<close>

record 'c live_env =
  len_registry :: "'c registry_env"
  len_source :: source_env
  len_disassembler :: disassembler

text \<open>\<open>bins.lookup_symbol\<close> under one read lock; what it caches on the way is not seen by a view.\<close>

definition registry_lookup :: "'c live_env \<Rightarrow> 'c live_server \<Rightarrow> symbol_lookup" where
  "registry_lookup env w = (\<lambda>address. fst (lookup_symbol (len_registry env) address (lvs_binaries w)))"

definition profiler :: "source_resolver \<Rightarrow> 'c server \<Rightarrow> 'c live_server" where
  "profiler resolver sv = \<lparr>lvs_aggregator = sv_aggregator sv, lvs_binaries = sv_binaries sv,
     lvs_source = resolver, lvs_paused = sv_paused sv\<rparr>"

definition rpc_top_update where
  "rpc_top_update env limit ts params w =
     top_update (lvs_aggregator w) (registry_lookup env w) limit ts (vp_tid params) (vp_filter params)"

definition rpc_top where
  "rpc_top env limit ts params w = snd (snd (rpc_top_update env limit ts params w))"

definition total_on_cpu_ns :: "'c live_env \<Rightarrow> 'c live_server \<Rightarrow> u64" where
  "total_on_cpu_ns env w =
     agn_total_on_cpu_ns (aggregate_all (lvs_aggregator w) (lookup_name (registry_lookup env w)))"

text \<open>The counters of an address, as the heat map reads them.\<close>

definition self_lookup_of :: "'c live_env \<Rightarrow> view_params \<Rightarrow> 'c live_server \<Rightarrow> u64 \<Rightarrow> u64 \<times> u64" where
  "self_lookup_of env params w a =
     (case map_of (agn_by_address (aggregate_with_filter (lvs_aggregator w) (registry_lookup env w)
         (vp_tid params) (vp_filter params))) a of
        Some s \<Rightarrow> (as_self_on_cpu_ns s, as_self_pet_samples s)
      | None \<Rightarrow> (0, 0))"

definition rpc_annotated :: "'c live_env \<Rightarrow> u64 \<Rightarrow> view_params \<Rightarrow> 'c live_server \<Rightarrow> annotated_view \<times> 'c live_server" where
  "rpc_annotated env address params w =
     (let (view, reg, src) = compute_annotated_view (len_registry env) (len_source env) (len_disassembler env) address
            (self_lookup_of env params w) (lvs_binaries w) (lvs_source w) in
      (view, w\<lparr>lvs_binaries := reg, lvs_source := src\<rparr>))"

definition rpc_cfg :: "'c live_env \<Rightarrow> u64 \<Rightarrow> view_params \<Rightarrow> 'c live_server \<Rightarrow> cfg_update \<times> 'c live_server" where
  "rpc_cfg env address params w =
     (let (view, reg) = compute_cfg_view (len_registry env) (len_disassembler env) address
            (self_lookup_of env params w) (lvs_binaries w) in
      (view, w\<lparr>lvs_binaries := reg\<rparr>))"

definition rpc_flamegraph :: "'c live_env \<Rightarrow> view_params \<Rightarrow> 'c live_server \<Rightarrow> flame_update" where
  "rpc_flamegraph env params w =
     flamegraph (lvs_aggregator w) (registry_lookup env w) (vp_tid params) (vp_filter params)"

definition rpc_neighbors :: "'c live_env \<Rightarrow> u64 \<Rightarrow> view_params \<Rightarrow> 'c live_server \<Rightarrow> neighbors_update" where
  "rpc_neighbors env address params w =
     neighbors (lvs_aggregator w) (registry_lookup env w) address (vp_tid params) (vp_filter params)"

definition rpc_timeline :: "u32 option \<Rightarrow> 'c live_server \<Rightarrow> timeline_update" where
  "rpc_timeline tid w = build_timeline_update (lvs_aggregator w) tid"

definition rpc_wakers where
  "rpc_wakers env wakee_tid w = build_wakers_update (lvs_aggregator w) (registry_lookup env w) wakee_tid"

text \<open>The flame key of the next two requests is ignored.\<close>

definition rpc_intervals :: "'c live_env \<Rightarrow> string \<Rightarrow> view_params \<Rightarrow> 'c live_server \<Rightarrow> interval_list" where
  "rpc_intervals env flame_key params w =
     build_intervals_update (lvs_aggregator w) (registry_lookup env w) (vp_tid params) (vp_filter params)"

definition rpc_pet_samples :: "string \<Rightarrow> view_params \<Rightarrow> 'c live_server \<Rightarrow> u64 \<times> pet_sample_entry list" where
  "rpc_pet_samples flame_key params w = build_pet_samples_update (lvs_aggregator w) (vp_tid params) (vp_filter params)"

definition set_paused :: "bool \<Rightarrow> 'c live_server \<Rightarrow> 'c live_server" where
  "set_paused paused w = w\<lparr>lvs_paused := paused\<rparr>"

definition is_paused :: "'c live_server \<Rightarrow> bool" where
  "is_paused w = lvs_paused w"

definition rpc_threads :: "'c live_env \<Rightarrow> 'c live_server \<Rightarrow> thread_info list" where
  "rpc_threads env w = build_threads_update (lvs_aggregator w) (registry_lookup env w)"

section \<open>Subscriptions\<close>

text \<open>
  The loop of a subscription beside the writers of its data. \<open>Modify\<close> and \<open>Bump\<close> are the two
  halves of a write, \<open>Tick\<close> the check of the revision and \<open>Publish\<close> the rest of the loop body:
  building the view and sending it, which ends the stream when it fails. \<open>str_unbumped\<close> counts
  the writes whose bump is still to come.
\<close>

record ('w, 'v) stream =
  str_world :: 'w
  str_revision :: u64
  str_last_seen :: "u64 option"
  str_loaded :: bool
  str_published :: "'v list"
  str_open :: bool
  str_unbumped :: nat

datatype 'w stream_action = Modify "'w \<Rightarrow> 'w" | Bump | Tick | Publish bool

fun stream_step :: "('w \<Rightarrow> 'v \<times> 'w) \<Rightarrow> 'w stream_action \<Rightarrow> ('w, 'v) stream \<Rightarrow> ('w, 'v) stream" where
  "stream_step build (Modify f) s = s\<lparr>str_world := f (str_world s), str_unbumped := str_unbumped s + 1\<rparr>"
| "stream_step build Bump s = s\<lparr>str_revision := str_revision s + 1, str_unbumped := str_unbumped s - 1\<rparr>"
| "stream_step build Tick s =
     (if str_open s \<and> \<not> str_loaded s
      then let (publish, last_seen) = should_publish_revision (str_revision s) (str_last_seen s) in
        s\<lparr>str_last_seen := last_seen, str_loaded := publish\<rparr>
      else s)"
| "stream_step build (Publish ok) s =
     (if str_open s \<and> str_loaded s
      then let (view, world) = build (str_world s); s1 = s\<lparr>str_world := world, str_loaded := False\<rparr> in
        if ok then s1\<lparr>str_published := str_published s1 @ [view]\<rparr> else s1\<lparr>str_open := False\<rparr>
      else s)"

definition start_stream :: "'w \<Rightarrow> u64 \<Rightarrow> ('w, 'v) stream" where
  "start_stream w revision = \<lparr>str_world = w, str_revision = revision, str_last_seen = None, str_loaded = False,
     str_published = [], str_open = True, str_unbumped = 0\<rparr>"

definition stream_run :: "('w \<Rightarrow> 'v \<times> 'w) \<Rightarrow> 'w stream_action list \<Rightarrow> ('w, 'v) stream \<Rightarrow> ('w, 'v) stream" where
  "stream_run build acts s = fold (stream_step build) acts s"

abbreviation reading :: "('w \<Rightarrow> 'v) \<Rightarrow> 'w \<Rightarrow> 'v \<times> 'w" where
  "reading view \<equiv> (\<lambda>w. (view w, w))"

definition subscribe_top where
  "subscribe_top env limit ts params = stream_run (reading (rpc_top_update env limit ts params))"

definition subscribe_annotated where
  "subscribe_annotated env address params = stream_run (rpc_annotated env address params)"

definition subscribe_cfg where
  "subscribe_cfg env address params = stream_run (rpc_cfg env address params)"

definition subscribe_flamegraph where
  "subscribe_flamegraph env params = stream_run (reading (rpc_flamegraph env params))"

definition subscribe_neighbors where
  "subscribe_neighbors env address params = stream_run (reading (rpc_neighbors env address params))"

definition subscribe_timeline where
  "subscribe_timeline tid = stream_run (reading (rpc_timeline tid))"

definition subscribe_wakers where
  "subscribe_wakers env wakee_tid = stream_run (reading (rpc_wakers env wakee_tid))"

definition subscribe_intervals where
  "subscribe_intervals env flame_key params = stream_run (reading (rpc_intervals env flame_key params))"

definition subscribe_pet_samples where
  "subscribe_pet_samples flame_key params = stream_run (reading (rpc_pet_samples flame_key params))"

definition subscribe_threads where
  "subscribe_threads env = stream_run (reading (rpc_threads env))"

section \<open>Views are current\<close>

text \<open>What building a view changes (caches) does not change the view.\<close>

definition stable_view :: "('w \<Rightarrow> 'v \<times> 'w) \<Rightarrow> bool" where
  "stable_view build \<longleftrightarrow> (\<forall>w. fst (build (snd (build w))) = fst (build w))"

definition bumps :: "'w stream_action list \<Rightarrow> nat" where
  "bumps acts = length (filter (\<lambda>a. case a of Bump \<Rightarrow> True | _ \<Rightarrow> False) acts)"

text \<open>
  After \<open>n\<close> bumps: the revision last seen was that after some \<open>k\<close> of them, and if there was no bump
  since, and no write without one, the last view published is that of the data.
\<close>

definition shows_data :: "('w \<Rightarrow> 'v \<times> 'w) \<Rightarrow> ('w, 'v) stream \<Rightarrow> bool" where
  "shows_data build s \<longleftrightarrow> str_published s \<noteq> [] \<and> last (str_published s) = fst (build (str_world s))"

definition stream_inv :: "('w \<Rightarrow> 'v \<times> 'w) \<Rightarrow> u64 \<Rightarrow> nat \<Rightarrow> ('w, 'v) stream \<Rightarrow> bool" where
  "stream_inv build r n s \<longleftrightarrow> str_revision s = r + of_nat n \<and>
     (case str_last_seen s of
        None \<Rightarrow> \<not> str_loaded s
      | Some v \<Rightarrow> \<exists>k \<le> n. v = r + of_nat k \<and>
          (k = n \<and> str_unbumped s = 0 \<and> \<not> str_loaded s \<and> str_open s \<longrightarrow> shows_data build s))"

lemma of_nat_u64_eq:
  assumes "k \<le> n" "n < 2 ^ 64"
  shows "(of_nat k :: u64) = of_nat n \<longleftrightarrow> k = n"
proof
  assume e: "(of_nat k :: u64) = of_nat n"
  have "unat (of_nat k :: u64) = k" "unat (of_nat n :: u64) = n"
    using assms by (simp_all add: unat_of_nat take_bit_nat_eq_self)
  then show "k = n" using e by metis
qed simp

lemma stream_inv_step:
  assumes "stable_view build" "stream_inv build r n s" "Suc n < 2 ^ 64"
  shows "stream_inv build r (n + bumps [a]) (stream_step build a s)"
proof (cases a)
  case (Modify f)
  then show ?thesis using assms(2) by (auto simp: stream_inv_def bumps_def split: option.splits)
next
  case Bump
  show ?thesis
  proof (cases "str_last_seen s")
    case None
    then show ?thesis using Bump assms(2) by (simp add: stream_inv_def bumps_def)
  next
    case (Some v)
    then obtain k where "k \<le> n" "v = r + of_nat k" using assms(2) by (auto simp: stream_inv_def)
    then show ?thesis using Bump Some assms(2)
      by (auto simp: stream_inv_def bumps_def intro!: exI [of _ k])
  qed
next
  case Tick
  have inj: "(of_nat k :: u64) = of_nat n \<longleftrightarrow> k = n" if "k \<le> n" for k
    using of_nat_u64_eq [OF that] assms(3) by simp
  show ?thesis using Tick assms(2)
    by (auto simp: stream_inv_def bumps_def should_publish_revision_def shows_data_def inj intro!: exI [of _ n] split: option.splits)
next
  case (Publish ok)
  obtain view world where b: "build (str_world s) = (view, world)" by force
  have "fst (build world) = view" using assms(1) b by (metis fst_conv snd_conv stable_view_def)
  then show ?thesis using Publish assms(2) b
    by (auto simp: stream_inv_def bumps_def shows_data_def Let_def split: option.splits)
qed

lemma stream_inv_run:
  assumes "stable_view build" "bumps acts < 2 ^ 64 - 1"
  shows "stream_inv build r (bumps acts) (stream_run build acts (start_stream w r))"
  using assms(2)
proof (induction acts rule: rev_induct)
  case Nil
  then show ?case by (simp add: stream_run_def start_stream_def stream_inv_def bumps_def)
next
  case (snoc a acts)
  have b: "bumps (acts @ [a]) = bumps acts + bumps [a]" by (simp add: bumps_def)
  have "stream_inv build r (bumps acts) (stream_run build acts (start_stream w r))" using snoc by (simp add: b)
  from stream_inv_step [OF assms(1) this, of a] show ?case using snoc.prems by (simp add: b stream_run_def)
qed


text \<open>A timeline subscription over an empty recording that gets one interval of 30 ns.\<close>

definition demo_live :: "unit live_server" where
  "demo_live = \<lparr>lvs_aggregator = empty_aggregator, lvs_binaries = new_registry (),
     lvs_source = new_source_resolver, lvs_paused = False\<rparr>"

definition demo_write :: "unit live_server stream_action" where
  "demo_write = Modify (\<lambda>w. w\<lparr>lvs_aggregator := record_interval 7 10 40 OnCpu (lvs_aggregator w)\<rparr>)"

lemma demo_publishes:
  "length (str_published (stream_run (reading v) [Tick, Publish True, demo_write, Bump, Tick, Publish True] (start_stream demo_live 5))) = 2"
  by (simp add: stream_run_def start_stream_def demo_write_def should_publish_revision_def)

lemma demo_before:
  "str_open (stream_run (reading v) [Tick, Publish True, demo_write, Bump] (start_stream demo_live 5))"
  "\<not> str_loaded (stream_run (reading v) [Tick, Publish True, demo_write, Bump] (start_stream demo_live 5))"
  "str_unbumped (stream_run (reading v) [Tick, Publish True, demo_write, Bump] (start_stream demo_live 5)) = 0"
  by (simp_all add: stream_run_def start_stream_def demo_write_def should_publish_revision_def)


end
