(* ===== verification/DropQueue.thy ===== *)
theory DropQueue
  imports Prelude "HOL-Library.Sublist"
begin

text \<open>
  Bounded channels (\<open>flume::bounded\<close>, of which the code uses \<open>try_send\<close>, \<open>try_recv\<close> and
  \<open>recv\<close>) and the loop three components build on them: a producer that never blocks, because it
  takes the oldest item out of a full channel and counts it as lost. A consumer may take items
  between any two operations of the producer; how many it takes is a parameter of every call.
\<close>

section \<open>Bounded channels\<close>

record 'a channel =
  ch_items :: "'a list"
  ch_capacity :: nat
  ch_senders :: nat
  ch_receivers :: nat

datatype 'a send_result = Sent "'a channel" | SendFull 'a | SendDisconnected 'a

datatype 'a recv_result = Received 'a "'a channel" | RecvEmpty | RecvDisconnected

definition bounded :: "nat \<Rightarrow> 'a channel" where
  "bounded capacity = \<lparr>ch_items = [], ch_capacity = capacity, ch_senders = 1, ch_receivers = 1\<rparr>"

definition try_send :: "'a \<Rightarrow> 'a channel \<Rightarrow> 'a send_result" where
  "try_send x ch =
     (if ch_receivers ch = 0 then SendDisconnected x
      else if ch_capacity ch \<le> length (ch_items ch) then SendFull x
      else Sent (ch\<lparr>ch_items := ch_items ch @ [x]\<rparr>))"

definition try_recv :: "'a channel \<Rightarrow> 'a recv_result" where
  "try_recv ch =
     (case ch_items ch of
        x # xs \<Rightarrow> Received x (ch\<lparr>ch_items := xs\<rparr>)
      | [] \<Rightarrow> if ch_senders ch = 0 then RecvDisconnected else RecvEmpty)"

section \<open>A producer that evicts the oldest item\<close>

text \<open>
  The channel with the producer's counters; \<open>dq_taken\<close> is what the consumer has taken so far.
  The queue keeps a receiver of its own to evict with.
\<close>

record ('a, 'c) drop_queue =
  dq_channel :: "'a channel"
  dq_counters :: 'c
  dq_taken :: "'a list"

definition new_queue :: "nat \<Rightarrow> 'c \<Rightarrow> ('a, 'c) drop_queue" where
  "new_queue capacity counters =
     \<lparr>dq_channel = bounded capacity, dq_counters = counters, dq_taken = []\<rparr>"

definition receiver :: "('a, 'c) drop_queue \<Rightarrow> ('a, 'c) drop_queue" where
  "receiver q = q\<lparr>dq_channel := (dq_channel q)\<lparr>ch_receivers := ch_receivers (dq_channel q) + 1\<rparr>\<rparr>"

abbreviation queued :: "('a, 'c) drop_queue \<Rightarrow> 'a list" where
  "queued q \<equiv> ch_items (dq_channel q)"

definition consumer_takes :: "nat \<Rightarrow> ('a, 'c) drop_queue \<Rightarrow> ('a, 'c) drop_queue" where
  "consumer_takes k q =
     q\<lparr>dq_taken := dq_taken q @ take k (queued q),
       dq_channel := (dq_channel q)\<lparr>ch_items := drop k (queued q)\<rparr>\<rparr>"

text \<open>
  \<open>takes i\<close> is what the consumer takes before the \<open>i\<close>-th operation of the call, \<open>give_up\<close> the
  items that are discarded when the channel is full, \<open>dropped\<close> and \<open>sent\<close> the bookkeeping.
\<close>

partial_function (option) enqueue_loop ::
  "('a \<Rightarrow> bool) \<Rightarrow> ('a \<Rightarrow> 'c \<Rightarrow> 'c) \<Rightarrow> (nat \<Rightarrow> 'c \<Rightarrow> 'c) \<Rightarrow> (nat \<Rightarrow> nat) \<Rightarrow> nat \<Rightarrow> 'a \<Rightarrow>
   ('a, 'c) drop_queue \<Rightarrow> (bool \<times> ('a, 'c) drop_queue) option" where
  "enqueue_loop give_up dropped sent takes i x q =
     (let q1 = consumer_takes (takes i) q in
      case try_send x (dq_channel q1) of
        Sent ch \<Rightarrow>
          let q2 = consumer_takes (takes (i + 1)) (q1\<lparr>dq_channel := ch\<rparr>) in
          Some (True, q2\<lparr>dq_counters := sent (length (queued q2)) (dq_counters q2)\<rparr>)
      | SendFull returned \<Rightarrow>
          if give_up returned then Some (True, q1\<lparr>dq_counters := dropped returned (dq_counters q1)\<rparr>)
          else (let q2 = consumer_takes (takes (i + 1)) q1 in
            case try_recv (dq_channel q2) of
              Received oldest ch \<Rightarrow>
                enqueue_loop give_up dropped sent takes (i + 2) returned
                  (q2\<lparr>dq_channel := ch, dq_counters := dropped oldest (dq_counters q2)\<rparr>)
            | RecvEmpty \<Rightarrow> enqueue_loop give_up dropped sent takes (i + 2) returned q2
            | RecvDisconnected \<Rightarrow> Some (False, q2))
      | SendDisconnected _ \<Rightarrow> Some (False, q1))"

declare enqueue_loop.simps [simp del]

definition queue_ok :: "('a, 'c) drop_queue \<Rightarrow> bool" where
  "queue_ok q \<longleftrightarrow> 0 < ch_capacity (dq_channel q) \<and> 0 < ch_receivers (dq_channel q) \<and>
     0 < ch_senders (dq_channel q) \<and> length (queued q) \<le> ch_capacity (dq_channel q)"

lemma queue_ok_new: "0 < capacity \<Longrightarrow> queue_ok (receiver (new_queue capacity c))"
  by (simp add: queue_ok_def receiver_def new_queue_def bounded_def)

lemma consumer_takes_simps [simp]:
  "dq_taken (consumer_takes k q) @ queued (consumer_takes k q) = dq_taken q @ queued q"
  "dq_counters (consumer_takes k q) = dq_counters q"
  "queued (consumer_takes k q) = drop k (queued q)"
  "ch_capacity (dq_channel (consumer_takes k q)) = ch_capacity (dq_channel q)"
  "ch_receivers (dq_channel (consumer_takes k q)) = ch_receivers (dq_channel q)"
  "ch_senders (dq_channel (consumer_takes k q)) = ch_senders (dq_channel q)"
  by (simp_all add: consumer_takes_def)

lemma queue_ok_takes [simp]: "queue_ok q \<Longrightarrow> queue_ok (consumer_takes k q)"
  by (auto simp: queue_ok_def)

text \<open>A call with room in the channel sends; one on a full channel evicts once, if at all, and then sends.\<close>

lemma enqueue_room:
  assumes "queue_ok q" "length (queued (consumer_takes (takes i) q)) < ch_capacity (dq_channel q)"
  shows "\<exists>q'. enqueue_loop g d s takes i x q = Some (True, q') \<and> queue_ok q' \<and>
    dq_taken q' @ queued q' = dq_taken q @ queued q @ [x] \<and>
    dq_counters q' = s (length (queued q')) (dq_counters q)"
proof -
  let ?q1 = "consumer_takes (takes i) q"
  let ?q2 = "consumer_takes (takes (i + 1))
    (?q1\<lparr>dq_channel := (dq_channel ?q1)\<lparr>ch_items := queued ?q1 @ [x]\<rparr>\<rparr>)"
  have "dq_taken ?q2 @ queued ?q2 = dq_taken ?q1 @ queued ?q1 @ [x]" by (simp del: consumer_takes_simps(3))
  also have "\<dots> = dq_taken q @ queued q @ [x]" by (simp flip: append_assoc del: consumer_takes_simps(3))
  finally have "dq_taken ?q2 @ queued ?q2 = dq_taken q @ queued q @ [x]" .
  moreover have "enqueue_loop g d s takes i x q =
      Some (True, ?q2\<lparr>dq_counters := s (length (queued ?q2)) (dq_counters ?q2)\<rparr>)"
    using assms by (subst enqueue_loop.simps) (simp add: Let_def try_send_def queue_ok_def)
  ultimately show ?thesis using assms by (auto simp: queue_ok_def)
qed

lemma enqueue_cases:
  assumes "queue_ok q"
  shows "\<exists>q'. enqueue_loop g d s takes 0 x q = Some (True, q') \<and> queue_ok q' \<and>
    ((dq_taken q' @ queued q' = dq_taken q @ queued q @ [x] \<and>
      dq_counters q' = s (length (queued q')) (dq_counters q)) \<or>
     (g x \<and> dq_taken q' @ queued q' = dq_taken q @ queued q \<and> dq_counters q' = d x (dq_counters q)) \<or>
     (\<not> g x \<and> (\<exists>oldest ys zs. dq_taken q @ queued q = ys @ oldest # zs \<and>
        dq_taken q' @ queued q' = ys @ zs @ [x] \<and>
        dq_counters q' = s (length (queued q')) (d oldest (dq_counters q)))))"
proof (cases "length (queued (consumer_takes (takes 0) q)) < ch_capacity (dq_channel q)")
  case True
  with enqueue_room [where takes = takes and i = 0, OF assms] show ?thesis by metis
next
  case full: False
  let ?q1 = "consumer_takes (takes 0) q"
  have full': "try_send x (dq_channel ?q1) = SendFull x"
    using full assms by (simp add: try_send_def queue_ok_def)
  show ?thesis
  proof (cases "g x")
    case True
    then have "enqueue_loop g d s takes 0 x q = Some (True, ?q1\<lparr>dq_counters := d x (dq_counters ?q1)\<rparr>)"
      by (subst enqueue_loop.simps) (simp add: Let_def full')
    moreover have "queue_ok (?q1\<lparr>dq_counters := d x (dq_counters ?q1)\<rparr>)"
      using queue_ok_takes [OF assms, of "takes 0"] by (simp add: queue_ok_def)
    ultimately show ?thesis
      using True consumer_takes_simps(1,2) [of "takes 0" q] by (auto simp del: consumer_takes_simps(3))
  next
    case keep: False
    let ?q2 = "consumer_takes (takes 1) ?q1"
    have ok2: "queue_ok ?q2" using assms by simp
    have pq2: "dq_taken ?q2 @ queued ?q2 = dq_taken q @ queued q" by (simp del: consumer_takes_simps(3))
    show ?thesis
    proof (cases "queued ?q2")
      case Nil
      then have loop: "enqueue_loop g d s takes 0 x q = enqueue_loop g d s takes 2 x ?q2"
        using ok2 keep by (subst enqueue_loop.simps) (simp add: Let_def numeral_2_eq_2 full' try_recv_def queue_ok_def)
      have "length (queued (consumer_takes (takes 2) ?q2)) < ch_capacity (dq_channel ?q2)"
        using Nil ok2 by (simp add: queue_ok_def)
      from enqueue_room [where takes = takes and i = 2, OF ok2 this, of g d s x] loop pq2 show ?thesis
        by (metis append_assoc consumer_takes_simps(2))
    next
      case (Cons oldest rest)
      let ?q3 = "?q2\<lparr>dq_channel := (dq_channel ?q2)\<lparr>ch_items := rest\<rparr>, dq_counters := d oldest (dq_counters ?q2)\<rparr>"
      have loop: "enqueue_loop g d s takes 0 x q = enqueue_loop g d s takes 2 x ?q3"
        using Cons keep by (subst enqueue_loop.simps) (simp add: Let_def numeral_2_eq_2 full' try_recv_def)
      have len: "length rest < ch_capacity (dq_channel q)" using ok2 arg_cong [OF Cons, of length]
        unfolding queue_ok_def Cons by simp
      have ok3: "queue_ok ?q3" using ok2 len by (simp add: queue_ok_def)
      have "length (queued (consumer_takes (takes 2) ?q3)) < ch_capacity (dq_channel ?q3)"
        using len by simp
      from enqueue_room [where takes = takes and i = 2, OF ok3 this, of g d s x] obtain q' where q':
        "enqueue_loop g d s takes 2 x ?q3 = Some (True, q')" "queue_ok q'"
        "dq_taken q' @ queued q' = dq_taken ?q2 @ rest @ [x]"
        "dq_counters q' = s (length (queued q')) (d oldest (dq_counters q))"
        by auto
      moreover have "dq_taken q @ queued q = dq_taken ?q2 @ oldest # rest" using pq2 Cons by simp
      ultimately show ?thesis using loop keep by auto
    qed
  qed
qed

section \<open>What a queue promises\<close>

primrec enqueue_each ::
  "('a \<Rightarrow> bool) \<Rightarrow> ('a \<Rightarrow> 'c \<Rightarrow> 'c) \<Rightarrow> (nat \<Rightarrow> 'c \<Rightarrow> 'c) \<Rightarrow> ((nat \<Rightarrow> nat) \<times> 'a) list \<Rightarrow>
   ('a, 'c) drop_queue \<Rightarrow> ('a, 'c) drop_queue option" where
  "enqueue_each g d s [] q = Some q"
| "enqueue_each g d s (c # calls) q =
     (case enqueue_loop g d s (fst c) 0 (snd c) q of
        None \<Rightarrow> None
      | Some r \<Rightarrow> enqueue_each g d s calls (snd r))"

text \<open>
  A counter of lost records: evicting or discarding an item adds the records in it, sending adds
  nothing, and only empty items are discarded.
\<close>

locale loss_counter =
  fixes give_up :: "'a \<Rightarrow> bool" and dropped :: "'a \<Rightarrow> 'c \<Rightarrow> 'c" and sent :: "nat \<Rightarrow> 'c \<Rightarrow> 'c"
    and weight :: "'a \<Rightarrow> nat" and lost :: "'c \<Rightarrow> u64"
  assumes lost_dropped: "unat (lost c) + weight x < 2 ^ 64 \<Longrightarrow> unat (lost (dropped x c)) = unat (lost c) + weight x"
    and lost_sent: "lost (sent n c) = lost c"
    and give_up_empty: "give_up x \<Longrightarrow> weight x = 0"
begin

definition weights :: "'a list \<Rightarrow> nat" where
  "weights xs = sum_list (map weight xs)"

lemma weights_simps [simp]:
  "weights [] = 0" "weights (x # xs) = weight x + weights xs" "weights (xs @ ys) = weights xs + weights ys"
  by (simp_all add: weights_def)

lemma enqueue_conserves:
  assumes "queue_ok q" "unat (lost (dq_counters q)) + weights (dq_taken q @ queued q) + weight x < 2 ^ 64"
  shows "\<exists>q'. enqueue_loop give_up dropped sent takes 0 x q = Some (True, q') \<and> queue_ok q' \<and>
    unat (lost (dq_counters q')) + weights (dq_taken q' @ queued q') =
      unat (lost (dq_counters q)) + weights (dq_taken q @ queued q) + weight x \<and>
    subseq (dq_taken q' @ queued q') (dq_taken q @ queued q @ [x])"
proof -
  obtain q' where q': "enqueue_loop give_up dropped sent takes 0 x q = Some (True, q')" "queue_ok q'"
    and c: "(dq_taken q' @ queued q' = dq_taken q @ queued q @ [x] \<and>
        dq_counters q' = sent (length (queued q')) (dq_counters q)) \<or>
      (give_up x \<and> dq_taken q' @ queued q' = dq_taken q @ queued q \<and> dq_counters q' = dropped x (dq_counters q)) \<or>
      (\<not> give_up x \<and> (\<exists>oldest ys zs. dq_taken q @ queued q = ys @ oldest # zs \<and>
        dq_taken q' @ queued q' = ys @ zs @ [x] \<and>
        dq_counters q' = sent (length (queued q')) (dropped oldest (dq_counters q))))"
    using enqueue_cases [OF assms(1), of give_up dropped sent takes x] by blast
  from c have "unat (lost (dq_counters q')) + weights (dq_taken q' @ queued q') =
      unat (lost (dq_counters q)) + weights (dq_taken q @ queued q) + weight x \<and>
    subseq (dq_taken q' @ queued q') ((dq_taken q @ queued q) @ [x])"
  proof (elim disjE conjE exE)
    assume "dq_taken q' @ queued q' = dq_taken q @ queued q @ [x]"
      "dq_counters q' = sent (length (queued q')) (dq_counters q)"
    then show ?thesis by (simp only: weights_simps lost_sent) simp
  next
    assume a: "give_up x" "dq_taken q' @ queued q' = dq_taken q @ queued q" "dq_counters q' = dropped x (dq_counters q)"
    have "unat (lost (dropped x (dq_counters q))) = unat (lost (dq_counters q))"
      using lost_dropped [of "dq_counters q" x] give_up_empty [OF a(1)] assms(2) by simp
    then show ?thesis using a give_up_empty [OF a(1)] by (simp only: a) (metis (no_types, lifting) add.right_neutral append_Nil2 list_emb_append_mono list_emb_Nil subseq_order.order_refl)
  next
    fix oldest ys zs
    assume a: "dq_taken q @ queued q = ys @ oldest # zs" "dq_taken q' @ queued q' = ys @ zs @ [x]"
      "dq_counters q' = sent (length (queued q')) (dropped oldest (dq_counters q))"
    have "unat (lost (dropped oldest (dq_counters q))) = unat (lost (dq_counters q)) + weight oldest"
      using assms(2) unfolding a(1) by (intro lost_dropped) simp
    moreover have "subseq (ys @ zs @ [x]) (ys @ oldest # zs @ [x])" by (intro list_emb_append_mono) auto
    ultimately show ?thesis unfolding a by (simp add: lost_sent)
  qed
  with q' show ?thesis by auto
qed

lemma enqueue_each_conserves:
  assumes "queue_ok q"
    "unat (lost (dq_counters q)) + weights (dq_taken q @ queued q) + weights (map snd calls) < 2 ^ 64"
  shows "\<exists>q'. enqueue_each give_up dropped sent calls q = Some q' \<and> queue_ok q' \<and>
    unat (lost (dq_counters q')) + weights (dq_taken q' @ queued q') =
      unat (lost (dq_counters q)) + weights (dq_taken q @ queued q) + weights (map snd calls) \<and>
    subseq (dq_taken q' @ queued q') (dq_taken q @ queued q @ map snd calls)"
  using assms
proof (induction calls arbitrary: q)
  case (Cons c calls)
  obtain q1 where q1: "enqueue_loop give_up dropped sent (fst c) 0 (snd c) q = Some (True, q1)" "queue_ok q1"
    "unat (lost (dq_counters q1)) + weights (dq_taken q1 @ queued q1) =
      unat (lost (dq_counters q)) + weights (dq_taken q @ queued q) + weight (snd c)"
    "subseq (dq_taken q1 @ queued q1) (dq_taken q @ queued q @ [snd c])"
    using enqueue_conserves [OF Cons.prems(1), of "snd c" "fst c"] Cons.prems(2) by auto
  then obtain q' where q': "enqueue_each give_up dropped sent calls q1 = Some q'" "queue_ok q'"
    "unat (lost (dq_counters q')) + weights (dq_taken q' @ queued q') =
      unat (lost (dq_counters q1)) + weights (dq_taken q1 @ queued q1) + weights (map snd calls)"
    "subseq (dq_taken q' @ queued q') (dq_taken q1 @ queued q1 @ map snd calls)"
    using Cons.IH [of q1] Cons.prems(2) by auto
  have "subseq ((dq_taken q1 @ queued q1) @ map snd calls) ((dq_taken q @ queued q @ [snd c]) @ map snd calls)"
    by (rule list_emb_append_mono [OF q1(4)]) simp
  with q'(4) have "subseq (dq_taken q' @ queued q') (dq_taken q @ queued q @ map snd (c # calls))"
    using subseq_order.order_trans by fastforce
  with q1(1,3) q'(1-3) show ?case by simp
qed simp

end

end
