(* ===== verification/Session.thy ===== *)
theory Session
  imports KperfParser DropQueue
begin

text \<open>
  The recording session of the root daemon (\<open>staxd/src/session.rs\<close>): it configures kperf and
  kdebug, drains the kernel's buffer in a loop, hands batches of records to a sender through a
  bounded queue, and tears everything down. The kernel and the profiling frameworks are a
  parameter that answers every call from the calls made before it; the trace of calls is part of
  every result.
\<close>

section \<open>Messages\<close>

record session_config =
  sc_target_pid :: u32
  sc_frequency_hz :: u32
  sc_buf_records :: u32
  sc_samplers :: u32
  sc_pmu_event_configs :: "u64 list"
  sc_class_mask :: u32
  sc_filter_range_value1 :: u32
  sc_filter_range_value2 :: u32
  sc_typefilter_cscs :: "u16 list"

record kd_buf_batch =
  kb_records :: "kd_buf list"
  kb_read_started :: u64
  kb_drained :: u64
  kb_queued_for_send :: u64
  kb_send_started :: u64
  kb_drained_at_unix_ns :: u64

record record_summary =
  rs_records_drained :: u64
  rs_session_ns :: u64

datatype record_error =
  RecNotRoot
| RecNotAuthorized u32 u32
| RecBusy u32 u32 u64
| RecNoSuchTarget u32
| RecKperf string int
| RecSysctl string string
| RecEvicted

definition kperf_call :: "int \<Rightarrow> string \<Rightarrow> record_error + unit" where
  "kperf_call rc op' = (if rc = 0 then Inr () else Inl (RecKperf op' rc))"

text \<open>\<open>show_io\<close> is how the library renders an I/O error, \<open>show_nat\<close> a number.\<close>

record rendering =
  show_io :: "io_source \<Rightarrow> string"
  show_nat :: "nat \<Rightarrow> string"

fun map_kperf_err :: "rendering \<Rightarrow> kd_error \<Rightarrow> record_error" where
  "map_kperf_err r NotRoot = RecNotRoot"
| "map_kperf_err r (Sysctl op' source) = RecSysctl op' (show_io r source)"
| "map_kperf_err r (Kperf op' code) = RecKperf op' code"
| "map_kperf_err r (Kpep op' code) = RecKperf (''kpep:'' @ op') code"
| "map_kperf_err r (FrameworkLoad path msg) = RecSysctl ''FrameworkLoad'' (path @ '': '' @ msg)"
| "map_kperf_err r (SymbolMissing name msg) = RecSysctl ''SymbolMissing'' (name @ '': '' @ msg)"
| "map_kperf_err r (UnknownEvent name) = RecSysctl ''UnknownEvent'' name"
| "map_kperf_err r (TooManyEvents n cap) = RecSysctl ''TooManyEvents'' (show_nat r n @ '' > '' @ show_nat r cap)"

section \<open>Configuring the kernel\<close>

datatype kcall =
  ForceAllCtrsGet
| ForceAllCtrsSet int
| SampleSet u32
| KperfReset
| LightweightPet u32
| ActionCountSet u32
| TimerCountSet u32
| ActionSamplersSet u32 u32
| ActionFilterSetByPid u32 int
| TimerPeriodSet u32 u64
| TimerActionSet u32 u32
| TimerPetSet u32
| KpcSetConfig u32 "u64 list"
| KpcSetCounting u32
| KpcSetThreadCounting u32
| KdEnable bool
| KdReset
| KdSetBufSize int
| KdSetup
| KdSetFilter kd_regtype
| KdSetTypefilter "u16 list"

text \<open>The return code of a call, from the calls before it.\<close>

type_synonym kernel = "kcall list \<Rightarrow> kcall \<Rightarrow> int"

text \<open>The kdebug wrappers, given the kernel's return code.\<close>

fun kd_result :: "int \<Rightarrow> kcall \<Rightarrow> kd_error + unit" where
  "kd_result rc KdReset = kd_reset (\<lambda>_ sz. (rc, sz, ()))"
| "kd_result rc (KdSetBufSize n) = set_buf_size (\<lambda>_ sz. (rc, sz, ())) n"
| "kd_result rc KdSetup = kd_setup (\<lambda>_ sz. (rc, sz, ()))"
| "kd_result rc (KdEnable on) = kd_enable (\<lambda>_ sz. (rc, sz, ())) on"
| "kd_result rc (KdSetFilter f) = set_filter (\<lambda>_ _ _. rc) f"
| "kd_result rc (KdSetTypefilter cscs) = set_typefilter (\<lambda>_ _ _. rc) cscs"
| "kd_result rc (LightweightPet v) = set_lightweight_pet (\<lambda>_ _. rc) v"
| "kd_result rc _ = Inr ()"

text \<open>A step makes calls, and fails or goes on; \<open>in_order\<close> is a block of statements that end in \<open>?\<close>.\<close>

type_synonym setup_step = "kcall list \<Rightarrow> (record_error + unit) \<times> kcall list"

definition kd_step :: "rendering \<Rightarrow> kernel \<Rightarrow> kcall \<Rightarrow> setup_step" where
  "kd_step r kern c h =
     (case kd_result (kern h c) c of
        Inl e \<Rightarrow> (Inl (map_kperf_err r e), h @ [c])
      | Inr _ \<Rightarrow> (Inr (), h @ [c]))"

definition fw_step :: "kernel \<Rightarrow> kcall \<Rightarrow> string \<Rightarrow> setup_step" where
  "fw_step kern c op' h = (kperf_call (kern h c) op', h @ [c])"

primrec in_sequence :: "setup_step list \<Rightarrow> setup_step" where
  "in_sequence [] h = (Inr (), h)"
| "in_sequence (s # steps) h =
     (case s h of (Inl e, h') \<Rightarrow> (Inl e, h') | (Inr _, h') \<Rightarrow> in_sequence steps h')"

definition KPERF_ACTION_MAX :: u32 where "KPERF_ACTION_MAX = 32"
definition KPERF_TIMER_MAX :: u32 where "KPERF_TIMER_MAX = 8"

definition timer_period_ns :: "session_config \<Rightarrow> u64" where
  "timer_period_ns config =
     (if sc_frequency_hz config = 0 then 1000000 else 1000000000 div ucast (sc_frequency_hz config))"

definition kperf_steps :: "rendering \<Rightarrow> (u64 \<Rightarrow> u64) \<Rightarrow> kernel \<Rightarrow> session_config \<Rightarrow> setup_step list" where
  "kperf_steps r ns_to_ticks kern config =
     (let actionid = 1; timerid = 1; fw = fw_step kern; kd = kd_step r kern in
        [fw (ActionCountSet KPERF_ACTION_MAX) ''action_count_set'',
         fw (TimerCountSet KPERF_TIMER_MAX) ''timer_count_set'',
         fw (ActionSamplersSet actionid (sc_samplers config)) ''action_samplers_set'',
         fw (ActionFilterSetByPid actionid (sint (sc_target_pid config))) ''action_filter_set_by_pid'',
         fw (TimerPeriodSet actionid (ns_to_ticks (timer_period_ns config))) ''timer_period_set'',
         fw (TimerActionSet actionid timerid) ''timer_action_set'',
         fw (TimerPetSet timerid) ''timer_pet_set''] @
        (if sc_pmu_event_configs config = [] then []
         else [fw (KpcSetConfig (sc_class_mask config) (sc_pmu_event_configs config)) ''kpc_set_config'']) @
        [fw (KpcSetCounting (sc_class_mask config)) ''kpc_set_counting'',
         fw (KpcSetThreadCounting (sc_class_mask config)) ''kpc_set_thread_counting'',
         kd (LightweightPet 1),
         fw (SampleSet 1) ''sample_set''])"

definition setup_kperf :: "rendering \<Rightarrow> (u64 \<Rightarrow> u64) \<Rightarrow> kernel \<Rightarrow> session_config \<Rightarrow> setup_step" where
  "setup_kperf r ns_to_ticks kern config = in_sequence (kperf_steps r ns_to_ticks kern config)"

definition kdebug_steps :: "rendering \<Rightarrow> kernel \<Rightarrow> session_config \<Rightarrow> setup_step list" where
  "kdebug_steps r kern config =
     (let kd = kd_step r kern in
        [kd KdReset,
         kd (KdSetBufSize (sint (sc_buf_records config))),
         kd KdSetup,
         (if sc_typefilter_cscs config = []
          then kd (KdSetFilter \<lparr>krt_ty = KDBG_RANGETYPE, krt_value1 = sc_filter_range_value1 config,
                 krt_value2 = sc_filter_range_value2 config, krt_value3 = 0, krt_value4 = 0\<rparr>)
          else kd (KdSetTypefilter (sc_typefilter_cscs config))),
         kd (KdEnable True)])"

definition setup_kdebug :: "rendering \<Rightarrow> kernel \<Rightarrow> session_config \<Rightarrow> setup_step" where
  "setup_kdebug r kern config = in_sequence (kdebug_steps r kern config)"

text \<open>Errors of the teardown and of the initial wipe are ignored: only the calls matter.\<close>

definition teardown_calls :: "kcall list" where
  "teardown_calls = [KdEnable False, KdReset, SampleSet 0, LightweightPet 0, KpcSetCounting 0,
     KpcSetThreadCounting 0, ForceAllCtrsSet 0, KperfReset]"

definition teardown :: "kcall list \<Rightarrow> kcall list" where
  "teardown h = h @ teardown_calls"

definition clear_stale_state :: "kcall list \<Rightarrow> kcall list" where
  "clear_stale_state h = h @ [SampleSet 0, KperfReset, LightweightPet 0, KdEnable False, KdReset]"

text \<open>
  \<open>frameworks\<close> is the outcome of loading the profiling frameworks, \<open>drained\<close> that of the drain
  below, which is \<open>None\<close> as long as the drain goes on.
\<close>

definition session_run ::
  "rendering \<Rightarrow> (u64 \<Rightarrow> u64) \<Rightarrow> kernel \<Rightarrow> kd_error + unit \<Rightarrow> session_config \<Rightarrow>
   (record_error + record_summary) option \<Rightarrow> ((record_error + record_summary) \<times> kcall list) option" where
  "session_run r ns_to_ticks kern frameworks config drained =
     (case frameworks of
        Inl e \<Rightarrow> Some (Inl (map_kperf_err r e), [])
      | Inr _ \<Rightarrow>
          if kern [] ForceAllCtrsGet \<noteq> 0 then Some (Inl RecNotRoot, [ForceAllCtrsGet])
          else
            case in_sequence [setup_kperf r ns_to_ticks kern config, setup_kdebug r kern config]
                (clear_stale_state [ForceAllCtrsGet]) of
              (Inl e, h) \<Rightarrow> Some (Inl e, h)
            | (Inr _, h) \<Rightarrow> (case drained of None \<Rightarrow> None | Some result \<Rightarrow> Some (result, teardown h)))"

section \<open>The send queue\<close>

record send_drop_stats =
  sd_dropped_batches :: u64
  sd_dropped_empty_batches :: u64
  sd_dropped_records :: u64

definition no_drops :: send_drop_stats where
  "no_drops = \<lparr>sd_dropped_batches = 0, sd_dropped_empty_batches = 0, sd_dropped_records = 0\<rparr>"

type_synonym batch_send_queue = "(kd_buf_batch, send_drop_stats) drop_queue"

definition SEND_QUEUE_CAPACITY :: nat where "SEND_QUEUE_CAPACITY = 256"

definition record_drop :: "kd_buf_batch \<Rightarrow> send_drop_stats \<Rightarrow> send_drop_stats" where
  "record_drop batch drops =
     (if kb_records batch = [] then drops\<lparr>sd_dropped_empty_batches := sat_add (sd_dropped_empty_batches drops) 1\<rparr>
      else drops\<lparr>sd_dropped_batches := sat_add (sd_dropped_batches drops) 1,
                 sd_dropped_records := sat_add (sd_dropped_records drops) (of_nat (length (kb_records batch)))\<rparr>)"

text \<open>A full channel drops an empty batch at once, as \<open>record_drop\<close> counts it.\<close>

definition enqueue_drop_oldest ::
  "(nat \<Rightarrow> nat) \<Rightarrow> kd_buf_batch \<Rightarrow> batch_send_queue \<Rightarrow> (bool \<times> batch_send_queue) option" where
  "enqueue_drop_oldest takes batch q = enqueue_loop (\<lambda>b. kb_records b = []) record_drop (\<lambda>_ c. c) takes 0 batch q"

interpretation sendq: loss_counter "\<lambda>b. kb_records b = []" record_drop "\<lambda>_ c. c"
  "\<lambda>b. length (kb_records b)" sd_dropped_records
proof unfold_locales
  fix c :: send_drop_stats and x :: kd_buf_batch
  assume a: "unat (sd_dropped_records c) + length (kb_records x) < 2 ^ 64"
  then have "unat (of_nat (length (kb_records x)) :: u64) = length (kb_records x)"
    by (simp add: unat_of_nat take_bit_nat_eq_self)
  with a show "unat (sd_dropped_records (record_drop x c)) = unat (sd_dropped_records c) + length (kb_records x)"
    by (simp add: record_drop_def sat_simps)
qed auto

text \<open>
  The sender: \<open>attempts\<close> are the batches it takes out of the queue, each with the clock before the
  send and whether the send succeeds. The first failure cancels the session and ends the task.
\<close>

record send_summary =
  ss_sent_batches :: u64
  ss_sent_records :: u64
  ss_max_send_wait_ns :: u64

primrec send_batches ::
  "(kd_buf_batch \<times> u64 \<times> bool) list \<Rightarrow> send_summary \<Rightarrow> kd_buf_batch list \<Rightarrow> send_summary \<times> kd_buf_batch list \<times> bool" where
  "send_batches [] summary wire = (summary, wire, False)"
| "send_batches (a # attempts) summary wire =
     (case a of (batch, now, ok) \<Rightarrow>
        if \<not> ok then (summary, wire, True)
        else send_batches attempts
          (summary\<lparr>ss_sent_batches := sat_add (ss_sent_batches summary) 1,
                   ss_sent_records := sat_add (ss_sent_records summary) (of_nat (length (kb_records batch)))\<rparr>)
          (wire @ [batch\<lparr>kb_send_started := now\<rparr>]))"

section \<open>Ages of records\<close>

text \<open>The daemon watches for samples with a user stack as the records pass by.\<close>

record pending_kperf_sample =
  pks_timestamp :: u64
  pks_triggered :: bool

type_synonym age_scanner = "pending_kperf_sample option"

definition frames_announced :: "kd_buf \<Rightarrow> u32" where
  "frames_announced rec = sat_add (ucast (kd_arg2 rec)) (ucast (kd_arg4 rec))"

definition age_scanner_feed :: "kd_buf \<Rightarrow> age_scanner \<Rightarrow> u64 option \<times> age_scanner" where
  "age_scanner_feed rec scanner =
     (let d = kd_debugid rec; subclass = kdbg_subclass d; code = kdbg_code d; func = kdbg_func d in
      if kdbg_class d \<noteq> DBG_PERF then (None, scanner)
      else if subclass = SC_GENERIC \<and> code = 0 \<and> func = DBG_FUNC_START
      then (None, Some \<lparr>pks_timestamp = kd_timestamp rec AND KDBG_TIMESTAMP_MASK, pks_triggered = False\<rparr>)
      else if subclass = SC_GENERIC \<and> code = 0 \<and> func = DBG_FUNC_END then (None, None)
      else if subclass = SC_CALLSTACK \<and> code = CS_UHDR
      then (case scanner of
              None \<Rightarrow> (None, None)
            | Some pending \<Rightarrow>
                if pks_triggered pending then (None, scanner)
                else if frames_announced rec = 0 then (None, scanner)
                else (Some (pks_timestamp pending), Some (pending\<lparr>pks_triggered := True\<rparr>)))
      else (None, scanner))"

text \<open>\<open>timebase\<close> is what \<open>mach_timebase_info\<close> returns, \<open>None\<close> when it fails.\<close>

definition elapsed_ticks_to_ns :: "(u32 \<times> u32) option \<Rightarrow> u64 \<Rightarrow> u64 \<Rightarrow> u64" where
  "elapsed_ticks_to_ns timebase later earlier =
     (if later < earlier then 0
      else case timebase of
        Some (numer, denom) \<Rightarrow>
          if denom = 0 then later - earlier
          else of_nat (min (unat (later - earlier) * unat numer div unat denom) (2 ^ 64 - 1))
      | None \<Rightarrow> later - earlier)"

definition oldest_record_age_ns :: "(u32 \<times> u32) option \<Rightarrow> kd_buf list \<Rightarrow> nat \<Rightarrow> u64 \<Rightarrow> u64" where
  "oldest_record_age_ns timebase buf n read_started =
     (case buf of rec # _ \<Rightarrow> if 0 < n then elapsed_ticks_to_ns timebase read_started (kd_timestamp rec) else 0
      | [] \<Rightarrow> 0)"

definition newest_record_age_ns :: "(u32 \<times> u32) option \<Rightarrow> kd_buf list \<Rightarrow> nat \<Rightarrow> u64 \<Rightarrow> u64" where
  "newest_record_age_ns timebase buf n read_started =
     (if 0 < n \<and> n - 1 < length buf
      then elapsed_ticks_to_ns timebase read_started (kd_timestamp (buf ! (n - 1))) else 0)"

section \<open>The drain loop\<close>

definition MIN_DRAIN_READ_BATCH_RECORDS :: nat where "MIN_DRAIN_READ_BATCH_RECORDS = 4096"
definition MAX_DRAIN_READ_BATCH_RECORDS :: nat where "MAX_DRAIN_READ_BATCH_RECORDS = 16384"
definition IDLE_SPIN_READS :: u32 where "IDLE_SPIN_READS = 8"
definition IDLE_YIELD_READS :: u32 where "IDLE_YIELD_READS = 32"

definition min_read_batch :: "session_config \<Rightarrow> nat" where
  "min_read_batch config = max (min MIN_DRAIN_READ_BATCH_RECORDS (unat (sc_buf_records config))) 1"

definition max_read_batch :: "session_config \<Rightarrow> nat" where
  "max_read_batch config =
     max (min MAX_DRAIN_READ_BATCH_RECORDS (unat (sc_buf_records config))) (min_read_batch config)"

datatype idle_action = NoWait | SpinLoop | YieldNow | WaitForBuffer

definition idle_action_for :: "u32 \<Rightarrow> idle_action" where
  "idle_action_for consecutive_empty_reads =
     (if consecutive_empty_reads = 0 then NoWait
      else if consecutive_empty_reads \<le> IDLE_SPIN_READS then SpinLoop
      else if consecutive_empty_reads \<le> IDLE_YIELD_READS then YieldNow
      else WaitForBuffer)"

definition next_read_batch :: "nat \<Rightarrow> nat \<Rightarrow> nat \<Rightarrow> nat \<Rightarrow> nat" where
  "next_read_batch lo hi n k =
     (if n = k \<and> k < hi then min (min (k * 2) (2 ^ 64 - 1)) hi
      else if n < k div 4 \<and> lo < k then max (k div 2) lo
      else k)"

definition empty_kdbuf :: kd_buf where
  "empty_kdbuf = \<lparr>kd_timestamp = 0, kd_arg1 = 0, kd_arg2 = 0, kd_arg3 = 0, kd_arg4 = 0, kd_arg5 = 0,
     kd_debugid = 0, kd_cpuid = 0, kd_unused = 0\<rparr>"

text \<open>
  What one iteration meets: the two checks of the cancel flag, the kernel's answer to the read, the
  clocks, whether a heartbeat is due after an empty read, and what the sender takes meanwhile.
\<close>

record drain_input =
  di_cancel :: bool
  di_cancel_after_wait :: bool
  di_sysctl :: "kd_buf list sysctl"
  di_read_started :: u64
  di_drained :: u64
  di_drained_at_unix_ns :: u64
  di_queued_for_send :: u64
  di_heartbeat_due :: bool
  di_takes :: "nat \<Rightarrow> nat"

record drain_state =
  dr_read_batch :: nat
  dr_buf :: "kd_buf list"
  dr_total :: u64
  dr_empty_reads :: u32
  dr_scanner :: age_scanner
  dr_send_count :: u64
  dr_queue :: batch_send_queue

definition start_drain :: "session_config \<Rightarrow> batch_send_queue \<Rightarrow> u64 \<Rightarrow> drain_state" where
  "start_drain config q send_count =
     \<lparr>dr_read_batch = min_read_batch config, dr_buf = replicate (max_read_batch config) empty_kdbuf,
      dr_total = 0, dr_empty_reads = 0, dr_scanner = None, dr_send_count = send_count, dr_queue = q\<rparr>"

datatype drain_flow =
  Draining drain_state
| Ended drain_state
| ReadFailed record_error drain_state
| SlicePanic

definition batch_of :: "kd_buf list \<Rightarrow> drain_input \<Rightarrow> kd_buf_batch" where
  "batch_of records di = \<lparr>kb_records = records, kb_read_started = di_read_started di, kb_drained = di_drained di,
     kb_queued_for_send = di_queued_for_send di, kb_send_started = 0,
     kb_drained_at_unix_ns = di_drained_at_unix_ns di\<rparr>"

text \<open>\<open>queue\<close> is the end of an iteration: hand a batch over, and end the loop when the sender is gone.\<close>

definition queue_batch :: "kd_buf_batch \<Rightarrow> drain_input \<Rightarrow> drain_state \<Rightarrow> drain_flow option" where
  "queue_batch batch di s =
     (case enqueue_drop_oldest (di_takes di) batch (dr_queue s) of
        None \<Rightarrow> None
      | Some (alive, q) \<Rightarrow>
          Some (if alive then Draining (s\<lparr>dr_queue := q, dr_send_count := sat_add (dr_send_count s) 1\<rparr>)
                else Ended (s\<lparr>dr_queue := q\<rparr>)))"

definition drain_iteration :: "rendering \<Rightarrow> session_config \<Rightarrow> drain_input \<Rightarrow> drain_state \<Rightarrow> drain_flow option" where
  "drain_iteration r config di s =
     (if di_cancel di then Some (Ended s)
      else if di_cancel_after_wait di then Some (Ended s)
      else if length (dr_buf s) < dr_read_batch s then Some SlicePanic
      else
        let k = dr_read_batch s; (result, filled) = read_trace (di_sysctl di) (take k (dr_buf s));
            buf = filled @ drop k (dr_buf s); lo = min_read_batch config; hi = max_read_batch config in
        case result of
          Inl e \<Rightarrow> Some (ReadFailed (map_kperf_err r e) (s\<lparr>dr_buf := buf\<rparr>))
        | Inr n \<Rightarrow>
            if n = 0 then
              (let s1 = s\<lparr>dr_read_batch := lo, dr_buf := buf, dr_empty_reads := sat_add (dr_empty_reads s) 1\<rparr> in
               if di_heartbeat_due di then queue_batch (batch_of [] di) di s1 else Some (Draining s1))
            else
              (let records = take n buf;
                   s1 = s\<lparr>dr_read_batch := next_read_batch lo hi n k, dr_buf := buf,
                          dr_total := sat_add (dr_total s) (of_nat n), dr_empty_reads := 0,
                          dr_scanner := fold (\<lambda>rec sc. snd (age_scanner_feed rec sc)) records (dr_scanner s)\<rparr> in
               queue_batch (batch_of records di) di s1))"

text \<open>The loop, as far as its inputs go.\<close>

primrec drain_kdebug_loop ::
  "rendering \<Rightarrow> session_config \<Rightarrow> drain_input list \<Rightarrow> drain_state \<Rightarrow> drain_flow option" where
  "drain_kdebug_loop r config [] s = Some (Draining s)"
| "drain_kdebug_loop r config (di # inputs) s =
     (case drain_iteration r config di s of
        Some (Draining s') \<Rightarrow> drain_kdebug_loop r config inputs s'
      | other \<Rightarrow> other)"

text \<open>
  The supervisor: the ready batch, the drain thread and what it comes to. \<open>None\<close> means that it has
  not returned. Whether the sender flushes in time is only logged.
\<close>

record supervisor_input =
  su_ready :: drain_input
  su_spawn_error :: "string option"
  su_join_error :: "string option"
  su_session_ns :: u64

definition drain ::
  "rendering \<Rightarrow> session_config \<Rightarrow> supervisor_input \<Rightarrow> drain_input list \<Rightarrow>
   (record_error + record_summary) option" where
  "drain r config su inputs =
     (let q = receiver (new_queue SEND_QUEUE_CAPACITY no_drops) in
      case enqueue_drop_oldest (di_takes (su_ready su)) (batch_of [] (su_ready su)) q of
        None \<Rightarrow> None
      | Some (False, _) \<Rightarrow> Some (Inr \<lparr>rs_records_drained = 0, rs_session_ns = su_session_ns su\<rparr>)
      | Some (True, q1) \<Rightarrow>
          (case su_spawn_error su of
             Some e \<Rightarrow> Some (Inl (RecSysctl ''spawn staxd-kdebug-drain'' e))
           | None \<Rightarrow>
               (case drain_kdebug_loop r config inputs (start_drain config q1 1) of
                  None \<Rightarrow> None
                | Some (Draining _) \<Rightarrow> None
                | Some SlicePanic \<Rightarrow> Some (Inl (RecSysctl ''staxd-kdebug-drain'' ''thread panicked''))
                | Some (ReadFailed e _) \<Rightarrow>
                    Some (case su_join_error su of Some j \<Rightarrow> Inl (RecSysctl ''join staxd-kdebug-drain'' j) | None \<Rightarrow> Inl e)
                | Some (Ended s) \<Rightarrow>
                    Some (case su_join_error su of
                      Some j \<Rightarrow> Inl (RecSysctl ''join staxd-kdebug-drain'' j)
                    | None \<Rightarrow> Inr \<lparr>rs_records_drained = dr_total s, rs_session_ns = su_session_ns su\<rparr>))))"

section \<open>The loop stays within its buffer and loses nothing silently\<close>

text \<open>The kernel writes into the buffer it is given: a record is 64 bytes.\<close>

definition fills_in_place :: "drain_input \<Rightarrow> bool" where
  "fills_in_place di \<longleftrightarrow> (\<forall>mib sz. length (snd (snd (di_sysctl di mib sz))) = sz div 64)"

abbreviation queue_records :: "batch_send_queue \<Rightarrow> kd_buf list" where
  "queue_records q \<equiv> concat (map kb_records (dq_taken q @ queued q))"

abbreviation queue_lost :: "batch_send_queue \<Rightarrow> nat" where
  "queue_lost q \<equiv> unat (sd_dropped_records (dq_counters q))"

text \<open>The records the kernel hands out: in one iteration, and until the loop ends.\<close>

definition iteration_reads :: "drain_input \<Rightarrow> drain_state \<Rightarrow> kd_buf list" where
  "iteration_reads di s =
     (if di_cancel di \<or> di_cancel_after_wait di then []
      else case read_trace (di_sysctl di) (take (dr_read_batch s) (dr_buf s)) of
        (Inr n, filled) \<Rightarrow> take n filled
      | _ \<Rightarrow> [])"

primrec loop_reads :: "rendering \<Rightarrow> session_config \<Rightarrow> drain_input list \<Rightarrow> drain_state \<Rightarrow> kd_buf list" where
  "loop_reads r config [] s = []"
| "loop_reads r config (di # inputs) s =
     iteration_reads di s @
     (case drain_iteration r config di s of
        Some (Draining s') \<Rightarrow> loop_reads r config inputs s'
      | _ \<Rightarrow> [])"

lemma loop_reads_single: "loop_reads r config [di] s = iteration_reads di s"
  by (simp split: option.split drain_flow.split)

fun flow_state :: "drain_flow \<Rightarrow> drain_state option" where
  "flow_state (Draining s) = Some s"
| "flow_state (Ended s) = Some s"
| "flow_state (ReadFailed _ s) = Some s"
| "flow_state SlicePanic = None"

definition drain_inv :: "session_config \<Rightarrow> drain_state \<Rightarrow> bool" where
  "drain_inv config s \<longleftrightarrow> min_read_batch config \<le> dr_read_batch s \<and> dr_read_batch s \<le> max_read_batch config \<and>
     length (dr_buf s) = max_read_batch config \<and> queue_ok (dr_queue s)"

definition accounted :: "kd_buf list \<Rightarrow> drain_state \<Rightarrow> bool" where
  "accounted reads s \<longleftrightarrow> unat (dr_total s) = length reads \<and>
     queue_lost (dr_queue s) + length (queue_records (dr_queue s)) = length reads \<and>
     subseq (queue_records (dr_queue s)) reads"

lemma read_batch_bounds: "1 \<le> min_read_batch config" "min_read_batch config \<le> max_read_batch config"
  "max_read_batch config \<le> 16384"
  by (auto simp: min_read_batch_def max_read_batch_def MIN_DRAIN_READ_BATCH_RECORDS_def MAX_DRAIN_READ_BATCH_RECORDS_def)

lemma next_read_batch_bounds:
  "lo \<le> k \<Longrightarrow> k \<le> hi \<Longrightarrow> hi < 2 ^ 64 \<Longrightarrow> lo \<le> next_read_batch lo hi n k \<and> next_read_batch lo hi n k \<le> hi"
  by (auto simp: next_read_batch_def)

lemma length_concat_records: "length (concat (map kb_records bs)) = sendq.weights bs"
  by (induction bs) simp_all

lemma subseq_concat_records: "subseq xs ys \<Longrightarrow> subseq (concat (map f xs)) (concat (map f ys))"
proof (induction rule: list_emb.induct)
  case (list_emb_Cons xs ys y)
  then show ?case by (simp add: list_emb_append2)
qed (auto intro: list_emb_append_mono)

lemma queue_batch_accounts:
  assumes "queue_ok (dr_queue s)"
    "queue_lost (dr_queue s) + length (queue_records (dr_queue s)) + length (kb_records b) < 2 ^ 64"
  shows "\<exists>q c. queue_batch b di s = Some (Draining (s\<lparr>dr_queue := q, dr_send_count := c\<rparr>)) \<and> queue_ok q \<and>
    queue_lost q + length (queue_records q) =
      queue_lost (dr_queue s) + length (queue_records (dr_queue s)) + length (kb_records b) \<and>
    subseq (queue_records q) (queue_records (dr_queue s) @ kb_records b)"
proof -
  obtain q where q: "enqueue_drop_oldest (di_takes di) b (dr_queue s) = Some (True, q)" "queue_ok q"
    "queue_lost q + sendq.weights (dq_taken q @ queued q) =
      queue_lost (dr_queue s) + sendq.weights (dq_taken (dr_queue s) @ queued (dr_queue s)) + length (kb_records b)"
    "subseq (dq_taken q @ queued q) (dq_taken (dr_queue s) @ queued (dr_queue s) @ [b])"
    using sendq.enqueue_conserves [OF assms(1), of b "di_takes di"] assms(2)
    unfolding length_concat_records enqueue_drop_oldest_def by blast
  from subseq_concat_records [OF q(4), of kb_records]
  have "subseq (queue_records q) (queue_records (dr_queue s) @ kb_records b)" by simp
  with q(1-3) show ?thesis unfolding length_concat_records by (auto simp: queue_batch_def)
qed

lemma iteration_reads_le:
  assumes "drain_inv config s" "fills_in_place di"
  shows "length (iteration_reads di s) \<le> 16384"
proof -
  have "length (take n filled) \<le> dr_read_batch s"
    if "read_trace (di_sysctl di) (take (dr_read_batch s) (dr_buf s)) = (Inr n, filled)" for n filled
    using read_trace_le [OF that] assms(1) unfolding length_take by (auto simp: drain_inv_def intro: min.coboundedI2)
  then show ?thesis using assms(1) read_batch_bounds(3) [of config]
    by (fastforce simp: iteration_reads_def drain_inv_def split: sum.splits prod.splits)
qed

lemma read_trace_length:
  assumes "fills_in_place di" "read_trace (di_sysctl di) buf = (result, filled)"
  shows "length filled = length buf"
  using assms by (auto simp: read_trace_def fills_in_place_def split: if_splits prod.splits) (metis snd_conv nonzero_mult_div_cancel_right zero_neq_numeral)+

lemma drain_iteration_step:
  assumes inv: "drain_inv config s" and fills: "fills_in_place di" and acc: "accounted reads s"
    and small: "length reads + 16384 < 2 ^ 64"
  shows "\<exists>flow s'. drain_iteration r config di s = Some flow \<and> flow_state flow = Some s' \<and>
    drain_inv config s' \<and> accounted (reads @ iteration_reads di s) s'"
proof (cases "di_cancel di \<or> di_cancel_after_wait di")
  case True
  then show ?thesis using inv acc by (auto simp: drain_iteration_def iteration_reads_def)
next
  case False
  let ?k = "dr_read_batch s" and ?lo = "min_read_batch config" and ?hi = "max_read_batch config"
  obtain result filled where rd: "read_trace (di_sysctl di) (take ?k (dr_buf s)) = (result, filled)" by force
  let ?buf = "filled @ drop ?k (dr_buf s)"
  have k: "?lo \<le> ?k" "?k \<le> ?hi" "length (dr_buf s) = ?hi" "queue_ok (dr_queue s)"
    using inv by (auto simp: drain_inv_def)
  have filled: "length filled = ?k" using read_trace_length [OF fills rd] k by simp
  have buf: "length ?buf = ?hi" using filled k by simp
  have nopanic: "\<not> length (dr_buf s) < ?k" using k by simp
  have hi: "?hi < 2 ^ 64" using read_batch_bounds(3) [of config] by simp
  show ?thesis
  proof (cases result)
    case (Inl e)
    then show ?thesis using False rd nopanic k buf acc
      by (auto simp: drain_iteration_def iteration_reads_def drain_inv_def accounted_def Let_def)
  next
    case (Inr n)
    have n: "n \<le> ?k" using read_trace_le rd Inr k by fastforce
    have reads: "iteration_reads di s = take n filled" using False rd Inr by (simp add: iteration_reads_def)
    have nfit: "length reads + n < 2 ^ 64" using small n k read_batch_bounds(3) [of config] by linarith
    let ?s1 = "\<lambda>b e t sc. s\<lparr>dr_read_batch := b, dr_buf := ?buf, dr_total := t, dr_empty_reads := e, dr_scanner := sc\<rparr>"
    have fin: ?thesis
      if iter: "drain_iteration r config di s = queue_batch (batch_of recs di) di (?s1 b e t sc)"
        and recs: "recs = take n filled" and b: "?lo \<le> b" "b \<le> ?hi" and t: "unat t = length reads + n"
      for recs b e t sc
    proof -
      have "length recs = n" using recs n filled by simp
      moreover have "queue_lost (dr_queue s) + length (queue_records (dr_queue s)) + length recs < 2 ^ 64"
        using acc nfit \<open>length recs = n\<close> by (simp add: accounted_def)
      ultimately obtain q c where "queue_batch (batch_of recs di) di (?s1 b e t sc) =
          Some (Draining ((?s1 b e t sc)\<lparr>dr_queue := q, dr_send_count := c\<rparr>))" "queue_ok q"
        "queue_lost q + length (queue_records q) = length reads + n"
        "subseq (queue_records q) (queue_records (dr_queue s) @ recs)"
        using queue_batch_accounts [of "?s1 b e t sc" "batch_of recs di" di] k acc
        by (auto simp: batch_of_def accounted_def)
      moreover have "subseq (queue_records (dr_queue s) @ recs) (reads @ recs)"
        using acc by (intro list_emb_append_mono) (simp_all add: accounted_def)
      ultimately show ?thesis using iter b t buf \<open>length recs = n\<close> recs
        by (auto simp: drain_inv_def accounted_def reads intro: subseq_order.order_trans)
    qed
    show ?thesis
    proof (cases "n = 0")
      case True
      let ?e = "sat_add (dr_empty_reads s) 1"
      show ?thesis
      proof (cases "di_heartbeat_due di")
        case beat: True
        show ?thesis
        proof (rule fin [where b = ?lo and e = ?e and t = "dr_total s" and sc = "dr_scanner s"])
          show "drain_iteration r config di s = queue_batch (batch_of [] di) di (?s1 ?lo ?e (dr_total s) (dr_scanner s))"
            using False rd nopanic Inr True beat by (simp add: drain_iteration_def Let_def)
        qed (use True acc read_batch_bounds in \<open>simp_all add: accounted_def\<close>)
      next
        case quiet: False
        then show ?thesis using False rd nopanic Inr True k buf acc read_batch_bounds(2)
          by (auto simp: drain_iteration_def drain_inv_def accounted_def Let_def reads)
      qed
    next
      case some: False
      let ?b = "next_read_batch ?lo ?hi n ?k" and ?t = "sat_add (dr_total s) (of_nat n)"
        and ?sc = "fold (\<lambda>rec sc. snd (age_scanner_feed rec sc)) (take n ?buf) (dr_scanner s)"
      have t: "take n ?buf = take n filled" using n filled by simp
      show ?thesis
      proof (rule fin [where b = ?b and e = 0 and t = ?t and sc = ?sc])
        show "drain_iteration r config di s = queue_batch (batch_of (take n filled) di) di (?s1 ?b 0 ?t ?sc)"
          using False rd nopanic Inr some t by (simp add: drain_iteration_def Let_def del: take_append)
        show "?lo \<le> ?b" "?b \<le> ?hi" using next_read_batch_bounds [OF k(1,2) hi] by auto
        have "unat (of_nat n :: u64) = n" using nfit by (simp add: unat_of_nat take_bit_nat_eq_self)
        then show "unat ?t = length reads + n" using acc nfit by (simp add: accounted_def sat_simps)
      qed simp
    qed
  qed
qed

lemma drain_loop_accounts:
  assumes "drain_inv config s" "\<forall>di \<in> set inputs. fills_in_place di" "accounted reads s"
    "length reads + length inputs * 16384 < 2 ^ 64"
  shows "\<exists>flow s'. drain_kdebug_loop r config inputs s = Some flow \<and> flow_state flow = Some s' \<and>
    drain_inv config s' \<and> accounted (reads @ loop_reads r config inputs s) s'"
  using assms
proof (induction inputs arbitrary: s reads)
  case (Cons di inputs)
  obtain flow s1 where s1: "drain_iteration r config di s = Some flow" "flow_state flow = Some s1"
    "drain_inv config s1" "accounted (reads @ iteration_reads di s) s1"
    using drain_iteration_step [OF Cons.prems(1) _ Cons.prems(3), of di r] Cons.prems(2,4) by auto
  have "length (reads @ iteration_reads di s) + length inputs * 16384 < 2 ^ 64"
    using iteration_reads_le [OF Cons.prems(1), of di] Cons.prems(2,4) by simp
  from Cons.IH [OF s1(3) _ s1(4) this] Cons.prems(2) s1 show ?case
    by (cases flow) auto
qed (simp add: accounted_def)

lemma drain_loop_records:
  assumes "kb_records ready = []"
    "enqueue_drop_oldest takes ready (receiver (new_queue SEND_QUEUE_CAPACITY no_drops)) = Some (alive, q)"
    "\<forall>di \<in> set inputs. fills_in_place di" "length inputs < 2 ^ 49"
    "reads = loop_reads r config inputs (start_drain config q 1)"
  shows "\<exists>flow s. drain_kdebug_loop r config inputs (start_drain config q 1) = Some flow \<and>
    flow_state flow = Some s \<and> unat (dr_total s) = length reads \<and>
    length (queue_records (dr_queue s)) + queue_lost (dr_queue s) = length reads \<and>
    subseq (queue_records (dr_queue s)) reads \<and>
    (queue_lost (dr_queue s) = 0 \<longrightarrow> queue_records (dr_queue s) = reads)"
proof -
  let ?q0 = "receiver (new_queue SEND_QUEUE_CAPACITY no_drops) :: batch_send_queue"
  have q0: "queue_ok ?q0" by (simp add: queue_ok_new SEND_QUEUE_CAPACITY_def)
  have e0: "queue_records ?q0 = []" "queue_lost ?q0 = 0"
    by (simp_all add: receiver_def new_queue_def bounded_def no_drops_def)
  have "queue_ok q" "queue_lost q + length (queue_records q) = 0"
    using sendq.enqueue_conserves [OF q0, of ready takes, folded length_concat_records, unfolded e0]
      assms(1,2) unfolding enqueue_drop_oldest_def by simp_all
  then have q: "queue_ok q" "queue_lost q = 0" "queue_records q = []"
    by (simp_all only: add_is_0 length_0_conv)
  have "drain_inv config (start_drain config q 1)"
    using q(1) read_batch_bounds(2) by (simp add: drain_inv_def start_drain_def)
  moreover have "accounted [] (start_drain config q 1)"
  proof -
    have "queue_records (dr_queue (start_drain config q 1)) = []" using q(3) by (simp add: start_drain_def)
    then show ?thesis unfolding accounted_def using q(2) by (simp only:) (simp add: start_drain_def)
  qed
  ultimately obtain flow s where "drain_kdebug_loop r config inputs (start_drain config q 1) = Some flow"
    "flow_state flow = Some s" "accounted reads s"
    using drain_loop_accounts [of config "start_drain config q 1" inputs "[]" r] assms(3-5) by auto
  moreover from this(3) have "subseq (queue_records (dr_queue s)) reads" "unat (dr_total s) = length reads"
    "queue_lost (dr_queue s) + length (queue_records (dr_queue s)) = length reads"
    unfolding accounted_def by blast+
  moreover from this have "queue_lost (dr_queue s) = 0 \<Longrightarrow> queue_records (dr_queue s) = reads"
    by (metis add_0 subseq_same_length)
  ultimately show ?thesis by (metis add.commute)
qed

text \<open>
  C25: The drain loop accounts for every record. Whatever the kernel answers and however the sender
  keeps up, the loop never reads outside its buffer and never blocks; the records it handed on are,
  in order, those the kernel gave it, except for those it counted as dropped, and when it dropped
  none they are exactly those.\<close>

theorem drain_accounts_for_records:
  assumes "kb_records ready = []"
    "enqueue_drop_oldest takes ready (receiver (new_queue SEND_QUEUE_CAPACITY no_drops)) = Some (alive, q)"
    "\<forall>di \<in> set inputs. fills_in_place di" "length inputs < 2 ^ 49"
    "reads = loop_reads r config inputs (start_drain config q 1)"
  shows "\<exists>flow s. drain_kdebug_loop r config inputs (start_drain config q 1) = Some flow \<and>
    flow_state flow = Some s \<and> unat (dr_total s) = length reads \<and>
    length (queue_records (dr_queue s)) + queue_lost (dr_queue s) = length reads \<and>
    subseq (queue_records (dr_queue s)) reads \<and>
    (queue_lost (dr_queue s) = 0 \<longrightarrow> queue_records (dr_queue s) = reads)"
  by (rule drain_loop_records [OF assms])

definition demo_config :: session_config where
  "demo_config = \<lparr>sc_target_pid = 42, sc_frequency_hz = 1000, sc_buf_records = 2, sc_samplers = 0x1d,
     sc_pmu_event_configs = [], sc_class_mask = 1, sc_filter_range_value1 = 0, sc_filter_range_value2 = 0,
     sc_typefilter_cscs = []\<rparr>"

definition demo_rendering :: rendering where
  "demo_rendering = \<lparr>show_io = (\<lambda>_. ''error''), show_nat = (\<lambda>_. ''n'')\<rparr>"

definition demo_input :: drain_input where
  "demo_input = \<lparr>di_cancel = False, di_cancel_after_wait = False,
     di_sysctl = (\<lambda>_ sz. (0, 1, replicate (sz div 64) (empty_kdbuf\<lparr>kd_timestamp := 7\<rparr>))),
     di_read_started = 1, di_drained = 2, di_drained_at_unix_ns = 3, di_queued_for_send = 4,
     di_heartbeat_due = False, di_takes = (\<lambda>_. 1)\<rparr>"

theorem drain_accounts_for_records_witness:
  "\<exists>q flow s. drain_kdebug_loop demo_rendering demo_config [demo_input] (start_drain demo_config q 1) = Some flow \<and>
     flow_state flow = Some s \<and> unat (dr_total s) = 1 \<and>
     length (queue_records (dr_queue s)) + queue_lost (dr_queue s) = 1"
proof -
  let ?ready = "batch_of [] demo_input" and ?q0 = "receiver (new_queue SEND_QUEUE_CAPACITY no_drops) :: batch_send_queue"
  have "queue_ok ?q0" by (simp add: queue_ok_new SEND_QUEUE_CAPACITY_def)
  from enqueue_cases [where g = "\<lambda>b. kb_records b = []" and d = record_drop and s = "\<lambda>_ c. c"
      and takes = "\<lambda>_. 0" and x = ?ready, OF this]
  obtain q where q: "enqueue_drop_oldest (\<lambda>_. 0) ?ready ?q0 = Some (True, q)"
    unfolding enqueue_drop_oldest_def by (elim exE conjE)
  have fills: "\<forall>di \<in> set [demo_input]. fills_in_place di" by (simp add: fills_in_place_def demo_input_def)
  have "iteration_reads demo_input (start_drain demo_config q 1) = [empty_kdbuf\<lparr>kd_timestamp := 7\<rparr>]"
    by (simp add: iteration_reads_def demo_input_def start_drain_def demo_config_def min_read_batch_def
        max_read_batch_def read_trace_def MIN_DRAIN_READ_BATCH_RECORDS_def MAX_DRAIN_READ_BATCH_RECORDS_def)
  then have "length (loop_reads demo_rendering demo_config [demo_input] (start_drain demo_config q 1)) = 1"
    unfolding loop_reads_single by simp
  then show ?thesis
    using drain_accounts_for_records [OF _ q fills _ refl, of demo_rendering demo_config] by (auto simp: batch_of_def)
qed

section \<open>What a session leaves behind\<close>

text \<open>The last value a switch of the kernel was set to.\<close>

fun sampling_after :: "bool \<Rightarrow> kcall \<Rightarrow> bool" where
  "sampling_after on (SampleSet v) = (v \<noteq> 0)"
| "sampling_after on _ = on"

fun tracing_after :: "bool \<Rightarrow> kcall \<Rightarrow> bool" where
  "tracing_after on (KdEnable v) = v"
| "tracing_after on _ = on"

definition sampling_left_on :: "kcall list \<Rightarrow> bool" where
  "sampling_left_on h = foldl sampling_after False h"

definition tracing_left_on :: "kcall list \<Rightarrow> bool" where
  "tracing_left_on h = foldl tracing_after False h"

definition setup_outcome :: "rendering \<Rightarrow> (u64 \<Rightarrow> u64) \<Rightarrow> kernel \<Rightarrow> session_config \<Rightarrow> (record_error + unit) \<times> kcall list" where
  "setup_outcome r ns_to_ticks kern config =
     in_sequence [setup_kperf r ns_to_ticks kern config, setup_kdebug r kern config] (clear_stale_state [ForceAllCtrsGet])"

lemma session_run_cases:
  assumes "session_run r ns_to_ticks kern frameworks config drained = Some (res, calls)"
  shows "(calls = [] \<or> calls = [ForceAllCtrsGet]) \<and> isl res \<or>
    (\<exists>e. setup_outcome r ns_to_ticks kern config = (Inl e, calls) \<and> res = Inl e) \<or>
    (\<exists>h. setup_outcome r ns_to_ticks kern config = (Inr (), h) \<and> drained = Some res \<and> calls = h @ teardown_calls)"
  using assms unfolding session_run_def setup_outcome_def teardown_def
  by (auto split: sum.splits if_splits prod.splits option.splits)

text \<open>A setup block makes the calls of its steps, in order, up to the first that fails.\<close>

definition makes_call :: "kcall \<Rightarrow> setup_step \<Rightarrow> bool" where
  "makes_call c step \<longleftrightarrow> (\<forall>h. snd (step h) = h @ [c])"

lemma makes_call_steps: "makes_call c (kd_step r kern c)" "makes_call c (fw_step kern c op')"
  by (auto simp: makes_call_def kd_step_def fw_step_def split: sum.split)

lemma in_sequence_calls:
  assumes "list_all2 makes_call cs steps" "in_sequence steps h = (res, h')"
  shows "\<exists>k \<le> length cs. h' = h @ take k cs \<and> (res = Inr () \<longrightarrow> k = length cs) \<and> (res \<noteq> Inr () \<longrightarrow> 0 < k)"
  using assms
proof (induction cs steps arbitrary: h rule: list_all2_induct)
  case (Cons c cs s steps)
  have s: "snd (s h) = h @ [c]" using Cons.hyps(1) by (simp add: makes_call_def)
  show ?case
  proof (cases "s h")
    case (Pair r1 h1)
    then have h1: "h1 = h @ [c]" using s by simp
    show ?thesis
    proof (cases r1)
      case (Inl e)
      then show ?thesis using Cons.prems Pair h1 by (auto intro!: exI [of _ 1])
    next
      case (Inr u)
      then have "in_sequence steps (h @ [c]) = (res, h')" using Cons.prems Pair h1 by simp
      from Cons.IH [OF this] obtain k where "k \<le> length cs" "h' = (h @ [c]) @ take k cs"
        "res = Inr () \<longrightarrow> k = length cs" "res \<noteq> Inr () \<longrightarrow> 0 < k" by auto
      then show ?thesis by (auto intro!: exI [of _ "Suc k"])
    qed
  qed
qed simp

lemma in_sequence_append:
  "in_sequence (xs @ ys) h = (case in_sequence xs h of (Inl e, h') \<Rightarrow> (Inl e, h') | (Inr _, h') \<Rightarrow> in_sequence ys h')"
  by (induction xs arbitrary: h) (auto split: prod.splits sum.splits)

definition kperf_calls :: "(u64 \<Rightarrow> u64) \<Rightarrow> session_config \<Rightarrow> kcall list" where
  "kperf_calls ns_to_ticks config =
     [ActionCountSet KPERF_ACTION_MAX, TimerCountSet KPERF_TIMER_MAX, ActionSamplersSet 1 (sc_samplers config),
      ActionFilterSetByPid 1 (sint (sc_target_pid config)),
      TimerPeriodSet 1 (ns_to_ticks (timer_period_ns config)), TimerActionSet 1 1, TimerPetSet 1] @
     (if sc_pmu_event_configs config = [] then []
      else [KpcSetConfig (sc_class_mask config) (sc_pmu_event_configs config)]) @
     [KpcSetCounting (sc_class_mask config), KpcSetThreadCounting (sc_class_mask config), LightweightPet 1, SampleSet 1]"

definition kdebug_calls :: "session_config \<Rightarrow> kcall list" where
  "kdebug_calls config =
     [KdReset, KdSetBufSize (sint (sc_buf_records config)), KdSetup,
      (if sc_typefilter_cscs config = []
       then KdSetFilter \<lparr>krt_ty = KDBG_RANGETYPE, krt_value1 = sc_filter_range_value1 config,
              krt_value2 = sc_filter_range_value2 config, krt_value3 = 0, krt_value4 = 0\<rparr>
       else KdSetTypefilter (sc_typefilter_cscs config)),
      KdEnable True]"

lemma kperf_steps:
  "list_all2 makes_call (kperf_calls ns_to_ticks config) (kperf_steps r ns_to_ticks kern config)"
  by (auto simp: kperf_calls_def kperf_steps_def Let_def makes_call_steps)

lemma kdebug_steps: "list_all2 makes_call (kdebug_calls config) (kdebug_steps r kern config)"
  by (auto simp: kdebug_calls_def kdebug_steps_def Let_def makes_call_steps)

lemma setup_kperf_calls:
  "setup_kperf r ns_to_ticks kern config h = (res, h') \<Longrightarrow>
   \<exists>k. h' = h @ take k (kperf_calls ns_to_ticks config) \<and> (res = Inr () \<longrightarrow> length (kperf_calls ns_to_ticks config) \<le> k)"
  unfolding setup_kperf_def using in_sequence_calls [OF kperf_steps] by fastforce

lemma setup_kdebug_calls:
  "setup_kdebug r kern config h = (res, h') \<Longrightarrow> \<exists>k. h' = h @ take k (kdebug_calls config)"
  unfolding setup_kdebug_def using in_sequence_calls [OF kdebug_steps] by fastforce

lemma setup_failure_calls:
  assumes "setup_outcome r ns_to_ticks kern config = (Inl e, calls)"
  shows "\<exists>k. calls = clear_stale_state [ForceAllCtrsGet] @ take k (kperf_calls ns_to_ticks config @ kdebug_calls config)"
proof (cases "setup_kperf r ns_to_ticks kern config (clear_stale_state [ForceAllCtrsGet])")
  case (Pair r1 h1)
  from setup_kperf_calls [OF Pair] obtain k where
    k: "h1 = clear_stale_state [ForceAllCtrsGet] @ take k (kperf_calls ns_to_ticks config)"
    "r1 = Inr () \<Longrightarrow> length (kperf_calls ns_to_ticks config) \<le> k" by auto
  show ?thesis
  proof (cases r1)
    case (Inl e')
    then have "calls = h1" using assms Pair by (simp add: setup_outcome_def)
    then show ?thesis using k(1)
      by (auto intro!: exI [of _ "min k (length (kperf_calls ns_to_ticks config))"] simp: min_def)
  next
    case (Inr u)
    then obtain h2 where "setup_kdebug r kern config h1 = (Inl e, h2)" "calls = h2"
      using assms Pair by (auto simp: setup_outcome_def split: prod.splits sum.splits)
    from setup_kdebug_calls [OF this(1)] this(2) k Inr obtain j where
      "calls = clear_stale_state [ForceAllCtrsGet] @ kperf_calls ns_to_ticks config @ take j (kdebug_calls config)"
      by auto
    then show ?thesis by (auto intro!: exI [of _ "length (kperf_calls ns_to_ticks config) + j"])
  qed
qed

lemma foldl_sampling_after:
  "(\<And>v. SampleSet v \<in> set cs \<Longrightarrow> v = 1) \<Longrightarrow> foldl sampling_after on cs = (on \<or> SampleSet 1 \<in> set cs)"
proof (induction cs arbitrary: on)
  case (Cons c cs)
  show ?case
  proof (cases "\<exists>v. c = SampleSet v")
    case True
    then have "c = SampleSet 1" using Cons.prems by auto
    then show ?thesis using Cons.IH [of "sampling_after on c"] Cons.prems by auto
  next
    case False
    then have "sampling_after on c = on" "c \<noteq> SampleSet 1" by (cases c; simp)+
    then show ?thesis using Cons.IH [of on] Cons.prems by auto
  qed
qed simp

lemma foldl_tracing_after:
  "KdEnable False \<notin> set cs \<Longrightarrow> foldl tracing_after on cs = (on \<or> KdEnable True \<in> set cs)"
proof (induction cs arbitrary: on)
  case (Cons c cs)
  show ?case using Cons.IH [of "tracing_after on c"] Cons.prems by (cases c) auto
qed simp


text \<open>A kernel that refuses the buffer: sampling stays on, and nobody is left to switch it off.\<close>

definition demo_kernel :: kernel where
  "demo_kernel h c = (case c of KdSetBufSize _ \<Rightarrow> - 1 | _ \<Rightarrow> 0)"


end
