(* ===== verification/Daemon.thy ===== *)
theory Daemon
  imports Session
begin

text \<open>
  The root daemon around a session (\<open>staxd/src/main.rs\<close>): one slot for the session that records,
  behind a lock, and the three requests. Requests run as tasks beside each other; the lock is
  held for one section at a time, and a recording task holds it twice: to claim the slot and, after
  the session, to give it back. Every session has a cancel flag of its own.
\<close>

section \<open>State and sections\<close>

record session_info =
  si_target_pid :: u32
  si_started_at_unix_ns :: u64
  si_cancel :: nat

definition DEFAULT_SOCKET :: string where "DEFAULT_SOCKET = ''/tmp/staxd.sock''"

fun parse_socket_arg :: "string list \<Rightarrow> string" where
  "parse_socket_arg (a # p # args) = (if a = ''--socket'' then p else parse_socket_arg (p # args))"
| "parse_socket_arg _ = DEFAULT_SOCKET"

datatype session_state = Idle | RecordingSession u32 u32 u32 u64

record daemon_status =
  ds_version :: string
  ds_state :: session_state
  ds_host_arch :: string

definition daemon_status_of :: "string \<Rightarrow> string \<Rightarrow> session_info option \<Rightarrow> daemon_status" where
  "daemon_status_of version host_arch session =
     \<lparr>ds_version = version,
      ds_state = (case session of None \<Rightarrow> Idle
        | Some s \<Rightarrow> RecordingSession (si_target_pid s) 0 0 (si_started_at_unix_ns s)),
      ds_host_arch = host_arch\<rparr>"

text \<open>The first section of \<open>record\<close>: refuse, or take the slot with a fresh cancel flag.\<close>

definition claim_session ::
  "session_config \<Rightarrow> u64 \<Rightarrow> nat \<Rightarrow> session_info option \<Rightarrow> (record_error + session_info) \<times> session_info option" where
  "claim_session config now cancel session =
     (case session of
        Some holder \<Rightarrow> (Inl (RecBusy 0 0 (si_started_at_unix_ns holder)), session)
      | None \<Rightarrow>
          (let info = \<lparr>si_target_pid = sc_target_pid config, si_started_at_unix_ns = now, si_cancel = cancel\<rparr> in
           (Inr info, Some info)))"

section \<open>Interleaved requests\<close>

datatype record_task =
  RecordCalled session_config
| InSession session_info
| Closing "record_error + record_summary"
| RecordReturned "record_error + record_summary"

datatype stop_task = StopCalled | StopSaw nat | StopReturned "nat option"

record daemon =
  dm_session :: "session_info option"
  dm_cancelled :: "nat set"
  dm_next_flag :: nat
  dm_records :: "nat \<rightharpoonup> record_task"
  dm_stops :: "nat \<rightharpoonup> stop_task"

definition new_daemon :: daemon where
  "new_daemon = \<lparr>dm_session = None, dm_cancelled = {}, dm_next_flag = 0, dm_records = Map.empty, dm_stops = Map.empty\<rparr>"

text \<open>
  \<open>stop_recording\<close> reads the slot under the lock and sets the flag it found there after it.
  A session ends with any result, at any time: what it does is the subject of the session model.
\<close>

inductive daemon_step :: "daemon \<Rightarrow> daemon \<Rightarrow> bool" where
  call_record: "dm_records d t = None \<Longrightarrow>
    daemon_step d (d\<lparr>dm_records := (dm_records d)(t \<mapsto> RecordCalled config)\<rparr>)"
| refuse: "dm_records d t = Some (RecordCalled config) \<Longrightarrow>
    claim_session config now (dm_next_flag d) (dm_session d) = (Inl e, session) \<Longrightarrow>
    daemon_step d (d\<lparr>dm_session := session, dm_records := (dm_records d)(t \<mapsto> RecordReturned (Inl e))\<rparr>)"
| claim: "dm_records d t = Some (RecordCalled config) \<Longrightarrow>
    claim_session config now (dm_next_flag d) (dm_session d) = (Inr info, session) \<Longrightarrow>
    daemon_step d (d\<lparr>dm_session := session, dm_next_flag := Suc (dm_next_flag d),
      dm_records := (dm_records d)(t \<mapsto> InSession info)\<rparr>)"
| session_ends: "dm_records d t = Some (InSession info) \<Longrightarrow>
    daemon_step d (d\<lparr>dm_records := (dm_records d)(t \<mapsto> Closing result)\<rparr>)"
| release: "dm_records d t = Some (Closing result) \<Longrightarrow>
    daemon_step d (d\<lparr>dm_session := None, dm_records := (dm_records d)(t \<mapsto> RecordReturned result)\<rparr>)"
| call_stop: "dm_stops d t = None \<Longrightarrow> daemon_step d (d\<lparr>dm_stops := (dm_stops d)(t \<mapsto> StopCalled)\<rparr>)"
| stop_none: "dm_stops d t = Some StopCalled \<Longrightarrow> dm_session d = None \<Longrightarrow>
    daemon_step d (d\<lparr>dm_stops := (dm_stops d)(t \<mapsto> StopReturned None)\<rparr>)"
| stop_saw: "dm_stops d t = Some StopCalled \<Longrightarrow> dm_session d = Some info \<Longrightarrow>
    daemon_step d (d\<lparr>dm_stops := (dm_stops d)(t \<mapsto> StopSaw (si_cancel info))\<rparr>)"
| stop_store: "dm_stops d t = Some (StopSaw c) \<Longrightarrow>
    daemon_step d (d\<lparr>dm_cancelled := insert c (dm_cancelled d),
      dm_stops := (dm_stops d)(t \<mapsto> StopReturned (Some c))\<rparr>)"

inductive daemon_run :: "daemon \<Rightarrow> bool" where
  daemon_start: "daemon_run new_daemon"
| daemon_next: "daemon_run d \<Longrightarrow> daemon_step d d' \<Longrightarrow> daemon_run d'"

text \<open>A task owns the slot from its claim to its release.\<close>

definition owns_slot :: "daemon \<Rightarrow> nat \<Rightarrow> bool" where
  "owns_slot d t \<longleftrightarrow> (case dm_records d t of Some (InSession _) \<Rightarrow> True | Some (Closing _) \<Rightarrow> True | _ \<Rightarrow> False)"

definition slot_inv :: "daemon \<Rightarrow> bool" where
  "slot_inv d \<longleftrightarrow>
     (case dm_session d of
        None \<Rightarrow> \<forall>t. \<not> owns_slot d t
      | Some info \<Rightarrow> si_cancel info < dm_next_flag d \<and>
          (\<exists>t. owns_slot d t \<and> (\<forall>t'. owns_slot d t' \<longrightarrow> t' = t) \<and>
            (\<forall>i. dm_records d t = Some (InSession i) \<longrightarrow> i = info)))"

definition flags_inv :: "daemon \<Rightarrow> bool" where
  "flags_inv d \<longleftrightarrow>
     (\<forall>t c. dm_stops d t = Some (StopSaw c) \<longrightarrow> c < dm_next_flag d) \<and>
     (\<forall>c \<in> dm_cancelled d. c < dm_next_flag d \<and> (\<exists>t. dm_stops d t = Some (StopReturned (Some c))))"

lemma owns_slot_upd [simp]:
  "owns_slot (d\<lparr>dm_records := (dm_records d)(t \<mapsto> k)\<rparr>) t' \<longleftrightarrow>
     (if t' = t then (case k of InSession _ \<Rightarrow> True | Closing _ \<Rightarrow> True | _ \<Rightarrow> False) else owns_slot d t')"
  "owns_slot (d\<lparr>dm_session := s, dm_records := (dm_records d)(t \<mapsto> k)\<rparr>) t' \<longleftrightarrow>
     (if t' = t then (case k of InSession _ \<Rightarrow> True | Closing _ \<Rightarrow> True | _ \<Rightarrow> False) else owns_slot d t')"
  "owns_slot (d\<lparr>dm_session := s, dm_next_flag := n, dm_records := (dm_records d)(t \<mapsto> k)\<rparr>) t' \<longleftrightarrow>
     (if t' = t then (case k of InSession _ \<Rightarrow> True | Closing _ \<Rightarrow> True | _ \<Rightarrow> False) else owns_slot d t')"
  "owns_slot (d\<lparr>dm_stops := q\<rparr>) t' \<longleftrightarrow> owns_slot d t'"
  "owns_slot (d\<lparr>dm_cancelled := x\<rparr>) t' \<longleftrightarrow> owns_slot d t'"
  by (auto simp: owns_slot_def split: record_task.split)

lemma claim_session_simps:
  "claim_session config now c session = (Inl e, s') \<longleftrightarrow>
     (\<exists>holder. session = Some holder \<and> e = RecBusy 0 0 (si_started_at_unix_ns holder) \<and> s' = session)"
  "claim_session config now c session = (Inr info, s') \<longleftrightarrow>
     session = None \<and> s' = Some info \<and>
     info = \<lparr>si_target_pid = sc_target_pid config, si_started_at_unix_ns = now, si_cancel = c\<rparr>"
  by (auto simp: claim_session_def Let_def split: option.splits)

lemma slot_inv_frame:
  assumes "slot_inv d" "\<And>t. owns_slot d' t \<longleftrightarrow> owns_slot d t" "dm_session d' = dm_session d"
    "dm_next_flag d' = dm_next_flag d"
    "\<And>t i. owns_slot d t \<Longrightarrow> dm_records d' t = Some (InSession i) \<Longrightarrow> dm_records d t = Some (InSession i)"
  shows "slot_inv d'"
proof (cases "dm_session d")
  case None
  then show ?thesis using assms(1-3) by (simp add: slot_inv_def)
next
  case (Some info)
  then obtain t where t: "owns_slot d t" "\<forall>t'. owns_slot d t' \<longrightarrow> t' = t" "si_cancel info < dm_next_flag d"
    "\<forall>i. dm_records d t = Some (InSession i) \<longrightarrow> i = info"
    using assms(1) unfolding slot_inv_def Some option.case by (elim conjE exE)
  have "\<forall>i. dm_records d' t = Some (InSession i) \<longrightarrow> i = info" using assms(5) [OF t(1)] t(4) by metis
  then show ?thesis unfolding slot_inv_def assms(3) Some option.case assms(2,4) using t(1-3)
    by - (intro conjI exI [of _ t]; assumption)
qed

lemma slot_inv_step: "daemon_step d d' \<Longrightarrow> slot_inv d \<Longrightarrow> slot_inv d'"
proof (induction rule: daemon_step.induct)
  case (call_record d t config)
  have "\<not> owns_slot d t" using call_record.hyps by (simp add: owns_slot_def)
  then show ?case by (intro slot_inv_frame [OF call_record.prems]) (auto split: if_splits)
next
  case (refuse d t config now e session)
  have "\<not> owns_slot d t" using refuse.hyps by (simp add: owns_slot_def)
  moreover have "session = dm_session d" using refuse.hyps(2) by (auto simp: claim_session_simps)
  ultimately show ?case by (intro slot_inv_frame [OF refuse.prems]) (auto split: if_splits)
next
  case (claim d t config now info session)
  then have "\<forall>t'. \<not> owns_slot d t'" "session = Some info" "si_cancel info = dm_next_flag d"
    by (auto simp: slot_inv_def claim_session_simps)
  then show ?case by (simp add: slot_inv_def)
next
  case (session_ends d t info result)
  then have "owns_slot d t" by (simp add: owns_slot_def)
  then show ?case by (intro slot_inv_frame [OF session_ends.prems]) (auto split: if_splits)
next
  case (release d t result)
  then have "owns_slot d t" by (simp add: owns_slot_def)
  then have "t' = t" if "owns_slot d t'" for t'
    using release.prems that by (auto simp: slot_inv_def split: option.splits)
  then show ?case by (auto simp: slot_inv_def)
qed (erule slot_inv_frame; simp)+

lemma flags_inv_step: "daemon_step d d' \<Longrightarrow> slot_inv d \<Longrightarrow> flags_inv d \<Longrightarrow> flags_inv d'"
proof (induction rule: daemon_step.induct)
  case (claim d t config now info session)
  then show ?case by (simp add: flags_inv_def less_SucI)
next
  case (call_stop d t)
  then have "dm_stops d t' = Some k \<Longrightarrow> t' \<noteq> t" for t' k by auto
  with call_stop.prems show ?case by (auto simp: flags_inv_def) (metis option.distinct(1))
next
  case (stop_none d t)
  then show ?case by (auto simp: flags_inv_def) (metis option.inject stop_task.distinct(3))
next
  case (stop_saw d t info)
  then have "si_cancel info < dm_next_flag d" by (simp add: slot_inv_def)
  with stop_saw show ?case by (auto simp: flags_inv_def) (metis option.inject stop_task.distinct(3))
next
  case (stop_store d t c)
  then show ?case by (auto simp: flags_inv_def) (metis option.inject stop_task.distinct(5))
qed (simp_all add: flags_inv_def)

lemma daemon_run_inv: "daemon_run d \<Longrightarrow> slot_inv d \<and> flags_inv d"
proof (induction rule: daemon_run.induct)
  case daemon_start
  then show ?case by (simp add: slot_inv_def flags_inv_def new_daemon_def owns_slot_def)
qed (blast intro: slot_inv_step flags_inv_step)

text \<open>
  C27: One session at a time. In every interleaving of record and stop requests at most one recording
  task owns the kernel, the slot is taken exactly while one does, a new request is refused exactly
  then, and a cancel flag is set only by a stop request that found its session in the slot.\<close>

theorem one_session_at_a_time:
  assumes "daemon_run d"
  shows "(\<forall>t t'. owns_slot d t \<longrightarrow> owns_slot d t' \<longrightarrow> t = t') \<and>
    (dm_session d = None \<longleftrightarrow> (\<forall>t. \<not> owns_slot d t)) \<and>
    (isl (fst (claim_session config now (dm_next_flag d) (dm_session d))) \<longleftrightarrow> (\<exists>t. owns_slot d t)) \<and>
    (\<forall>t info. dm_records d t = Some (InSession info) \<longrightarrow> dm_session d = Some info) \<and>
    (\<forall>c \<in> dm_cancelled d. \<exists>t. dm_stops d t = Some (StopReturned (Some c)))"
proof -
  from daemon_run_inv [OF assms] have i: "slot_inv d" "flags_inv d" by blast+
  have own: "dm_records d t = Some (InSession info) \<Longrightarrow> owns_slot d t" for t info by (simp add: owns_slot_def)
  from i(2) have flags: "\<forall>c \<in> dm_cancelled d. \<exists>t. dm_stops d t = Some (StopReturned (Some c))"
    by (simp add: flags_inv_def)
  show ?thesis
  proof (cases "dm_session d")
    case None
    then have "\<forall>t. \<not> owns_slot d t" using i(1) by (simp add: slot_inv_def)
    with None flags own show ?thesis by (auto simp: claim_session_def Let_def)
  next
    case (Some info)
    then obtain t where t: "owns_slot d t" "\<forall>t'. owns_slot d t' \<longrightarrow> t' = t"
      "\<forall>i. dm_records d t = Some (InSession i) \<longrightarrow> i = info"
      using i(1) unfolding slot_inv_def Some option.case by (elim conjE exE)
    have "\<forall>t t'. owns_slot d t \<longrightarrow> owns_slot d t' \<longrightarrow> t = t'" using t(2) by metis
    moreover have "\<forall>t' info'. dm_records d t' = Some (InSession info') \<longrightarrow> dm_session d = Some info'"
      using t(2,3) own Some by metis
    moreover have "isl (fst (claim_session config now (dm_next_flag d) (dm_session d)))"
      using Some by (simp add: claim_session_def)
    ultimately show ?thesis using Some flags t(1) by (simp only: option.distinct simp_thms) metis
  qed
qed

theorem one_session_at_a_time_witness:
  "\<exists>d. daemon_run d \<and> owns_slot d 0 \<and> \<not> owns_slot d 1 \<and> (\<exists>holder. dm_session d = Some holder)"
proof -
  let ?d1 = "new_daemon\<lparr>dm_records := (dm_records new_daemon)(0 \<mapsto> RecordCalled demo_config)\<rparr>"
  let ?i = "\<lparr>si_target_pid = 42, si_started_at_unix_ns = 7, si_cancel = 0\<rparr>"
  let ?d2 = "?d1\<lparr>dm_session := Some ?i, dm_next_flag := Suc (dm_next_flag ?d1),
    dm_records := (dm_records ?d1)(0 \<mapsto> InSession ?i)\<rparr>"
  have "daemon_run ?d1" by (rule daemon_next [OF daemon_start call_record]) (simp add: new_daemon_def)
  moreover have "daemon_step ?d1 ?d2"
    by (rule claim [where config = demo_config and now = 7]) (simp_all add: claim_session_def new_daemon_def demo_config_def Let_def)
  ultimately have run: "daemon_run ?d2" by (rule daemon_next)
  moreover have "owns_slot ?d2 0" by (simp add: owns_slot_def)
  moreover have "\<not> owns_slot ?d2 1" using one_session_at_a_time [OF run] \<open>owns_slot ?d2 0\<close> zero_neq_one by blast
  ultimately show ?thesis by auto
qed

end
