(* ===== verification/ImageScan.thy ===== *)
theory ImageScan
  imports SharedCache Text
begin

text \<open>
  What a recorder reports (\<open>stax-mac-capture/src/sample_sink.rs\<close>: the callbacks of \<open>SampleSink\<close>, as
  events), what it can ask about another process (\<open>stax-mac-kperf-parse/src/libproc.rs\<close>), the cache
  of thread names (\<open>recorder.rs\<close>) and the scanner that reports images as they come and go
  (\<open>image_scan.rs\<close>). The system calls are parameters.
\<close>

section \<open>Events\<close>

record sample_event =
  sv_timestamp_ns :: u64
  sv_pid :: u32
  sv_tid :: u32
  sv_backtrace :: "u64 list"
  sv_kernel_backtrace :: "u64 list"
  sv_cycles :: u64
  sv_instructions :: u64
  sv_l1d_misses :: u64
  sv_branch_mispreds :: u64

record binary_loaded_event =
  bv_pid :: u32
  bv_base_avma :: u64
  bv_vmsize :: u64
  bv_text_svma :: u64
  bv_path :: string
  bv_uuid :: "string option"
  bv_arch :: "string option"
  bv_is_executable :: bool
  bv_symbols :: "macho_symbol list"
  bv_text_bytes :: "string option"

record binary_unloaded_event =
  uv_pid :: u32
  uv_base_avma :: u64
  uv_path :: string

record wakeup_event =
  wv_timestamp_ns :: u64
  wv_pid :: u32
  wv_waker_tid :: u32
  wv_wakee_tid :: u32
  wv_waker_user_stack :: "u64 list"
  wv_waker_kernel_stack :: "u64 list"

datatype cpu_interval_kind =
  CpuOn
| CpuOff (co_stack: "u64 list") (co_waker_tid: "u32 option") (co_waker_user_stack: "u64 list option")

record cpu_interval_event =
  iv_pid :: u32
  iv_tid :: u32
  iv_start_ns :: u64
  iv_end_ns :: u64
  iv_kind :: cpu_interval_kind

record thread_name_event =
  nv_pid :: u32
  nv_tid :: u32
  nv_name :: string

record jitdump_event =
  jv_pid :: u32
  jv_path :: string

datatype sink_event =
  OnSample sample_event
| OnBinaryLoaded binary_loaded_event
| OnBinaryUnloaded binary_unloaded_event
| OnThreadName thread_name_event
| OnJitdump jitdump_event
| OnKallsyms string
| OnWakeup wakeup_event
| OnCpuInterval cpu_interval_event
| OnMachoByteSource

section \<open>Asking about a process\<close>

record region_info =
  rg_protection :: u32
  rg_address :: u64
  rg_size :: u64
  rg_path_bytes :: string

record region =
  re_address :: u64
  re_size :: u64
  re_is_executable :: bool
  re_is_readable :: bool
  re_path :: string

definition VM_PROT_READ :: u32 where "VM_PROT_READ = 0x1"
definition VM_PROT_EXECUTE :: u32 where "VM_PROT_EXECUTE = 0x4"

definition until_nul :: "string \<Rightarrow> string" where
  "until_nul bytes = takeWhile (\<lambda>b. b \<noteq> CHR 0x00) bytes"

definition region_of :: "region_info \<Rightarrow> region" where
  "region_of info = \<lparr>re_address = rg_address info, re_size = rg_size info,
     re_is_executable = (rg_protection info AND VM_PROT_EXECUTE \<noteq> 0),
     re_is_readable = (rg_protection info AND VM_PROT_READ \<noteq> 0),
     re_path = from_utf8_lossy (until_nul (rg_path_bytes info))\<rparr>"

text \<open>\<open>pidinfo addr\<close> is the next region at or after an address, \<open>None\<close> for a return code of 0 or less.\<close>

function regions_from :: "(u64 \<Rightarrow> region_info option) \<Rightarrow> u64 \<Rightarrow> region list \<Rightarrow> region list" where
  "regions_from pidinfo addr out =
     (case pidinfo addr of
        None \<Rightarrow> out
      | Some info \<Rightarrow>
          let out1 = out @ [region_of info]; next_addr = sat_add (rg_address info) (rg_size info) in
          if next_addr \<le> addr then out1 else regions_from pidinfo next_addr out1)"
  by pat_completeness auto
termination
  by (relation "measure (\<lambda>(_, addr, _). 2 ^ 64 - unat addr)")
    (auto simp: word_less_nat_alt not_le intro!: diff_less_mono2 less_le_trans [OF unsigned_less])

declare regions_from.simps [simp del]

lemma regions_from_stop: "pidinfo addr = None \<Longrightarrow> regions_from pidinfo addr out = out"
  by (subst regions_from.simps) simp

definition enumerate_regions :: "(u64 \<Rightarrow> region_info option) \<Rightarrow> region list" where
  "enumerate_regions pidinfo = regions_from pidinfo 0 []"

text \<open>
  \<open>answer cap\<close> is what the kernel writes into a buffer of \<open>cap\<close> ids, and how many bytes it says it
  wrote. A full buffer is asked for again, twice as large: the loop need not end.
\<close>

partial_function (option) thread_ids_loop :: "(nat \<Rightarrow> int \<times> u64 list) \<Rightarrow> nat \<Rightarrow> (unit + u64 list) option" where
  "thread_ids_loop answer cap =
     (case answer cap of (n, buf) \<Rightarrow>
        if n < 0 then Some (Inl ())
        else if nat n div 8 = cap then thread_ids_loop answer (cap * 2)
        else Some (Inr (take (nat n div 8) buf)))"

definition list_thread_ids :: "(nat \<Rightarrow> int \<times> u64 list) \<Rightarrow> (unit + u64 list) option" where
  "list_thread_ids answer = thread_ids_loop answer 64"

definition thread_name_inner :: "string option \<Rightarrow> unit + string option" where
  "thread_name_inner pth_name =
     (case pth_name of
        None \<Rightarrow> Inl ()
      | Some bytes \<Rightarrow>
          Inr (if until_nul bytes = [] then None else Some (from_utf8_lossy (until_nul bytes))))"

section \<open>Thread names\<close>

type_synonym thread_name_cache = "(u32, string) hmap"

definition note_thread :: "u32 \<Rightarrow> string \<Rightarrow> thread_name_cache \<Rightarrow> bool \<times> thread_name_cache" where
  "note_thread tid name cache =
     (if map_of cache tid = Some name then (False, cache) else (True, hm_insert tid name cache))"

section \<open>Images\<close>

record loaded_image =
  li_path :: string
  li_base_avma :: u64
  li_vmsize :: u64
  li_text_svma :: u64
  li_uuid :: "string option"
  li_arch :: "string option"
  li_is_executable :: bool
  li_symbols :: "macho_symbol list"
  li_from_cache :: bool

record parsed_macho =
  pm_text_svma :: u64
  pm_text_vmsize :: u64
  pm_uuid :: "string option"
  pm_arch :: "string option"
  pm_is_executable :: bool
  pm_symbols :: "macho_symbol list"

text \<open>A file as the decoder gives it: the object, its architecture and whether it is an executable.\<close>

datatype architecture = Aarch64 | X86_64 | OtherArchitecture

datatype disk_file =
  StatFailed string
| NotRegular
| ReadError string
| ParseError string
| DiskObject macho_object architecture bool

fun parse_disk_macho :: "disk_file \<Rightarrow> string + parsed_macho" where
  "parse_disk_macho (StatFailed e) = Inl (''stat: '' @ e)"
| "parse_disk_macho NotRegular = Inl ''not a regular file''"
| "parse_disk_macho (ReadError e) = Inl (''read: '' @ e)"
| "parse_disk_macho (ParseError e) = Inl (''parse: '' @ e)"
| "parse_disk_macho (DiskObject obj arch executable) =
     (case text_segment obj of
        None \<Rightarrow> Inl ''no __TEXT segment''
      | Some (svma, vmsize) \<Rightarrow>
          Inr \<lparr>pm_text_svma = svma, pm_text_vmsize = vmsize, pm_uuid = mo_uuid obj,
               pm_arch = (case arch of Aarch64 \<Rightarrow> Some ''aarch64'' | X86_64 \<Rightarrow> Some ''x86_64'' | OtherArchitecture \<Rightarrow> None),
               pm_is_executable = executable, pm_symbols = collect_symbols (mo_symbols obj)\<rparr>)"

record image_env =
  ie_pidinfo :: "u64 \<Rightarrow> region_info option"
  ie_disk :: "string \<Rightarrow> disk_file"
  ie_cache :: "cache_entry list option"
  ie_host_arch :: "string option"
  ie_task_info :: "u64 option"
  ie_read_count :: "u64 \<Rightarrow> u32 option"

definition build_image :: "image_env \<Rightarrow> string \<Rightarrow> u64 \<Rightarrow> u64 \<Rightarrow> loaded_image" where
  "build_image env path base_avma region_size =
     (case parse_disk_macho (ie_disk env path) of
        Inr parsed \<Rightarrow>
          \<lparr>li_path = path, li_base_avma = base_avma, li_vmsize = max (pm_text_vmsize parsed) region_size,
           li_text_svma = pm_text_svma parsed, li_uuid = pm_uuid parsed, li_arch = pm_arch parsed,
           li_is_executable = pm_is_executable parsed, li_symbols = pm_symbols parsed, li_from_cache = False\<rparr>
      | Inl _ \<Rightarrow>
          (case Option.bind (ie_cache env) (cache_lookup path) of
             Some (text_svma, text_vmsize, uuid, symbols) \<Rightarrow>
               \<lparr>li_path = path, li_base_avma = base_avma, li_vmsize = max text_vmsize region_size,
                li_text_svma = text_svma, li_uuid = uuid, li_arch = ie_host_arch env,
                li_is_executable = False, li_symbols = symbols, li_from_cache = False\<rparr>
           | None \<Rightarrow>
               \<lparr>li_path = path, li_base_avma = base_avma, li_vmsize = region_size, li_text_svma = base_avma,
                li_uuid = None, li_arch = None, li_is_executable = False, li_symbols = [], li_from_cache = False\<rparr>))"

section \<open>The scanner\<close>

type_synonym image_key = "string \<times> u64"

record image_scanner =
  is_known :: "(image_key, loaded_image) hmap"
  is_task :: "u32 option"
  is_last_addr :: u64
  is_last_count :: u32

definition new_scanner :: "u32 option \<Rightarrow> image_scanner" where
  "new_scanner task = \<lparr>is_known = [], is_task = task, is_last_addr = 0, is_last_count = 0\<rparr>"

text \<open>\<open>ie_task_info\<close> is the address of dyld's image list, \<open>ie_read_count\<close> the count read from the target.\<close>

definition dyld_images_changed :: "image_env \<Rightarrow> image_scanner \<Rightarrow> bool \<times> image_scanner" where
  "dyld_images_changed env sc =
     (case ie_task_info env of
        None \<Rightarrow> (True, sc)
      | Some addr \<Rightarrow>
          if addr = 0 then (True, sc)
          else (case ie_read_count env (addr + 4) of
              None \<Rightarrow> (True, sc\<lparr>is_last_addr := 0\<rparr>)
            | Some count' \<Rightarrow>
                (addr \<noteq> is_last_addr sc \<or> count' \<noteq> is_last_count sc,
                 sc\<lparr>is_last_addr := addr, is_last_count := count'\<rparr>)))"

text \<open>The current images, one per path and address, and those among them that are new.\<close>

definition collect_region ::
  "(image_key, loaded_image) hmap \<Rightarrow> region \<Rightarrow> image_key list \<times> (string \<times> u64 \<times> u64) list \<Rightarrow>
   image_key list \<times> (string \<times> u64 \<times> u64) list" where
  "collect_region known r acc =
     (case acc of (current, to_add) \<Rightarrow>
        if re_path r = [] \<or> \<not> re_is_executable r then (current, to_add)
        else let key = (re_path r, re_address r) in
          if key \<in> set current then (current, to_add)
          else (current @ [key],
                if map_of known key = None then to_add @ [(re_path r, re_address r, re_size r)] else to_add))"

definition unload_image :: "u32 \<Rightarrow> image_key \<Rightarrow> sink_event list \<times> image_scanner \<Rightarrow> sink_event list \<times> image_scanner" where
  "unload_image pid key s =
     (case map_of (is_known (snd s)) key of
        None \<Rightarrow> s
      | Some img \<Rightarrow>
          (fst s @ [OnBinaryUnloaded \<lparr>uv_pid = pid, uv_base_avma = li_base_avma img, uv_path = li_path img\<rparr>],
           (snd s)\<lparr>is_known := hm_remove key (is_known (snd s))\<rparr>))"

definition load_image ::
  "image_env \<Rightarrow> u32 \<Rightarrow> string \<times> u64 \<times> u64 \<Rightarrow> sink_event list \<times> image_scanner \<Rightarrow> sink_event list \<times> image_scanner" where
  "load_image env pid entry s =
     (case entry of (path, base_avma, region_size) \<Rightarrow>
        let img = build_image env path base_avma region_size in
        (fst s @ [OnBinaryLoaded \<lparr>bv_pid = pid, bv_base_avma = li_base_avma img, bv_vmsize = li_vmsize img,
           bv_text_svma = li_text_svma img, bv_path = li_path img, bv_uuid = li_uuid img, bv_arch = li_arch img,
           bv_is_executable = li_is_executable img, bv_symbols = li_symbols img, bv_text_bytes = None\<rparr>],
         (snd s)\<lparr>is_known := hm_insert (path, base_avma) img (is_known (snd s))\<rparr>))"

definition rescan_skipped :: "image_env \<Rightarrow> image_scanner \<Rightarrow> bool" where
  "rescan_skipped env sc \<longleftrightarrow> is_task sc \<noteq> None \<and> \<not> fst (dyld_images_changed env sc)"

definition rescan :: "image_env \<Rightarrow> u32 \<Rightarrow> image_scanner \<Rightarrow> sink_event list \<times> image_scanner" where
  "rescan env pid sc =
     (let sc1 = (if is_task sc = None then sc else snd (dyld_images_changed env sc)) in
      if rescan_skipped env sc then ([], sc1)
      else
        let regions = enumerate_regions (ie_pidinfo env);
            (current, to_add) = fold (collect_region (is_known sc1)) regions ([], []);
            to_remove = map fst (filter (\<lambda>(k, img). \<not> li_from_cache img \<and> k \<notin> set current) (is_known sc1));
            s1 = fold (unload_image pid) to_remove ([], sc1) in
        fold (load_image env pid) to_add s1)"

section \<open>The events describe the images of the process\<close>

text \<open>A consumer that is told of an image twice, or of the end of one it does not know, has no state.\<close>

fun replay_event :: "image_key set option \<Rightarrow> sink_event \<Rightarrow> image_key set option" where
  "replay_event None _ = None"
| "replay_event (Some S) (OnBinaryLoaded e) =
     (if (bv_path e, bv_base_avma e) \<in> S then None else Some (insert (bv_path e, bv_base_avma e) S))"
| "replay_event (Some S) (OnBinaryUnloaded e) =
     (if (uv_path e, uv_base_avma e) \<in> S then Some (S - {(uv_path e, uv_base_avma e)}) else None)"
| "replay_event (Some S) _ = Some S"

definition replay_images :: "sink_event list \<Rightarrow> image_key set option" where
  "replay_images events = foldl replay_event (Some {}) events"

definition mapped_images :: "image_env \<Rightarrow> image_key set" where
  "mapped_images env = (\<lambda>r. (re_path r, re_address r)) `
     {r \<in> set (enumerate_regions (ie_pidinfo env)). re_path r \<noteq> [] \<and> re_is_executable r}"

abbreviation known_images :: "image_scanner \<Rightarrow> image_key set" where
  "known_images sc \<equiv> fst ` set (is_known sc)"

definition scanner_inv :: "sink_event list \<times> image_scanner \<Rightarrow> bool" where
  "scanner_inv s \<longleftrightarrow> hm_keys_distinct (is_known (snd s)) \<and>
     (\<forall>(k, img) \<in> set (is_known (snd s)). k = (li_path img, li_base_avma img) \<and> \<not> li_from_cache img) \<and>
     replay_images (fst s) = Some (known_images (snd s))"

lemma replay_images_snoc: "replay_images (events @ [e]) = replay_event (replay_images events) e"
  by (simp add: replay_images_def)

lemma build_image_key [simp]: "li_path (build_image env path base size') = path"
  "li_base_avma (build_image env path base size') = base" "\<not> li_from_cache (build_image env path base size')"
  by (auto simp: build_image_def split: sum.splits option.splits)

lemma set_hm_remove: "set (hm_remove k m) = {x \<in> set m. fst x \<noteq> k}"
  by (auto simp: hm_remove_def)

lemma set_hm_insert_new: "k \<notin> fst ` set m \<Longrightarrow> set (hm_insert k v m) = insert (k, v) (set m)"
  unfolding hm_insert_def by (induction k v "\<lambda>_ :: 'b. v" m rule: hm_entry.induct) auto

lemma collect_regions:
  assumes "fold (collect_region known) regions (c0, a0) = (current, to_add)"
    "distinct (map (\<lambda>(p, b, _). (p, b)) a0)" "set (map (\<lambda>(p, b, _). (p, b)) a0) = set c0 - fst ` set known"
  shows "set current = set c0 \<union> (\<lambda>r. (re_path r, re_address r)) ` {r \<in> set regions. re_path r \<noteq> [] \<and> re_is_executable r} \<and>
    distinct (map (\<lambda>(p, b, _). (p, b)) to_add) \<and>
    set (map (\<lambda>(p, b, _). (p, b)) to_add) = set current - fst ` set known"
  using assms
proof (induction regions arbitrary: c0 a0)
  case Nil
  then show ?case by simp
next
  case (Cons r regions)
  let ?key = "(re_path r, re_address r)"
  show ?case
  proof (cases "re_path r = [] \<or> \<not> re_is_executable r \<or> ?key \<in> set c0")
    case True
    then have "collect_region known r (c0, a0) = (c0, a0)" by (auto simp: collect_region_def Let_def)
    with Cons.IH [of c0 a0] Cons.prems True show ?thesis by auto
  next
    case False
    let ?a = "if map_of known ?key = None then a0 @ [(re_path r, re_address r, re_size r)] else a0"
    have step: "collect_region known r (c0, a0) = (c0 @ [?key], ?a)"
      using False by (simp add: collect_region_def Let_def)
    have "distinct (map (\<lambda>(p, b, _). (p, b)) ?a)"
      "set (map (\<lambda>(p, b, _). (p, b)) ?a) = set (c0 @ [?key]) - fst ` set known"
      using Cons.prems(2,3) False by (auto simp: map_of_eq_None_iff)
    with Cons.IH [of "c0 @ [?key]" ?a] Cons.prems(1) step False show ?thesis by auto
  qed
qed

lemma unload_step:
  assumes "scanner_inv s" "key \<in> known_images (snd s)"
  shows "scanner_inv (unload_image pid key s) \<and> known_images (snd (unload_image pid key s)) = known_images (snd s) - {key}"
proof -
  obtain img where m: "map_of (is_known (snd s)) key = Some img"
    using assms(2) by (metis map_of_eq_None_iff not_None_eq)
  then have "key = (li_path img, li_base_avma img)" using assms(1) map_of_SomeD by (fastforce simp: scanner_inv_def)
  with assms m show ?thesis
    by (auto simp: scanner_inv_def unload_image_def replay_images_snoc set_hm_remove hm_simps)
qed

lemma load_step:
  assumes "scanner_inv s" "(path, base) \<notin> known_images (snd s)"
  shows "scanner_inv (load_image env pid (path, base, n) s) \<and>
    known_images (snd (load_image env pid (path, base, n) s)) = insert (path, base) (known_images (snd s))"
  using assms by (auto simp: scanner_inv_def load_image_def Let_def replay_images_snoc set_hm_insert_new hm_simps)

lemma unload_all:
  "scanner_inv s \<Longrightarrow> distinct keys \<Longrightarrow> set keys \<subseteq> known_images (snd s) \<Longrightarrow>
   scanner_inv (fold (unload_image pid) keys s) \<and>
   known_images (snd (fold (unload_image pid) keys s)) = known_images (snd s) - set keys"
proof (induction keys arbitrary: s)
  case (Cons k keys)
  have "k \<in> known_images (snd s)" using Cons.prems(3) by simp
  from unload_step [OF Cons.prems(1) this]
  have step: "scanner_inv (unload_image pid k s)" "known_images (snd (unload_image pid k s)) = known_images (snd s) - {k}"
    by blast+
  have "set keys \<subseteq> known_images (snd (unload_image pid k s))" using step(2) Cons.prems(2,3) by (simp add: subset_Diff_insert)
  from Cons.IH [OF step(1) _ this] Cons.prems(2) step(2) show ?case
    by (simp only: fold_simps comp_apply distinct.simps list.set(2)) (simp add: Diff_insert2 insert_Diff_if set_diff_eq conj_ac)
qed simp

lemma load_all:
  "scanner_inv s \<Longrightarrow> distinct (map (\<lambda>(p, b, _). (p, b)) entries) \<Longrightarrow>
   set (map (\<lambda>(p, b, _). (p, b)) entries) \<inter> known_images (snd s) = {} \<Longrightarrow>
   scanner_inv (fold (load_image env pid) entries s) \<and>
   known_images (snd (fold (load_image env pid) entries s)) =
     known_images (snd s) \<union> set (map (\<lambda>(p, b, _). (p, b)) entries)"
proof (induction entries arbitrary: s)
  case (Cons e entries)
  obtain p b n where e: "e = (p, b, n)" by (cases e)
  have "scanner_inv (load_image env pid e s)" "known_images (snd (load_image env pid e s)) = insert (p, b) (known_images (snd s))"
    using load_step [OF Cons.prems(1), of p b env pid n] Cons.prems(3) e by auto
  with Cons.IH [of "load_image env pid e s"] Cons.prems(2,3) e show ?case by auto
qed simp

lemma replay_images_append:
  "replay_images xs = Some S \<Longrightarrow> replay_images (xs @ ys) = foldl replay_event (Some S) ys"
  by (simp add: replay_images_def)

lemma unload_prefix:
  "fold (unload_image pid) keys (events @ fst s, snd s) =
     (events @ fst (fold (unload_image pid) keys s), snd (fold (unload_image pid) keys s))"
proof (induction keys arbitrary: s)
  case (Cons k keys)
  have "unload_image pid k (events @ fst s, snd s) = (events @ fst (unload_image pid k s), snd (unload_image pid k s))"
    by (auto simp: unload_image_def split: option.splits)
  with Cons.IH [of "unload_image pid k s"] show ?case by simp
qed simp

lemma load_prefix:
  "fold (load_image env pid) entries (events @ fst s, snd s) =
     (events @ fst (fold (load_image env pid) entries s), snd (fold (load_image env pid) entries s))"
proof (induction entries arbitrary: s)
  case (Cons e entries)
  have "load_image env pid e (events @ fst s, snd s) = (events @ fst (load_image env pid e s), snd (load_image env pid e s))"
    by (auto simp: load_image_def Let_def split: prod.splits)
  with Cons.IH [of "load_image env pid e s"] show ?case by simp
qed simp

lemma known_dyld [simp]: "is_known (snd (dyld_images_changed env sc)) = is_known sc"
  by (auto simp: dyld_images_changed_def split: option.splits)

lemma rescan_step:
  assumes inv: "scanner_inv (events, sc)" and r: "rescan env pid sc = (new, sc')"
  shows "scanner_inv (events @ new, sc')"
    "rescan_skipped env sc \<Longrightarrow> known_images sc' = known_images sc"
    "\<not> rescan_skipped env sc \<Longrightarrow> known_images sc' = mapped_images env"
proof -
  define sc1 where "sc1 = (if is_task sc = None then sc else snd (dyld_images_changed env sc))"
  have known: "is_known sc1 = is_known sc" by (simp add: sc1_def)
  have inv1: "scanner_inv (events, sc1)" using inv known by (simp add: scanner_inv_def)
  obtain current to_add where col: "fold (collect_region (is_known sc1)) (enumerate_regions (ie_pidinfo env)) ([], []) = (current, to_add)"
    by force
  define rm where "rm = map fst (filter (\<lambda>(k, img). \<not> li_from_cache img \<and> k \<notin> set current) (is_known sc1))"
  have c: "set current = mapped_images env" "distinct (map (\<lambda>(p, b, _). (p, b)) to_add)"
    "set (map (\<lambda>(p, b, _). (p, b)) to_add) = set current - known_images sc"
    using collect_regions [OF col] known by (auto simp: mapped_images_def)
  have rm: "set rm = known_images sc1 - set current" "distinct rm"
  proof -
    have "\<not> li_from_cache (snd x)" if "x \<in> set (is_known sc1)" for x
      using inv1 that by (auto simp: scanner_inv_def case_prod_beta)
    then have "set rm = fst ` {x \<in> set (is_known sc1). fst x \<notin> set current}"
      unfolding rm_def set_map set_filter case_prod_beta by (intro arg_cong [of _ _ "(`) fst"]) blast
    then show "set rm = known_images sc1 - set current" by auto
    have "distinct (map fst (is_known sc1))" using inv1 by (simp add: scanner_inv_def hm_keys_distinct_def)
    then show "distinct rm" unfolding rm_def by (rule distinct_map_filter)
  qed
  have u: "scanner_inv (fold (unload_image pid) rm (events, sc1))"
    "known_images (snd (fold (unload_image pid) rm (events, sc1))) = known_images sc \<inter> set current"
    using unload_all [OF inv1 rm(2), of pid] rm(1) known by auto
  let ?f = "fold (load_image env pid) to_add (fold (unload_image pid) rm (events, sc1))"
  have l: "scanner_inv ?f" "known_images (snd ?f) = mapped_images env"
    using load_all [OF u(1) c(2), of env pid] u(2) c(1,3) by auto
  have "?f = (events @ fst (fold (load_image env pid) to_add (fold (unload_image pid) rm ([], sc1))),
      snd (fold (load_image env pid) to_add (fold (unload_image pid) rm ([], sc1))))"
    using unload_prefix [of pid rm events "([], sc1)"] load_prefix [of env pid to_add events] by simp
  then have f: "\<not> rescan_skipped env sc \<Longrightarrow> ?f = (events @ new, sc')"
    using r col by (simp add: rescan_def Let_def sc1_def [symmetric] rm_def [symmetric])
  have skip: "rescan_skipped env sc \<Longrightarrow> new = [] \<and> sc' = sc1"
    using r by (simp add: rescan_def Let_def sc1_def [symmetric])
  show "scanner_inv (events @ new, sc')" using f l(1) skip inv1 by (cases "rescan_skipped env sc") auto
  show "rescan_skipped env sc \<Longrightarrow> known_images sc' = known_images sc" using skip known by simp
  show "\<not> rescan_skipped env sc \<Longrightarrow> known_images sc' = mapped_images env" using f l(2) by auto
qed

primrec scan_all :: "u32 \<Rightarrow> image_env list \<Rightarrow> sink_event list \<times> image_scanner \<Rightarrow> sink_event list \<times> image_scanner" where
  "scan_all pid [] s = s"
| "scan_all pid (env # envs) s =
     (let (new, sc) = rescan env pid (snd s) in scan_all pid envs (fst s @ new, sc))"

lemma scan_all_append: "scan_all pid (xs @ ys) s = scan_all pid ys (scan_all pid xs s)"
  by (induction xs arbitrary: s) (auto split: prod.split)

lemma scan_all_inv: "scanner_inv s \<Longrightarrow> scanner_inv (scan_all pid envs s)"
proof (induction envs arbitrary: s)
  case (Cons env envs)
  obtain new sc where r: "rescan env pid (snd s) = (new, sc)" by force
  have "scanner_inv (fst s, snd s)" using Cons.prems by simp
  from rescan_step(1) [OF this r] show ?case using Cons.IH r by simp
qed simp

text \<open>
  C31: The image events follow the process. Over any sequence of scans, each of a process in another
  state, no image is reported loaded twice or unloaded without having been loaded; after a scan that
  was not skipped, a consumer that replays the events knows exactly the executable files mapped into
  the process at that scan, and after a skipped one what it knew before.\<close>

theorem image_events_follow_process:
  assumes "scan_all pid envs ([], new_scanner task) = (events, sc)"
    "scan_all pid (envs @ [env]) ([], new_scanner task) = (events', sc')"
  shows "replay_images events' =
    (if rescan_skipped env sc then replay_images events else Some (mapped_images env))"
proof -
  have "scanner_inv ([], new_scanner task)"
    by (simp add: scanner_inv_def new_scanner_def replay_images_def hm_simps)
  from scan_all_inv [OF this] assms(1) have inv: "scanner_inv (events, sc)" by metis
  obtain new sc2 where r: "rescan env pid sc = (new, sc2)" by force
  then have e: "events' = events @ new" "sc' = sc2" using assms by (simp_all add: scan_all_append)
  note step = rescan_step [OF inv r]
  have "replay_images events' = Some (known_images sc')" "replay_images events = Some (known_images sc)"
    using step(1) inv e by (simp_all add: scanner_inv_def)
  with step(2,3) e show ?thesis by simp
qed

text \<open>A process that maps one executable file, and after that nothing.\<close>

definition demo_image_env :: "bool \<Rightarrow> image_env" where
  "demo_image_env mapped = \<lparr>ie_pidinfo = (\<lambda>addr. if mapped \<and> addr = 0 then Some \<lparr>rg_protection = 5, rg_address = 0x1000,
       rg_size = 0x1000, rg_path_bytes = ''/bin/x'' @ [CHR 0x00]\<rparr> else None),
     ie_disk = (\<lambda>_. NotRegular), ie_cache = None, ie_host_arch = Some ''aarch64'', ie_task_info = None,
     ie_read_count = (\<lambda>_. None)\<rparr>"

theorem image_events_follow_process_witness:
  "replay_images (fst (scan_all 7 [demo_image_env True] ([], new_scanner None))) = Some {(''/bin/x'', 0x1000)} \<and>
   replay_images (fst (scan_all 7 ([demo_image_env True] @ [demo_image_env False]) ([], new_scanner None))) = Some {}"
proof -
  have lossy: "from_utf8_lossy ''/bin/x'' = ''/bin/x''" by code_simp
  have "enumerate_regions (ie_pidinfo (demo_image_env True)) =
      [\<lparr>re_address = 0x1000, re_size = 0x1000, re_is_executable = True, re_is_readable = True, re_path = ''/bin/x''\<rparr>]"
    unfolding enumerate_regions_def using lossy
    by (subst regions_from.simps)
      (simp add: demo_image_env_def regions_from_stop region_of_def until_nul_def VM_PROT_READ_def VM_PROT_EXECUTE_def
        sat_add_def Let_def)
  then have one: "mapped_images (demo_image_env True) = {(''/bin/x'', 0x1000)}"
    unfolding mapped_images_def by (simp only: list.set) (simp add: Collect_conv_if)
  have none: "mapped_images (demo_image_env False) = {}"
    by (simp add: mapped_images_def enumerate_regions_def regions_from_stop demo_image_env_def)
  obtain e1 s1 e2 s2 where s: "scan_all 7 [demo_image_env True] ([], new_scanner None) = (e1, s1)"
    "scan_all 7 ([demo_image_env True] @ [demo_image_env False]) ([], new_scanner None) = (e2, s2)"
    by (metis surj_pair)
  have s0: "scan_all 7 [] ([], new_scanner None) = ([], new_scanner None)"
    "scan_all 7 ([] @ [demo_image_env True]) ([], new_scanner None) = (e1, s1)"
    using s(1) by (simp_all only: append_Nil scan_all.simps(1))
  have t: "fst (dyld_images_changed (demo_image_env False) s1)"
    by (simp add: dyld_images_changed_def demo_image_env_def)
  then have "\<not> rescan_skipped (demo_image_env False) s1" by (simp add: rescan_skipped_def)
  then have "replay_images e2 = Some {}" using image_events_follow_process [OF s] none by simp
  moreover have "\<not> rescan_skipped (demo_image_env True) (new_scanner None)"
    by (simp add: rescan_skipped_def new_scanner_def)
  then have "replay_images e1 = Some {(''/bin/x'', 0x1000)}" using image_events_follow_process [OF s0] one by simp
  ultimately show ?thesis using s by simp
qed

end
