(* ===== verification/KernelSlide.thy ===== *)
theory KernelSlide
  imports Text Kdebug
begin

text \<open>
  The kernel's symbols and its slide (\<open>stax-mac-kperf-parse/src/kernel_symbols.rs\<close>): the image on
  disk gives symbols and executable segments at their link addresses, and every kernel address in a
  sample votes for the aligned slides that would put it into one of the segments.
\<close>

section \<open>The kernel image\<close>

text \<open>\<open>str::rfind\<close>: the last position at which the needle starts, here the text after it.\<close>

fun after_last :: "string \<Rightarrow> string \<Rightarrow> string option" where
  "after_last needle [] = (if needle = [] then Some [] else None)"
| "after_last needle (c # s) =
     (case after_last needle s of
        Some rest \<Rightarrow> Some rest
      | None \<Rightarrow> strip_prefix_str needle (c # s))"

definition is_ascii_alphanumeric :: "char \<Rightarrow> bool" where
  "is_ascii_alphanumeric c \<longleftrightarrow> (48 \<le> byte c \<and> byte c \<le> 57) \<or> (65 \<le> byte c \<and> byte c \<le> 90) \<or> (97 \<le> byte c \<and> byte c \<le> 122)"

definition extract_chip :: "string \<Rightarrow> string option" where
  "extract_chip kver =
     (case after_last ''RELEASE_ARM64_T'' kver of
        None \<Rightarrow> None
      | Some rest \<Rightarrow>
          (let chip = takeWhile is_ascii_alphanumeric rest in if chip = [] then None else Some chip))"

text \<open>A load command as the decoder gives it; \<open>BadVariant\<close> is one it cannot read.\<close>

datatype kernel_command =
  ExecSegment64 (ks_initprot: u32) (ks_vmaddr: u64) (ks_vmsize: u64)
| SymtabCommand "(u8 \<times> u64 \<times> string option) list option"
| OtherCommand
| BadVariant

record kernel_image =
  ki_path :: string
  ki_symbols :: "(u64 \<times> string) list"
  ki_exec_segments :: "(u64 \<times> u64) list"

fun exec_segment :: "kernel_command \<Rightarrow> (u64 \<times> u64) option" where
  "exec_segment (ExecSegment64 initprot lo vmsize) =
     (let hi = lo + vmsize in if initprot AND 4 \<noteq> 0 \<and> lo < hi then Some (lo, hi) else None)"
| "exec_segment _ = None"

definition last_symtab :: "kernel_command list \<Rightarrow> (u8 \<times> u64 \<times> string option) list option option" where
  "last_symtab cmds = fold (\<lambda>c s. case c of SymtabCommand t \<Rightarrow> Some t | _ \<Rightarrow> s) cmds None"

definition N_STAB :: u8 where "N_STAB = 0xe0"
definition N_TYPE :: u8 where "N_TYPE = 0x0e"
definition N_SECT :: u8 where "N_SECT = 0x0e"

definition kernel_symbol :: "u8 \<times> u64 \<times> string option \<Rightarrow> (u64 \<times> string) option" where
  "kernel_symbol entry =
     (case entry of (n_type, n_value, name) \<Rightarrow>
        if n_type AND N_STAB \<noteq> 0 then None
        else if n_type AND N_TYPE \<noteq> N_SECT then None
        else if n_value = 0 then None
        else case name of
          None \<Rightarrow> None
        | Some n \<Rightarrow> if n = [] then None else (case from_utf8 n of None \<Rightarrow> None | Some s \<Rightarrow> Some (n_value, s)))"

text \<open>
  \<open>kver\<close> is the kernel's version string, \<open>read\<close> the file system and decoder: the load commands of
  the file at a path, up to the first that cannot be framed.
\<close>

definition load_kernel_image ::
  "(kd_error + string) \<Rightarrow> (string \<Rightarrow> kernel_command list option) \<Rightarrow> (string \<Rightarrow> string) \<Rightarrow> kd_error + kernel_image option" where
  "load_kernel_image kver read lowercase =
     (case kver of
        Inl e \<Rightarrow> Inl e
      | Inr v \<Rightarrow> Inr
          (case extract_chip v of
             None \<Rightarrow> None
           | Some chip \<Rightarrow>
               (let path = ''/System/Library/Kernels/kernel.release.t'' @ lowercase chip in
                case read path of
                  None \<Rightarrow> None
                | Some cmds \<Rightarrow>
                    (case last_symtab cmds of
                       Some (Some symtab) \<Rightarrow>
                         (let exec_segments = List.map_filter exec_segment cmds;
                              symbols = List.map_filter kernel_symbol symtab in
                          if exec_segments = [] \<or> symbols = [] then None
                          else Some \<lparr>ki_path = path, ki_symbols = symbols, ki_exec_segments = exec_segments\<rparr>)
                     | _ \<Rightarrow> None))))"

definition kallsyms_line :: "u64 \<Rightarrow> u64 \<times> string \<Rightarrow> string" where
  "kallsyms_line slide entry =
     (case entry of (svma, name) \<Rightarrow> fmt_016x (svma + slide) @ '' T '' @ name @ [CHR 0x0A])"

definition format_kallsyms :: "kernel_image \<Rightarrow> u64 \<Rightarrow> string" where
  "format_kallsyms image' slide = concat (map (kallsyms_line slide) (ki_symbols image'))"

section \<open>The slide estimator\<close>

definition SLIDE_ALIGNMENT :: u64 where "SLIDE_ALIGNMENT = 0x4000"
definition MAX_PER_OBS :: u64 where "MAX_PER_OBS = 4096"

record slide_estimator =
  sle_exec_segments :: "(u64 \<times> u64) list"
  sle_votes :: "(u64, u32) hmap"
  sle_observed :: u32

definition new_estimator :: "(u64 \<times> u64) list \<Rightarrow> slide_estimator" where
  "new_estimator segments = \<lparr>sle_exec_segments = segments, sle_votes = [], sle_observed = 0\<rparr>"

definition align_up :: "u64 \<Rightarrow> u64" where
  "align_up x = (x + (SLIDE_ALIGNMENT - 1)) AND NOT (SLIDE_ALIGNMENT - 1)"

definition align_down :: "u64 \<Rightarrow> u64" where
  "align_down x = x AND NOT (SLIDE_ALIGNMENT - 1)"

text \<open>\<open>while s <= hi\<close>, whose step wraps: the loop need not end.\<close>

partial_function (option) vote_loop :: "u64 \<Rightarrow> u64 \<Rightarrow> (u64, u32) hmap \<Rightarrow> (u64, u32) hmap option" where
  "vote_loop s hi votes =
     (if s \<le> hi then vote_loop (s + SLIDE_ALIGNMENT) hi (hm_entry s 0 (\<lambda>v. v + 1) votes) else Some votes)"

definition vote_range :: "u64 \<Rightarrow> u64 \<times> u64 \<Rightarrow> (u64 \<times> u64) option" where
  "vote_range avma seg =
     (case seg of (seg_lo, seg_hi) \<Rightarrow>
        if avma < seg_lo then None
        else
          let slide_max = avma - seg_lo;
              slide_min = (if seg_hi \<le> avma then avma - seg_hi + 1 else 0);
              lo = align_up slide_min; hi = align_down slide_max;
              n = sat_sub hi lo div SLIDE_ALIGNMENT in
          if MAX_PER_OBS < n then None else Some (lo, hi))"

fun observe_segments :: "u64 \<Rightarrow> (u64 \<times> u64) list \<Rightarrow> (u64, u32) hmap \<Rightarrow> (u64, u32) hmap option" where
  "observe_segments avma [] votes = Some votes"
| "observe_segments avma (seg # segs) votes =
     (case vote_range avma seg of
        None \<Rightarrow> observe_segments avma segs votes
      | Some (lo, hi) \<Rightarrow>
          (case vote_loop lo hi votes of None \<Rightarrow> None | Some votes' \<Rightarrow> observe_segments avma segs votes'))"

definition observe :: "u64 \<Rightarrow> slide_estimator \<Rightarrow> slide_estimator option" where
  "observe avma est =
     (case observe_segments avma (sle_exec_segments est) (sle_votes est) of
        None \<Rightarrow> None
      | Some votes \<Rightarrow> Some (est\<lparr>sle_votes := votes, sle_observed := sle_observed est + 1\<rparr>))"

primrec observe_all :: "u64 list \<Rightarrow> slide_estimator \<Rightarrow> slide_estimator option" where
  "observe_all [] est = Some est"
| "observe_all (a # as) est = (case observe a est of None \<Rightarrow> None | Some est' \<Rightarrow> observe_all as est')"

text \<open>\<open>Iterator::max_by_key\<close> keeps the last of several maxima. The support is the pair of counts it is the ratio of.\<close>

definition max_vote :: "(u64, u32) hmap \<Rightarrow> (u64 \<times> u32) option" where
  "max_vote votes =
     fold (\<lambda>kv best. case best of None \<Rightarrow> Some kv | Some b \<Rightarrow> if snd b \<le> snd kv then Some kv else Some b) votes None"

definition finalize :: "slide_estimator \<Rightarrow> (u64 \<times> u32 \<times> u32) option" where
  "finalize est =
     (case max_vote (sle_votes est) of
        None \<Rightarrow> None
      | Some (slide, votes) \<Rightarrow> Some (slide, votes, max (sle_observed est) 1))"

section \<open>Votes count the samples a slide explains\<close>

lemma unat_align_down: "unat (align_down x) = 16384 * (unat x div 16384)"
proof -
  have m: "NOT (SLIDE_ALIGNMENT - 1) = NOT (mask 14 :: u64)"
    by (simp add: SLIDE_ALIGNMENT_def mask_eq_exp_minus_1)
  have "align_down x = push_bit 14 (drop_bit 14 x)"
    unfolding align_down_def m by (rule bit_word_eqI) (auto simp: bit_simps)
  moreover have "take_bit 64 (unat x) = unat x"
    using unsigned_less [of x, where ?'a = nat] by (simp add: take_bit_nat_eq_self)
  ultimately have "unat (align_down x) = take_bit 64 (push_bit 14 (drop_bit 14 (unat x)))"
    by (simp add: unsigned_push_bit_eq unsigned_drop_bit_eq)
  also have "\<dots> = take_bit 64 (16384 * (unat x div 16384))"
    by (simp add: push_bit_eq_mult drop_bit_eq_div mult.commute)
  also have "16384 * (unat x div 16384) < 2 ^ 64"
  proof -
    have "16384 * (unat x div 16384) \<le> unat x" by simp
    also have "unat x < 2 ^ 64" using unsigned_less [of x] by simp
    finally show ?thesis .
  qed
  then have "take_bit 64 (16384 * (unat x div 16384)) = 16384 * (unat x div 16384)"
    by (rule take_bit_nat_eq_self)
  finally show ?thesis .
qed

lemma unat_align_up:
  assumes "unat x + 16383 < 2 ^ 64"
  shows "unat (align_up x) = 16384 * ((unat x + 16383) div 16384)"
proof -
  have "align_up x = align_down (x + 16383)" by (simp add: align_up_def align_down_def SLIDE_ALIGNMENT_def)
  moreover have "unat (x + 16383) = unat x + 16383" using assms by (simp add: unat_word_ariths)
  ultimately show ?thesis by (simp add: unat_align_down)
qed

definition votes_for :: "(u64, u32) hmap \<Rightarrow> u64 \<Rightarrow> nat" where
  "votes_for votes s = unat (or_default (map_of votes s) 0)"

text \<open>The slide puts the address into the segment, at an unslid address.\<close>

definition explains :: "u64 \<Rightarrow> u64 \<Rightarrow> u64 \<times> u64 \<Rightarrow> bool" where
  "explains s avma seg \<longleftrightarrow> unat s mod 16384 = 0 \<and> unat s \<le> unat avma \<and>
     unat (fst seg) \<le> unat avma - unat s \<and> unat avma - unat s < unat (snd seg)"

text \<open>Segments of at most 64 MiB, above the first page.\<close>

definition segment_ok :: "u64 \<times> u64 \<Rightarrow> bool" where
  "segment_ok seg \<longleftrightarrow> 16384 \<le> unat (fst seg) \<and> unat (fst seg) < unat (snd seg) \<and>
     unat (snd seg) - unat (fst seg) \<le> 2 ^ 26"

lemma votes_for_entry:
  "votes_for votes s + 1 < 2 ^ 32 \<Longrightarrow>
   votes_for (hm_entry s 0 (\<lambda>v. v + 1) votes) s' = votes_for votes s' + (if s' = s then 1 else 0)"
  by (auto simp: votes_for_def hm_simps unat_word_ariths)

lemma multiples_step:
  assumes "(a :: nat) mod m = 0" "b mod m = 0"
  shows "a \<le> b \<longleftrightarrow> b = a \<or> a + m \<le> b"
proof -
  obtain p q where a: "a = m * p" and b: "b = m * q" using assms by (metis mod_0_imp_dvd dvdE)
  show ?thesis
  proof (cases "p < q")
    case True
    then have "m * (p + 1) \<le> m * q" by (intro mult_le_mono) simp_all
    then have "m * p + m \<le> m * q" by simp
    then show ?thesis unfolding a b by linarith
  next
    case False
    then have "m * q \<le> m * p" by (intro mult_le_mono) simp_all
    then show ?thesis unfolding a b by linarith
  qed
qed

lemma vote_loop_exact:
  assumes "unat s mod 16384 = 0" "unat hi mod 16384 = 0" "unat hi + 16384 < 2 ^ 64"
    "\<forall>k. votes_for votes k + 1 < 2 ^ 32" "hm_keys_distinct votes"
  shows "\<exists>votes'. vote_loop s hi votes = Some votes' \<and> hm_keys_distinct votes' \<and>
    (\<forall>k. votes_for votes' k = votes_for votes k +
       (if unat k mod 16384 = 0 \<and> unat s \<le> unat k \<and> unat k \<le> unat hi then 1 else 0))"
proof -
  have "\<exists>votes'. vote_loop s hi votes = Some votes' \<and> hm_keys_distinct votes' \<and>
    (\<forall>k. votes_for votes' k = votes_for votes k +
       (if unat k mod 16384 = 0 \<and> unat s \<le> unat k \<and> unat k \<le> unat hi then 1 else 0))"
    if "(\<forall>k. unat s \<le> unat k \<longrightarrow> votes_for votes k + 1 < 2 ^ 32)" "unat s mod 16384 = 0" "hm_keys_distinct votes"
    for s votes
    using that
  proof (induction "unat hi + 16384 - unat s" arbitrary: s votes rule: less_induct)
    case less
    show ?case
    proof (cases "s \<le> hi")
      case False
      then show ?thesis using less.prems by (subst vote_loop.simps) (auto simp: word_le_nat_alt)
    next
      case True
      let ?s = "s + SLIDE_ALIGNMENT" and ?v = "hm_entry s 0 (\<lambda>v. v + 1) votes"
      have s: "unat ?s = unat s + 16384"
        using True assms(3) by (simp add: SLIDE_ALIGNMENT_def unat_word_ariths word_le_nat_alt)
      have v: "votes_for ?v k = votes_for votes k + (if k = s then 1 else 0)" for k
        by (rule votes_for_entry) (use less.prems(1) in simp)
      have d: "hm_keys_distinct ?v" using less.prems(3) by (simp add: hm_simps)
      have b: "\<forall>k. unat ?s \<le> unat k \<longrightarrow> votes_for ?v k + 1 < 2 ^ 32" using less.prems(1) s v by auto
      have a: "unat ?s mod 16384 = 0" using less.prems(2) s by simp
      have m: "unat hi + 16384 - unat ?s < unat hi + 16384 - unat s"
        using True s by (simp add: word_le_nat_alt)
      from less.hyps [OF m b a d] obtain votes' where v': "vote_loop ?s hi ?v = Some votes'" "hm_keys_distinct votes'"
        "\<forall>k. votes_for votes' k = votes_for ?v k +
          (if unat k mod 16384 = 0 \<and> unat ?s \<le> unat k \<and> unat k \<le> unat hi then 1 else 0)"
        by blast
      have step: "unat s \<le> unat k \<longleftrightarrow> k = s \<or> unat ?s \<le> unat k" if "unat k mod 16384 = 0" for k
        using multiples_step [OF less.prems(2) that] s by (simp add: word_unat_eq_iff)
      have "votes_for votes' k = votes_for votes k +
          (if unat k mod 16384 = 0 \<and> unat s \<le> unat k \<and> unat k \<le> unat hi then 1 else 0)" for k
      proof (cases "unat k mod 16384 = 0 \<and> k \<noteq> s")
        case True
        then show ?thesis using v'(3) v step [of k] by simp
      next
        case False
        then show ?thesis using v'(3) v s \<open>s \<le> hi\<close> less.prems(2) by (auto simp: word_le_nat_alt)
      qed
      with v'(1,2) True show ?thesis by (subst vote_loop.simps) simp
    qed
  qed
  with assms show ?thesis by simp
qed

lemma align_bounds:
  fixes k :: nat
  assumes "k mod 16384 = 0"
  shows "16384 * ((x + 16383) div 16384) \<le> k \<longleftrightarrow> x \<le> k" "k \<le> 16384 * (y div 16384) \<longleftrightarrow> k \<le> y"
proof -
  obtain q where k: "k = 16384 * q" using assms by (metis mod_0_imp_dvd dvdE)
  have "(x + 16383) div 16384 < q + 1 \<longleftrightarrow> x + 16383 < (q + 1) * 16384" by (rule div_less_iff_less_mult) simp
  then show "16384 * ((x + 16383) div 16384) \<le> k \<longleftrightarrow> x \<le> k" unfolding k by auto
  have "q \<le> y div 16384 \<longleftrightarrow> q * 16384 \<le> y" by (rule less_eq_div_iff_mult_less_eq) simp
  then show "k \<le> 16384 * (y div 16384) \<longleftrightarrow> k \<le> y" unfolding k by auto
qed

lemma vote_range_exact:
  assumes seg: "segment_ok (seg_lo, seg_hi)"
  shows "case vote_range avma (seg_lo, seg_hi) of
      None \<Rightarrow> \<forall>k. \<not> explains k avma (seg_lo, seg_hi)
    | Some (lo, hi) \<Rightarrow> unat lo mod 16384 = 0 \<and> unat hi mod 16384 = 0 \<and> unat hi + 16384 < 2 ^ 64 \<and>
        (\<forall>k. unat k mod 16384 = 0 \<and> unat lo \<le> unat k \<and> unat k \<le> unat hi \<longleftrightarrow> explains k avma (seg_lo, seg_hi))"
proof (cases "avma < seg_lo")
  case True
  then show ?thesis by (auto simp: vote_range_def explains_def word_less_nat_alt)
next
  case False
  define smax where "smax = avma - seg_lo"
  define smin where "smin = (if seg_hi \<le> avma then avma - seg_hi + 1 else 0)"
  have lohi: "16384 \<le> unat seg_lo" "unat seg_lo < unat seg_hi" "unat seg_hi - unat seg_lo \<le> 2 ^ 26"
    using seg by (auto simp: segment_ok_def)
  have le: "unat seg_lo \<le> unat avma" using False by (simp add: word_less_nat_alt)
  have av: "unat avma < 2 ^ 64" using unsigned_less [of avma, where ?'a = nat] by simp
  have smax: "unat smax = unat avma - unat seg_lo" using le by (simp add: smax_def unat_sub word_le_nat_alt)
  have smin: "unat smin = (if unat seg_hi \<le> unat avma then unat avma - unat seg_hi + 1 else 0)"
  proof (cases "seg_hi \<le> avma")
    case True
    then have "unat (avma - seg_hi) = unat avma - unat seg_hi" by (simp add: unat_sub)
    then show ?thesis using True av lohi by (simp add: smin_def unat_word_ariths word_le_nat_alt)
  next
    case False
    then show ?thesis by (simp add: smin_def word_le_nat_alt)
  qed
  have "unat smin + 16383 < 2 ^ 64" using smin av lohi by (auto split: if_splits)
  then have lo: "unat (align_up smin) = 16384 * ((unat smin + 16383) div 16384)" by (rule unat_align_up)
  have hi: "unat (align_down smax) = 16384 * (unat smax div 16384)" by (rule unat_align_down)
  have hi_le: "unat (align_down smax) \<le> unat smax" using hi by simp
  have "unat (sat_sub (align_down smax) (align_up smin)) \<le> unat smax - unat smin"
    unfolding unat_sat_sub using hi_le align_bounds(1) [of "unat (align_up smin)" "unat smin"] lo by simp
  also have "\<dots> \<le> 2 ^ 26" using smax smin lohi by (auto split: if_splits)
  finally have "unat (sat_sub (align_down smax) (align_up smin) div SLIDE_ALIGNMENT) \<le> 4096"
    by (simp add: unat_div_distrib SLIDE_ALIGNMENT_def)
  then have "\<not> MAX_PER_OBS < sat_sub (align_down smax) (align_up smin) div SLIDE_ALIGNMENT"
    by (simp add: MAX_PER_OBS_def word_less_nat_alt)
  then have range: "vote_range avma (seg_lo, seg_hi) = Some (align_up smin, align_down smax)"
    using False by (simp add: vote_range_def Let_def smax_def smin_def)
  have "unat k mod 16384 = 0 \<and> unat (align_up smin) \<le> unat k \<and> unat k \<le> unat (align_down smax) \<longleftrightarrow>
      explains k avma (seg_lo, seg_hi)" for k
  proof (cases "unat k mod 16384 = 0")
    case True
    show ?thesis
      unfolding explains_def lo hi fst_conv snd_conv align_bounds [OF True] smax smin
      using True le lohi by auto
  qed (simp add: explains_def)
  moreover have "unat (align_down smax) + 16384 < 2 ^ 64" using hi_le smax lohi av le by linarith
  ultimately show ?thesis using range lo hi by simp
qed

lemma observe_segments_exact:
  assumes "\<forall>seg \<in> set segs. segment_ok seg" "\<forall>k. votes_for votes k + length segs < 2 ^ 32" "hm_keys_distinct votes"
  shows "\<exists>votes'. observe_segments avma segs votes = Some votes' \<and> hm_keys_distinct votes' \<and>
    (\<forall>k. votes_for votes' k = votes_for votes k + length (filter (explains k avma) segs))"
  using assms
proof (induction segs arbitrary: votes)
  case (Cons seg segs)
  obtain seg_lo seg_hi where seg: "seg = (seg_lo, seg_hi)" by (cases seg)
  have ok: "segment_ok (seg_lo, seg_hi)" using Cons.prems(1) seg by simp
  show ?case
  proof (cases "vote_range avma seg")
    case None
    then have "\<forall>k. \<not> explains k avma seg" using vote_range_exact [OF ok, of avma] seg by simp
    moreover have "\<forall>k. votes_for votes k + length segs < 2 ^ 32"
    proof
      show "votes_for votes k + length segs < 2 ^ 32" for k using Cons.prems(2) [rule_format, of k] by simp
    qed
    ultimately show ?thesis using Cons.IH [of votes] Cons.prems(1,3) None by simp
  next
    case (Some r)
    obtain lo hi where r: "r = (lo, hi)" by (cases r)
    have lohi: "unat lo mod 16384 = 0" "unat hi mod 16384 = 0" "unat hi + 16384 < 2 ^ 64"
      and ex: "\<And>k. unat k mod 16384 = 0 \<and> unat lo \<le> unat k \<and> unat k \<le> unat hi \<longleftrightarrow> explains k avma seg"
      using vote_range_exact [OF ok, of avma] seg Some r by auto
    have "\<forall>k. votes_for votes k + 1 < 2 ^ 32"
    proof
      show "votes_for votes k + 1 < 2 ^ 32" for k using Cons.prems(2) [rule_format, of k] by simp
    qed
    from vote_loop_exact [OF lohi this Cons.prems(3)] obtain v1 where
      v1: "vote_loop lo hi votes = Some v1" "hm_keys_distinct v1"
      "\<forall>k. votes_for v1 k = votes_for votes k + (if explains k avma seg then 1 else 0)"
      unfolding ex by blast
    have "\<forall>k. votes_for v1 k + length segs < 2 ^ 32"
    proof
      show "votes_for v1 k + length segs < 2 ^ 32" for k using v1(3) Cons.prems(2) [rule_format, of k] by simp
    qed
    with Cons.IH [of v1] Cons.prems(1) v1 Some r show ?thesis by auto
  qed
qed simp

lemma observe_all_exact:
  assumes "\<forall>seg \<in> set (sle_exec_segments est). segment_ok seg" "hm_keys_distinct (sle_votes est)"
    "\<forall>k. votes_for (sle_votes est) k + length avmas * length (sle_exec_segments est) < 2 ^ 32"
    "unat (sle_observed est) + length avmas < 2 ^ 32"
  shows "\<exists>est'. observe_all avmas est = Some est' \<and> hm_keys_distinct (sle_votes est') \<and>
    unat (sle_observed est') = unat (sle_observed est) + length avmas \<and>
    (\<forall>k. votes_for (sle_votes est') k = votes_for (sle_votes est) k +
      (\<Sum>a\<leftarrow>avmas. length (filter (explains k a) (sle_exec_segments est))))"
  using assms
proof (induction avmas arbitrary: est)
  case (Cons a avmas)
  have "\<forall>k. votes_for (sle_votes est) k + length (sle_exec_segments est) < 2 ^ 32"
  proof
    fix k
    have "votes_for (sle_votes est) k + (length (sle_exec_segments est) + length avmas * length (sle_exec_segments est)) < 2 ^ 32"
      using Cons.prems(3) by simp
    then show "votes_for (sle_votes est) k + length (sle_exec_segments est) < 2 ^ 32" by linarith
  qed
  from observe_segments_exact [OF Cons.prems(1) this Cons.prems(2), of a] obtain v where
    v: "observe_segments a (sle_exec_segments est) (sle_votes est) = Some v" "hm_keys_distinct v"
    "\<forall>k. votes_for v k = votes_for (sle_votes est) k + length (filter (explains k a) (sle_exec_segments est))" by blast
  let ?e = "est\<lparr>sle_votes := v, sle_observed := sle_observed est + 1\<rparr>"
  have o: "observe a est = Some ?e" using v by (simp add: observe_def)
  have ob: "unat (sle_observed est + 1) = unat (sle_observed est) + 1"
    using Cons.prems(4) by (simp add: unat_word_ariths)
  have "\<forall>k. votes_for v k + length avmas * length (sle_exec_segments est) < 2 ^ 32"
  proof
    fix k
    have "votes_for (sle_votes est) k + (length (sle_exec_segments est) + length avmas * length (sle_exec_segments est)) < 2 ^ 32"
      using Cons.prems(3) by simp
    moreover have "length (filter (explains k a) (sle_exec_segments est)) \<le> length (sle_exec_segments est)" by simp
    ultimately show "votes_for v k + length avmas * length (sle_exec_segments est) < 2 ^ 32"
      using v(3) by (metis (no_types, lifting) add.assoc add_le_mono1 le_less_trans nat_add_left_cancel_le)
  qed
  with Cons.IH [of ?e] Cons.prems ob v o show ?case by auto
qed simp

text \<open>For such segments the estimator returns, whatever was counted before.\<close>

lemma vote_loop_returns:
  assumes "unat hi + 16384 < 2 ^ 64"
  shows "\<exists>votes'. vote_loop s hi votes = Some votes'"
proof (induction "unat hi + 16384 - unat s" arbitrary: s votes rule: less_induct)
  case less
  show ?case
  proof (cases "s \<le> hi")
    case False
    then show ?thesis by (subst vote_loop.simps) simp
  next
    case True
    have "unat (s + SLIDE_ALIGNMENT) = unat s + 16384"
      using True assms by (simp add: SLIDE_ALIGNMENT_def unat_word_ariths word_le_nat_alt)
    then have "unat hi + 16384 - unat (s + SLIDE_ALIGNMENT) < unat hi + 16384 - unat s"
      using True by (simp add: word_le_nat_alt)
    from less [OF this] True show ?thesis by (subst vote_loop.simps) simp
  qed
qed

lemma observe_segments_returns:
  "\<forall>seg \<in> set segs. segment_ok seg \<Longrightarrow> \<exists>votes'. observe_segments avma segs votes = Some votes'"
proof (induction segs arbitrary: votes)
  case (Cons seg segs)
  obtain seg_lo seg_hi where seg: "seg = (seg_lo, seg_hi)" by (cases seg)
  have ok: "segment_ok (seg_lo, seg_hi)" using Cons.prems seg by simp
  have IH: "\<exists>votes'. observe_segments avma segs v = Some votes'" for v using Cons by simp
  show ?case
  proof (cases "vote_range avma seg")
    case None
    then show ?thesis using IH by simp
  next
    case (Some r)
    obtain lo hi where r: "r = (lo, hi)" by (cases r)
    have "unat hi + 16384 < 2 ^ 64" using vote_range_exact [OF ok, of avma] seg Some r by simp
    from vote_loop_returns [OF this, of lo votes] IH Some r show ?thesis by auto
  qed
qed simp

lemma observe_all_returns:
  "\<forall>seg \<in> set (sle_exec_segments est). segment_ok seg \<Longrightarrow>
   \<exists>est'. observe_all avmas est = Some est' \<and> sle_exec_segments est' = sle_exec_segments est"
proof (induction avmas arbitrary: est)
  case (Cons a avmas)
  from observe_segments_returns [OF Cons.prems, of a "sle_votes est"] obtain v where
    "observe_segments a (sle_exec_segments est) (sle_votes est) = Some v" by blast
  then have "observe a est = Some (est\<lparr>sle_votes := v, sle_observed := sle_observed est + 1\<rparr>)"
    by (simp add: observe_def)
  with Cons.IH [of "est\<lparr>sle_votes := v, sle_observed := sle_observed est + 1\<rparr>"] Cons.prems show ?case by simp
qed simp

lemma max_vote_max:
  "votes \<noteq> [] \<Longrightarrow> \<exists>kv \<in> set votes. max_vote votes = Some kv \<and> (\<forall>x \<in> set votes. snd x \<le> snd kv)"
proof (induction votes rule: rev_induct)
  case (snoc x xs)
  show ?case
  proof (cases "xs = []")
    case True
    then show ?thesis by (simp add: max_vote_def)
  next
    case False
    with snoc.IH obtain kv where "kv \<in> set xs" "max_vote xs = Some kv" "\<forall>y \<in> set xs. snd y \<le> snd kv" by blast
    then show ?thesis by (auto simp: max_vote_def intro: order_trans less_imp_le split: if_splits)
  qed
qed simp

lemma sum_list_le_one:
  assumes "\<And>x. x \<in> set xs \<Longrightarrow> f x \<le> (1 :: nat)"
  shows "sum_list (map f xs) \<le> length xs" "sum_list (map f xs) = length xs \<longleftrightarrow> (\<forall>x \<in> set xs. f x = 1)"
proof -
  have "sum_list (map f xs) \<le> length xs \<and> (sum_list (map f xs) = length xs \<longleftrightarrow> (\<forall>x \<in> set xs. f x = 1))"
    using assms
  proof (induction xs)
    case (Cons x xs)
    then have "sum_list (map f xs) \<le> length xs" "f x \<le> 1"
      "sum_list (map f xs) = length xs \<longleftrightarrow> (\<forall>x \<in> set xs. f x = 1)" by auto
    moreover from this have "f x + sum_list (map f xs) = Suc (length xs) \<longleftrightarrow> f x = 1 \<and> sum_list (map f xs) = length xs"
      by linarith
    ultimately show ?case by simp
  qed simp
  then show "sum_list (map f xs) \<le> length xs" "sum_list (map f xs) = length xs \<longleftrightarrow> (\<forall>x \<in> set xs. f x = 1)" by auto
qed

definition disjoint_segments :: "(u64 \<times> u64) list \<Rightarrow> bool" where
  "disjoint_segments segs \<longleftrightarrow>
     (\<forall>x. length (filter (\<lambda>seg. unat (fst seg) \<le> x \<and> x < unat (snd seg)) segs) \<le> 1)"

lemma explained_once:
  assumes "disjoint_segments segs"
  shows "length (filter (explains k a) segs) \<le> 1"
    "length (filter (explains k a) segs) = 1 \<longleftrightarrow> (\<exists>seg \<in> set segs. explains k a seg)"
proof -
  have sub: "length (filter (explains k a) segs) \<le>
      length (filter (\<lambda>seg. unat (fst seg) \<le> unat a - unat k \<and> unat a - unat k < unat (snd seg)) segs)"
    by (induction segs) (auto simp: explains_def)
  also have "\<dots> \<le> 1" using assms by (simp add: disjoint_segments_def)
  finally show le: "length (filter (explains k a) segs) \<le> 1" .
  have "length (filter (explains k a) segs) = 0 \<longleftrightarrow> \<not> (\<exists>seg \<in> set segs. explains k a seg)"
    by (simp add: filter_empty_conv)
  with le show "length (filter (explains k a) segs) = 1 \<longleftrightarrow> (\<exists>seg \<in> set segs. explains k a seg)" by linarith
qed

text \<open>
  C29: The estimated slide explains the samples. If some aligned slide puts every kernel address that
  was observed into an executable segment of the image, then the estimator returns with a slide that
  does so too, and reports full support.\<close>

theorem slide_explains_samples:
  assumes "\<forall>seg \<in> set segs. segment_ok seg" "disjoint_segments segs" "avmas \<noteq> []"
    "length avmas * length segs < 2 ^ 32" "length avmas < 2 ^ 32"
    "\<forall>a \<in> set avmas. \<exists>seg \<in> set segs. explains actual a seg"
  shows "\<exists>est slide votes total. observe_all avmas (new_estimator segs) = Some est \<and>
    finalize est = Some (slide, votes, total) \<and> unat votes = length avmas \<and> unat total = length avmas \<and>
    (\<forall>a \<in> set avmas. \<exists>seg \<in> set segs. explains slide a seg)"
proof -
  obtain est where est: "observe_all avmas (new_estimator segs) = Some est" "hm_keys_distinct (sle_votes est)"
    "unat (sle_observed est) = length avmas"
    "\<And>k. votes_for (sle_votes est) k = (\<Sum>a\<leftarrow>avmas. length (filter (explains k a) segs))"
    using observe_all_exact [of "new_estimator segs" avmas] assms(1,4,5)
    by (auto simp: new_estimator_def votes_for_def hm_simps)
  note le = sum_list_le_one [of avmas "\<lambda>a. length (filter (explains k a) segs)" for k, OF explained_once(1) [OF assms(2)]]
  have all: "votes_for (sle_votes est) k = length avmas \<longleftrightarrow> (\<forall>a \<in> set avmas. \<exists>seg \<in> set segs. explains k a seg)" for k
    unfolding est(4) le(2) explained_once(2) [OF assms(2)] ..
  have act: "votes_for (sle_votes est) actual = length avmas" using all assms(6) by blast
  then have "map_of (sle_votes est) actual \<noteq> None" using assms(3) by (auto simp: votes_for_def split: option.splits)
  then obtain v where v: "map_of (sle_votes est) actual = Some v" by blast
  then have vin: "(actual, v) \<in> set (sle_votes est)" by (rule map_of_SomeD)
  then have "sle_votes est \<noteq> []" by auto
  from max_vote_max [OF this] obtain slide w where
    m: "(slide, w) \<in> set (sle_votes est)" "max_vote (sle_votes est) = Some (slide, w)" "v \<le> w"
    using vin by fastforce
  have w: "votes_for (sle_votes est) slide = unat w"
    using m(1) est(2) by (simp add: votes_for_def hm_keys_distinct_def)
  have "length avmas \<le> unat w" using act v m(3) by (simp add: votes_for_def word_le_nat_alt)
  moreover have "unat w \<le> length avmas" using le(1) [of slide] w est(4) by simp
  ultimately have full: "unat w = length avmas" by simp
  have "finalize est = Some (slide, w, sle_observed est)"
  proof -
    have "1 \<le> sle_observed est" using est(3) assms(3) by (simp add: word_le_nat_alt Suc_le_eq)
    then show ?thesis using m(2) by (simp add: finalize_def max_absorb1)
  qed
  with est(1,3) full all [of slide] w show ?thesis by auto
qed

definition demo_segments :: "(u64 \<times> u64) list" where
  "demo_segments = [(0xfffffe0007004000, 0xfffffe0007800000)]"

text \<open>Two samples that only the slide \<open>0x10000\<close> explains.\<close>

theorem slide_explains_samples_witness:
  "\<exists>est slide votes total. observe_all [0xfffffe0007014000, 0xfffffe000780ffff] (new_estimator demo_segments) = Some est \<and>
    finalize est = Some (slide, votes, total) \<and> unat votes = 2 \<and> unat total = 2"
proof -
  let ?as = "[0xfffffe0007014000, 0xfffffe000780ffff] :: u64 list"
  have "\<forall>seg \<in> set demo_segments. segment_ok seg" by (simp add: demo_segments_def segment_ok_def)
  moreover have "disjoint_segments demo_segments" by (simp add: demo_segments_def disjoint_segments_def)
  moreover have "\<forall>a \<in> set ?as. \<exists>seg \<in> set demo_segments. explains 0x10000 a seg"
    by (simp add: demo_segments_def explains_def)
  moreover have "length ?as * length demo_segments < 2 ^ 32" "length ?as < 2 ^ 32" "?as \<noteq> []"
    by (simp_all add: demo_segments_def)
  ultimately show ?thesis using slide_explains_samples [of demo_segments ?as "0x10000"] by auto
qed

end
