(* ===== verification/Jitdump.thy ===== *)
theory Jitdump
  imports Text "HOL-Library.Sublist"
begin

text \<open>
  The incremental reader of a jitdump file (\<open>stax-mac-kperf-parse/src/jitdump_tail.rs\<close>). The file
  grows between the calls; every call reads what was appended, returns the code-load records that
  are complete, and stops before the first that is not. A slice with its ends the wrong way round
  panics, which is the value \<open>None\<close> of a parse.
\<close>

section \<open>Records\<close>

definition le_bytes :: "string \<Rightarrow> nat" where
  "le_bytes bs = foldr (\<lambda>c n. byte c + 256 * n) bs 0"

definition u32_at :: "nat \<Rightarrow> string \<Rightarrow> u32" where
  "u32_at i buf = of_nat (le_bytes (take 4 (drop i buf)))"

definition u64_at :: "nat \<Rightarrow> string \<Rightarrow> u64" where
  "u64_at i buf = of_nat (le_bytes (take 8 (drop i buf)))"

definition JITDUMP_MAGIC_LE :: u32 where "JITDUMP_MAGIC_LE = 0x4474694A"
definition JITDUMP_MAGIC_BE :: u32 where "JITDUMP_MAGIC_BE = 0x4A695444"
definition JIT_CODE_LOAD :: u32 where "JIT_CODE_LOAD = 0"

text \<open>The magic number of the format, as a big-endian writer stores it, reads as neither constant.\<close>

lemma big_endian_magic:
  "u32_at 0 [CHR 0x4A, CHR 0x69, CHR 0x54, CHR 0x44] = 0x4454694A"
  "u32_at 0 [CHR 0x44, CHR 0x54, CHR 0x69, CHR 0x4A] = JITDUMP_MAGIC_BE"
  by (simp_all add: u32_at_def le_bytes_def JITDUMP_MAGIC_BE_def)

record jit_code_load =
  jc_avma :: u64
  jc_code_size :: u64
  jc_name :: string
  jc_code :: string

text \<open>\<open>None\<close> is a panic, \<open>Some None\<close> a payload without a record.\<close>

definition parse_code_load :: "string \<Rightarrow> jit_code_load option option" where
  "parse_code_load payload =
     (if length payload < 40 then Some None
      else
        let avma = u64_at 8 payload; code_size = u64_at 24 payload; name_bytes = drop 40 payload;
            nul = length (takeWhile (\<lambda>b. b \<noteq> CHR 0x00) name_bytes) in
        if nul = length name_bytes then Some None
        else
          let name = from_utf8_lossy (take nul name_bytes);
              code_start = 40 + nul + 1;
              code_end = (code_start + unat code_size) mod 2 ^ 64 in
          if code_end \<le> length payload then
            (if code_end < code_start then None
             else Some (Some \<lparr>jc_avma = avma, jc_code_size = code_size, jc_name = name,
               jc_code = take (code_end - code_start) (drop code_start payload)\<rparr>))
          else Some (Some \<lparr>jc_avma = avma, jc_code_size = code_size, jc_name = name, jc_code = []\<rparr>))"

text \<open>The loop over the records of a buffer, from the position \<open>cursor\<close> on.\<close>

function record_loop :: "string \<Rightarrow> nat \<Rightarrow> jit_code_load list \<Rightarrow> (jit_code_load list \<times> nat) option" where
  "record_loop buf cursor out =
     (if cursor + 16 \<le> length buf then
        let id' = u32_at cursor buf; total_size = unat (u32_at (cursor + 4) buf) in
        if total_size < 16 \<or> length buf < cursor + total_size then Some (out, cursor)
        else if id' = JIT_CODE_LOAD then
          (case parse_code_load (take (total_size - 16) (drop (cursor + 16) buf)) of
             None \<Rightarrow> None
           | Some None \<Rightarrow> record_loop buf (cursor + total_size) out
           | Some (Some rec) \<Rightarrow> record_loop buf (cursor + total_size) (out @ [rec]))
        else record_loop buf (cursor + total_size) out
      else Some (out, cursor))"
  by pat_completeness auto
termination by (relation "measure (\<lambda>(buf, cursor, out). length buf - cursor)") auto

declare record_loop.simps [simp del]

record jitdump_tailer =
  jt_offset :: nat
  jt_header_parsed :: bool

definition open_tailer :: jitdump_tailer where
  "open_tailer = \<lparr>jt_offset = 0, jt_header_parsed = False\<rparr>"

text \<open>\<open>content\<close> is the file at the time of the call.\<close>

definition tailer_tick :: "string \<Rightarrow> jitdump_tailer \<Rightarrow> (jit_code_load list \<times> jitdump_tailer) option" where
  "tailer_tick content t =
     (if length content \<le> jt_offset t then Some ([], t)
      else
        let buf = drop (jt_offset t) content in
        if \<not> jt_header_parsed t \<and> length buf < 40 then Some ([], t)
        else if \<not> jt_header_parsed t \<and> u32_at 0 buf \<noteq> JITDUMP_MAGIC_LE \<and> u32_at 0 buf \<noteq> JITDUMP_MAGIC_BE
        then Some ([], t\<lparr>jt_offset := length content\<rparr>)
        else
          let cursor = (if jt_header_parsed t then 0 else 40) in
          (case record_loop buf cursor [] of
             None \<Rightarrow> None
           | Some (out, cursor') \<Rightarrow>
               Some (out, \<lparr>jt_offset = jt_offset t + cursor', jt_header_parsed = True\<rparr>)))"

primrec tailer_ticks :: "string list \<Rightarrow> jitdump_tailer \<Rightarrow> (jit_code_load list \<times> jitdump_tailer) option" where
  "tailer_ticks [] t = Some ([], t)"
| "tailer_ticks (content # contents) t =
     (case tailer_tick content t of
        None \<Rightarrow> None
      | Some (out, t') \<Rightarrow>
          (case tailer_ticks contents t' of
             None \<Rightarrow> None
           | Some (outs, t'') \<Rightarrow> Some (out @ outs, t'')))"

section \<open>Reading as the file grows is reading it at the end\<close>

text \<open>What the loop finds at the head of the unread part: nothing to take, or a record and its length.\<close>

definition record_head :: "string \<Rightarrow> (jit_code_load list option \<times> nat) option" where
  "record_head rest =
     (let n = unat (u32_at 4 rest) in
      if length rest < 16 \<or> n < 16 \<or> length rest < n then None
      else if u32_at 0 rest = JIT_CODE_LOAD then
        (case parse_code_load (take (n - 16) (drop 16 rest)) of
           None \<Rightarrow> Some (None, n) | Some None \<Rightarrow> Some (Some [], n) | Some (Some rec) \<Rightarrow> Some (Some [rec], n))
      else Some (Some [], n))"

lemma record_head_length: "record_head rest = Some (r, n) \<Longrightarrow> 16 \<le> n \<and> n \<le> length rest"
  by (auto simp: record_head_def Let_def split: if_splits option.splits)

lemma u32_at_drop: "u32_at i (drop j buf) = u32_at (j + i) buf"
  by (simp add: u32_at_def add.commute)

lemma record_loop_head:
  assumes "cursor \<le> length buf"
  shows "record_loop buf cursor out =
    (case record_head (drop cursor buf) of
       None \<Rightarrow> Some (out, cursor)
     | Some (None, _) \<Rightarrow> None
     | Some (Some recs, n) \<Rightarrow> record_loop buf (cursor + n) (out @ recs))"
  using assms
  by (subst record_loop.simps)
    (auto simp: record_head_def Let_def u32_at_drop add.commute less_diff_conv2 split: option.splits)

lemma record_loop_drop:
  "cursor \<le> length buf \<Longrightarrow> record_loop buf cursor out =
     (case record_loop (drop cursor buf) 0 [] of
        None \<Rightarrow> None | Some (recs, c) \<Rightarrow> Some (out @ recs, cursor + c))"
proof (induction "length buf - cursor" arbitrary: buf cursor out rule: less_induct)
  case less
  show ?case
  proof (cases "record_head (drop cursor buf)")
    case None
    then show ?thesis using less.prems record_loop_head [of cursor buf out] record_loop_head [of 0 "drop cursor buf" "[]"]
      by simp
  next
    case (Some h)
    obtain r n where h: "h = (r, n)" by (cases h)
    have n: "16 \<le> n" "cursor + n \<le> length buf"
      using record_head_length [of "drop cursor buf" r n] Some h less.prems by auto
    show ?thesis
    proof (cases r)
      case None
      then show ?thesis
        using Some h less.prems record_loop_head [of cursor buf out] record_loop_head [of 0 "drop cursor buf" "[]"]
        by simp
    next
      case (Some recs)
      have "record_loop buf cursor out = record_loop buf (cursor + n) (out @ recs)"
        using \<open>record_head (drop cursor buf) = Some h\<close> h Some less.prems record_loop_head [of cursor buf out] by simp
      moreover have "record_loop (drop cursor buf) 0 [] = record_loop (drop cursor buf) n recs"
        using \<open>record_head (drop cursor buf) = Some h\<close> h Some record_loop_head [of 0 "drop cursor buf" "[]"] by simp
      moreover have "record_loop buf (cursor + n) (out @ recs) =
          (case record_loop (drop (cursor + n) buf) 0 [] of
             None \<Rightarrow> None | Some (rs, c) \<Rightarrow> Some ((out @ recs) @ rs, cursor + n + c))"
        by (rule less.hyps) (use n in auto)
      moreover have "record_loop (drop cursor buf) n recs =
          (case record_loop (drop n (drop cursor buf)) 0 [] of
             None \<Rightarrow> None | Some (rs, c) \<Rightarrow> Some (recs @ rs, n + c))"
        by (rule less.hyps) (use n in auto)
      ultimately show ?thesis by (simp add: add.commute add.assoc split: option.splits)
    qed
  qed
qed

abbreviation parse_records :: "string \<Rightarrow> (jit_code_load list \<times> nat) option" where
  "parse_records rest \<equiv> record_loop rest 0 []"

lemma parse_records_rec:
  "parse_records rest =
     (case record_head rest of
        None \<Rightarrow> Some ([], 0)
      | Some (None, _) \<Rightarrow> None
      | Some (Some recs, n) \<Rightarrow>
          (case parse_records (drop n rest) of None \<Rightarrow> None | Some (rs, c) \<Rightarrow> Some (recs @ rs, n + c)))"
  using record_loop_head [of 0 rest "[]"] record_loop_drop [of _ rest] record_head_length [of rest]
  by (auto split: option.splits prod.splits)

lemma parse_records_Nil: "parse_records [] = Some ([], 0)"
  by (subst record_loop.simps) simp

lemma record_head_append:
  assumes "record_head xs = Some h"
  shows "record_head (xs @ ys) = Some h"
proof -
  obtain r n where h: "h = (r, n)" by (cases h)
  have len: "16 \<le> n" "n \<le> length xs" using record_head_length assms h by auto
  have "u32_at 4 (xs @ ys) = u32_at 4 xs" "u32_at 0 (xs @ ys) = u32_at 0 xs"
    using len by (simp_all add: u32_at_def)
  moreover have "unat (u32_at 4 xs) = n" using assms h by (auto simp: record_head_def Let_def split: if_splits option.splits)
  ultimately show ?thesis using assms len by (simp add: record_head_def Let_def split: if_splits)
qed

lemma parse_records_append:
  "(parse_records (xs @ ys) \<noteq> None \<longrightarrow> parse_records xs \<noteq> None) \<and>
   (\<forall>recs c. parse_records xs = Some (recs, c) \<longrightarrow> c \<le> length xs \<and> parse_records (xs @ ys) =
     (case parse_records (drop c (xs @ ys)) of None \<Rightarrow> None | Some (rs, d) \<Rightarrow> Some (recs @ rs, c + d)))"
proof (induction "length xs" arbitrary: xs rule: less_induct)
  case less
  show ?case
  proof (cases "record_head xs")
    case None
    then have "parse_records xs = Some ([], 0)" by (subst parse_records_rec) simp
    then show ?thesis by (auto split: option.split)
  next
    case (Some h)
    obtain r n where h: "h = (r, n)" by (cases h)
    have n: "16 \<le> n" "n \<le> length xs" using record_head_length Some h by auto
    have app: "record_head (xs @ ys) = Some h" by (rule record_head_append [OF Some])
    show ?thesis
    proof (cases r)
      case None
      then have "parse_records xs = None" "parse_records (xs @ ys) = None"
        by (subst parse_records_rec, simp add: Some app h)+
      then show ?thesis by simp
    next
      case recs: (Some recs)
      have p: "parse_records zs = (case parse_records (drop n zs) of None \<Rightarrow> None | Some (rs, c) \<Rightarrow> Some (recs @ rs, n + c))"
        if "record_head zs = Some h" for zs
        by (subst parse_records_rec) (simp add: that h recs)
      have ih: "(parse_records (drop n xs @ ys) \<noteq> None \<longrightarrow> parse_records (drop n xs) \<noteq> None) \<and>
        (\<forall>recs c. parse_records (drop n xs) = Some (recs, c) \<longrightarrow> c \<le> length (drop n xs) \<and> parse_records (drop n xs @ ys) =
          (case parse_records (drop c (drop n xs @ ys)) of None \<Rightarrow> None | Some (rs, d) \<Rightarrow> Some (recs @ rs, c + d)))"
        by (rule less) (use n in simp)
      have d: "drop n (xs @ ys) = drop n xs @ ys" using n by simp
      have dc: "drop (n + c) (xs @ ys) = drop c (drop n xs @ ys)" for c
        unfolding d [symmetric] by (simp only: drop_drop add.commute)
      note whole = p [OF app, unfolded d] and part = p [OF Some]
      show ?thesis
      proof (cases "parse_records (drop n xs)")
        case None
        then have "parse_records (drop n xs @ ys) = None" using ih by (cases "parse_records (drop n xs @ ys)") auto
        then have "parse_records (xs @ ys) = None" by (simp only: whole option.case)
        moreover have "parse_records xs = None" using None by (simp only: part option.case)
        ultimately show ?thesis by simp
      next
        case (Some rc)
        obtain rs c where rc: "rc = (rs, c)" by (cases rc)
        have c: "c \<le> length (drop n xs)" and z: "parse_records (drop n xs @ ys) =
            (case parse_records (drop c (drop n xs @ ys)) of None \<Rightarrow> None | Some (rs', d) \<Rightarrow> Some (rs @ rs', c + d))"
          using ih Some rc by auto
        have "parse_records xs = Some (recs @ rs, n + c)" using Some rc by (simp only: part) simp
        moreover have "parse_records (xs @ ys) =
            (case parse_records (drop (n + c) (xs @ ys)) of
               None \<Rightarrow> None | Some (rs', d) \<Rightarrow> Some ((recs @ rs) @ rs', n + c + d))"
          unfolding whole z dc by (simp split: option.split)
        moreover have "n + c \<le> length xs" using c n by simp
        ultimately show ?thesis by simp
      qed
    qed
  qed
qed

definition magic_ok :: "string \<Rightarrow> bool" where
  "magic_ok content \<longleftrightarrow> u32_at 0 content = JITDUMP_MAGIC_LE \<or> u32_at 0 content = JITDUMP_MAGIC_BE"

lemma magic_ok_append: "4 \<le> length xs \<Longrightarrow> magic_ok (xs @ ys) = magic_ok xs"
  by (simp add: magic_ok_def u32_at_def)

lemma tick_fresh:
  assumes "magic_ok content" "40 \<le> length content"
  shows "tailer_tick content open_tailer =
    (case parse_records (drop 40 content) of
       None \<Rightarrow> None | Some (recs, c) \<Rightarrow> Some (recs, \<lparr>jt_offset = 40 + c, jt_header_parsed = True\<rparr>))"
proof -
  have "0 < length content" using assms(2) by linarith
  then show ?thesis using assms record_loop_drop [of 40 content "[]"]
    by (auto simp: tailer_tick_def open_tailer_def magic_ok_def Let_def split: option.splits)
qed

lemma tick_short: "length content < 40 \<Longrightarrow> tailer_tick content open_tailer = Some ([], open_tailer)"
  by (simp add: tailer_tick_def open_tailer_def)

lemma tick_resumes:
  assumes "40 \<le> length (xs @ ys) \<longrightarrow> magic_ok (xs @ ys)" "tailer_tick (xs @ ys) open_tailer \<noteq> None"
  shows "\<exists>out t out2 t2. tailer_tick xs open_tailer = Some (out, t) \<and> tailer_tick (xs @ ys) t = Some (out2, t2) \<and>
    tailer_tick (xs @ ys) open_tailer = Some (out @ out2, t2)"
proof (cases "length xs < 40")
  case True
  with assms(2) show ?thesis by (auto simp: tick_short)
next
  case False
  let ?r = "drop 40 xs"
  have m: "magic_ok (xs @ ys)" "magic_ok xs" using assms(1) False magic_ok_append [of xs ys] by auto
  have d: "drop 40 (xs @ ys) = ?r @ ys" using False by simp
  have len: "40 \<le> length xs" "40 \<le> length (xs @ ys)" using False by auto
  note fresh = tick_fresh [OF m(1) len(2), unfolded d] tick_fresh [OF m(2) len(1)]
  have "parse_records (?r @ ys) \<noteq> None" using assms(2) fresh(1) by (auto split: option.splits)
  then obtain recs c where rc: "parse_records ?r = Some (recs, c)" using parse_records_append [of ?r ys] by auto
  then have c: "c \<le> length ?r" and app: "parse_records (?r @ ys) =
      (case parse_records (drop c (?r @ ys)) of None \<Rightarrow> None | Some (rs, d) \<Rightarrow> Some (recs @ rs, c + d))"
    using parse_records_append [of ?r ys] by auto
  with \<open>parse_records (?r @ ys) \<noteq> None\<close> obtain rs d where
    rs: "parse_records (drop c (?r @ ys)) = Some (rs, d)" by (auto split: option.splits)
  let ?t = "\<lparr>jt_offset = 40 + c, jt_header_parsed = True\<rparr>"
  have whole: "tailer_tick (xs @ ys) open_tailer =
      Some (recs @ rs, \<lparr>jt_offset = 40 + c + d, jt_header_parsed = True\<rparr>)"
    using fresh(1) app rs by (simp add: add.assoc)
  have dropped: "drop (40 + c) (xs @ ys) = drop c (?r @ ys)" unfolding d [symmetric] by (simp only: drop_drop add.commute)
  have "tailer_tick (xs @ ys) ?t = Some (rs, \<lparr>jt_offset = 40 + c + d, jt_header_parsed = True\<rparr>)"
  proof (cases "length (xs @ ys) \<le> 40 + c")
    case True
    then have "drop c (?r @ ys) = []" unfolding dropped [symmetric] by simp
    then have "rs = []" "d = 0" using rs by (simp_all add: parse_records_Nil)
    then show ?thesis using True by (simp add: tailer_tick_def)
  next
    case False
    then show ?thesis using rs unfolding dropped [symmetric] by (simp add: tailer_tick_def Let_def add.commute)
  qed
  with whole fresh(2) rc show ?thesis by auto
qed

lemma tailer_ticks_append:
  "tailer_ticks (xs @ [content]) t =
     (case tailer_ticks xs t of None \<Rightarrow> None
      | Some (out, t') \<Rightarrow> (case tailer_tick content t' of None \<Rightarrow> None | Some (out2, t2) \<Rightarrow> Some (out @ out2, t2)))"
  by (induction xs arbitrary: t) (auto split: option.splits prod.splits)

text \<open>
  C30: Tailing loses and repeats nothing. However the file grows between the calls, and wherever a
  record was cut by one of them, all the calls together return exactly the records, in order, that
  one call on the final file returns, and end at the same position.\<close>

theorem tailing_equals_reading:
  assumes "contents \<noteq> []" "sorted_wrt prefix contents"
    "40 \<le> length (last contents) \<longrightarrow> magic_ok (last contents)" "tailer_tick (last contents) open_tailer \<noteq> None"
  shows "tailer_ticks contents open_tailer = tailer_tick (last contents) open_tailer"
  using assms
proof (induction contents rule: rev_induct)
  case (snoc content contents)
  show ?case
  proof (cases "contents = []")
    case True
    then show ?thesis by (simp split: option.splits)
  next
    case False
    then have "prefix (last contents) content" using snoc.prems(2) by (simp add: sorted_wrt_append)
    then obtain ys where ys: "content = last contents @ ys" by (auto simp: prefix_def)
    have m: "40 \<le> length (last contents @ ys) \<longrightarrow> magic_ok (last contents @ ys)"
      and ok: "tailer_tick (last contents @ ys) open_tailer \<noteq> None"
      using snoc.prems(3,4) ys by simp_all
    from tick_resumes [OF m ok] obtain out t out2 t2 where
      t: "tailer_tick (last contents) open_tailer = Some (out, t)" "tailer_tick content t = Some (out2, t2)"
      "tailer_tick content open_tailer = Some (out @ out2, t2)" unfolding ys by blast
    have "40 \<le> length (last contents) \<longrightarrow> magic_ok (last contents)"
      using m magic_ok_append [of "last contents" ys] by auto
    then have "tailer_ticks contents open_tailer = Some (out, t)"
      using snoc.IH [OF False] snoc.prems(2) t(1) by (simp add: sorted_wrt_append)
    then show ?thesis using t by (simp add: tailer_ticks_append)
  qed
qed simp

text \<open>A header and one record, cut in two by the first call.\<close>

definition demo_payload :: string where
  "demo_payload = replicate 40 (CHR 0x00) @ [CHR ''f'', CHR 0x00]"

definition demo_dump :: string where
  "demo_dump = [CHR 0x44, CHR 0x54, CHR 0x69, CHR 0x4A] @ replicate 36 (CHR 0x00) @
     replicate 4 (CHR 0x00) @ [CHR 0x3A, CHR 0x00, CHR 0x00, CHR 0x00] @ replicate 8 (CHR 0x00) @ demo_payload"

lemma demo_payload_length: "length demo_payload = 42"
  by (simp add: demo_payload_def)

theorem tailing_equals_reading_witness:
  "tailer_ticks [take 50 demo_dump, demo_dump] open_tailer =
     Some ([\<lparr>jc_avma = 0, jc_code_size = 0, jc_name = ''f'', jc_code = []\<rparr>], \<lparr>jt_offset = 98, jt_header_parsed = True\<rparr>)"
proof -
  have len: "length demo_dump = 98" by (simp add: demo_dump_def demo_payload_def)
  have magic: "magic_ok demo_dump"
    by (simp add: magic_ok_def demo_dump_def u32_at_def le_bytes_def JITDUMP_MAGIC_BE_def)
  have zeros: "le_bytes (replicate n (CHR 0x00)) = 0" for n by (induction n) (simp_all add: le_bytes_def)
  have words: "u64_at 8 demo_payload = 0" "u64_at 24 demo_payload = 0"
    by (simp_all add: u64_at_def demo_payload_def zeros)
  have "from_utf8_lossy ''f'' = ''f''" by code_simp
  then have payload: "parse_code_load demo_payload = Some (Some \<lparr>jc_avma = 0, jc_code_size = 0, jc_name = ''f'', jc_code = []\<rparr>)"
    unfolding parse_code_load_def Let_def words by (simp add: demo_payload_def)
  have rest: "drop 40 demo_dump = replicate 4 (CHR 0x00) @ [CHR 0x3A, CHR 0x00, CHR 0x00, CHR 0x00] @ replicate 8 (CHR 0x00) @ demo_payload"
    by (simp add: demo_dump_def)
  have "u32_at 4 (drop 40 demo_dump) = 58" "u32_at 0 (drop 40 demo_dump) = 0"
    unfolding rest by (simp_all add: u32_at_def zeros) (simp add: le_bytes_def)
  moreover have "take 42 (drop 16 (drop 40 demo_dump)) = demo_payload"
    unfolding rest by (simp add: demo_payload_def)
  ultimately have "record_head (drop 40 demo_dump) = Some (Some [\<lparr>jc_avma = 0, jc_code_size = 0, jc_name = ''f'', jc_code = []\<rparr>], 58)"
    using len payload by (simp add: record_head_def JIT_CODE_LOAD_def demo_payload_length del: drop_drop)
  then have "parse_records (drop 40 demo_dump) = Some ([\<lparr>jc_avma = 0, jc_code_size = 0, jc_name = ''f'', jc_code = []\<rparr>], 58)"
    by (subst parse_records_rec) (simp add: len parse_records_Nil)
  then have "tailer_tick demo_dump open_tailer =
      Some ([\<lparr>jc_avma = 0, jc_code_size = 0, jc_name = ''f'', jc_code = []\<rparr>], \<lparr>jt_offset = 98, jt_header_parsed = True\<rparr>)"
    using tick_fresh [OF magic] len by simp
  then show ?thesis
    using tailing_equals_reading [of "[take 50 demo_dump, demo_dump]"] magic by (simp add: take_is_prefix)
qed

end
