(* ===== verification/Pipeline.thy ===== *)
theory Pipeline
  imports KperfParser OffCpu ImageScan KernelSlide Jitdump
begin

text \<open>
  The client side of a recording (\<open>stax-mac-kperf-parse/src/pipeline.rs\<close>): batches of records run
  through the parser and the scheduler tracker, the image scanner, the thread names, the kernel's
  slide and the jitdump file are looked at now and then, and everything is reported to a sink. The
  events a call reports are part of its result; the clock, the process and the files are parameters
  of every call. Logging is left out.
\<close>

section \<open>State\<close>

record pipeline_config =
  pc_pid :: u32
  pc_frequency_hz :: u32
  pc_pmc_idx_l1d :: "nat option"
  pc_pmc_idx_brmiss :: "nat option"
  pc_task :: "u32 option"

text \<open>Instants are nanoseconds; \<open>seen_tids\<close> is a set, in the order of its iteration.\<close>

record pipeline =
  pl_config :: pipeline_config
  pl_parser :: parser
  pl_offcpu :: tracker
  pl_images :: image_scanner
  pl_thread_names :: thread_name_cache
  pl_seen_tids :: "u32 list"
  pl_kernel_image :: "kernel_image option"
  pl_slide_est :: "slide_estimator option"
  pl_jitdump_path :: string
  pl_jitdump_tailer :: "jitdump_tailer option"
  pl_jitdump_emitted :: bool
  pl_next_image :: nat
  pl_next_thread :: nat
  pl_next_jitdump :: nat
  pl_histogram :: "(u8 \<times> u16 \<times> u32, u64) hmap"
  pl_total_drained :: u64
  pl_pmu_total_cycles :: u64
  pl_pmu_total_insns :: u64
  pl_pmu_samples :: u64

definition IMAGE_RESCAN_PERIOD :: nat where "IMAGE_RESCAN_PERIOD = 250000000"
definition THREAD_NAME_RESCAN_PERIOD :: nat where "THREAD_NAME_RESCAN_PERIOD = 50000000"
definition JITDUMP_PROBE_PERIOD :: nat where "JITDUMP_PROBE_PERIOD = 500000000"

section \<open>Thread names\<close>

definition report_name ::
  "u32 \<Rightarrow> u32 \<Rightarrow> unit + string option \<Rightarrow> sink_event list \<times> thread_name_cache \<Rightarrow> sink_event list \<times> thread_name_cache" where
  "report_name pid tid name s =
     (case name of
        Inr (Some n) \<Rightarrow>
          (case note_thread tid n (snd s) of
             (True, cache) \<Rightarrow> (fst s @ [OnThreadName \<lparr>nv_pid = pid, nv_tid = tid, nv_name = n\<rparr>], cache)
           | (False, cache) \<Rightarrow> (fst s, cache))
      | _ \<Rightarrow> s)"

text \<open>\<open>thread_ids\<close> is what \<open>list_thread_ids\<close> returns, \<open>name_of\<close> the name field of a thread.\<close>

definition scan_thread_names ::
  "u32 \<Rightarrow> unit + u64 list \<Rightarrow> (u64 \<Rightarrow> string option) \<Rightarrow> thread_name_cache \<Rightarrow> sink_event list \<times> thread_name_cache" where
  "scan_thread_names pid thread_ids name_of cache =
     (case thread_ids of
        Inl _ \<Rightarrow> ([], cache)
      | Inr tids \<Rightarrow> fold (\<lambda>tid64. report_name pid (ucast tid64) (thread_name_inner (name_of tid64))) tids ([], cache))"

definition scan_thread_names_for_observed ::
  "u32 \<Rightarrow> (u64 \<Rightarrow> string option) \<Rightarrow> u32 list \<Rightarrow> thread_name_cache \<Rightarrow> sink_event list \<times> thread_name_cache" where
  "scan_thread_names_for_observed pid name_of seen cache =
     fold (\<lambda>tid. report_name pid tid (thread_name_inner (name_of (ucast tid)))) seen ([], cache)"

section \<open>Start and ticks\<close>

record pipeline_env =
  pe_now :: nat
  pe_image :: image_env
  pe_has_cache :: bool
  pe_kernel :: "kd_error + kernel_image option"
  pe_thread_ids :: "unit + u64 list"
  pe_thread_name :: "u64 \<Rightarrow> string option"
  pe_thread_name_by_id :: "u64 \<Rightarrow> string option"
  pe_jitdump_exists :: bool
  pe_jitdump_opens :: bool
  pe_jitdump_content :: "string option"

definition new_pipeline :: "pipeline_env \<Rightarrow> (u32 \<Rightarrow> string) \<Rightarrow> pipeline_config \<Rightarrow> sink_event list \<times> pipeline" where
  "new_pipeline env show_pid config =
     (let (scanned, images) = rescan (pe_image env) (pc_pid config) (new_scanner (pc_task config));
          kernel_image = (case pe_kernel env of Inr img \<Rightarrow> img | Inl _ \<Rightarrow> None);
          (named, names) = scan_thread_names (pc_pid config) (pe_thread_ids env) (pe_thread_name env) [] in
      ((if pe_has_cache env then [OnMachoByteSource] else []) @ scanned @ named,
       \<lparr>pl_config = config, pl_parser = new_parser, pl_offcpu = new_tracker, pl_images = images,
        pl_thread_names = names, pl_seen_tids = [], pl_kernel_image = kernel_image,
        pl_slide_est = map_option (\<lambda>img. new_estimator (ki_exec_segments img)) kernel_image,
        pl_jitdump_path = ''/tmp/jit-'' @ show_pid (pc_pid config) @ ''.dump'', pl_jitdump_tailer = None,
        pl_jitdump_emitted = False, pl_next_image = pe_now env + IMAGE_RESCAN_PERIOD,
        pl_next_thread = pe_now env + THREAD_NAME_RESCAN_PERIOD,
        pl_next_jitdump = pe_now env + JITDUMP_PROBE_PERIOD, pl_histogram = [], pl_total_drained = 0,
        pl_pmu_total_cycles = 0, pl_pmu_total_insns = 0, pl_pmu_samples = 0\<rparr>))"

definition tick_images :: "pipeline_env \<Rightarrow> pipeline \<Rightarrow> sink_event list \<times> pipeline" where
  "tick_images env p =
     (if pl_next_image p \<le> pe_now env then
        let (events, images) = rescan (pe_image env) (pc_pid (pl_config p)) (pl_images p) in
        (events, p\<lparr>pl_images := images, pl_next_image := pe_now env + IMAGE_RESCAN_PERIOD\<rparr>)
      else ([], p))"

definition tick_threads :: "pipeline_env \<Rightarrow> pipeline \<Rightarrow> sink_event list \<times> pipeline" where
  "tick_threads env p =
     (if pl_next_thread p \<le> pe_now env then
        let (events, names) = scan_thread_names_for_observed (pc_pid (pl_config p)) (pe_thread_name_by_id env)
          (pl_seen_tids p) (pl_thread_names p) in
        (events, p\<lparr>pl_thread_names := names, pl_next_thread := pe_now env + THREAD_NAME_RESCAN_PERIOD\<rparr>)
      else ([], p))"

definition tick_jitdump :: "pipeline_env \<Rightarrow> pipeline \<Rightarrow> sink_event list \<times> pipeline" where
  "tick_jitdump env p =
     (if \<not> pl_jitdump_emitted p \<and> pl_next_jitdump p \<le> pe_now env then
        if pe_jitdump_exists env then
          ([OnJitdump \<lparr>jv_pid = pc_pid (pl_config p), jv_path = pl_jitdump_path p\<rparr>],
           p\<lparr>pl_jitdump_emitted := True,
             pl_jitdump_tailer := (if pe_jitdump_opens env then Some open_tailer else pl_jitdump_tailer p)\<rparr>)
        else ([], p\<lparr>pl_next_jitdump := pe_now env + JITDUMP_PROBE_PERIOD\<rparr>)
      else ([], p))"

definition host_arch_str :: "string option \<Rightarrow> string option" where
  "host_arch_str target_arch =
     (if target_arch = Some ''aarch64'' then Some ''aarch64''
      else if target_arch = Some ''x86_64'' then Some ''x86_64'' else None)"

definition jit_loaded :: "pipeline_env \<Rightarrow> pipeline_config \<Rightarrow> jit_code_load \<Rightarrow> sink_event" where
  "jit_loaded env config rec =
     OnBinaryLoaded \<lparr>bv_pid = pc_pid config, bv_base_avma = jc_avma rec, bv_vmsize = jc_code_size rec,
       bv_text_svma = jc_avma rec, bv_path = ''[jit] '' @ jc_name rec, bv_uuid = None,
       bv_arch = host_arch_str (ie_host_arch (pe_image env)), bv_is_executable = False,
       bv_symbols = [\<lparr>ms_start_svma = jc_avma rec, ms_end_svma = jc_avma rec + jc_code_size rec, ms_name = jc_name rec\<rparr>],
       bv_text_bytes = Some (jc_code rec)\<rparr>"

text \<open>\<open>None\<close> is a panic of the jitdump reader.\<close>

definition tick_tailer :: "pipeline_env \<Rightarrow> pipeline \<Rightarrow> (sink_event list \<times> pipeline) option" where
  "tick_tailer env p =
     (case pl_jitdump_tailer p of
        None \<Rightarrow> Some ([], p)
      | Some t \<Rightarrow>
          (case pe_jitdump_content env of
             None \<Rightarrow> Some ([], p)
           | Some content \<Rightarrow>
               (case tailer_tick content t of
                  None \<Rightarrow> None
                | Some (records, t') \<Rightarrow>
                    Some (map (jit_loaded env (pl_config p)) records, p\<lparr>pl_jitdump_tailer := Some t'\<rparr>))))"

definition tick :: "pipeline_env \<Rightarrow> pipeline \<Rightarrow> (sink_event list \<times> pipeline) option" where
  "tick env p =
     (let (e1, p1) = tick_images env p; (e2, p2) = tick_threads env p1; (e3, p3) = tick_jitdump env p2 in
      case tick_tailer env p3 of None \<Rightarrow> None | Some (e4, p4) \<Rightarrow> Some (e1 @ e2 @ e3 @ e4, p4))"

section \<open>Records\<close>

definition nth_or_zero :: "u64 list \<Rightarrow> nat option \<Rightarrow> u64" where
  "nth_or_zero pmcs i = (case i of Some k \<Rightarrow> if k < length pmcs then pmcs ! k else 0 | None \<Rightarrow> 0)"

definition sample_event_of :: "pipeline_config \<Rightarrow> sample \<Rightarrow> sample_event" where
  "sample_event_of config s =
     \<lparr>sv_timestamp_ns = smp_timestamp_ns s, sv_pid = pc_pid config, sv_tid = smp_tid s,
      sv_backtrace = smp_user_backtrace s, sv_kernel_backtrace = smp_kernel_backtrace s,
      sv_cycles = nth_or_zero (smp_pmc s) (Some 0), sv_instructions = nth_or_zero (smp_pmc s) (Some 1),
      sv_l1d_misses = nth_or_zero (smp_pmc s) (pc_pmc_idx_l1d config),
      sv_branch_mispreds = nth_or_zero (smp_pmc s) (pc_pmc_idx_brmiss config)\<rparr>"

definition observe_kernel_frames :: "u64 list \<Rightarrow> slide_estimator option \<Rightarrow> slide_estimator option option" where
  "observe_kernel_frames frames est =
     (case est of None \<Rightarrow> Some None | Some e \<Rightarrow> map_option Some (observe_all frames e))"

text \<open>The callback of the parser; \<open>None\<close> when the slide estimator does not return.\<close>

definition take_sample :: "sample \<Rightarrow> pipeline \<Rightarrow> (sink_event list \<times> pipeline) option" where
  "take_sample s p =
     (case observe_kernel_frames (smp_kernel_backtrace s) (pl_slide_est p) of
        None \<Rightarrow> None
      | Some est \<Rightarrow>
          (let pm = smp_pmc s;
               p1 = p\<lparr>pl_seen_tids := List.insert (smp_tid s) (pl_seen_tids p), pl_slide_est := est,
                 pl_offcpu := note_sample (smp_tid s) (smp_user_backtrace s) (smp_kernel_backtrace s) (pl_offcpu p)\<rparr>;
               p2 = (if pm = [] then p1
                 else p1\<lparr>pl_pmu_samples := pl_pmu_samples p + 1,
                   pl_pmu_total_cycles := sat_add (pl_pmu_total_cycles p) (nth_or_zero pm (Some 0)),
                   pl_pmu_total_insns := sat_add (pl_pmu_total_insns p) (nth_or_zero pm (Some 1))\<rparr>) in
           Some (if smp_user_backtrace s = [] then [] else [OnSample (sample_event_of (pl_config p) s)], p2)))"

definition is_sched :: "kd_buf \<Rightarrow> bool" where
  "is_sched rec \<longleftrightarrow> kdbg_class (kd_debugid rec) = DBG_MACH \<and> kdbg_subclass (kd_debugid rec) = DBG_MACH_SCHED"

definition count_record :: "kd_buf \<Rightarrow> pipeline \<Rightarrow> pipeline" where
  "count_record rec p =
     (if kdbg_class (kd_debugid rec) = DBG_PERF
      then p\<lparr>pl_histogram := hm_entry (kdbg_subclass (kd_debugid rec), kdbg_code (kd_debugid rec), kdbg_func (kd_debugid rec))
             0 (\<lambda>n. n + 1) (pl_histogram p)\<rparr>
      else p)"

definition process_record :: "(u64 \<Rightarrow> u64) \<Rightarrow> kd_buf \<Rightarrow> pipeline \<Rightarrow> (sink_event list \<times> pipeline) option" where
  "process_record strip rec p =
     (if is_sched rec then Some ([], p\<lparr>pl_offcpu := tracker_feed rec (pl_offcpu p)\<rparr>)
      else
        let (parser', s) = feed strip rec (pl_parser p); p1 = (count_record rec p)\<lparr>pl_parser := parser'\<rparr> in
        case s of None \<Rightarrow> Some ([], p1) | Some smp \<Rightarrow> take_sample smp p1)"

primrec process_each :: "(u64 \<Rightarrow> u64) \<Rightarrow> kd_buf list \<Rightarrow> pipeline \<Rightarrow> (sink_event list \<times> pipeline) option" where
  "process_each strip [] p = Some ([], p)"
| "process_each strip (rec # recs) p =
     (case process_record strip rec p of
        None \<Rightarrow> None
      | Some (e1, p1) \<Rightarrow>
          (case process_each strip recs p1 of None \<Rightarrow> None | Some (e2, p2) \<Rightarrow> Some (e1 @ e2, p2)))"

definition wakeup_event_of :: "u32 \<Rightarrow> pending_wakeup \<Rightarrow> sink_event" where
  "wakeup_event_of pid w =
     OnWakeup \<lparr>wv_timestamp_ns = pw_timestamp_ns w, wv_pid = pid, wv_waker_tid = pw_waker_tid w,
       wv_wakee_tid = pw_wakee_tid w, wv_waker_user_stack = pw_waker_user_stack w,
       wv_waker_kernel_stack = pw_waker_kernel_stack w\<rparr>"

definition interval_event_of :: "u32 \<Rightarrow> pending_interval \<Rightarrow> sink_event" where
  "interval_event_of pid i =
     OnCpuInterval \<lparr>iv_pid = pid, iv_tid = pi_tid i, iv_start_ns = pi_start_ns i, iv_end_ns = pi_end_ns i,
       iv_kind = (case pi_kind i of POnCpu \<Rightarrow> CpuOn
         | POffCpu user_stack _ waker_tid waker_user_stack \<Rightarrow> CpuOff user_stack waker_tid waker_user_stack)\<rparr>"

text \<open>After the records of a batch: the wakeups, and the intervals of the threads seen so far.\<close>

definition drain_tracker :: "pipeline \<Rightarrow> sink_event list \<times> pipeline" where
  "drain_tracker p =
     (let pid = pc_pid (pl_config p); (wakeups, tr1) = drain_wakeups (pl_offcpu p); (intervals, tr2) = drain_pending tr1 in
      (map (wakeup_event_of pid) wakeups @
         map (interval_event_of pid) (filter (\<lambda>i. pi_tid i \<in> set (pl_seen_tids p)) intervals),
       p\<lparr>pl_offcpu := tr2\<rparr>))"

definition process_records :: "(u64 \<Rightarrow> u64) \<Rightarrow> kd_buf list \<Rightarrow> pipeline \<Rightarrow> (sink_event list \<times> pipeline) option" where
  "process_records strip records p =
     (case process_each strip records (p\<lparr>pl_total_drained := pl_total_drained p + of_nat (length records)\<rparr>) of
        None \<Rightarrow> None
      | Some (events, p1) \<Rightarrow> (case drain_tracker p1 of (drained, p2) \<Rightarrow> Some (events @ drained, p2)))"

section \<open>End of a session\<close>

definition finish :: "pipeline \<Rightarrow> sink_event list" where
  "finish p =
     (case (pl_kernel_image p, pl_slide_est p) of
        (Some img, Some est) \<Rightarrow>
          (case finalize est of Some (slide, _) \<Rightarrow> [OnKallsyms (format_kallsyms img slide)] | None \<Rightarrow> [])
      | _ \<Rightarrow> [])"

section \<open>Samples are reported exactly once, however the stream is cut into batches\<close>

primrec process_batches ::
  "(u64 \<Rightarrow> u64) \<Rightarrow> kd_buf list list \<Rightarrow> pipeline \<Rightarrow> (sink_event list \<times> pipeline) option" where
  "process_batches strip [] p = Some ([], p)"
| "process_batches strip (batch # batches) p =
     (case process_records strip batch p of
        None \<Rightarrow> None
      | Some (e1, p1) \<Rightarrow>
          (case process_batches strip batches p1 of None \<Rightarrow> None | Some (e2, p2) \<Rightarrow> Some (e1 @ e2, p2)))"

definition reported_samples :: "sink_event list \<Rightarrow> sample_event list" where
  "reported_samples = List.map_filter (\<lambda>e. case e of OnSample s \<Rightarrow> Some s | _ \<Rightarrow> None)"

definition reported_intervals :: "sink_event list \<Rightarrow> cpu_interval_event list" where
  "reported_intervals = List.map_filter (\<lambda>e. case e of OnCpuInterval i \<Rightarrow> Some i | _ \<Rightarrow> None)"

text \<open>The samples that have a user stack, as events.\<close>

definition sample_events :: "pipeline_config \<Rightarrow> sample list \<Rightarrow> sample_event list" where
  "sample_events config ss = map (sample_event_of config) (filter (\<lambda>s. smp_user_backtrace s \<noteq> []) ss)"

text \<open>The slide estimator has segments for which it returns.\<close>

definition segments_ok :: "slide_estimator option \<Rightarrow> bool" where
  "segments_ok est \<longleftrightarrow> (\<forall>e. est = Some e \<longrightarrow> (\<forall>seg \<in> set (sle_exec_segments e). segment_ok seg))"

lemma reported_append [simp]:
  "reported_samples (xs @ ys) = reported_samples xs @ reported_samples ys"
  "reported_intervals (xs @ ys) = reported_intervals xs @ reported_intervals ys"
  by (simp_all add: reported_samples_def reported_intervals_def List.map_filter_def)

lemma reported_simps [simp]:
  "reported_samples [] = []" "reported_intervals [] = []"
  "reported_samples [OnSample s] = [s]" "reported_intervals [OnSample s] = []"
  by (simp_all add: reported_samples_def reported_intervals_def)

lemma reported_drained [simp]:
  "reported_samples (map (wakeup_event_of pid) ws) = []" "reported_intervals (map (wakeup_event_of pid) ws) = []"
  "reported_samples (map (interval_event_of pid) is) = []"
  by (induction ws) (simp_all add: reported_samples_def reported_intervals_def wakeup_event_of_def
      interval_event_of_def List.map_filter_def filter_empty_conv)

lemma sample_events_simps [simp]:
  "sample_events config [] = []"
  "sample_events config (s # ss) = (if smp_user_backtrace s = [] then [] else [sample_event_of config s]) @ sample_events config ss"
  "sample_events config (xs @ ys) = sample_events config xs @ sample_events config ys"
  by (simp_all add: sample_events_def)

lemma observe_kernel_frames_returns:
  assumes "segments_ok est"
  shows "\<exists>est'. observe_kernel_frames frames est = Some est' \<and> segments_ok est'"
proof (cases est)
  case (Some e)
  with assms have "\<forall>seg \<in> set (sle_exec_segments e). segment_ok seg" by (simp add: segments_ok_def)
  from observe_all_returns [OF this, of frames] show ?thesis
    using assms Some by (auto simp: observe_kernel_frames_def segments_ok_def)
qed (simp add: observe_kernel_frames_def segments_ok_def)

text \<open>What taking one sample changes.\<close>

lemma take_sample_exact:
  assumes "segments_ok (pl_slide_est p)"
  obtains p' where "take_sample s p = Some (map OnSample (sample_events (pl_config p) [s]), p')"
    "segments_ok (pl_slide_est p')" "pl_config p' = pl_config p" "pl_parser p' = pl_parser p"
    "pl_total_drained p' = pl_total_drained p"
    "pl_offcpu p' = note_sample (smp_tid s) (smp_user_backtrace s) (smp_kernel_backtrace s) (pl_offcpu p)"
    "set (pl_seen_tids p') = insert (smp_tid s) (set (pl_seen_tids p))"
proof -
  from observe_kernel_frames_returns [OF assms, of "smp_kernel_backtrace s"] obtain est where
    "observe_kernel_frames (smp_kernel_backtrace s) (pl_slide_est p) = Some est" "segments_ok est" by blast
  note taken = this
  then obtain ev p' where "take_sample s p = Some (ev, p')" by (auto simp: take_sample_def Let_def)
  then show ?thesis using that [of p'] taken by (auto simp: take_sample_def Let_def split: if_splits)
qed

lemma count_record_simps [simp]:
  "pl_slide_est (count_record rec p) = pl_slide_est p" "pl_config (count_record rec p) = pl_config p"
  "pl_parser (count_record rec p) = pl_parser p" "pl_offcpu (count_record rec p) = pl_offcpu p"
  "pl_seen_tids (count_record rec p) = pl_seen_tids p" "pl_total_drained (count_record rec p) = pl_total_drained p"
  by (simp_all add: count_record_def)

lemma feed_sched: "is_sched rec \<Longrightarrow> feed strip rec p = (p, None)"
  by (simp add: is_sched_def feed_def DBG_MACH_def DBG_PERF_def)

text \<open>The stack note that a record gives the tracker: that of the sample it completes, if any.\<close>

definition noted :: "sample option \<Rightarrow> tracker \<Rightarrow> tracker" where
  "noted s tr = (case s of None \<Rightarrow> tr
     | Some smp \<Rightarrow> note_sample (smp_tid smp) (smp_user_backtrace smp) (smp_kernel_backtrace smp) tr)"

lemma process_record_exact:
  assumes "segments_ok (pl_slide_est p)" and "feed strip rec (pl_parser p) = (parser', s)"
  obtains p' where "process_record strip rec p = Some (map OnSample (sample_events (pl_config p) (case_option [] (\<lambda>x. [x]) s)), p')"
    "segments_ok (pl_slide_est p')" "pl_config p' = pl_config p" "pl_parser p' = parser'"
    "pl_total_drained p' = pl_total_drained p"
    "pl_offcpu p' = (if is_sched rec then tracker_feed rec (pl_offcpu p) else noted s (pl_offcpu p))"
    "set (pl_seen_tids p) \<subseteq> set (pl_seen_tids p')"
proof (cases "is_sched rec")
  case True
  with assms have "parser' = pl_parser p" "s = None" by (simp_all add: feed_sched)
  with True assms(1) show ?thesis
    by (intro that [of "p\<lparr>pl_offcpu := tracker_feed rec (pl_offcpu p)\<rparr>"]) (simp_all add: process_record_def)
next
  case False
  show ?thesis
  proof (cases s)
    case None
    with False assms show ?thesis
      by (intro that [of "(count_record rec p)\<lparr>pl_parser := parser'\<rparr>"]) (simp_all add: process_record_def noted_def)
  next
    case (Some smp)
    let ?p = "(count_record rec p)\<lparr>pl_parser := parser'\<rparr>"
    have "segments_ok (pl_slide_est ?p)" using assms(1) by simp
    from take_sample_exact [OF this, of smp] obtain p' where p':
      "take_sample smp ?p = Some (map OnSample (sample_events (pl_config ?p) [smp]), p')"
      "segments_ok (pl_slide_est p')" "pl_config p' = pl_config ?p" "pl_parser p' = pl_parser ?p"
      "pl_total_drained p' = pl_total_drained ?p"
      "pl_offcpu p' = note_sample (smp_tid smp) (smp_user_backtrace smp) (smp_kernel_backtrace smp) (pl_offcpu ?p)"
      "set (pl_seen_tids p') = insert (smp_tid smp) (set (pl_seen_tids ?p))" by blast
    with False Some assms show ?thesis by (intro that [of p']) (auto simp: process_record_def noted_def)
  qed
qed

lemma process_each_exact:
  assumes "segments_ok (pl_slide_est p)" and "feed_all strip recs (pl_parser p) = (parser', ss)"
  shows "\<exists>p'. process_each strip recs p = Some (map OnSample (sample_events (pl_config p) ss), p') \<and>
    segments_ok (pl_slide_est p') \<and> pl_config p' = pl_config p \<and> pl_parser p' = parser' \<and>
    pl_total_drained p' = pl_total_drained p"
  using assms
proof (induction recs arbitrary: p ss)
  case (Cons rec recs)
  obtain p1 s where f: "feed strip rec (pl_parser p) = (p1, s)" by fastforce
  obtain ss' where rest: "feed_all strip recs p1 = (parser', ss')"
    and ss: "ss = case_option [] (\<lambda>x. [x]) s @ ss'"
    using Cons.prems(2) f by (auto split: prod.splits option.splits)
  from process_record_exact [OF Cons.prems(1) f] obtain q where q:
    "process_record strip rec p = Some (map OnSample (sample_events (pl_config p) (case_option [] (\<lambda>x. [x]) s)), q)"
    "segments_ok (pl_slide_est q)" "pl_config q = pl_config p" "pl_parser q = p1"
    "pl_total_drained q = pl_total_drained p" by blast
  with Cons.IH [of q ss'] rest ss show ?case by auto
qed auto

lemma reported_on_samples [simp]:
  "reported_samples (map OnSample ss) = ss" "reported_intervals (map OnSample ss) = []"
  by (induction ss) (simp_all add: reported_samples_def reported_intervals_def)

lemma drain_tracker_simps:
  assumes "drain_tracker p = (events, p')"
  shows "pl_slide_est p' = pl_slide_est p" "pl_config p' = pl_config p" "pl_parser p' = pl_parser p"
    "pl_total_drained p' = pl_total_drained p" "pl_seen_tids p' = pl_seen_tids p" "reported_samples events = []"
  using assms by (auto simp: drain_tracker_def drain_wakeups_def drain_pending_def Let_def)

lemma process_records_exact:
  assumes "segments_ok (pl_slide_est p)" and "feed_all strip recs (pl_parser p) = (parser', ss)"
  shows "\<exists>events p'. process_records strip recs p = Some (events, p') \<and>
    reported_samples events = sample_events (pl_config p) ss \<and>
    segments_ok (pl_slide_est p') \<and> pl_config p' = pl_config p \<and> pl_parser p' = parser' \<and>
    pl_total_drained p' = pl_total_drained p + of_nat (length recs)"
proof -
  let ?p = "p\<lparr>pl_total_drained := pl_total_drained p + of_nat (length recs)\<rparr>"
  have "segments_ok (pl_slide_est ?p)" "feed_all strip recs (pl_parser ?p) = (parser', ss)" using assms by simp_all
  from process_each_exact [OF this] obtain q where q:
    "process_each strip recs ?p = Some (map OnSample (sample_events (pl_config p) ss), q)"
    "segments_ok (pl_slide_est q)" "pl_config q = pl_config p" "pl_parser q = parser'"
    "pl_total_drained q = pl_total_drained p + of_nat (length recs)" by auto
  obtain drained p' where d: "drain_tracker q = (drained, p')" by fastforce
  with q drain_tracker_simps [OF d] show ?thesis by (simp add: process_records_def)
qed

text \<open>
  Whatever batches the record stream is cut into, and whatever else is mixed into it, the
  pipeline returns and reports exactly the samples that the parser finds in the whole stream and
  that have a user stack, each once and in order, with the counters of its configuration; it has
  counted every record.
\<close>

theorem pipeline_samples_exact:
  assumes "segments_ok (pl_slide_est p)" and "feed_all strip (concat batches) (pl_parser p) = (parser', ss)"
  shows "\<exists>events p'. process_batches strip batches p = Some (events, p') \<and>
    reported_samples events = map (sample_event_of (pl_config p)) (filter (\<lambda>s. smp_user_backtrace s \<noteq> []) ss) \<and>
    pl_parser p' = parser' \<and> pl_total_drained p' = pl_total_drained p + of_nat (length (concat batches))"
  using assms
proof (induction batches arbitrary: p ss)
  case (Cons batch batches)
  obtain p1 s1 where f: "feed_all strip batch (pl_parser p) = (p1, s1)" by fastforce
  obtain s2 where g: "feed_all strip (concat batches) p1 = (parser', s2)" and ss: "ss = s1 @ s2"
    using Cons.prems(2) f by (auto simp: feed_all_append split: prod.splits)
  from process_records_exact [OF Cons.prems(1) f] obtain ev q where q:
    "process_records strip batch p = Some (ev, q)" "reported_samples ev = sample_events (pl_config p) s1"
    "segments_ok (pl_slide_est q)" "pl_config q = pl_config p" "pl_parser q = p1"
    "pl_total_drained q = pl_total_drained p + of_nat (length batch)" by blast
  from Cons.IH [of q s2] q g ss show ?case by (auto simp: sample_events_def)
qed simp

section \<open>Intervals are reported in order, without overlap\<close>

definition interval_of :: "u32 \<Rightarrow> pending_interval \<Rightarrow> cpu_interval_event" where
  "interval_of pid i = the (case interval_event_of pid i of OnCpuInterval e \<Rightarrow> Some e | _ \<Rightarrow> None)"

lemma interval_of_simps [simp]:
  "iv_pid (interval_of pid i) = pid" "iv_tid (interval_of pid i) = pi_tid i"
  "iv_start_ns (interval_of pid i) = pi_start_ns i" "iv_end_ns (interval_of pid i) = pi_end_ns i"
  by (simp_all add: interval_of_def interval_event_of_def)

lemma reported_interval_events [simp]: "reported_intervals (map (interval_event_of pid) is) = map (interval_of pid) is"
  by (induction "is") (simp_all add: reported_intervals_def interval_of_def interval_event_of_def)

text \<open>
  Beside the events that were reported runs the tracker's own history, of which the reported
  intervals are a part: those of threads that had been seen when they were drained.
\<close>

definition intervals_inv :: "u64 \<Rightarrow> sink_event list \<times> pipeline \<Rightarrow> bool" where
  "intervals_inv now s \<longleftrightarrow> (\<exists>out. tracker_inv now (pl_offcpu (snd s), out) \<and>
     subseq (reported_intervals (fst s)) (map (interval_of (pc_pid (pl_config (snd s)))) out) \<and>
     (\<forall>i \<in> set (reported_intervals (fst s)). iv_tid i \<in> set (pl_seen_tids (snd s))))"

lemma intervals_invI:
  "tracker_inv now (pl_offcpu p, out) \<Longrightarrow>
   subseq (reported_intervals events) (map (interval_of (pc_pid (pl_config p))) out) \<Longrightarrow>
   \<forall>i \<in> set (reported_intervals events). iv_tid i \<in> set (pl_seen_tids p) \<Longrightarrow> intervals_inv now (events, p)"
  by (auto simp: intervals_inv_def)

lemma intervals_invE:
  assumes "intervals_inv now (events, p)"
  obtains out where "tracker_inv now (pl_offcpu p, out)"
    "subseq (reported_intervals events) (map (interval_of (pc_pid (pl_config p))) out)"
    "\<forall>i \<in> set (reported_intervals events). iv_tid i \<in> set (pl_seen_tids p)"
  using assms by (auto simp: intervals_inv_def)

abbreviation in_time_order :: "u64 \<Rightarrow> kd_buf list \<Rightarrow> bool" where
  "in_time_order now recs \<equiv> sorted (now # map kd_time (filter is_sched recs)) \<and>
     (\<forall>rec \<in> set (filter is_sched recs). unat (kd_arg2 rec) < 2 ^ 32)"

lemma noted_inv: "tracker_inv now (tr, out) \<Longrightarrow> tracker_inv now (noted s tr, out)"
  by (simp add: noted_def note_sample_inv split: option.split)

lemma process_record_intervals:
  assumes "segments_ok (pl_slide_est p)" "intervals_inv now (events, p)" "in_time_order now (rec # recs)"
  obtains ev p' now' where "process_record strip rec p = Some (ev, p')" "segments_ok (pl_slide_est p')"
    "intervals_inv now' (events @ ev, p')" "in_time_order now' recs" "pl_config p' = pl_config p"
proof -
  obtain parser' s where "feed strip rec (pl_parser p) = (parser', s)" by fastforce
  from process_record_exact [OF assms(1) this] obtain p' where p':
    "process_record strip rec p = Some (map OnSample (sample_events (pl_config p) (case_option [] (\<lambda>x. [x]) s)), p')"
    "segments_ok (pl_slide_est p')" "pl_config p' = pl_config p"
    "pl_offcpu p' = (if is_sched rec then tracker_feed rec (pl_offcpu p) else noted s (pl_offcpu p))"
    "set (pl_seen_tids p) \<subseteq> set (pl_seen_tids p')" by blast
  let ?now = "if is_sched rec then kd_time rec else now"
  from assms(2) obtain out where out: "tracker_inv now (pl_offcpu p, out)"
    "subseq (reported_intervals events) (map (interval_of (pc_pid (pl_config p))) out)"
    "\<forall>i \<in> set (reported_intervals events). iv_tid i \<in> set (pl_seen_tids p)" by (rule intervals_invE)
  have "tracker_inv ?now (pl_offcpu p', out)"
    using out(1) p'(4) assms(3) noted_inv tracker_feed_inv [OF out(1), of rec] by (simp add: small_tid_def)
  with out p'(3,5) have "intervals_inv ?now
      (events @ map OnSample (sample_events (pl_config p) (case_option [] (\<lambda>x. [x]) s)), p')"
    by (intro intervals_invI [of _ _ out]) auto
  moreover have "in_time_order ?now recs" using assms(3) by (cases "is_sched rec") auto
  ultimately show ?thesis using that p'(1-3) by blast
qed

lemma process_each_intervals:
  assumes "segments_ok (pl_slide_est p)" "intervals_inv now (events, p)" "in_time_order now (recs @ rest)"
  shows "\<exists>ev p' now'. process_each strip recs p = Some (ev, p') \<and> segments_ok (pl_slide_est p') \<and>
    intervals_inv now' (events @ ev, p') \<and> in_time_order now' rest \<and> pl_config p' = pl_config p"
  using assms
proof (induction recs arbitrary: p events now)
  case Nil
  then show ?case by auto
next
  case (Cons rec recs)
  from Cons.prems(3) have "in_time_order now (rec # (recs @ rest))" by simp
  from process_record_intervals [OF Cons.prems(1,2) this] obtain e1 q now1 where q:
    "process_record strip rec p = Some (e1, q)" "segments_ok (pl_slide_est q)"
    "intervals_inv now1 (events @ e1, q)" "in_time_order now1 (recs @ rest)" "pl_config q = pl_config p" by blast
  from Cons.IH [OF q(2,3,4)] obtain e2 p' now' where
    "process_each strip recs q = Some (e2, p')" "segments_ok (pl_slide_est p')"
    "intervals_inv now' ((events @ e1) @ e2, p')" "in_time_order now' rest" "pl_config p' = pl_config q" by blast
  with q(1,5) show ?case by auto
qed

lemma drain_tracker_intervals:
  assumes "intervals_inv now (events, p)" "drain_tracker p = (ev, p')"
  shows "intervals_inv now (events @ ev, p')"
proof -
  from assms(1) obtain out where out: "tracker_inv now (pl_offcpu p, out)"
    "subseq (reported_intervals events) (map (interval_of (pc_pid (pl_config p))) out)"
    "\<forall>i \<in> set (reported_intervals events). iv_tid i \<in> set (pl_seen_tids p)" by (rule intervals_invE)
  let ?closed = "tr_pending (pl_offcpu p)"
  have tr: "tracker_inv now (pl_offcpu p', out @ ?closed)"
    using out(1) assms(2)
    by (auto simp: drain_tracker_def drain_wakeups_def drain_pending_def Let_def tracker_inv_def all_intervals_def)
  have ev: "reported_intervals ev = map (interval_of (pc_pid (pl_config p)))
      (filter (\<lambda>i. pi_tid i \<in> set (pl_seen_tids p)) ?closed)"
    using assms(2) by (auto simp: drain_tracker_def drain_wakeups_def drain_pending_def Let_def)
  have "subseq (reported_intervals (events @ ev)) (map (interval_of (pc_pid (pl_config p))) (out @ ?closed))"
    unfolding reported_append map_append ev
    by (intro list_emb_append_mono out(2) subseq_map subseq_filter_left)
  moreover have "\<forall>i \<in> set (reported_intervals (events @ ev)). iv_tid i \<in> set (pl_seen_tids p)"
    using out(3) ev by auto
  ultimately show ?thesis
    using drain_tracker_simps(2,5) [OF assms(2)] by (intro intervals_invI [OF tr]) simp_all
qed

lemma process_records_intervals:
  assumes "segments_ok (pl_slide_est p)" "intervals_inv now (events, p)" "in_time_order now (recs @ rest)"
  shows "\<exists>ev p' now'. process_records strip recs p = Some (ev, p') \<and> segments_ok (pl_slide_est p') \<and>
    intervals_inv now' (events @ ev, p') \<and> in_time_order now' rest \<and> pl_config p' = pl_config p"
proof -
  let ?p = "p\<lparr>pl_total_drained := pl_total_drained p + of_nat (length recs)\<rparr>"
  have "segments_ok (pl_slide_est ?p)" "intervals_inv now (events, ?p)"
    using assms(1,2) by (simp_all add: intervals_inv_def)
  from process_each_intervals [OF this assms(3)] obtain e1 q now1 where q:
    "process_each strip recs ?p = Some (e1, q)" "segments_ok (pl_slide_est q)"
    "intervals_inv now1 (events @ e1, q)" "in_time_order now1 rest" "pl_config q = pl_config ?p" by blast
  obtain e2 p' where d: "drain_tracker q = (e2, p')" by fastforce
  have "process_records strip recs p = Some (e1 @ e2, p')" using q(1) d by (simp add: process_records_def)
  moreover have "segments_ok (pl_slide_est p')" "pl_config p' = pl_config p"
    using q(2,5) drain_tracker_simps(1,2) [OF d] by simp_all
  moreover have "intervals_inv now1 (events @ (e1 @ e2), p')" using drain_tracker_intervals [OF q(3) d] by simp
  ultimately show ?thesis using q(4) by blast
qed

lemma process_batches_intervals:
  assumes "segments_ok (pl_slide_est p)" "intervals_inv now (events, p)" "in_time_order now (concat batches)"
  shows "\<exists>ev p' now'. process_batches strip batches p = Some (ev, p') \<and>
    intervals_inv now' (events @ ev, p') \<and> pl_config p' = pl_config p"
  using assms
proof (induction batches arbitrary: p events now)
  case Nil
  then show ?case by auto
next
  case (Cons batch batches)
  from Cons.prems(3) have "in_time_order now (batch @ concat batches)" by simp
  from process_records_intervals [OF Cons.prems(1,2) this] obtain e1 q now1 where q:
    "process_records strip batch p = Some (e1, q)" "segments_ok (pl_slide_est q)"
    "intervals_inv now1 (events @ e1, q)" "in_time_order now1 (concat batches)" "pl_config q = pl_config p" by blast
  from Cons.IH [OF q(2,3,4)] q(1,5) show ?case by auto
qed

lemma subseq_sorted_wrt: "subseq xs ys \<Longrightarrow> sorted_wrt R ys \<Longrightarrow> sorted_wrt R xs"
  by (induction rule: list_emb.induct) (auto dest: list_emb_set)

text \<open>
  C28: when the scheduler records come in time order and name 32-bit threads, whatever else is in
  the stream and whatever batches it comes in, the intervals that the pipeline reports belong to
  the recorded process and to threads that were sampled, are not empty, and those of one thread
  come in time order and do not overlap.
\<close>

theorem pipeline_intervals_disjoint:
  assumes "segments_ok (pl_slide_est p)" "pl_offcpu p = new_tracker"
    and "sorted (map kd_time (filter is_sched (concat batches)))"
    and "\<forall>rec \<in> set (filter is_sched (concat batches)). unat (kd_arg2 rec) < 2 ^ 32"
  shows "\<exists>events p'. process_batches strip batches p = Some (events, p') \<and>
    (\<forall>i \<in> set (reported_intervals events). iv_pid i = pc_pid (pl_config p) \<and>
       iv_start_ns i < iv_end_ns i \<and> iv_tid i \<in> set (pl_seen_tids p')) \<and>
    sorted_wrt (\<lambda>i j. iv_tid i = iv_tid j \<longrightarrow> iv_end_ns i \<le> iv_start_ns j) (reported_intervals events)"
proof -
  have "intervals_inv 0 ([], p)" using tracker_inv_init assms(2) by (intro intervals_invI [of _ _ "[]"]) simp_all
  moreover have "in_time_order 0 (concat batches)" using assms(3,4) by simp
  ultimately obtain ev p' now' where p': "process_batches strip batches p = Some (ev, p')"
    "intervals_inv now' ([] @ ev, p')" "pl_config p' = pl_config p"
    using process_batches_intervals [OF assms(1)] by blast
  from p'(2) obtain out where out: "tracker_inv now' (pl_offcpu p', out)"
    "subseq (reported_intervals ev) (map (interval_of (pc_pid (pl_config p'))) out)"
    "\<forall>i \<in> set (reported_intervals ev). iv_tid i \<in> set (pl_seen_tids p')" by (auto elim: intervals_invE)
  have ok: "intervals_ok now' (out @ tr_pending (pl_offcpu p'))"
    using out(1) by (simp add: tracker_inv_def all_intervals_def)
  have "\<forall>i \<in> set (map (interval_of (pc_pid (pl_config p'))) out). iv_pid i = pc_pid (pl_config p) \<and> iv_start_ns i < iv_end_ns i"
    using ok p'(3) by (simp add: intervals_ok_def)
  moreover have "set (reported_intervals ev) \<subseteq> set (map (interval_of (pc_pid (pl_config p'))) out)"
    using out(2) by (auto dest: list_emb_set)
  moreover have "sorted_wrt (\<lambda>i j. iv_tid i = iv_tid j \<longrightarrow> iv_end_ns i \<le> iv_start_ns j)
      (map (interval_of (pc_pid (pl_config p'))) out)"
    using ok by (simp add: intervals_ok_def sorted_wrt_map sorted_wrt_append)
  ultimately show ?thesis using p'(1) out(2,3) subseq_sorted_wrt by blast
qed

section \<open>Concrete runs\<close>

definition demo_pipeline :: "u32 list \<Rightarrow> pipeline" where
  "demo_pipeline seen =
     \<lparr>pl_config = \<lparr>pc_pid = 77, pc_frequency_hz = 1000, pc_pmc_idx_l1d = Some 2, pc_pmc_idx_brmiss = None, pc_task = None\<rparr>,
      pl_parser = new_parser, pl_offcpu = new_tracker, pl_images = new_scanner None, pl_thread_names = [],
      pl_seen_tids = seen, pl_kernel_image = None, pl_slide_est = None, pl_jitdump_path = ''/tmp/jit-77.dump'',
      pl_jitdump_tailer = None, pl_jitdump_emitted = False, pl_next_image = 0, pl_next_thread = 0, pl_next_jitdump = 0,
      pl_histogram = [], pl_total_drained = 0, pl_pmu_total_cycles = 0, pl_pmu_total_insns = 0, pl_pmu_samples = 0\<rparr>"

text \<open>One sample, cut into two batches in the middle.\<close>

theorem pipeline_samples_exact_witness:
  "\<exists>events p'. process_batches id [take 3 (sample_records 123 42 5 0 [10, 20, 30, 40, 99] [] [7, 8]),
      drop 3 (sample_records 123 42 5 0 [10, 20, 30, 40, 99] [] [7, 8])] (demo_pipeline []) = Some (events, p') \<and>
    reported_samples events = [\<lparr>sv_timestamp_ns = 123, sv_pid = 77, sv_tid = 42, sv_backtrace = [10, 99, 20, 30, 40],
      sv_kernel_backtrace = [], sv_cycles = 7, sv_instructions = 8, sv_l1d_misses = 0, sv_branch_mispreds = 0\<rparr>]"
proof -
  let ?rs = "sample_records 123 42 5 0 [10, 20, 30, 40, 99] [] [7, 8]"
  let ?s = "expected_sample id 123 42 5 [10, 20, 30, 40, 99] [] [7, 8]"
  obtain p' where "feed_all id ?rs new_parser = (p', [?s])"
    using sample_parts [of "[10, 20, 30, 40, 99]" 5 0 "[]" "[7, 8]" id 123 42 new_parser] by auto
  then have "feed_all id (concat [take 3 ?rs, drop 3 ?rs]) (pl_parser (demo_pipeline [])) = (p', [?s])"
    by (simp only: concat.simps append_Nil2 append_take_drop_id) (simp add: demo_pipeline_def)
  from pipeline_samples_exact [OF _ this] obtain events p'' where
    "process_batches id [take 3 ?rs, drop 3 ?rs] (demo_pipeline []) = Some (events, p'')"
    "reported_samples events = map (sample_event_of (pl_config (demo_pipeline []))) (filter (\<lambda>s. smp_user_backtrace s \<noteq> []) [?s])"
    by (auto simp: demo_pipeline_def segments_ok_def)
  moreover have "smp_user_backtrace ?s = [10, 99, 20, 30, 40]"
    by (simp add: expected_sample_def normalize_frames_def remove_at_def insert_at_def Let_def)
  ultimately show ?thesis
    by (simp add: demo_pipeline_def sample_event_of_def expected_sample_def nth_or_zero_def KDBG_TIMESTAMP_MASK_def)
qed

definition demo_batches :: "kd_buf list list" where
  "demo_batches = [[sched_record SCHED 10 0 5, sched_record SCHED 30 0 9], [sched_record SCHED 70 0 5, sched_record SCHED 90 0 9]]"

lemma is_sched_record [simp]: "is_sched (sched_record code ts cpu tid)"
  by (simp add: is_sched_def) (simp only: sched_record_def kd_buf.simps kdbg_class_eventid)

lemma process_each_sched:
  "\<forall>rec \<in> set recs. is_sched rec \<Longrightarrow>
   process_each strip recs p = Some ([], p\<lparr>pl_offcpu := fold tracker_feed recs (pl_offcpu p)\<rparr>)"
  by (induction recs arbitrary: p) (simp_all add: process_record_def)

text \<open>A batch of scheduler records, by what it does to the tracker.\<close>

lemma process_records_sched:
  assumes "\<forall>rec \<in> set recs. is_sched rec"
  shows "\<exists>e p'. process_records strip recs p = Some (e, p') \<and> pl_seen_tids p' = pl_seen_tids p \<and>
    pl_config p' = pl_config p \<and>
    pl_offcpu p' = (fold tracker_feed recs (pl_offcpu p))\<lparr>tr_pending_wakeups := [], tr_pending := []\<rparr> \<and>
    reported_intervals e = map (interval_of (pc_pid (pl_config p)))
      (filter (\<lambda>i. pi_tid i \<in> set (pl_seen_tids p)) (tr_pending (fold tracker_feed recs (pl_offcpu p))))"
  by (simp add: process_records_def process_each_sched [OF assms] drain_tracker_def drain_wakeups_def
      drain_pending_def Let_def)

definition demo_tracker :: tracker where
  "demo_tracker = fold tracker_feed [sched_record SCHED 10 0 5, sched_record SCHED 30 0 9] new_tracker"

lemma demo_tracker_pending:
  "tr_pending demo_tracker = [\<lparr>pi_tid = 5, pi_start_ns = 10, pi_end_ns = 30, pi_kind = POnCpu\<rparr>]"
  "tr_pending (fold tracker_feed [sched_record SCHED 70 0 5, sched_record SCHED 90 0 9]
     (demo_tracker\<lparr>tr_pending_wakeups := [], tr_pending := []\<rparr>)) =
     [\<lparr>pi_tid = 9, pi_start_ns = 30, pi_end_ns = 70, pi_kind = POnCpu\<rparr>,
      \<lparr>pi_tid = 5, pi_start_ns = 70, pi_end_ns = 90, pi_kind = POnCpu\<rparr>]"
  by (simp_all add: demo_tracker_def tracker_eval)

lemma demo_batches_events:
  "\<exists>e p'. process_batches id demo_batches (demo_pipeline [5]) = Some (e, p') \<and> reported_intervals e =
     [interval_of 77 \<lparr>pi_tid = 5, pi_start_ns = 10, pi_end_ns = 30, pi_kind = POnCpu\<rparr>,
      interval_of 77 \<lparr>pi_tid = 5, pi_start_ns = 70, pi_end_ns = 90, pi_kind = POnCpu\<rparr>]"
proof -
  let ?b1 = "[sched_record SCHED 10 0 5, sched_record SCHED 30 0 9]"
  let ?b2 = "[sched_record SCHED 70 0 5, sched_record SCHED 90 0 9]"
  obtain e1 p1 where 1: "process_records id ?b1 (demo_pipeline [5]) = Some (e1, p1)" "pl_seen_tids p1 = [5]"
    "pc_pid (pl_config p1) = 77" "pl_offcpu p1 = demo_tracker\<lparr>tr_pending_wakeups := [], tr_pending := []\<rparr>"
    "reported_intervals e1 = map (interval_of 77) (filter (\<lambda>i. pi_tid i \<in> {5}) (tr_pending demo_tracker))"
    using process_records_sched [of ?b1 id "demo_pipeline [5]"] by (auto simp: demo_pipeline_def demo_tracker_def)
  obtain e2 p2 where 2: "process_records id ?b2 p1 = Some (e2, p2)"
    "reported_intervals e2 = map (interval_of 77) (filter (\<lambda>i. pi_tid i \<in> {5})
      (tr_pending (fold tracker_feed ?b2 (demo_tracker\<lparr>tr_pending_wakeups := [], tr_pending := []\<rparr>))))"
    using process_records_sched [of ?b2 id p1] 1(2-4) by auto
  show ?thesis using 1(1,5) 2 unfolding demo_tracker_pending by (simp add: demo_batches_def)
qed

text \<open>Two intervals of the thread that was sampled; those of the other thread are not reported.\<close>

theorem pipeline_intervals_disjoint_witness:
  "\<exists>events p'. process_batches id demo_batches (demo_pipeline [5]) = Some (events, p') \<and>
    length (reported_intervals events) = 2 \<and> (\<forall>i \<in> set (reported_intervals events). iv_pid i = 77) \<and>
    iv_end_ns (reported_intervals events ! 0) \<le> iv_start_ns (reported_intervals events ! 1)"
proof -
  let ?p = "demo_pipeline [5]"
  have "segments_ok (pl_slide_est ?p)" "pl_offcpu ?p = new_tracker" "pc_pid (pl_config ?p) = 77"
    by (simp_all add: demo_pipeline_def segments_ok_def)
  moreover have "sorted (map kd_time (filter is_sched (concat demo_batches)))"
    "\<forall>rec \<in> set (filter is_sched (concat demo_batches)). unat (kd_arg2 rec) < 2 ^ 32"
    by (simp_all add: demo_batches_def KDBG_TIMESTAMP_MASK_def)
  ultimately obtain events p' where "process_batches id demo_batches ?p = Some (events, p')"
    "\<forall>i \<in> set (reported_intervals events). iv_pid i = 77"
    using pipeline_intervals_disjoint [of ?p demo_batches id] by auto
  with demo_batches_events show ?thesis by auto
qed

end
