(* ===== verification/Client.thy ===== *)
theory Client
  imports Session Pipeline
begin

text \<open>
  The client of the recording daemon (\<open>staxd-client/src/lib.rs\<close>): a receive loop that does nothing
  but hand every batch to two bounded queues, a scanner thread that reports the start of a sample
  as soon as its user stack is announced, and a worker thread that owns the recording pipeline.
  Threads are functions of what they are given: the messages they receive, the clocks, and when the
  other side takes from a queue. Logging is left out.
\<close>

section \<open>Options\<close>

record remote_options =
  ro_daemon_socket :: string
  ro_pid :: u32
  ro_frequency_hz :: u32
  ro_duration :: "nat option"
  ro_buf_records :: u32
  ro_task :: "u32 option"

definition default_options :: remote_options where
  "default_options = \<lparr>ro_daemon_socket = ''/tmp/staxd.sock'', ro_pid = 0, ro_frequency_hz = 1000,
     ro_duration = None, ro_buf_records = 1000000, ro_task = None\<rparr>"

datatype client_error =
  ClientConnect string string
| ClientRpc record_error
| ClientVoxCall string
| WorkerShutdownTimedOut nat

definition daemon_url :: "remote_options \<Rightarrow> string" where
  "daemon_url opts =
     (if prefix ''local://'' (ro_daemon_socket opts) then ro_daemon_socket opts
      else ''local://'' @ ro_daemon_socket opts)"

definition connect_hint :: string where
  "connect_hint = '' (daemon socket doesn'' @ [CHR 0x27] @ ''t exist '' @ [CHR 0xE2, CHR 0x80, CHR 0x94] @
     '' is staxd running? try `sudo stax setup` to install it as a LaunchDaemon, '' @
     ''or `sudo staxd --socket <path>` for a one-off)''"

definition connect_error :: "bool \<Rightarrow> remote_options \<Rightarrow> string \<Rightarrow> client_error" where
  "connect_error socket_exists opts source =
     ClientConnect (daemon_url opts @
       (if \<not> socket_exists \<and> \<not> prefix ''local://'' (ro_daemon_socket opts) then connect_hint else [])) source"

definition client_pipeline_config :: "remote_options \<Rightarrow> pipeline_config" where
  "client_pipeline_config opts = \<lparr>pc_pid = ro_pid opts, pc_frequency_hz = ro_frequency_hz opts,
     pc_pmc_idx_l1d = None, pc_pmc_idx_brmiss = None, pc_task = ro_task opts\<rparr>"

definition SAMPLER_TH_INFO :: u32 where "SAMPLER_TH_INFO = push_bit 0 1"
definition SAMPLER_KSTACK :: u32 where "SAMPLER_KSTACK = push_bit 2 1"
definition SAMPLER_USTACK :: u32 where "SAMPLER_USTACK = push_bit 3 1"
definition SAMPLER_PMC_THREAD :: u32 where "SAMPLER_PMC_THREAD = push_bit 4 1"
definition KPC_CLASS_FIXED :: nat where "KPC_CLASS_FIXED = 0"
definition KPC_CLASS_FIXED_MASK :: u32 where "KPC_CLASS_FIXED_MASK = push_bit KPC_CLASS_FIXED 1"

definition client_session_config :: "remote_options \<Rightarrow> session_config" where
  "client_session_config opts =
     \<lparr>sc_target_pid = ro_pid opts, sc_frequency_hz = ro_frequency_hz opts, sc_buf_records = ro_buf_records opts,
      sc_samplers = SAMPLER_TH_INFO OR SAMPLER_USTACK OR SAMPLER_KSTACK OR SAMPLER_PMC_THREAD,
      sc_pmu_event_configs = [], sc_class_mask = KPC_CLASS_FIXED_MASK,
      sc_filter_range_value1 = kdbg_eventid DBG_MACH DBG_MACH_SCHED 0,
      sc_filter_range_value2 = kdbg_eventid DBG_PERF 0xff 0x3fff, sc_typefilter_cscs = []\<rparr>"

section \<open>Queues\<close>

text \<open>A counter shared between threads: adding wraps, the maximum only grows.\<close>

definition update_max :: "u64 \<Rightarrow> u64 \<Rightarrow> u64" where
  "update_max m value = (if m < value then value else m)"

definition u64_of_usize :: "nat \<Rightarrow> u64" where
  "u64_of_usize n = (if n < 2 ^ 64 then of_nat n else - 1)"

record owned_batch =
  ob_enqueued_at :: nat
  ob_records :: "kd_buf list"

record parser_queue_counters =
  pq_dropped_chunks :: u64
  pq_dropped_records :: u64
  pq_dropped_kperf_samples :: u64
  pq_max_depth :: u64
  pq_max_age_ns :: u64

record parser_drop_summary =
  ds_chunks :: u64
  ds_records :: u64
  ds_kperf_samples :: u64

definition no_parser_counters :: parser_queue_counters where
  "no_parser_counters = \<lparr>pq_dropped_chunks = 0, pq_dropped_records = 0, pq_dropped_kperf_samples = 0,
     pq_max_depth = 0, pq_max_age_ns = 0\<rparr>"

definition empty_summary :: parser_drop_summary where
  "empty_summary = \<lparr>ds_chunks = 0, ds_records = 0, ds_kperf_samples = 0\<rparr>"

definition add_summary :: "parser_drop_summary \<Rightarrow> parser_drop_summary \<Rightarrow> parser_drop_summary" where
  "add_summary s other = \<lparr>ds_chunks = sat_add (ds_chunks s) (ds_chunks other),
     ds_records = sat_add (ds_records s) (ds_records other),
     ds_kperf_samples = sat_add (ds_kperf_samples s) (ds_kperf_samples other)\<rparr>"

definition summary_is_empty :: "parser_drop_summary \<Rightarrow> bool" where
  "summary_is_empty s \<longleftrightarrow> ds_records s = 0 \<and> ds_chunks s = 0 \<and> ds_kperf_samples s = 0"

definition drop_summary :: "owned_batch \<Rightarrow> parser_drop_summary" where
  "drop_summary batch = \<lparr>ds_chunks = 1, ds_records = of_nat (length (ob_records batch)), ds_kperf_samples = 0\<rparr>"

definition parser_record_drop :: "parser_drop_summary \<Rightarrow> parser_queue_counters \<Rightarrow> parser_queue_counters" where
  "parser_record_drop d c = c\<lparr>pq_dropped_chunks := pq_dropped_chunks c + ds_chunks d,
     pq_dropped_records := pq_dropped_records c + ds_records d,
     pq_dropped_kperf_samples := pq_dropped_kperf_samples c + ds_kperf_samples d\<rparr>"

definition update_max_depth :: "nat \<Rightarrow> parser_queue_counters \<Rightarrow> parser_queue_counters" where
  "update_max_depth depth c = c\<lparr>pq_max_depth := update_max (pq_max_depth c) (u64_of_usize depth)\<rparr>"

definition update_max_age :: "nat \<Rightarrow> parser_queue_counters \<Rightarrow> parser_queue_counters" where
  "update_max_age age c = c\<lparr>pq_max_age_ns := update_max (pq_max_age_ns c) (of_nat age)\<rparr>"

type_synonym parser_queue = "(owned_batch, parser_queue_counters) drop_queue"

definition WORKER_QUEUE_CAPACITY :: nat where "WORKER_QUEUE_CAPACITY = 16"
definition PROBE_SCANNER_QUEUE_CAPACITY :: nat where "PROBE_SCANNER_QUEUE_CAPACITY = 64"

text \<open>\<open>now\<close> is the clock at the call, \<open>takes\<close> what the worker takes during it.\<close>

definition enqueue_records :: "nat \<Rightarrow> (nat \<Rightarrow> nat) \<Rightarrow> kd_buf list \<Rightarrow> parser_queue \<Rightarrow> (bool \<times> parser_queue) option" where
  "enqueue_records now takes records q =
     enqueue_loop (\<lambda>_. False) (\<lambda>msg. parser_record_drop (drop_summary msg)) update_max_depth takes 0
       \<lparr>ob_enqueued_at = now, ob_records = records\<rparr> q"

definition drain_parser_backlog_for_abort ::
  "owned_batch list \<Rightarrow> parser_queue_counters \<Rightarrow> parser_drop_summary \<times> parser_queue_counters" where
  "drain_parser_backlog_for_abort backlog c =
     (let summary = fold (\<lambda>msg s. add_summary s (drop_summary msg)) backlog empty_summary in
      (summary, if summary_is_empty summary then c else parser_record_drop summary c))"

record probe_trigger_timing =
  kt_kperf_ts :: u64
  kt_staxd_read_started :: u64
  kt_staxd_drained :: u64
  kt_staxd_queued_for_send :: u64
  kt_staxd_send_started :: u64
  kt_client_received :: u64

record probe_scanner_batch =
  pb_records :: "kd_buf list"
  pb_timing :: probe_trigger_timing

record probe_scanner_counters =
  sq_dropped_batches :: u64
  sq_dropped_records :: u64
  sq_dropped_kperf_samples :: u64
  sq_max_depth :: u64

definition no_scanner_counters :: probe_scanner_counters where
  "no_scanner_counters = \<lparr>sq_dropped_batches = 0, sq_dropped_records = 0, sq_dropped_kperf_samples = 0, sq_max_depth = 0\<rparr>"

definition scanner_record_drop :: "probe_scanner_batch \<Rightarrow> probe_scanner_counters \<Rightarrow> probe_scanner_counters" where
  "scanner_record_drop batch c = c\<lparr>sq_dropped_batches := sq_dropped_batches c + 1,
     sq_dropped_records := sq_dropped_records c + of_nat (length (pb_records batch))\<rparr>"

definition scanner_update_max_depth :: "nat \<Rightarrow> probe_scanner_counters \<Rightarrow> probe_scanner_counters" where
  "scanner_update_max_depth depth c = c\<lparr>sq_max_depth := update_max (sq_max_depth c) (u64_of_usize depth)\<rparr>"

type_synonym probe_scanner_queue = "(probe_scanner_batch, probe_scanner_counters) drop_queue"

definition enqueue_batch ::
  "(nat \<Rightarrow> nat) \<Rightarrow> probe_scanner_batch \<Rightarrow> probe_scanner_queue \<Rightarrow> (bool \<times> probe_scanner_queue) option" where
  "enqueue_batch takes batch q =
     enqueue_loop (\<lambda>_. False) scanner_record_drop scanner_update_max_depth takes 0 batch q"

text \<open>Both queues keep the contract of a queue that counts what it loses.\<close>

interpretation parserq: loss_counter "\<lambda>_. False" "\<lambda>msg. parser_record_drop (drop_summary msg)" update_max_depth
  "\<lambda>b. length (ob_records b)" pq_dropped_records
  by unfold_locales
    (simp_all add: parser_record_drop_def drop_summary_def update_max_depth_def unat_word_ariths unat_of_nat)

interpretation scannerq: loss_counter "\<lambda>_. False" scanner_record_drop scanner_update_max_depth
  "\<lambda>b. length (pb_records b)" sq_dropped_records
  by unfold_locales
    (simp_all add: scanner_record_drop_def scanner_update_max_depth_def unat_word_ariths unat_of_nat)

section \<open>The probe scanner\<close>

record pending_probe_sample =
  pp_tid :: u32
  pp_timestamp :: u64
  pp_triggered :: bool

type_synonym probe_scanner = "pending_probe_sample option"

definition probe_scanner_feed :: "kd_buf \<Rightarrow> probe_scanner \<Rightarrow> (u32 \<times> u64) option \<times> probe_scanner" where
  "probe_scanner_feed rec scanner =
     (let d = kd_debugid rec; subclass = kdbg_subclass d; code = kdbg_code d; func = kdbg_func d in
      if kdbg_class d \<noteq> DBG_PERF then (None, scanner)
      else if subclass = SC_GENERIC \<and> code = 0 \<and> func = DBG_FUNC_START
      then (None, Some \<lparr>pp_tid = ucast (kd_arg5 rec), pp_timestamp = kd_timestamp rec AND KDBG_TIMESTAMP_MASK,
              pp_triggered = False\<rparr>)
      else if subclass = SC_GENERIC \<and> code = 0 \<and> func = DBG_FUNC_END then (None, None)
      else if subclass = SC_CALLSTACK \<and> code = CS_UHDR
      then (case scanner of
              None \<Rightarrow> (None, None)
            | Some pending \<Rightarrow>
                if pp_triggered pending then (None, scanner)
                else if frames_announced rec = 0 then (None, scanner)
                else (Some (pp_tid pending, pp_timestamp pending), Some (pending\<lparr>pp_triggered := True\<rparr>)))
      else (None, scanner))"

primrec scan_records :: "kd_buf list \<Rightarrow> probe_scanner \<Rightarrow> (u32 \<times> u64) list \<times> probe_scanner" where
  "scan_records [] sc = ([], sc)"
| "scan_records (rec # recs) sc =
     (let (t, sc1) = probe_scanner_feed rec sc; (ts, sc2) = scan_records recs sc1 in
      ((case t of None \<Rightarrow> ts | Some x \<Rightarrow> x # ts), sc2))"

text \<open>The thread: the calls of the hook, in order, and the count of triggers.\<close>

primrec probe_scanner_thread ::
  "probe_scanner_batch list \<Rightarrow> probe_scanner \<times> u64 \<Rightarrow> (u32 \<times> probe_trigger_timing) list \<times> probe_scanner \<times> u64" where
  "probe_scanner_thread [] s = ([], s)"
| "probe_scanner_thread (batch # batches) s =
     (let (triggers, sc) = scan_records (pb_records batch) (fst s);
          (hooks, s') = probe_scanner_thread batches (sc, snd s + of_nat (length triggers)) in
      (map (\<lambda>(tid, ts). (tid, (pb_timing batch)\<lparr>kt_kperf_ts := ts\<rparr>)) triggers @ hooks, s'))"

section \<open>The receive loop\<close>

datatype recv_batch = RecvBatch kd_buf_batch | RecvClosed | RecvFailed | RecvTimedOut

text \<open>What one turn of the loop is given: the stop hook, the clock, the channel, and the threads.\<close>

record recv_input =
  rv_should_stop :: bool
  rv_elapsed :: nat
  rv_recv :: recv_batch
  rv_received_mach_ticks :: u64
  rv_now :: nat
  rv_scanner_takes :: "nat \<Rightarrow> nat"
  rv_parser_takes :: "nat \<Rightarrow> nat"

record recv_state =
  cs_total_drained :: u64
  cs_seen_first_batch :: bool
  cs_first_batch_calls :: nat
  cs_seen_first_nonempty :: bool
  cs_stop_requested :: bool
  cs_scanner_queue :: probe_scanner_queue
  cs_parser_queue :: parser_queue

definition start_receiving :: recv_state where
  "start_receiving = \<lparr>cs_total_drained = 0, cs_seen_first_batch = False, cs_first_batch_calls = 0,
     cs_seen_first_nonempty = False, cs_stop_requested = False,
     cs_scanner_queue = receiver (new_queue PROBE_SCANNER_QUEUE_CAPACITY no_scanner_counters),
     cs_parser_queue = receiver (new_queue WORKER_QUEUE_CAPACITY no_parser_counters)\<rparr>"

datatype recv_flow = Receiving recv_state | ReceiveEnded recv_state

definition timing_of :: "kd_buf_batch \<Rightarrow> u64 \<Rightarrow> probe_trigger_timing" where
  "timing_of batch received =
     \<lparr>kt_kperf_ts = 0, kt_staxd_read_started = kb_read_started batch, kt_staxd_drained = kb_drained batch,
      kt_staxd_queued_for_send = kb_queued_for_send batch, kt_staxd_send_started = kb_send_started batch,
      kt_client_received = received\<rparr>"

text \<open>\<open>None\<close> when a queue operation does not return.\<close>

definition handle_batch :: "recv_input \<Rightarrow> kd_buf_batch \<Rightarrow> recv_state \<Rightarrow> recv_state option" where
  "handle_batch rv batch s =
     (let s1 = (if cs_seen_first_batch s then s
                else s\<lparr>cs_seen_first_batch := True, cs_first_batch_calls := cs_first_batch_calls s + 1\<rparr>);
          s2 = (if kb_records batch \<noteq> [] \<and> \<not> cs_seen_first_nonempty s1 then s1\<lparr>cs_seen_first_nonempty := True\<rparr> else s1);
          s3 = s2\<lparr>cs_total_drained := cs_total_drained s2 + of_nat (length (kb_records batch))\<rparr> in
      case enqueue_batch (rv_scanner_takes rv)
             \<lparr>pb_records = kb_records batch, pb_timing = timing_of batch (rv_received_mach_ticks rv)\<rparr> (cs_scanner_queue s3) of
        None \<Rightarrow> None
      | Some (_, sq) \<Rightarrow>
          (case enqueue_records (rv_now rv) (rv_parser_takes rv) (kb_records batch) (cs_parser_queue s3) of
             None \<Rightarrow> None
           | Some (_, pq) \<Rightarrow> Some (s3\<lparr>cs_scanner_queue := sq, cs_parser_queue := pq\<rparr>)))"

definition recv_iteration :: "remote_options \<Rightarrow> recv_input \<Rightarrow> recv_state \<Rightarrow> recv_flow option" where
  "recv_iteration opts rv s =
     (if rv_should_stop rv then Some (ReceiveEnded (s\<lparr>cs_stop_requested := True\<rparr>))
      else if (case ro_duration opts of Some d \<Rightarrow> d \<le> rv_elapsed rv | None \<Rightarrow> False)
      then Some (ReceiveEnded (s\<lparr>cs_stop_requested := True\<rparr>))
      else case rv_recv rv of
        RecvClosed \<Rightarrow> Some (ReceiveEnded s)
      | RecvFailed \<Rightarrow> Some (ReceiveEnded s)
      | RecvTimedOut \<Rightarrow> Some (Receiving s)
      | RecvBatch batch \<Rightarrow> map_option Receiving (handle_batch rv batch s))"

primrec receive_loop :: "remote_options \<Rightarrow> recv_input list \<Rightarrow> recv_state \<Rightarrow> recv_flow option" where
  "receive_loop opts [] s = Some (Receiving s)"
| "receive_loop opts (rv # rvs) s =
     (case recv_iteration opts rv s of
        Some (Receiving s') \<Rightarrow> receive_loop opts rvs s'
      | other \<Rightarrow> other)"

fun recv_flow_state :: "recv_flow \<Rightarrow> recv_state" where
  "recv_flow_state (Receiving s) = s"
| "recv_flow_state (ReceiveEnded s) = s"

section \<open>The probe fires for every sample that is reported\<close>

definition sample_start :: "kd_buf \<Rightarrow> bool" where
  "sample_start rec \<longleftrightarrow> kdbg_class (kd_debugid rec) = DBG_PERF \<and> kdbg_subclass (kd_debugid rec) = SC_GENERIC \<and>
     kdbg_code (kd_debugid rec) = 0 \<and> kdbg_func (kd_debugid rec) = DBG_FUNC_START"

definition sample_key :: "sample \<Rightarrow> u32 \<times> u64" where
  "sample_key s = (smp_tid s, smp_timestamp_ns s)"

definition stack_keys :: "sample list \<Rightarrow> (u32 \<times> u64) list" where
  "stack_keys ss = map sample_key (filter (\<lambda>s. smp_user_backtrace s \<noteq> []) ss)"

lemma stack_keys_append [simp]: "stack_keys (xs @ ys) = stack_keys xs @ stack_keys ys" "stack_keys [] = []"
  by (simp_all add: stack_keys_def)

text \<open>
  The scanner has a pending sample exactly while the parser is in one, the same; and it has
  triggered if the parser has user frames or expects some. What it triggered covers the samples
  so far, and the pending one if it triggered for that.
\<close>

definition scanner_follows :: "parser \<Rightarrow> probe_scanner \<Rightarrow> bool" where
  "scanner_follows p sc = (case ps_state p of
      StateIdle \<Rightarrow> sc = None
    | InSample tid ts \<Rightarrow> (\<exists>triggered. sc = Some \<lparr>pp_tid = tid, pp_timestamp = ts, pp_triggered = triggered\<rparr> \<and>
        (triggered \<or> user_frames p = [] \<and> user_remaining p = 0)))"

definition pending_key :: "probe_scanner \<Rightarrow> (u32 \<times> u64) list" where
  "pending_key sc = (case sc of Some pending \<Rightarrow>
     if pp_triggered pending then [(pp_tid pending, pp_timestamp pending)] else [] | None \<Rightarrow> [])"

definition untriggered :: "probe_scanner \<Rightarrow> nat" where
  "untriggered sc = (case sc of Some pending \<Rightarrow> if pp_triggered pending then 0 else 1 | None \<Rightarrow> 0)"

definition covered :: "sample list \<Rightarrow> (u32 \<times> u64) list \<Rightarrow> probe_scanner \<Rightarrow> bool" where
  "covered ss triggers sc \<longleftrightarrow> subseq (stack_keys ss @ pending_key sc) triggers"

lemma in_sample_cases: "in_sample p \<longleftrightarrow> (\<exists>tid ts. ps_state p = InSample tid ts)"
  by (cases "ps_state p") simp_all

lemma normalize_frames_Nil [simp]: "normalize_frames strip n [] = []"
  by (simp add: normalize_frames_def)

lemma subseq_drop_last: "subseq (xs @ ys) zs \<Longrightarrow> subseq xs zs"
  by (metis list_emb_prefix subseq_order.order_refl subseq_order.order_trans)

text \<open>The kinds of records that concern the scanner.\<close>

abbreviation (input) perf_id :: "kd_buf \<Rightarrow> u8 \<Rightarrow> u16 \<Rightarrow> bool" where
  "perf_id rec sub c \<equiv> kdbg_class (kd_debugid rec) = DBG_PERF \<and> kdbg_subclass (kd_debugid rec) = sub \<and>
     kdbg_code (kd_debugid rec) = c"

lemma start_step:
  assumes "sample_start rec"
  shows "feed strip rec p = (start_sample rec p, None)"
    "probe_scanner_feed rec sc = (None, Some \<lparr>pp_tid = ucast (kd_arg5 rec),
       pp_timestamp = kd_timestamp rec AND KDBG_TIMESTAMP_MASK, pp_triggered = False\<rparr>)"
  using assms by (simp_all add: feed_def probe_scanner_feed_def sample_start_def)

lemma end_step:
  assumes "perf_id rec SC_GENERIC 0" "kdbg_func (kd_debugid rec) = DBG_FUNC_END"
  shows "feed strip rec p = end_sample strip p" "probe_scanner_feed rec sc = (None, None)"
  using assms by (simp_all add: feed_def probe_scanner_feed_def DBG_FUNC_START_def DBG_FUNC_END_def)

lemma uhdr_step:
  assumes "perf_id rec SC_CALLSTACK CS_UHDR"
  shows "feed strip rec p = (user_header rec p, None)"
    "probe_scanner_feed rec sc = (case sc of
        None \<Rightarrow> (None, None)
      | Some pending \<Rightarrow>
          if pp_triggered pending then (None, sc)
          else if frames_announced rec = 0 then (None, sc)
          else (Some (pp_tid pending, pp_timestamp pending), Some (pending\<lparr>pp_triggered := True\<rparr>)))"
  using assms by (simp_all add: feed_def probe_scanner_feed_def SC_GENERIC_def SC_CALLSTACK_def)

lemma other_step:
  assumes "\<not> sample_start rec" "\<not> (perf_id rec SC_GENERIC 0 \<and> kdbg_func (kd_debugid rec) = DBG_FUNC_END)"
    "\<not> perf_id rec SC_CALLSTACK CS_UHDR" "feed strip rec p = (p', s)"
  shows "probe_scanner_feed rec sc = (None, sc)" "s = None" "ps_state p' = ps_state p"
    "user_frames p = [] \<and> user_remaining p = 0 \<Longrightarrow> user_frames p' = [] \<and> user_remaining p' = 0"
proof -
  show "probe_scanner_feed rec sc = (None, sc)"
    using assms(1-3) by (auto simp: probe_scanner_feed_def sample_start_def Let_def)
  have "(p', s) \<in> {(p, None), (kernel_header rec p, None), (append_chunk rec True p, None),
    (append_chunk rec False p, None), (p\<lparr>pmc := pmc p @ chunk_of rec\<rparr>, None), (walk_error rec p, None)}"
    using assms(1-3) unfolding assms(4) [symmetric] feed_def Let_def sample_start_def
    by (intro if_mem) blast+
  then show "s = None" "ps_state p' = ps_state p"
    "user_frames p = [] \<and> user_remaining p = 0 \<Longrightarrow> user_frames p' = [] \<and> user_remaining p' = 0"
    by (auto simp: kernel_header_def append_chunk_def walk_error_def Let_def sat_sub_def)
qed

lemma scanner_step:
  assumes "feed strip rec p = (p', s)" "probe_scanner_feed rec sc = (t, sc')" "scanner_follows p sc"
    "covered ss triggers sc"
  shows "scanner_follows p' sc' \<and>
    covered (ss @ case_option [] (\<lambda>x. [x]) s) (triggers @ case_option [] (\<lambda>x. [x]) t) sc' \<and>
    length (case_option [] (\<lambda>x. [x]) t) + untriggered sc' \<le> untriggered sc + of_bool (sample_start rec)"
proof -
  consider (start) "sample_start rec"
    | (stop) "perf_id rec SC_GENERIC 0" "kdbg_func (kd_debugid rec) = DBG_FUNC_END" "\<not> sample_start rec"
    | (uhdr) "perf_id rec SC_CALLSTACK CS_UHDR" "\<not> sample_start rec"
    | (other) "\<not> sample_start rec" "\<not> (perf_id rec SC_GENERIC 0 \<and> kdbg_func (kd_debugid rec) = DBG_FUNC_END)"
        "\<not> perf_id rec SC_CALLSTACK CS_UHDR" by blast
  then show ?thesis
  proof cases
    case start
    have "subseq (stack_keys ss) triggers" using assms(4) unfolding covered_def by (rule subseq_drop_last)
    then show ?thesis
      using assms(1,2) start unfolding start_step [OF start]
      by (auto simp: scanner_follows_def start_sample_def Let_def covered_def pending_key_def untriggered_def)
  next
    case stop
    show ?thesis
    proof (cases "ps_state p")
      case StateIdle
      then show ?thesis
        using assms unfolding end_step [OF stop(1,2)]
        by (auto simp: end_sample_def scanner_follows_def covered_def pending_key_def untriggered_def)
    next
      case (InSample tid ts)
      with assms(3) obtain tr where sc: "sc = Some \<lparr>pp_tid = tid, pp_timestamp = ts, pp_triggered = tr\<rparr>"
        "tr \<or> user_frames p = [] \<and> user_remaining p = 0" by (auto simp: scanner_follows_def)
      define x where "x = finish_sample (normalize_user_fixup strip p) tid ts"
      have x: "s = Some x" "ps_state p' = StateIdle" "t = None" "sc' = None"
        using assms(1,2) InSample unfolding end_step [OF stop(1,2)] x_def by (auto simp: end_sample_def Let_def)
      have key: "sample_key x = (tid, ts)" by (simp add: x_def sample_key_def finish_sample_def)
      have st: "user_frames p = [] \<Longrightarrow> smp_user_backtrace x = []"
        by (simp add: x_def finish_sample_def normalize_user_fixup_def)
      have "subseq (stack_keys ss @ stack_keys [x]) triggers"
      proof (cases "smp_user_backtrace x = []")
        case True
        then show ?thesis using assms(4) by (auto simp: covered_def stack_keys_def dest: subseq_drop_last)
      next
        case False
        with st sc(2) have tr by blast
        then show ?thesis using assms(4) False key sc(1) by (simp add: covered_def pending_key_def stack_keys_def)
      qed
      then show ?thesis
        using x stop(3) by (simp add: scanner_follows_def covered_def pending_key_def untriggered_def)
    qed
  next
    case uhdr
    show ?thesis
    proof (cases "ps_state p")
      case StateIdle
      then show ?thesis
        using assms unfolding uhdr_step [OF uhdr(1)]
        by (auto simp: user_header_def scanner_follows_def covered_def pending_key_def untriggered_def)
    next
      case (InSample tid ts)
      with assms(3) obtain tr where sc: "sc = Some \<lparr>pp_tid = tid, pp_timestamp = ts, pp_triggered = tr\<rparr>"
        "tr \<or> user_frames p = [] \<and> user_remaining p = 0" by (auto simp: scanner_follows_def)
      have s: "s = None" "ps_state p' = InSample tid ts" "user_frames p' = user_frames p" "user_remaining p' = frames_announced rec"
        using assms(1) InSample unfolding uhdr_step [OF uhdr(1)]
        by (auto simp: user_header_def frames_announced_def Let_def)
      have cov: "subseq (stack_keys ss @ (if tr then [(tid, ts)] else [])) triggers"
        using assms(4) sc(1) by (cases tr) (simp_all add: covered_def pending_key_def)
      show ?thesis
        using assms(2) s cov sc uhdr(2) unfolding uhdr_step [OF uhdr(1)]
        by (auto simp: scanner_follows_def covered_def pending_key_def untriggered_def split: if_splits
            intro: list_emb_append_mono)
    qed
  next
    case other
    note o = other_step [OF other assms(1)]
    have sc: "t = None" "sc' = sc" using assms(2) o(1) by simp_all
    have "scanner_follows p' sc'"
      using assms(3) o(3,4) sc(2) by (auto simp: scanner_follows_def split: parser_state.splits)
    then show ?thesis using assms(4) o(2) sc by simp
  qed
qed

lemma scanner_run:
  assumes "feed_all strip recs p = (p', ss)" "scan_records recs sc = (ts, sc')" "scanner_follows p sc"
    "covered ss0 triggers sc"
  shows "covered (ss0 @ ss) (triggers @ ts) sc' \<and>
    length ts + untriggered sc' \<le> untriggered sc + length (filter sample_start recs)"
  using assms
proof (induction recs arbitrary: p sc ss ts ss0 triggers)
  case (Cons rec recs)
  obtain p1 s where f: "feed strip rec p = (p1, s)" by fastforce
  obtain t sc1 where g: "probe_scanner_feed rec sc = (t, sc1)" by fastforce
  obtain ss1 where ss1: "feed_all strip recs p1 = (p', ss1)" "ss = case_option [] (\<lambda>x. [x]) s @ ss1"
    using Cons.prems(1) f by (auto split: prod.splits option.splits)
  obtain ts1 where ts1: "scan_records recs sc1 = (ts1, sc')" "ts = case_option [] (\<lambda>x. [x]) t @ ts1"
    using Cons.prems(2) g by (auto split: prod.splits option.splits)
  note step = scanner_step [OF f g Cons.prems(3,4)]
  from Cons.IH [OF ss1(1) ts1(1), of "ss0 @ case_option [] (\<lambda>x. [x]) s" "triggers @ case_option [] (\<lambda>x. [x]) t"] step
  show ?case unfolding ss1(2) ts1(2) by auto
qed simp

text \<open>
  C33: run beside the parser on the same records, whatever they are, the probe scanner has triggered,
  in order, with their thread and time, for all samples the parser reports with a user stack; and it
  triggers at most once for each sample that is started.
\<close>

theorem probe_fires_for_samples:
  assumes "feed_all strip recs new_parser = (p, ss)" "scan_records recs None = (triggers, sc)"
  shows "subseq (map (\<lambda>s. (smp_tid s, smp_timestamp_ns s)) (filter (\<lambda>s. smp_user_backtrace s \<noteq> []) ss)) triggers \<and>
    length triggers \<le> length (filter sample_start recs)"
proof -
  have "scanner_follows new_parser None" "covered [] [] None"
    by (simp_all add: scanner_follows_def new_parser_def covered_def pending_key_def)
  from scanner_run [OF assms this] have "covered ss triggers sc"
    "length triggers + untriggered sc \<le> untriggered None + length (filter sample_start recs)" by simp_all
  then show ?thesis
    by (auto simp: covered_def stack_keys_def sample_key_def [abs_def] untriggered_def dest: subseq_drop_last)
qed

text \<open>One sample: its probe fires.\<close>

theorem probe_fires_for_samples_witness:
  "\<exists>triggers sc. scan_records (sample_records 123 42 5 0 [10, 20, 30, 40, 99] [] [7, 8]) None = (triggers, sc) \<and>
     subseq [(42, 123)] triggers"
proof -
  let ?rs = "sample_records 123 42 5 0 [10, 20, 30, 40, 99] [] [7, 8]"
  let ?s = "expected_sample id 123 42 5 [10, 20, 30, 40, 99] [] [7, 8]"
  obtain p' where f: "feed_all id ?rs new_parser = (p', [?s])"
    using sample_parts [of "[10, 20, 30, 40, 99]" 5 0 "[]" "[7, 8]" id 123 42 new_parser] by auto
  obtain triggers sc where g: "scan_records ?rs None = (triggers, sc)" by fastforce
  have "smp_user_backtrace ?s = [10, 99, 20, 30, 40]" "smp_tid ?s = 42" "smp_timestamp_ns ?s = 123"
    by (simp_all add: expected_sample_def normalize_frames_def remove_at_def insert_at_def Let_def KDBG_TIMESTAMP_MASK_def)
  with probe_fires_for_samples [OF f g] g show ?thesis by simp
qed

section \<open>The receive loop accounts for every record\<close>

abbreviation parser_lost :: "recv_state \<Rightarrow> nat" where
  "parser_lost s \<equiv> unat (pq_dropped_records (dq_counters (cs_parser_queue s)))"

abbreviation scanner_lost :: "recv_state \<Rightarrow> nat" where
  "scanner_lost s \<equiv> unat (sq_dropped_records (dq_counters (cs_scanner_queue s)))"

text \<open>The batches handed to a thread: taken from its queue, or still in it.\<close>

abbreviation parser_batches :: "recv_state \<Rightarrow> owned_batch list" where
  "parser_batches s \<equiv> dq_taken (cs_parser_queue s) @ queued (cs_parser_queue s)"

abbreviation scanner_batches :: "recv_state \<Rightarrow> probe_scanner_batch list" where
  "scanner_batches s \<equiv> dq_taken (cs_scanner_queue s) @ queued (cs_scanner_queue s)"

definition ends_session :: "remote_options \<Rightarrow> recv_input \<Rightarrow> bool" where
  "ends_session opts rv \<longleftrightarrow> rv_should_stop rv \<or>
     (case ro_duration opts of Some d \<Rightarrow> d \<le> rv_elapsed rv | None \<Rightarrow> False)"

primrec received_batches :: "remote_options \<Rightarrow> recv_input list \<Rightarrow> kd_buf_batch list" where
  "received_batches opts [] = []"
| "received_batches opts (rv # rvs) =
     (if ends_session opts rv then []
      else case rv_recv rv of
        RecvBatch batch \<Rightarrow> batch # received_batches opts rvs
      | RecvTimedOut \<Rightarrow> received_batches opts rvs
      | _ \<Rightarrow> [])"

abbreviation batch_records :: "kd_buf_batch list \<Rightarrow> kd_buf list" where
  "batch_records bs \<equiv> concat (map kb_records bs)"

definition recv_inv :: "kd_buf_batch list \<Rightarrow> recv_state \<Rightarrow> bool" where
  "recv_inv bs s \<longleftrightarrow> queue_ok (cs_parser_queue s) \<and> queue_ok (cs_scanner_queue s) \<and>
     unat (cs_total_drained s) = length (batch_records bs) \<and>
     parser_lost s + length (concat (map ob_records (parser_batches s))) = length (batch_records bs) \<and>
     subseq (map ob_records (parser_batches s)) (map kb_records bs) \<and>
     scanner_lost s + length (concat (map pb_records (scanner_batches s))) = length (batch_records bs) \<and>
     subseq (map pb_records (scanner_batches s)) (map kb_records bs) \<and>
     cs_seen_first_batch s = (bs \<noteq> []) \<and> cs_first_batch_calls s = of_bool (bs \<noteq> [])"

lemma parserq_weights: "parserq.weights bs = length (concat (map ob_records bs))"
  by (induction bs) simp_all

lemma scannerq_weights: "scannerq.weights bs = length (concat (map pb_records bs))"
  by (induction bs) simp_all

lemma enqueue_records_counts:
  assumes "queue_ok q" "unat (pq_dropped_records (dq_counters q)) +
      length (concat (map ob_records (dq_taken q @ queued q))) + length records < 2 ^ 64"
  shows "\<exists>q'. enqueue_records now takes records q = Some (True, q') \<and> queue_ok q' \<and>
    unat (pq_dropped_records (dq_counters q')) + length (concat (map ob_records (dq_taken q' @ queued q'))) =
      unat (pq_dropped_records (dq_counters q)) + length (concat (map ob_records (dq_taken q @ queued q))) + length records \<and>
    subseq (map ob_records (dq_taken q' @ queued q')) (map ob_records (dq_taken q @ queued q) @ [records])"
proof -
  let ?b = "\<lparr>ob_enqueued_at = now, ob_records = records\<rparr>"
  obtain q' where q': "enqueue_records now takes records q = Some (True, q')" "queue_ok q'"
    "unat (pq_dropped_records (dq_counters q')) + parserq.weights (dq_taken q' @ queued q') =
      unat (pq_dropped_records (dq_counters q)) + parserq.weights (dq_taken q @ queued q) + length (ob_records ?b)"
    "subseq (dq_taken q' @ queued q') (dq_taken q @ queued q @ [?b])"
    using parserq.enqueue_conserves [OF assms(1), of ?b takes] assms(2)
    unfolding parserq_weights enqueue_records_def by auto
  from subseq_map [OF q'(4), of ob_records] q'(1-3) show ?thesis unfolding parserq_weights by simp
qed

lemma enqueue_batch_counts:
  assumes "queue_ok q" "unat (sq_dropped_records (dq_counters q)) +
      length (concat (map pb_records (dq_taken q @ queued q))) + length (pb_records b) < 2 ^ 64"
  shows "\<exists>q'. enqueue_batch takes b q = Some (True, q') \<and> queue_ok q' \<and>
    unat (sq_dropped_records (dq_counters q')) + length (concat (map pb_records (dq_taken q' @ queued q'))) =
      unat (sq_dropped_records (dq_counters q)) + length (concat (map pb_records (dq_taken q @ queued q))) + length (pb_records b) \<and>
    subseq (map pb_records (dq_taken q' @ queued q')) (map pb_records (dq_taken q @ queued q) @ [pb_records b])"
proof -
  obtain q' where q': "enqueue_batch takes b q = Some (True, q')" "queue_ok q'"
    "unat (sq_dropped_records (dq_counters q')) + scannerq.weights (dq_taken q' @ queued q') =
      unat (sq_dropped_records (dq_counters q)) + scannerq.weights (dq_taken q @ queued q) + length (pb_records b)"
    "subseq (dq_taken q' @ queued q') (dq_taken q @ queued q @ [b])"
    using scannerq.enqueue_conserves [OF assms(1), of b takes] assms(2)
    unfolding scannerq_weights enqueue_batch_def by auto
  from subseq_map [OF q'(4), of pb_records] q'(1-3) show ?thesis unfolding scannerq_weights by simp
qed

lemma subseq_snoc_trans: "subseq xs (ys @ [x]) \<Longrightarrow> subseq ys zs \<Longrightarrow> subseq xs (zs @ [x])"
  by (meson list_emb_append_mono subseq_order.order_refl subseq_order.order_trans)

lemma handle_batch_inv:
  assumes "recv_inv bs s" "length (batch_records (bs @ [b])) < 2 ^ 64"
  shows "\<exists>s'. handle_batch rv b s = Some s' \<and> recv_inv (bs @ [b]) s'"
proof -
  have inv: "queue_ok (cs_parser_queue s)" "queue_ok (cs_scanner_queue s)"
    "unat (cs_total_drained s) = length (batch_records bs)"
    "parser_lost s + length (concat (map ob_records (parser_batches s))) = length (batch_records bs)"
    "subseq (map ob_records (parser_batches s)) (map kb_records bs)"
    "scanner_lost s + length (concat (map pb_records (scanner_batches s))) = length (batch_records bs)"
    "subseq (map pb_records (scanner_batches s)) (map kb_records bs)"
    "cs_seen_first_batch s = (bs \<noteq> [])" "cs_first_batch_calls s = of_bool (bs \<noteq> [])"
    using assms(1) by (simp_all add: recv_inv_def)
  let ?pb = "\<lparr>pb_records = kb_records b, pb_timing = timing_of b (rv_received_mach_ticks rv)\<rparr>"
  have len: "length (batch_records bs) + length (kb_records b) < 2 ^ 64" using assms(2) by simp
  obtain sq where sq: "enqueue_batch (rv_scanner_takes rv) ?pb (cs_scanner_queue s) = Some (True, sq)" "queue_ok sq"
    "unat (sq_dropped_records (dq_counters sq)) + length (concat (map pb_records (dq_taken sq @ queued sq))) =
      length (batch_records bs) + length (kb_records b)"
    "subseq (map pb_records (dq_taken sq @ queued sq)) (map pb_records (scanner_batches s) @ [kb_records b])"
    using enqueue_batch_counts [OF inv(2), of ?pb "rv_scanner_takes rv"] len unfolding inv(6) by auto
  obtain pq where pq: "enqueue_records (rv_now rv) (rv_parser_takes rv) (kb_records b) (cs_parser_queue s) = Some (True, pq)"
    "queue_ok pq"
    "unat (pq_dropped_records (dq_counters pq)) + length (concat (map ob_records (dq_taken pq @ queued pq))) =
      length (batch_records bs) + length (kb_records b)"
    "subseq (map ob_records (dq_taken pq @ queued pq)) (map ob_records (parser_batches s) @ [kb_records b])"
    using enqueue_records_counts [OF inv(1), of "kb_records b" "rv_now rv" "rv_parser_takes rv"] len
    unfolding inv(4) by auto
  have total: "unat (cs_total_drained s + of_nat (length (kb_records b))) = length (batch_records bs) + length (kb_records b)"
    using inv(3) len by (simp add: unat_word_ariths unat_of_nat)
  note subs = subseq_snoc_trans [OF pq(4) inv(5)] subseq_snoc_trans [OF sq(4) inv(7)]
  obtain s' where s': "handle_batch rv b s = Some s'" "cs_parser_queue s' = pq" "cs_scanner_queue s' = sq"
    "cs_total_drained s' = cs_total_drained s + of_nat (length (kb_records b))" "cs_seen_first_batch s'"
    "cs_first_batch_calls s' = 1"
    using sq(1) pq(1) inv(8,9)
    by (cases "bs = []"; cases "cs_seen_first_nonempty s"; cases "kb_records b = []") (simp_all add: handle_batch_def Let_def)
  have "recv_inv (bs @ [b]) s'"
    unfolding recv_inv_def s'(2-4,6) using sq(2,3) pq(2,3) subs total s'(5) by simp
  with s'(1) show ?thesis by blast
qed

lemma receive_loop_inv:
  assumes "recv_inv bs s" "length (batch_records (bs @ received_batches opts rvs)) < 2 ^ 64"
  shows "\<exists>flow. receive_loop opts rvs s = Some flow \<and>
    recv_inv (bs @ received_batches opts rvs) (recv_flow_state flow)"
  using assms
proof (induction rvs arbitrary: bs s)
  case (Cons rv rvs)
  have stopped: "recv_inv bs (s\<lparr>cs_stop_requested := True\<rparr>)" using Cons.prems(1) by (simp add: recv_inv_def)
  show ?case
  proof (cases "ends_session opts rv")
    case True
    then have "recv_iteration opts rv s = Some (ReceiveEnded (s\<lparr>cs_stop_requested := True\<rparr>))"
      by (auto simp: ends_session_def recv_iteration_def)
    then show ?thesis using True stopped by simp
  next
    case False
    then have it: "recv_iteration opts rv s = (case rv_recv rv of
        RecvClosed \<Rightarrow> Some (ReceiveEnded s) | RecvFailed \<Rightarrow> Some (ReceiveEnded s) | RecvTimedOut \<Rightarrow> Some (Receiving s)
      | RecvBatch batch \<Rightarrow> map_option Receiving (handle_batch rv batch s))"
      by (simp add: ends_session_def recv_iteration_def)
    show ?thesis
    proof (cases "rv_recv rv")
      case (RecvBatch b)
      have bs: "bs @ received_batches opts (rv # rvs) = (bs @ [b]) @ received_batches opts rvs"
        using False RecvBatch by simp
      note len = Cons.prems(2) [unfolded bs]
      then have "length (batch_records (bs @ [b])) < 2 ^ 64" by simp
      from handle_batch_inv [OF Cons.prems(1) this] obtain s' where
        "handle_batch rv b s = Some s'" "recv_inv (bs @ [b]) s'" by blast
      with Cons.IH [OF this(2) len] it RecvBatch show ?thesis unfolding bs by simp
    next
      case RecvTimedOut
      with Cons.IH [OF Cons.prems(1)] Cons.prems(2) it False show ?thesis by simp
    qed (use Cons.prems(1) it False in simp_all)
  qed
qed simp

lemma recv_inv_start: "recv_inv [] start_receiving"
  by (simp add: recv_inv_def start_receiving_def queue_ok_def PROBE_SCANNER_QUEUE_CAPACITY_def
      WORKER_QUEUE_CAPACITY_def receiver_def new_queue_def bounded_def no_parser_counters_def no_scanner_counters_def)

lemma subseq_concat_map: "subseq xs ys \<Longrightarrow> subseq (concat xs) (concat ys)"
proof (induction rule: list_emb.induct)
  case (list_emb_Cons xs ys y)
  then show ?case by (simp add: list_emb_append2)
qed (auto intro: list_emb_append_mono)

lemma subseq_full: "subseq (map f xs) (map g ys) \<Longrightarrow> length (concat (map f xs)) = length (concat (map g ys)) \<Longrightarrow>
  concat (map f xs) = concat (map g ys)"
  by (metis subseq_concat_map subseq_same_length)

lemma receive_loop_accounts:
  assumes "length (batch_records (received_batches opts rvs)) < 2 ^ 64"
  shows "\<exists>flow s. receive_loop opts rvs start_receiving = Some flow \<and> s = recv_flow_state flow \<and>
    unat (cs_total_drained s) = length (batch_records (received_batches opts rvs)) \<and>
    cs_first_batch_calls s = of_bool (received_batches opts rvs \<noteq> []) \<and>
    parser_lost s + length (concat (map ob_records (parser_batches s))) = unat (cs_total_drained s) \<and>
    scanner_lost s + length (concat (map pb_records (scanner_batches s))) = unat (cs_total_drained s) \<and>
    subseq (concat (map ob_records (parser_batches s))) (batch_records (received_batches opts rvs)) \<and>
    subseq (concat (map pb_records (scanner_batches s))) (batch_records (received_batches opts rvs)) \<and>
    (parser_lost s = 0 \<longrightarrow> concat (map ob_records (parser_batches s)) = batch_records (received_batches opts rvs)) \<and>
    (scanner_lost s = 0 \<longrightarrow> concat (map pb_records (scanner_batches s)) = batch_records (received_batches opts rvs))"
proof -
  from receive_loop_inv [OF recv_inv_start, of opts rvs] assms obtain flow where
    flow: "receive_loop opts rvs start_receiving = Some flow"
    and inv: "recv_inv (received_batches opts rvs) (recv_flow_state flow)" by auto
  let ?s = "recv_flow_state flow" and ?bs = "received_batches opts rvs"
  from inv have eq: "unat (cs_total_drained ?s) = length (batch_records ?bs)"
    "cs_first_batch_calls ?s = of_bool (?bs \<noteq> [])"
    "parser_lost ?s + length (concat (map ob_records (parser_batches ?s))) = length (batch_records ?bs)"
    "scanner_lost ?s + length (concat (map pb_records (scanner_batches ?s))) = length (batch_records ?bs)"
    and sub: "subseq (map ob_records (parser_batches ?s)) (map kb_records ?bs)"
    "subseq (map pb_records (scanner_batches ?s)) (map kb_records ?bs)"
    unfolding recv_inv_def by blast+
  have full: "parser_lost ?s = 0 \<longrightarrow> concat (map ob_records (parser_batches ?s)) = batch_records ?bs"
    "scanner_lost ?s = 0 \<longrightarrow> concat (map pb_records (scanner_batches ?s)) = batch_records ?bs"
    using eq(3,4) subseq_full [OF sub(1)] subseq_full [OF sub(2)] by auto
  show ?thesis
    using flow eq full subseq_concat_map [OF sub(1)] subseq_concat_map [OF sub(2)]
    by (intro exI [of _ flow] exI [of _ ?s]) (simp only: eq refl simp_thms)
qed

text \<open>
  C34: the receive loop returns, whenever it stops and however the threads take from their queues;
  the first batch is announced once; and each thread's queue has every record that was received,
  in order, but for those it counts as dropped: all of them when none is counted.
\<close>

theorem client_receive_accounts:
  assumes "length (batch_records (received_batches opts rvs)) < 2 ^ 64"
  shows "\<exists>flow s. receive_loop opts rvs start_receiving = Some flow \<and> s = recv_flow_state flow \<and>
    unat (cs_total_drained s) = length (batch_records (received_batches opts rvs)) \<and>
    cs_first_batch_calls s = of_bool (received_batches opts rvs \<noteq> []) \<and>
    parser_lost s + length (concat (map ob_records (parser_batches s))) = unat (cs_total_drained s) \<and>
    scanner_lost s + length (concat (map pb_records (scanner_batches s))) = unat (cs_total_drained s) \<and>
    subseq (concat (map ob_records (parser_batches s))) (batch_records (received_batches opts rvs)) \<and>
    subseq (concat (map pb_records (scanner_batches s))) (batch_records (received_batches opts rvs)) \<and>
    (parser_lost s = 0 \<longrightarrow> concat (map ob_records (parser_batches s)) = batch_records (received_batches opts rvs)) \<and>
    (scanner_lost s = 0 \<longrightarrow> concat (map pb_records (scanner_batches s)) = batch_records (received_batches opts rvs))"
  by (rule receive_loop_accounts [OF assms])

definition demo_recv :: "kd_buf_batch \<Rightarrow> recv_input" where
  "demo_recv b = \<lparr>rv_should_stop = False, rv_elapsed = 0, rv_recv = RecvBatch b, rv_received_mach_ticks = 0,
     rv_now = 0, rv_scanner_takes = (\<lambda>_. 0), rv_parser_takes = (\<lambda>_. 0)\<rparr>"

text \<open>Seventeen batches of one record while the worker takes nothing: the sixteen newest wait.\<close>

theorem client_receive_accounts_witness:
  "\<exists>flow s. receive_loop default_options (replicate 17 (demo_recv (batch_of [empty_kdbuf] demo_input))) start_receiving = Some flow \<and>
     s = recv_flow_state flow \<and> unat (cs_total_drained s) = 17 \<and> cs_first_batch_calls s = 1 \<and>
     parser_lost s + length (concat (map ob_records (parser_batches s))) = 17"
proof -
  let ?b = "batch_of [empty_kdbuf] demo_input"
  have r: "received_batches default_options (replicate n (demo_recv ?b)) = replicate n ?b" for n
    by (induction n) (simp_all add: ends_session_def demo_recv_def default_options_def)
  have "length (batch_records (replicate 17 ?b)) = 17" by (simp add: batch_of_def numeral_eq_Suc)
  with client_receive_accounts [of default_options "replicate 17 (demo_recv ?b)"] show ?thesis
    unfolding r by auto
qed

end
