(* ===== verification/Worker.thy ===== *)
theory Worker
  imports Client
begin

text \<open>
  The worker thread of the recording client (\<open>worker_thread\<close>, \<open>join_worker_with_deadline\<close> and
  the end of \<open>drive_session_with_hooks\<close> in \<open>staxd-client/src/lib.rs\<close>): it owns the pipeline,
  takes batches from its queue, and runs the periodic scans between them. What it reports is
  compared with the parser run over all records it was given.
\<close>

section \<open>The worker\<close>

datatype worker_recv = WorkerBatch owned_batch | WorkerTimeout | WorkerClosed

text \<open>
  One turn of the worker's loop: the abort flag before and after the receive, the message, its age,
  what is left in the queue if the flag is set, and what the periodic scans see.
\<close>

record worker_input =
  wi_abort :: bool
  wi_recv :: worker_recv
  wi_abort_after :: bool
  wi_age_ns :: nat
  wi_backlog :: "owned_batch list"
  wi_env :: pipeline_env

record worker_state =
  wk_pipeline :: pipeline
  wk_counters :: parser_queue_counters
  wk_batches :: u64
  wk_records :: u64

datatype worker_flow = WorkerRunning worker_state | WorkerEnded worker_state | WorkerAborted parser_drop_summary worker_state

text \<open>Both places that notice the flag empty the queue; the batch just received is not part of it.\<close>

definition abort_worker :: "worker_input \<Rightarrow> worker_state \<Rightarrow> worker_flow" where
  "abort_worker wi s =
     (let (dropped, c) = drain_parser_backlog_for_abort (wi_backlog wi) (wk_counters s) in
      WorkerAborted dropped (s\<lparr>wk_counters := c\<rparr>))"

definition worker_process :: "(u64 \<Rightarrow> u64) \<Rightarrow> nat \<Rightarrow> owned_batch \<Rightarrow> worker_state \<Rightarrow> (sink_event list \<times> worker_state) option" where
  "worker_process strip age batch s =
     (case process_records strip (ob_records batch) (wk_pipeline s) of
        None \<Rightarrow> None
      | Some (events, p) \<Rightarrow>
          Some (events, s\<lparr>wk_pipeline := p, wk_counters := update_max_age age (wk_counters s),
            wk_batches := wk_batches s + 1, wk_records := wk_records s + of_nat (length (ob_records batch))\<rparr>))"

definition worker_tick :: "pipeline_env \<Rightarrow> worker_state \<Rightarrow> (sink_event list \<times> worker_state) option" where
  "worker_tick env s =
     (case tick env (wk_pipeline s) of None \<Rightarrow> None | Some (events, p) \<Rightarrow> Some (events, s\<lparr>wk_pipeline := p\<rparr>))"

text \<open>\<open>None\<close> when the pipeline panics or does not return.\<close>

definition worker_iteration ::
  "(u64 \<Rightarrow> u64) \<Rightarrow> worker_input \<Rightarrow> worker_state \<Rightarrow> (sink_event list \<times> worker_flow) option" where
  "worker_iteration strip wi s =
     (if wi_abort wi then Some ([], abort_worker wi s)
      else case wi_recv wi of
        WorkerClosed \<Rightarrow> Some ([], WorkerEnded s)
      | WorkerTimeout \<Rightarrow>
          (case worker_tick (wi_env wi) s of None \<Rightarrow> None | Some (e, s') \<Rightarrow> Some (e, WorkerRunning s'))
      | WorkerBatch batch \<Rightarrow>
          if wi_abort_after wi then Some ([], abort_worker wi s)
          else case worker_process strip (wi_age_ns wi) batch s of
            None \<Rightarrow> None
          | Some (e1, s1) \<Rightarrow>
              (case worker_tick (wi_env wi) s1 of None \<Rightarrow> None | Some (e2, s2) \<Rightarrow> Some (e1 @ e2, WorkerRunning s2)))"

primrec worker_loop ::
  "(u64 \<Rightarrow> u64) \<Rightarrow> worker_input list \<Rightarrow> worker_state \<Rightarrow> (sink_event list \<times> worker_flow) option" where
  "worker_loop strip [] s = Some ([], WorkerRunning s)"
| "worker_loop strip (wi # wis) s =
     (case worker_iteration strip wi s of
        Some (e1, WorkerRunning s') \<Rightarrow>
          (case worker_loop strip wis s' of None \<Rightarrow> None | Some (e2, flow) \<Rightarrow> Some (e1 @ e2, flow))
      | other \<Rightarrow> other)"

text \<open>The thread: \<open>late_abort\<close> is the flag after the loop. An aborted worker does not finish its pipeline.\<close>

definition worker_thread ::
  "(u64 \<Rightarrow> u64) \<Rightarrow> pipeline_env \<Rightarrow> (u32 \<Rightarrow> string) \<Rightarrow> pipeline_config \<Rightarrow> worker_input list \<Rightarrow> bool \<times> owned_batch list \<Rightarrow>
   parser_queue_counters \<Rightarrow> (sink_event list \<times> worker_flow) option" where
  "worker_thread strip env show_pid config wis late_abort c =
     (let (e0, p) = new_pipeline env show_pid config in
      case worker_loop strip wis \<lparr>wk_pipeline = p, wk_counters = c, wk_batches = 0, wk_records = 0\<rparr> of
        None \<Rightarrow> None
      | Some (e1, WorkerRunning s) \<Rightarrow> Some (e0 @ e1, WorkerRunning s)
      | Some (e1, WorkerAborted d s) \<Rightarrow> Some (e0 @ e1, WorkerAborted d s)
      | Some (e1, WorkerEnded s) \<Rightarrow>
          if fst late_abort
          then let (dropped, c') = drain_parser_backlog_for_abort (snd late_abort) (wk_counters s) in
            Some (e0 @ e1, WorkerAborted dropped (s\<lparr>wk_counters := c'\<rparr>))
          else Some (e0 @ e1 @ finish (wk_pipeline s), WorkerEnded s))"

section \<open>The end of a session\<close>

definition WORKER_SHUTDOWN_BUDGET :: nat where "WORKER_SHUTDOWN_BUDGET = 2000000000"
definition WORKER_ABORT_GRACE :: nat where "WORKER_ABORT_GRACE = 250000000"

text \<open>
  The poll for the worker: \<open>done i\<close> is whether the \<open>i\<close>-th look at the channel finds that the worker
  is over, \<open>elapsed i\<close> the time since the wait began. The loop need not end if the clock stands still.
\<close>

partial_function (option) wait_for_worker_join :: "(nat \<Rightarrow> bool) \<Rightarrow> (nat \<Rightarrow> nat) \<Rightarrow> nat \<Rightarrow> nat \<Rightarrow> bool option" where
  "wait_for_worker_join finished elapsed budget i =
     (if finished i then Some True
      else if budget \<le> elapsed i then Some False
      else wait_for_worker_join finished elapsed budget (i + 1))"

text \<open>Two waits; the second after asking the worker to drop its backlog. The flag is the second result.\<close>

definition join_worker_with_deadline ::
  "(nat \<Rightarrow> bool) \<times> (nat \<Rightarrow> nat) \<Rightarrow> (nat \<Rightarrow> bool) \<times> (nat \<Rightarrow> nat) \<Rightarrow> (bool \<times> bool) option" where
  "join_worker_with_deadline first second =
     (case wait_for_worker_join (fst first) (snd first) WORKER_SHUTDOWN_BUDGET 0 of
        None \<Rightarrow> None
      | Some True \<Rightarrow> Some (True, False)
      | Some False \<Rightarrow>
          (case wait_for_worker_join (fst second) (snd second) WORKER_ABORT_GRACE 0 of
             None \<Rightarrow> None
           | Some joined \<Rightarrow> Some (joined, True)))"

datatype rpc_result = RpcJoinError string | RpcSummary record_summary | RpcUserError record_error | RpcFailed string

text \<open>What the session returns, from the answer of the daemon and the join of the worker.\<close>

definition session_result :: "rpc_result \<Rightarrow> (bool \<times> bool) option \<Rightarrow> (client_error + unit) option" where
  "session_result rpc joined =
     (case rpc of
        RpcJoinError e \<Rightarrow> Some (Inl (ClientVoxCall (''join: '' @ e)))
      | RpcUserError e \<Rightarrow> (case joined of None \<Rightarrow> None | Some _ \<Rightarrow> Some (Inl (ClientRpc e)))
      | RpcFailed e \<Rightarrow> (case joined of None \<Rightarrow> None | Some _ \<Rightarrow> Some (Inl (ClientVoxCall (''record rpc: '' @ e))))
      | RpcSummary _ \<Rightarrow>
          (case joined of
             None \<Rightarrow> None
           | Some (True, _) \<Rightarrow> Some (Inr ())
           | Some (False, _) \<Rightarrow> Some (Inl (WorkerShutdownTimedOut WORKER_SHUTDOWN_BUDGET))))"

section \<open>The worker reports the samples of what it is given\<close>

primrec worker_batches :: "worker_input list \<Rightarrow> kd_buf list list" where
  "worker_batches [] = []"
| "worker_batches (wi # wis) =
     (case wi_recv wi of
        WorkerBatch b \<Rightarrow> ob_records b # worker_batches wis
      | WorkerTimeout \<Rightarrow> worker_batches wis
      | WorkerClosed \<Rightarrow> [])"

text \<open>The abort flag stays clear.\<close>

definition not_aborted :: "worker_input \<Rightarrow> bool" where
  "not_aborted wi \<longleftrightarrow> \<not> wi_abort wi \<and> \<not> wi_abort_after wi"

lemma reported_samples_other [simp]: "reported_samples [] = []"
  by (simp add: reported_samples_def)

lemma reported_samples_none: "(\<And>e. e \<in> set es \<Longrightarrow> \<forall>s. e \<noteq> OnSample s) \<Longrightarrow> reported_samples es = []"
  by (induction es) (auto simp: reported_samples_def split: sink_event.splits)

text \<open>The periodic scans report no samples and leave the parser, the tracker and the slide alone.\<close>

lemma fold_no_samples:
  assumes "\<And>x s. reported_samples (fst s) = [] \<Longrightarrow> reported_samples (fst (f x s)) = []"
  shows "reported_samples (fst s) = [] \<Longrightarrow> reported_samples (fst (fold f xs s)) = []"
  by (induction xs arbitrary: s) (simp_all add: assms)

lemma reported_samples_single [simp]:
  "reported_samples [OnBinaryLoaded b] = []" "reported_samples [OnBinaryUnloaded u] = []"
  "reported_samples [OnThreadName n] = []" "reported_samples [OnJitdump j] = []"
  "reported_samples [OnMachoByteSource] = []" "reported_samples [OnKallsyms k] = []"
  by (simp_all add: reported_samples_def)

lemma rescan_no_samples: "reported_samples (fst (rescan env pid sc)) = []"
proof -
  have l: "reported_samples (fst s) = [] \<Longrightarrow> reported_samples (fst (load_image env pid x s)) = []" for x s
    by (simp add: load_image_def Let_def split: prod.split)
  have u: "reported_samples (fst s) = [] \<Longrightarrow> reported_samples (fst (unload_image pid k s)) = []" for k s
    by (simp add: unload_image_def split: option.split)
  show ?thesis
    unfolding rescan_def Let_def by (auto split: prod.split intro!: fold_no_samples l u)
qed

lemma report_name_no_samples:
  "reported_samples (fst s) = [] \<Longrightarrow> reported_samples (fst (report_name pid tid name s)) = []"
  by (auto simp: report_name_def split: sum.split option.split prod.split bool.split)

lemma scan_names_no_samples:
  "reported_samples (fst (scan_thread_names pid ids name_of cache)) = []"
  "reported_samples (fst (scan_thread_names_for_observed pid name_of seen cache)) = []"
  by (auto simp: scan_thread_names_def scan_thread_names_for_observed_def report_name_no_samples
      split: sum.split intro!: fold_no_samples)

definition same_recording :: "pipeline \<Rightarrow> pipeline \<Rightarrow> bool" where
  "same_recording p p' \<longleftrightarrow> pl_config p' = pl_config p \<and> pl_parser p' = pl_parser p \<and> pl_offcpu p' = pl_offcpu p \<and>
     pl_slide_est p' = pl_slide_est p \<and> pl_seen_tids p' = pl_seen_tids p \<and> pl_total_drained p' = pl_total_drained p"

lemma tick_steps:
  "reported_samples (fst (tick_images env p)) = [] \<and> same_recording p (snd (tick_images env p))"
  "reported_samples (fst (tick_threads env p)) = [] \<and> same_recording p (snd (tick_threads env p))"
  "reported_samples (fst (tick_jitdump env p)) = [] \<and> same_recording p (snd (tick_jitdump env p))"
  "tick_tailer env p = Some (e, p') \<Longrightarrow> reported_samples e = [] \<and> same_recording p p'"
proof -
  show "reported_samples (fst (tick_images env p)) = [] \<and> same_recording p (snd (tick_images env p))"
    using rescan_no_samples [of "pe_image env" "pc_pid (pl_config p)" "pl_images p"]
    by (auto simp: tick_images_def same_recording_def split: prod.split)
  show "reported_samples (fst (tick_threads env p)) = [] \<and> same_recording p (snd (tick_threads env p))"
    using scan_names_no_samples(2) [of "pc_pid (pl_config p)" "pe_thread_name_by_id env" "pl_seen_tids p" "pl_thread_names p"]
    by (auto simp: tick_threads_def same_recording_def split: prod.split)
  show "reported_samples (fst (tick_jitdump env p)) = [] \<and> same_recording p (snd (tick_jitdump env p))"
    by (auto simp: tick_jitdump_def same_recording_def)
  assume "tick_tailer env p = Some (e, p')"
  then show "reported_samples e = [] \<and> same_recording p p'"
    by (auto simp: tick_tailer_def same_recording_def jit_loaded_def split: option.splits intro!: reported_samples_none)
qed

lemma tick_records_nothing:
  assumes "tick env p = Some (e, p')"
  shows "reported_samples e = []" "same_recording p p'"
proof -
  obtain e1 p1 where 1: "tick_images env p = (e1, p1)" by fastforce
  obtain e2 p2 where 2: "tick_threads env p1 = (e2, p2)" by fastforce
  obtain e3 p3 where 3: "tick_jitdump env p2 = (e3, p3)" by fastforce
  obtain e4 where 4: "tick_tailer env p3 = Some (e4, p')" "e = e1 @ e2 @ e3 @ e4"
    using assms 1 2 3 by (auto simp: tick_def split: option.splits)
  show "reported_samples e = []" "same_recording p p'"
    using tick_steps(1) [of env p] tick_steps(2) [of env p1] tick_steps(3) [of env p2] tick_steps(4) [OF 4(1)] 1 2 3 4(2)
    by (auto simp: same_recording_def)
qed

lemma new_pipeline_start:
  assumes "new_pipeline env show_pid config = (e, p)"
    "\<forall>img. pe_kernel env = Inr (Some img) \<longrightarrow> (\<forall>seg \<in> set (ki_exec_segments img). segment_ok seg)"
  shows "reported_samples e = []" "segments_ok (pl_slide_est p)" "pl_config p = config" "pl_parser p = new_parser"
    "pl_offcpu p = new_tracker" "pl_total_drained p = 0"
proof -
  have "reported_samples e = [] \<and> segments_ok (pl_slide_est p) \<and> pl_config p = config \<and> pl_parser p = new_parser \<and>
      pl_offcpu p = new_tracker \<and> pl_total_drained p = 0"
    using assms rescan_no_samples [of "pe_image env" "pc_pid config" "new_scanner (pc_task config)"]
      scan_names_no_samples(1) [of "pc_pid config" "pe_thread_ids env" "pe_thread_name env" "[]"]
    by (auto simp: new_pipeline_def Let_def segments_ok_def new_estimator_def split: prod.splits sum.splits)
  then show "reported_samples e = []" "segments_ok (pl_slide_est p)" "pl_config p = config" "pl_parser p = new_parser"
    "pl_offcpu p = new_tracker" "pl_total_drained p = 0" by simp_all
qed

lemma finish_no_samples: "reported_samples (finish p) = []"
  by (auto simp: finish_def split: option.split)

text \<open>The jitdump file can be read: the one panic of the periodic scans.\<close>

definition ticks_return :: "worker_input list \<Rightarrow> bool" where
  "ticks_return wis \<longleftrightarrow> (\<forall>wi \<in> set wis. \<forall>p. tick (wi_env wi) p \<noteq> None)"

lemma worker_loop_samples:
  assumes "\<forall>wi \<in> set wis. not_aborted wi" "ticks_return wis" "segments_ok (pl_slide_est (wk_pipeline s))"
    "feed_all strip (concat (worker_batches wis)) (pl_parser (wk_pipeline s)) = (parser', ss)"
  shows "\<exists>e flow s'. worker_loop strip wis s = Some (e, flow) \<and> (flow = WorkerRunning s' \<or> flow = WorkerEnded s') \<and>
    reported_samples e = sample_events (pl_config (wk_pipeline s)) ss \<and>
    pl_parser (wk_pipeline s') = parser' \<and>
    pl_total_drained (wk_pipeline s') = pl_total_drained (wk_pipeline s) + of_nat (length (concat (worker_batches wis)))"
  using assms
proof (induction wis arbitrary: s ss)
  case (Cons wi wis)
  have na: "\<not> wi_abort wi" "\<not> wi_abort_after wi" and IH_pre: "\<forall>wi \<in> set wis. not_aborted wi" "ticks_return wis"
    using Cons.prems(1,2) by (auto simp: not_aborted_def ticks_return_def)
  have ticks: "\<exists>e p'. tick (wi_env wi) p = Some (e, p')" for p
    using Cons.prems(2) by (auto simp: ticks_return_def)
  show ?case
  proof (cases "wi_recv wi")
    case WorkerClosed
    then show ?thesis using na Cons.prems(4) by (auto simp: worker_iteration_def)
  next
    case WorkerTimeout
    obtain e1 p1 where t: "tick (wi_env wi) (wk_pipeline s) = Some (e1, p1)" using ticks by blast
    note r = tick_records_nothing [OF t]
    let ?s = "s\<lparr>wk_pipeline := p1\<rparr>"
    have "segments_ok (pl_slide_est (wk_pipeline ?s))"
      "feed_all strip (concat (worker_batches wis)) (pl_parser (wk_pipeline ?s)) = (parser', ss)"
      using Cons.prems(3,4) r(2) WorkerTimeout by (simp_all add: same_recording_def)
    from Cons.IH [OF IH_pre this] obtain e flow s' where
      "worker_loop strip wis ?s = Some (e, flow)" "flow = WorkerRunning s' \<or> flow = WorkerEnded s'"
      "reported_samples e = sample_events (pl_config (wk_pipeline ?s)) ss" "pl_parser (wk_pipeline s') = parser'"
      "pl_total_drained (wk_pipeline s') = pl_total_drained (wk_pipeline ?s) + of_nat (length (concat (worker_batches wis)))"
      by blast
    then show ?thesis using na t r WorkerTimeout
      by (auto simp: worker_iteration_def worker_tick_def same_recording_def)
  next
    case (WorkerBatch b)
    obtain q1 s1 where f: "feed_all strip (ob_records b) (pl_parser (wk_pipeline s)) = (q1, s1)" by fastforce
    obtain s2 where g: "feed_all strip (concat (worker_batches wis)) q1 = (parser', s2)" and ss: "ss = s1 @ s2"
      using Cons.prems(4) f WorkerBatch by (auto simp: feed_all_append split: prod.splits)
    from process_records_exact [OF Cons.prems(3) f] obtain ev p where p:
      "process_records strip (ob_records b) (wk_pipeline s) = Some (ev, p)"
      "reported_samples ev = sample_events (pl_config (wk_pipeline s)) s1" "segments_ok (pl_slide_est p)"
      "pl_config p = pl_config (wk_pipeline s)" "pl_parser p = q1"
      "pl_total_drained p = pl_total_drained (wk_pipeline s) + of_nat (length (ob_records b))" by blast
    obtain e1 p1 where t: "tick (wi_env wi) p = Some (e1, p1)" using ticks by blast
    note r = tick_records_nothing [OF t]
    let ?s = "s\<lparr>wk_pipeline := p1, wk_counters := update_max_age (wi_age_ns wi) (wk_counters s),
      wk_batches := wk_batches s + 1, wk_records := wk_records s + of_nat (length (ob_records b))\<rparr>"
    have "segments_ok (pl_slide_est (wk_pipeline ?s))"
      "feed_all strip (concat (worker_batches wis)) (pl_parser (wk_pipeline ?s)) = (parser', s2)"
      using p g r(2) by (simp_all add: same_recording_def)
    from Cons.IH [OF IH_pre this] obtain e flow s' where e:
      "worker_loop strip wis ?s = Some (e, flow)" "flow = WorkerRunning s' \<or> flow = WorkerEnded s'"
      "reported_samples e = sample_events (pl_config (wk_pipeline ?s)) s2" "pl_parser (wk_pipeline s') = parser'"
      "pl_total_drained (wk_pipeline s') = pl_total_drained (wk_pipeline ?s) + of_nat (length (concat (worker_batches wis)))"
      by blast
    have it: "worker_iteration strip wi s = Some (ev @ e1, WorkerRunning ?s)"
      using na WorkerBatch p(1) t by (simp add: worker_iteration_def worker_process_def worker_tick_def)
    have "reported_samples (ev @ e1 @ e) = sample_events (pl_config (wk_pipeline s)) ss"
      using p r e(3) ss by (simp add: same_recording_def)
    moreover have "pl_total_drained (wk_pipeline s') = pl_total_drained (wk_pipeline s) +
        of_nat (length (concat (worker_batches (wi # wis))))"
      using p r e(5) WorkerBatch by (simp add: same_recording_def)
    ultimately show ?thesis using it e(1,2,4) by auto
  qed
qed auto

lemma worker_thread_samples:
  assumes "\<forall>img. pe_kernel env = Inr (Some img) \<longrightarrow> (\<forall>seg \<in> set (ki_exec_segments img). segment_ok seg)"
    "\<forall>wi \<in> set wis. not_aborted wi" "ticks_return wis"
    "feed_all strip (concat (worker_batches wis)) new_parser = (parser', ss)"
  shows "\<exists>e flow s. worker_thread strip env show_pid config wis (False, backlog) c = Some (e, flow) \<and>
    (flow = WorkerRunning s \<or> flow = WorkerEnded s) \<and>
    reported_samples e = map (sample_event_of config) (filter (\<lambda>s. smp_user_backtrace s \<noteq> []) ss) \<and>
    pl_total_drained (wk_pipeline s) = of_nat (length (concat (worker_batches wis)))"
proof -
  obtain e0 p where p: "new_pipeline env show_pid config = (e0, p)" by fastforce
  note start = new_pipeline_start [OF p assms(1)]
  let ?s = "\<lparr>wk_pipeline = p, wk_counters = c, wk_batches = 0, wk_records = 0\<rparr>"
  have "segments_ok (pl_slide_est (wk_pipeline ?s))"
    "feed_all strip (concat (worker_batches wis)) (pl_parser (wk_pipeline ?s)) = (parser', ss)"
    using start assms(4) by simp_all
  from worker_loop_samples [OF assms(2,3) this] obtain e flow s where
    "worker_loop strip wis ?s = Some (e, flow)" "flow = WorkerRunning s \<or> flow = WorkerEnded s"
    "reported_samples e = sample_events config ss"
    "pl_total_drained (wk_pipeline s) = of_nat (length (concat (worker_batches wis)))"
    using start by auto
  then show ?thesis
    using p start(1) finish_no_samples by (auto simp: worker_thread_def sample_events_def)
qed


definition demo_env :: pipeline_env where
  "demo_env = \<lparr>pe_now = 0, pe_image = \<lparr>ie_pidinfo = (\<lambda>_. None), ie_disk = (\<lambda>_. NotRegular), ie_cache = None,
      ie_host_arch = None, ie_task_info = None, ie_read_count = (\<lambda>_. None)\<rparr>,
     pe_has_cache = False, pe_kernel = Inr None, pe_thread_ids = Inl (), pe_thread_name = (\<lambda>_. None),
     pe_thread_name_by_id = (\<lambda>_. None), pe_jitdump_exists = False, pe_jitdump_opens = False, pe_jitdump_content = None\<rparr>"

definition demo_work :: "worker_recv \<Rightarrow> worker_input" where
  "demo_work m = \<lparr>wi_abort = False, wi_recv = m, wi_abort_after = False, wi_age_ns = 0, wi_backlog = [], wi_env = demo_env\<rparr>"

lemma demo_ticks: "tick demo_env p \<noteq> None"
  by (auto simp: tick_def tick_tailer_def demo_env_def split: prod.split option.split)


section \<open>Shutting the worker down\<close>

declare wait_for_worker_join.simps [simp del]

lemma wait_for_worker_join_exact:
  assumes "i \<le> k" "finished k \<or> budget \<le> elapsed k" "\<forall>j. i \<le> j \<and> j < k \<longrightarrow> \<not> finished j \<and> elapsed j < budget"
  shows "wait_for_worker_join finished elapsed budget i = Some (finished k)"
  using assms
proof (induction "k - i" arbitrary: i)
  case 0
  then show ?case by (subst wait_for_worker_join.simps) auto
next
  case (Suc n)
  then have "\<not> finished i \<and> elapsed i < budget" by auto
  moreover have "wait_for_worker_join finished elapsed budget (i + 1) = Some (finished k)" using Suc by simp
  ultimately show ?case by (subst wait_for_worker_join.simps) simp
qed

lemma wait_for_worker_join_returns:
  assumes "\<exists>k. finished k \<or> budget \<le> elapsed k"
  shows "wait_for_worker_join finished elapsed budget 0 =
    Some (finished (LEAST k. finished k \<or> budget \<le> elapsed k))"
  using LeastI_ex [OF assms] by (intro wait_for_worker_join_exact) (auto dest: not_less_Least)

text \<open>
  Shutting down always returns once the clock passes both budgets: the worker counts as joined
  exactly when it was over at the first look that found it over or out of time, in the first wait or,
  after it was told to drop its backlog, in the second; and it is told only if the first wait failed.
\<close>

theorem join_worker_returns:
  assumes "\<exists>k. fst w1 k \<or> WORKER_SHUTDOWN_BUDGET \<le> snd w1 k" "\<exists>k. fst w2 k \<or> WORKER_ABORT_GRACE \<le> snd w2 k"
  shows "join_worker_with_deadline w1 w2 =
    (let joined1 = fst w1 (LEAST k. fst w1 k \<or> WORKER_SHUTDOWN_BUDGET \<le> snd w1 k);
         joined2 = fst w2 (LEAST k. fst w2 k \<or> WORKER_ABORT_GRACE \<le> snd w2 k)
     in Some (joined1 \<or> joined2, \<not> joined1))"
  using wait_for_worker_join_returns [OF assms(1)] wait_for_worker_join_returns [OF assms(2)]
  by (simp add: join_worker_with_deadline_def Let_def split: bool.split)

text \<open>A worker that ends 100 ms after it was told to: the client waits for two budgets at most.\<close>

theorem join_worker_returns_witness:
  "join_worker_with_deadline (\<lambda>_. False, \<lambda>i. i * 10000000) (\<lambda>i. 10 \<le> i, \<lambda>i. i * 10000000) = Some (True, True)"
proof -
  let ?w1 = "(\<lambda>_. False, \<lambda>i. i * 10000000) :: (nat \<Rightarrow> bool) \<times> (nat \<Rightarrow> nat)"
  let ?w2 = "(\<lambda>i. 10 \<le> i, \<lambda>i. i * 10000000) :: (nat \<Rightarrow> bool) \<times> (nat \<Rightarrow> nat)"
  have "\<exists>k. fst ?w1 k \<or> WORKER_SHUTDOWN_BUDGET \<le> snd ?w1 k"
    by (rule exI [of _ 200]) (simp add: WORKER_SHUTDOWN_BUDGET_def)
  moreover have "\<exists>k. fst ?w2 k \<or> WORKER_ABORT_GRACE \<le> snd ?w2 k" by auto
  moreover have "(LEAST k. fst ?w2 k \<or> WORKER_ABORT_GRACE \<le> snd ?w2 k) = 10"
    by (rule Least_equality) (auto simp: WORKER_ABORT_GRACE_def)
  ultimately show ?thesis using join_worker_returns [of ?w1 ?w2] by (simp add: Let_def)
qed

end
