(* ===== verification/Ingest.thy ===== *)
theory Ingest
  imports ImageScan Runs
begin

text \<open>
  The way from the recorder to the server (\<open>src/live_sink.rs\<close>, \<open>src/cmd_record_mac.rs\<close>,
  \<open>src/ingest_sink.rs\<close>): the events of the pipeline are turned into live events, those into wire
  events on two planes, and two forwarders send them: samples, intervals, wakeups and names in
  batches, images and the target one call at a time. Logging is left out.
\<close>

section \<open>Live events\<close>

record live_sample_event =
  le_timestamp :: u64
  le_pid :: u32
  le_tid :: u32
  le_cpu :: u32
  le_kernel_backtrace :: "u64 list"
  le_user_backtrace :: "u64 list"
  le_cycles :: u64
  le_instructions :: u64
  le_l1d_misses :: u64
  le_branch_mispreds :: u64

record live_interval_event =
  ln_pid :: u32
  ln_tid :: u32
  ln_start_ns :: u64
  ln_end_ns :: u64
  ln_kind :: cpu_interval_kind

record live_binary_event =
  lbe_path :: string
  lbe_base_avma :: u64
  lbe_vmsize :: u64
  lbe_text_svma :: u64
  lbe_arch :: "string option"
  lbe_is_executable :: bool
  lbe_symbols :: "wire_symbol list"
  lbe_text_bytes :: "string option"

record live_wakeup_event =
  lw_timestamp :: u64
  lw_pid :: u32
  lw_waker_tid :: u32
  lw_wakee_tid :: u32
  lw_waker_user_stack :: "u64 list"
  lw_waker_kernel_stack :: "u64 list"

text \<open>A live symbol and a wire symbol have the same fields.\<close>

datatype live_event =
  LiveSample live_sample_event
| LiveTargetAttached u32 u64
| LiveBinaryLoaded live_binary_event
| LiveBinaryUnloaded string u64
| LiveThreadName u32 u32 string
| LiveWakeup live_wakeup_event
| LiveCpuInterval live_interval_event
| LiveMachoByteSource

definition wire_symbol_of :: "macho_symbol \<Rightarrow> wire_symbol" where
  "wire_symbol_of s = \<lparr>ws_start_svma = ms_start_svma s, ws_end_svma = ms_end_svma s, ws_name = ms_name s\<rparr>"

text \<open>\<open>LiveOnlySink\<close>: the paths of jitdump files and the kernel's symbols go no further.\<close>

fun live_event_of :: "sink_event \<Rightarrow> live_event option" where
  "live_event_of (OnSample ev) = Some (LiveSample
     \<lparr>le_timestamp = sv_timestamp_ns ev, le_pid = sv_pid ev, le_tid = sv_tid ev, le_cpu = - 1,
      le_kernel_backtrace = sv_kernel_backtrace ev, le_user_backtrace = sv_backtrace ev, le_cycles = sv_cycles ev,
      le_instructions = sv_instructions ev, le_l1d_misses = sv_l1d_misses ev, le_branch_mispreds = sv_branch_mispreds ev\<rparr>)"
| "live_event_of (ImageScan.OnCpuInterval ev) = Some (LiveCpuInterval
     \<lparr>ln_pid = iv_pid ev, ln_tid = iv_tid ev, ln_start_ns = iv_start_ns ev, ln_end_ns = iv_end_ns ev, ln_kind = iv_kind ev\<rparr>)"
| "live_event_of (OnBinaryLoaded ev) = Some (LiveBinaryLoaded
     \<lparr>lbe_path = bv_path ev, lbe_base_avma = bv_base_avma ev, lbe_vmsize = bv_vmsize ev, lbe_text_svma = bv_text_svma ev,
      lbe_arch = bv_arch ev, lbe_is_executable = bv_is_executable ev, lbe_symbols = map wire_symbol_of (bv_symbols ev),
      lbe_text_bytes = bv_text_bytes ev\<rparr>)"
| "live_event_of (OnBinaryUnloaded ev) = Some (LiveBinaryUnloaded (uv_path ev) (uv_base_avma ev))"
| "live_event_of (OnThreadName ev) = Some (LiveThreadName (nv_pid ev) (nv_tid ev) (nv_name ev))"
| "live_event_of (OnJitdump _) = None"
| "live_event_of (OnKallsyms _) = None"
| "live_event_of (OnWakeup ev) = Some (LiveWakeup
     \<lparr>lw_timestamp = wv_timestamp_ns ev, lw_pid = wv_pid ev, lw_waker_tid = wv_waker_tid ev, lw_wakee_tid = wv_wakee_tid ev,
      lw_waker_user_stack = wv_waker_user_stack ev, lw_waker_kernel_stack = wv_waker_kernel_stack ev\<rparr>)"
| "live_event_of OnMachoByteSource = Some LiveMachoByteSource"

section \<open>The ingest sink\<close>

datatype reliable_msg =
  ReliableTargetAttached u32 u64
| ReliableBinaryLoaded wire_binary_loaded
| ReliableBinaryUnloaded wire_binary_unloaded

text \<open>
  The two channels, as what has been sent into them while their receivers exist. A send after that
  asks the recorder to stop.
\<close>

record ingest_sink =
  ig_events :: "ingest_event list"
  ig_events_open :: bool
  ig_reliable :: "reliable_msg list"
  ig_reliable_open :: bool
  ig_stop_requested :: bool
  ig_enqueued :: u64

definition new_ingest_sink :: ingest_sink where
  "new_ingest_sink = \<lparr>ig_events = [], ig_events_open = True, ig_reliable = [], ig_reliable_open = True,
     ig_stop_requested = False, ig_enqueued = 0\<rparr>"

definition enqueue_event :: "ingest_event \<Rightarrow> ingest_sink \<Rightarrow> ingest_sink" where
  "enqueue_event ev s =
     (let s1 = s\<lparr>ig_enqueued := ig_enqueued s + 1\<rparr> in
      if ig_events_open s1 then s1\<lparr>ig_events := ig_events s1 @ [ev]\<rparr> else s1\<lparr>ig_stop_requested := True\<rparr>)"

definition enqueue_reliable :: "reliable_msg \<Rightarrow> ingest_sink \<Rightarrow> ingest_sink" where
  "enqueue_reliable msg s =
     (if ig_reliable_open s then s\<lparr>ig_reliable := ig_reliable s @ [msg]\<rparr> else s\<lparr>ig_stop_requested := True\<rparr>)"

definition wire_interval :: "live_interval_event \<Rightarrow> ingest_event" where
  "wire_interval ev =
     (case ln_kind ev of
        CpuOn \<Rightarrow> Runs.OnCpuInterval \<lparr>won_tid = ln_tid ev, won_start_ns = ln_start_ns ev, won_end_ns = ln_end_ns ev\<rparr>
      | CpuOff user_stack waker_tid waker_user_stack \<Rightarrow>
          OffCpuInterval \<lparr>woff_tid = ln_tid ev, woff_start_ns = ln_start_ns ev, woff_end_ns = ln_end_ns ev,
            woff_stack = user_stack, woff_waker_tid = waker_tid, woff_waker_user_stack = waker_user_stack\<rparr>)"

definition wire_sample :: "live_sample_event \<Rightarrow> wire_sample_event" where
  "wire_sample ev =
     \<lparr>wse_timestamp_ns = le_timestamp ev, wse_pid = le_pid ev, wse_tid = le_tid ev,
      wse_kernel_backtrace = le_kernel_backtrace ev, wse_user_backtrace = le_user_backtrace ev,
      wse_pmu = \<lparr>pmu_cycles = le_cycles ev, pmu_instructions = le_instructions ev, pmu_l1d_misses = le_l1d_misses ev,
        pmu_branch_mispreds = le_branch_mispreds ev\<rparr>\<rparr>"

fun ingest_live :: "live_event \<Rightarrow> ingest_sink \<Rightarrow> ingest_sink" where
  "ingest_live (LiveSample ev) = enqueue_event (Sample (wire_sample ev))"
| "ingest_live (LiveTargetAttached pid task_port) = enqueue_reliable (ReliableTargetAttached pid task_port)"
| "ingest_live (LiveBinaryLoaded ev) = enqueue_reliable (ReliableBinaryLoaded
     \<lparr>wb_path = lbe_path ev, wb_base_avma = lbe_base_avma ev, wb_vmsize = lbe_vmsize ev, wb_text_svma = lbe_text_svma ev,
      wb_arch = lbe_arch ev, wb_is_executable = lbe_is_executable ev, wb_symbols = lbe_symbols ev,
      wb_text_bytes = lbe_text_bytes ev\<rparr>)"
| "ingest_live (LiveBinaryUnloaded path base) = enqueue_reliable (ReliableBinaryUnloaded \<lparr>wu_path = path, wu_base_avma = base\<rparr>)"
| "ingest_live (LiveThreadName pid tid name) = enqueue_event (ThreadName pid tid name)"
| "ingest_live (LiveWakeup ev) = enqueue_event (Wakeup
     \<lparr>ww_timestamp_ns = lw_timestamp ev, ww_waker_tid = lw_waker_tid ev, ww_wakee_tid = lw_wakee_tid ev,
      ww_waker_user_stack = lw_waker_user_stack ev, ww_waker_kernel_stack = lw_waker_kernel_stack ev\<rparr>)"
| "ingest_live (LiveCpuInterval ev) = enqueue_event (wire_interval ev)"
| "ingest_live LiveMachoByteSource = id"

text \<open>A recorder without a live sink drops every event.\<close>

definition sink_to_ingest :: "sink_event \<Rightarrow> ingest_sink option \<Rightarrow> ingest_sink option" where
  "sink_to_ingest ev sink =
     (case live_event_of ev of None \<Rightarrow> sink | Some live \<Rightarrow> map_option (ingest_live live) sink)"

definition notify_target_attached :: "u32 \<Rightarrow> ingest_sink option \<Rightarrow> ingest_sink option" where
  "notify_target_attached pid sink = map_option (ingest_live (LiveTargetAttached pid 0)) sink"

definition live_sink_stop_flag :: "ingest_sink option \<Rightarrow> bool" where
  "live_sink_stop_flag sink = (case sink of None \<Rightarrow> False | Some s \<Rightarrow> ig_stop_requested s)"

section \<open>The event forwarder\<close>

definition INGEST_BATCH_MAX_EVENTS :: nat where "INGEST_BATCH_MAX_EVENTS = 1024"

text \<open>What the channel answers each time it is asked; a timed receive may run out of time.\<close>

datatype channel_answer = Got ingest_event | NothingYet | Disconnected

fun try_fill :: "channel_answer list \<Rightarrow> ingest_event list \<Rightarrow> ingest_event list \<times> bool \<times> channel_answer list" where
  "try_fill [] batch = (batch, False, [])"
| "try_fill (a # answers) batch =
     (if INGEST_BATCH_MAX_EVENTS \<le> length batch then (batch, False, a # answers)
      else case a of
        Got ev \<Rightarrow> try_fill answers (batch @ [ev])
      | NothingYet \<Rightarrow> (batch, False, answers)
      | Disconnected \<Rightarrow> (batch, True, answers))"

lemma try_fill_shorter: "try_fill answers batch = (batch', closed, rest) \<Longrightarrow> length rest \<le> length answers"
  by (induction answers batch rule: try_fill.induct) (auto split: if_splits channel_answer.splits)

function timed_fill :: "channel_answer list \<Rightarrow> ingest_event list \<Rightarrow> ingest_event list \<times> bool \<times> channel_answer list" where
  "timed_fill [] batch = (batch, False, [])"
| "timed_fill (a # answers) batch =
     (if INGEST_BATCH_MAX_EVENTS \<le> length batch then (batch, False, a # answers)
      else case a of
        Got ev \<Rightarrow>
          (case try_fill answers (batch @ [ev]) of
             (batch', True, rest) \<Rightarrow> (batch', True, rest)
           | (batch', False, rest) \<Rightarrow> timed_fill rest batch')
      | NothingYet \<Rightarrow> (batch, False, answers)
      | Disconnected \<Rightarrow> (batch, True, answers))"
  by pat_completeness auto
termination
  by (relation "measure (\<lambda>(answers, _). length answers)") (auto dest!: try_fill_shorter [OF sym])

lemma timed_fill_shorter: "timed_fill answers batch = (batch', closed, rest) \<Longrightarrow> length rest \<le> length answers"
proof (induction answers batch rule: timed_fill.induct)
  case (2 a answers batch)
  show ?case
  proof (cases "INGEST_BATCH_MAX_EVENTS \<le> length batch \<or> \<not> (\<exists>ev. a = Got ev)")
    case True
    then show ?thesis using 2(2) by (auto split: channel_answer.splits if_splits)
  next
    case False
    then obtain ev where a: "a = Got ev" by blast
    obtain b c r where t: "try_fill answers (batch @ [ev]) = (b, c, r)" by (metis prod_cases3)
    show ?thesis
    proof (cases c)
      case True
      then show ?thesis using 2(2) False a t try_fill_shorter [OF t] by simp
    next
      case c: False
      then have "timed_fill r b = (batch', closed, rest)" using 2(2) False a t by simp
      moreover from False have "\<not> INGEST_BATCH_MAX_EVENTS \<le> length batch" by simp
      ultimately have "length rest \<le> length r"
        using 2(1) [of ev b "(c, r)" c r] a t c by simp
      with try_fill_shorter [OF t] show ?thesis by simp
    qed
  qed
qed simp

record forward_counts =
  fc_samples :: u64
  fc_on_cpu :: u64
  fc_off_cpu :: u64
  fc_binaries_loaded :: u64
  fc_binaries_unloaded :: u64
  fc_target_attached :: u64
  fc_thread_names :: u64
  fc_wakeups :: u64

definition no_forward_counts :: forward_counts where
  "no_forward_counts = \<lparr>fc_samples = 0, fc_on_cpu = 0, fc_off_cpu = 0, fc_binaries_loaded = 0,
     fc_binaries_unloaded = 0, fc_target_attached = 0, fc_thread_names = 0, fc_wakeups = 0\<rparr>"

fun forward_record :: "ingest_event \<Rightarrow> forward_counts \<Rightarrow> forward_counts" where
  "forward_record (Sample _) c = c\<lparr>fc_samples := fc_samples c + 1\<rparr>"
| "forward_record (Runs.OnCpuInterval _) c = c\<lparr>fc_on_cpu := fc_on_cpu c + 1\<rparr>"
| "forward_record (OffCpuInterval _) c = c\<lparr>fc_off_cpu := fc_off_cpu c + 1\<rparr>"
| "forward_record (BinaryLoaded _) c = c\<lparr>fc_binaries_loaded := fc_binaries_loaded c + 1\<rparr>"
| "forward_record (BinaryUnloaded _) c = c\<lparr>fc_binaries_unloaded := fc_binaries_unloaded c + 1\<rparr>"
| "forward_record (TargetAttached _ _) c = c\<lparr>fc_target_attached := fc_target_attached c + 1\<rparr>"
| "forward_record (ThreadName _ _ _) c = c\<lparr>fc_thread_names := fc_thread_names c + 1\<rparr>"
| "forward_record (Wakeup _) c = c\<lparr>fc_wakeups := fc_wakeups c + 1\<rparr>"

definition forward_merge :: "forward_counts \<Rightarrow> forward_counts \<Rightarrow> forward_counts" where
  "forward_merge c other = \<lparr>fc_samples = fc_samples c + fc_samples other, fc_on_cpu = fc_on_cpu c + fc_on_cpu other,
     fc_off_cpu = fc_off_cpu c + fc_off_cpu other, fc_binaries_loaded = fc_binaries_loaded c + fc_binaries_loaded other,
     fc_binaries_unloaded = fc_binaries_unloaded c + fc_binaries_unloaded other,
     fc_target_attached = fc_target_attached c + fc_target_attached other,
     fc_thread_names = fc_thread_names c + fc_thread_names other, fc_wakeups = fc_wakeups c + fc_wakeups other\<rparr>"

definition forward_summary :: "forward_counts \<Rightarrow> string" where
  "forward_summary c =
     ''samples='' @ fmt_dec (fc_samples c) @ '' on_cpu='' @ fmt_dec (fc_on_cpu c) @
     '' off_cpu='' @ fmt_dec (fc_off_cpu c) @ '' bin_load='' @ fmt_dec (fc_binaries_loaded c) @
     '' bin_unload='' @ fmt_dec (fc_binaries_unloaded c) @ '' target='' @ fmt_dec (fc_target_attached c) @
     '' threads='' @ fmt_dec (fc_thread_names c) @ '' wakeups='' @ fmt_dec (fc_wakeups c)"

text \<open>\<open>fw_wire\<close> are the batches sent so far; a forwarder that has exited has closed its channel.\<close>

record forwarder =
  fw_forwarded :: u64
  fw_batches :: u64
  fw_counts :: forward_counts
  fw_wire :: "ingest_event list list"
  fw_exited :: bool
  fw_stop_requested :: bool

definition new_forwarder :: forwarder where
  "new_forwarder = \<lparr>fw_forwarded = 0, fw_batches = 0, fw_counts = no_forward_counts, fw_wire = [],
     fw_exited = False, fw_stop_requested = False\<rparr>"

definition forwarder_exit :: "forwarder \<Rightarrow> forwarder" where
  "forwarder_exit fw = fw\<lparr>fw_exited := True, fw_stop_requested := True\<rparr>"

definition send_batch :: "ingest_event list \<Rightarrow> forwarder \<Rightarrow> forwarder" where
  "send_batch batch fw =
     fw\<lparr>fw_forwarded := sat_add (fw_forwarded fw) (of_nat (length batch)), fw_batches := sat_add (fw_batches fw) 1,
        fw_counts := forward_merge (fw_counts fw) (fold forward_record batch no_forward_counts),
        fw_wire := fw_wire fw @ [batch]\<rparr>"

text \<open>One batch after its first event: what the channel has, then what comes within the delay.\<close>

definition gather_batch :: "ingest_event \<Rightarrow> channel_answer list \<Rightarrow> ingest_event list \<times> bool \<times> channel_answer list" where
  "gather_batch first answers =
     (let (b1, closed1, r1) = try_fill answers [first]; (b2, closed2, r2) = timed_fill r1 b1 in
      (b2, closed1 \<or> closed2, r2))"

lemma gather_shorter: "gather_batch ev answers = (batch, closed, rest) \<Longrightarrow> length rest \<le> length answers"
  by (auto simp: gather_batch_def split: prod.splits dest!: try_fill_shorter timed_fill_shorter)

text \<open>\<open>sends n\<close> is whether the send of the \<open>n\<close>-th batch succeeds.\<close>

function forward_loop :: "(nat \<Rightarrow> bool) \<Rightarrow> channel_answer list \<Rightarrow> forwarder \<Rightarrow> forwarder" where
  "forward_loop sends [] fw = fw"
| "forward_loop sends (NothingYet # answers) fw = forward_loop sends answers fw"
| "forward_loop sends (Disconnected # answers) fw = forwarder_exit fw"
| "forward_loop sends (Got first # answers) fw =
     (case gather_batch first answers of
        (batch, closed, rest) \<Rightarrow>
          if \<not> sends (length (fw_wire fw)) then forwarder_exit fw
          else if closed then forwarder_exit (send_batch batch fw)
          else forward_loop sends rest (send_batch batch fw))"
  by pat_completeness auto
termination
  by (relation "measure (\<lambda>(_, answers, _). length answers)") (auto dest!: gather_shorter [OF sym])

definition forward_events :: "(nat \<Rightarrow> bool) \<Rightarrow> channel_answer list \<Rightarrow> forwarder" where
  "forward_events sends answers = forward_loop sends answers new_forwarder"

section \<open>The reliable forwarder\<close>

fun publish_reliable :: "u64 \<Rightarrow> reliable_msg \<Rightarrow> 'c server \<Rightarrow> (string + unit) \<times> 'c server" where
  "publish_reliable run_id (ReliableTargetAttached pid task_port) sv = apply_target_attached run_id pid task_port sv"
| "publish_reliable run_id (ReliableBinaryLoaded b) sv = publish_binaries_loaded run_id [b] sv"
| "publish_reliable run_id (ReliableBinaryUnloaded b) sv = publish_binaries_unloaded run_id [b] sv"

text \<open>Calls go on after one that fails; the recorder is asked to stop.\<close>

primrec reliable_forwarder :: "u64 \<Rightarrow> reliable_msg list \<Rightarrow> bool \<times> 'c server \<Rightarrow> bool \<times> 'c server" where
  "reliable_forwarder run_id [] s = s"
| "reliable_forwarder run_id (msg # msgs) s =
     (case publish_reliable run_id msg (snd s) of
        (Inl _, sv) \<Rightarrow> reliable_forwarder run_id msgs (True, sv)
      | (Inr _, sv) \<Rightarrow> reliable_forwarder run_id msgs (fst s, sv))"

section \<open>What the forwarder delivers\<close>

definition got :: "channel_answer list \<Rightarrow> ingest_event list" where
  "got answers = List.map_filter (\<lambda>a. case a of Got ev \<Rightarrow> Some ev | _ \<Rightarrow> None) answers"

lemma got_simps [simp]:
  "got [] = []" "got (Got ev # answers) = ev # got answers" "got (NothingYet # answers) = got answers"
  "got (Disconnected # answers) = got answers" "got (xs @ ys) = got xs @ got ys"
  by (simp_all add: got_def List.map_filter_def)

lemma got_Disconnected: "list_all ((=) Disconnected) answers \<Longrightarrow> got answers = []"
  by (induction answers) auto

text \<open>The channel answers nothing but Disconnected once its senders are gone and it is empty.\<close>

fun stays_closed :: "channel_answer list \<Rightarrow> bool" where
  "stays_closed [] = True"
| "stays_closed (Disconnected # answers) = list_all ((=) Disconnected) answers"
| "stays_closed (_ # answers) = stays_closed answers"

lemma all_Disconnected_stays: "list_all ((=) Disconnected) answers \<Longrightarrow> stays_closed answers"
  by (cases answers) auto

lemma stays_closed_append: "stays_closed (used @ rest) \<Longrightarrow> stays_closed rest"
  by (induction used rule: stays_closed.induct) (auto intro: all_Disconnected_stays)

lemma closed_no_more: "stays_closed (used @ rest) \<Longrightarrow> Disconnected \<in> set used \<Longrightarrow> got rest = []"
  by (induction used rule: stays_closed.induct) (auto intro: got_Disconnected)

text \<open>A filled batch: the events of the answers used up, never beyond the limit.\<close>

definition filled :: "channel_answer list \<Rightarrow> ingest_event list \<Rightarrow> ingest_event list \<times> bool \<times> channel_answer list \<Rightarrow> bool" where
  "filled answers batch res = (case res of (batch', closed, rest) \<Rightarrow>
     \<exists>used. answers = used @ rest \<and> batch' = batch @ got used \<and>
       (length batch \<le> INGEST_BATCH_MAX_EVENTS \<longrightarrow> length batch' \<le> INGEST_BATCH_MAX_EVENTS) \<and>
       (closed \<longrightarrow> Disconnected \<in> set used))"

lemma filledI: "answers = used @ rest \<Longrightarrow> batch' = batch @ got used \<Longrightarrow>
    length batch \<le> INGEST_BATCH_MAX_EVENTS \<longrightarrow> length batch' \<le> INGEST_BATCH_MAX_EVENTS \<Longrightarrow>
    closed \<longrightarrow> Disconnected \<in> set used \<Longrightarrow> filled answers batch (batch', closed, rest)"
  by (auto simp: filled_def)

lemma filled_step:
  assumes "filled answers (batch @ [ev]) res" "length batch < INGEST_BATCH_MAX_EVENTS"
  shows "filled (Got ev # answers) batch res"
proof -
  obtain batch' closed rest where res: "res = (batch', closed, rest)" by (metis prod_cases3)
  with assms obtain used where "answers = used @ rest" "batch' = (batch @ [ev]) @ got used"
    "length batch' \<le> INGEST_BATCH_MAX_EVENTS" "closed \<longrightarrow> Disconnected \<in> set used"
    by (auto simp: filled_def)
  with res show ?thesis by (auto intro!: filledI [of _ "Got ev # used"])
qed

lemma filled_then:
  assumes "filled answers batch (b, c, r)" "filled r b (b', c', r')"
  shows "filled answers batch (b', c \<or> c', r')"
proof -
  from assms obtain u1 u2 where "answers = u1 @ r" "b = batch @ got u1" "c \<longrightarrow> Disconnected \<in> set u1"
    "r = u2 @ r'" "b' = b @ got u2" "c' \<longrightarrow> Disconnected \<in> set u2"
    "length batch \<le> INGEST_BATCH_MAX_EVENTS \<longrightarrow> length b' \<le> INGEST_BATCH_MAX_EVENTS"
    by (auto simp: filled_def)
  then show ?thesis by (intro filledI [of _ "u1 @ u2"]) auto
qed

lemma try_fill_filled: "filled answers batch (try_fill answers batch)"
proof (induction answers batch rule: try_fill.induct)
  case (2 a answers batch)
  show ?case
  proof (cases "\<not> INGEST_BATCH_MAX_EVENTS \<le> length batch \<and> (\<exists>ev. a = Got ev)")
    case True
    then obtain ev where a: "a = Got ev" and n: "\<not> INGEST_BATCH_MAX_EVENTS \<le> length batch" by blast
    show ?thesis using filled_step [OF 2 [OF n a]] a n by simp
  next
    case False
    then show ?thesis
      by (cases a) (auto intro: filledI [of _ "[]"] filledI [of _ "[NothingYet]"] filledI [of _ "[Disconnected]"])
  qed
qed (auto intro: filledI)

lemma timed_fill_filled: "filled answers batch (timed_fill answers batch)"
proof (induction answers batch rule: timed_fill.induct)
  case (2 a answers batch)
  show ?case
  proof (cases "\<not> INGEST_BATCH_MAX_EVENTS \<le> length batch \<and> (\<exists>ev. a = Got ev)")
    case True
    then obtain ev where a: "a = Got ev" and n: "\<not> INGEST_BATCH_MAX_EVENTS \<le> length batch" by blast
    obtain b c r where t: "try_fill answers (batch @ [ev]) = (b, c, r)" by (metis prod_cases3)
    from n have step: "filled (Got ev # answers) batch (b, c, r)"
      using filled_step [of answers batch ev] try_fill_filled [of answers "batch @ [ev]"] t by simp
    show ?thesis
    proof (cases c)
      case True
      then show ?thesis using step a n t by simp
    next
      case c: False
      obtain b' c' r' where u: "timed_fill r b = (b', c', r')" by (metis prod_cases3)
      have "filled r b (b', c', r')" using 2 [OF n a t [symmetric] refl] c u by simp
      from filled_then [OF step this] show ?thesis using a n t c u by simp
    qed
  next
    case False
    then show ?thesis
      by (cases a) (auto intro: filledI [of _ "[]"] filledI [of _ "[NothingYet]"] filledI [of _ "[Disconnected]"])
  qed
qed (auto intro: filledI)

lemma gather_batch_filled: "filled answers [first] (gather_batch first answers)"
  using filled_then [of answers "[first]"] try_fill_filled [of answers "[first]"] timed_fill_filled
  by (auto simp: gather_batch_def split: prod.splits) metis

lemma gather_batch_used:
  assumes "gather_batch first answers = (batch, closed, rest)"
  obtains used where "answers = used @ rest" "batch = first # got used" "length batch \<le> INGEST_BATCH_MAX_EVENTS"
    "closed \<longrightarrow> Disconnected \<in> set used"
  using gather_batch_filled [of answers first] assms that
  by (auto simp: filled_def INGEST_BATCH_MAX_EVENTS_def)

lemma forward_merge_record: "forward_merge c (forward_record ev d) = forward_record ev (forward_merge c d)"
  by (cases ev) (simp_all add: forward_merge_def add.assoc)

lemma forward_merge_fold: "forward_merge c (fold forward_record evs d) = fold forward_record evs (forward_merge c d)"
  by (induction evs arbitrary: d) (simp_all add: forward_merge_record)

lemma forward_merge_none [simp]: "forward_merge c no_forward_counts = c"
  by (simp add: forward_merge_def no_forward_counts_def)

lemma send_batch_fields [simp]:
  "fw_wire (send_batch batch fw) = fw_wire fw @ [batch]"
  "fw_counts (send_batch batch fw) = fold forward_record batch (fw_counts fw)"
  "fw_batches (send_batch batch fw) = sat_add (fw_batches fw) 1"
  "fw_forwarded (send_batch batch fw) = sat_add (fw_forwarded fw) (of_nat (length batch))"
  "fw_exited (send_batch batch fw) = fw_exited fw"
  "fw_stop_requested (send_batch batch fw) = fw_stop_requested fw"
  by (simp_all add: send_batch_def forward_merge_fold)

lemma forwarder_exit_fields [simp]:
  "fw_wire (forwarder_exit fw) = fw_wire fw" "fw_counts (forwarder_exit fw) = fw_counts fw"
  "fw_batches (forwarder_exit fw) = fw_batches fw" "fw_forwarded (forwarder_exit fw) = fw_forwarded fw"
  "fw_exited (forwarder_exit fw)" "fw_stop_requested (forwarder_exit fw)"
  by (simp_all add: forwarder_exit_def)

text \<open>The forwarder's state is what its wire says, and an exit asks the recorder to stop.\<close>

definition forwarder_ok :: "(nat \<Rightarrow> bool) \<Rightarrow> forwarder \<Rightarrow> bool" where
  "forwarder_ok sends fw \<longleftrightarrow>
     (\<forall>b \<in> set (fw_wire fw). b \<noteq> [] \<and> length b \<le> INGEST_BATCH_MAX_EVENTS) \<and>
     (\<forall>k < length (fw_wire fw). sends k) \<and>
     unat (fw_forwarded fw) = min (length (concat (fw_wire fw))) (2 ^ 64 - 1) \<and>
     unat (fw_batches fw) = min (length (fw_wire fw)) (2 ^ 64 - 1) \<and>
     fw_counts fw = fold forward_record (concat (fw_wire fw)) no_forward_counts \<and>
     (fw_exited fw \<longrightarrow> fw_stop_requested fw)"

lemma forwarder_ok_new: "forwarder_ok sends new_forwarder"
  by (simp add: forwarder_ok_def new_forwarder_def)

lemma forwarder_ok_exit: "forwarder_ok sends fw \<Longrightarrow> forwarder_ok sends (forwarder_exit fw)"
  by (simp add: forwarder_ok_def)

lemma forwarder_ok_send:
  assumes "forwarder_ok sends fw" "batch \<noteq> []" "length batch \<le> INGEST_BATCH_MAX_EVENTS" "sends (length (fw_wire fw))"
  shows "forwarder_ok sends (send_batch batch fw)"
proof -
  from assms(3) have n: "unat (of_nat (length batch) :: u64) = length batch"
    by (simp add: INGEST_BATCH_MAX_EVENTS_def unat_of_nat take_bit_nat_eq_self)
  have "unat (fw_forwarded (send_batch batch fw)) = min (length (concat (fw_wire (send_batch batch fw)))) (2 ^ 64 - 1)"
    "unat (fw_batches (send_batch batch fw)) = min (length (fw_wire (send_batch batch fw))) (2 ^ 64 - 1)"
    using assms(1) by (auto simp: forwarder_ok_def unat_sat_add n)
  then show ?thesis using assms by (auto simp: forwarder_ok_def less_Suc_eq)
qed

text \<open>What a run of the loop sends is a prefix of what it is given, and all of it unless a send fails.\<close>

lemma forward_loop_sends:
  assumes "forwarder_ok sends fw"
  shows "\<exists>sent. fw_wire (forward_loop sends answers fw) = fw_wire fw @ sent \<and>
    forwarder_ok sends (forward_loop sends answers fw) \<and> prefix (concat sent) (got answers) \<and>
    (stays_closed answers \<longrightarrow> concat sent = got answers \<or>
       fw_exited (forward_loop sends answers fw) \<and> \<not> sends (length (fw_wire fw @ sent)))"
  using assms
proof (induction sends answers fw rule: forward_loop.induct)
  case (3 sends answers fw)
  then show ?case by (auto simp: forwarder_ok_exit got_Disconnected)
next
  case (4 sends first answers fw)
  obtain batch closed rest where g: "gather_batch first answers = (batch, closed, rest)" by (metis prod_cases3)
  from gather_batch_used [OF g] obtain used where used: "answers = used @ rest" "batch = first # got used"
    "length batch \<le> INGEST_BATCH_MAX_EVENTS" "closed \<longrightarrow> Disconnected \<in> set used" .
  show ?case
  proof (cases "sends (length (fw_wire fw))")
    case False
    then show ?thesis using g 4(2) by (auto simp: forwarder_ok_exit)
  next
    case True
    with used 4(2) have ok: "forwarder_ok sends (send_batch batch fw)" by (auto intro: forwarder_ok_send)
    show ?thesis
    proof (cases closed)
      case True
      with used(1,4) have "stays_closed answers \<longrightarrow> got rest = []" by (auto dest: closed_no_more)
      then show ?thesis
        using g True \<open>sends (length (fw_wire fw))\<close> ok used(1,2)
        by (auto intro!: exI [of _ "[batch]"] simp: forwarder_ok_exit)
    next
      case False
      from 4(1) [OF g [symmetric] refl _ False ok] True obtain sent where
        "fw_wire (forward_loop sends rest (send_batch batch fw)) = fw_wire (send_batch batch fw) @ sent"
        "forwarder_ok sends (forward_loop sends rest (send_batch batch fw))" "prefix (concat sent) (got rest)"
        "stays_closed rest \<longrightarrow> concat sent = got rest \<or>
          fw_exited (forward_loop sends rest (send_batch batch fw)) \<and>
          \<not> sends (length (fw_wire (send_batch batch fw) @ sent))" by auto
      then show ?thesis
        using g False True used(1,2) stays_closed_append [of used rest]
        by (intro exI [of _ "batch # sent"]) auto
    qed
  qed
qed auto

text \<open>
  C32: whatever the channel answers and whichever send fails, the forwarder puts on the wire, in
  batches of 1 to 1024 events, a prefix of the events it receives, and its totals and its count of
  each kind are those of the wire, the totals saturating. When the channel stays closed once it is,
  the prefix is all of them unless a send failed: then the forwarder has exited. After an exit the
  recorder is asked to stop.
\<close>

theorem forwarder_delivers:
  assumes "stays_closed answers"
  shows "\<exists>wire. wire = fw_wire (forward_events sends answers) \<and>
    (\<forall>b \<in> set wire. b \<noteq> [] \<and> length b \<le> 1024) \<and> prefix (concat wire) (got answers) \<and>
    unat (fw_forwarded (forward_events sends answers)) = min (length (concat wire)) (2 ^ 64 - 1) \<and>
    unat (fw_batches (forward_events sends answers)) = min (length wire) (2 ^ 64 - 1) \<and>
    fw_counts (forward_events sends answers) = fold forward_record (concat wire) no_forward_counts \<and>
    (concat wire = got answers \<or> fw_exited (forward_events sends answers) \<and> \<not> sends (length wire)) \<and>
    (fw_exited (forward_events sends answers) \<longrightarrow> fw_stop_requested (forward_events sends answers))"
  using forward_loop_sends [OF forwarder_ok_new, of sends answers] assms
  by (auto simp: forward_events_def forwarder_ok_def INGEST_BATCH_MAX_EVENTS_def new_forwarder_def)

text \<open>Three names while the second send fails: the first batch has two, the third is not sent.\<close>

theorem forwarder_delivers_witness:
  "fw_wire (forward_events (\<lambda>n. n < 1) [Got (ThreadName 1 2 ''a''), Got (ThreadName 1 3 ''b''), NothingYet, NothingYet,
      Got (ThreadName 1 4 ''c''), Disconnected, Disconnected]) = [[ThreadName 1 2 ''a'', ThreadName 1 3 ''b'']] \<and>
    fw_stop_requested (forward_events (\<lambda>n. n < 1) [Got (ThreadName 1 2 ''a''), Got (ThreadName 1 3 ''b''), NothingYet, NothingYet,
      Got (ThreadName 1 4 ''c''), Disconnected, Disconnected])"
proof -
  let ?answers = "[Got (ThreadName 1 2 ''a''), Got (ThreadName 1 3 ''b''), NothingYet, NothingYet,
      Got (ThreadName 1 4 ''c''), Disconnected, Disconnected]"
  let ?fw = "forward_events (\<lambda>n. n < 1) ?answers"
  have w: "fw_wire ?fw = [[ThreadName 1 2 ''a'', ThreadName 1 3 ''b'']]"
    by (simp add: forward_events_def gather_batch_def INGEST_BATCH_MAX_EVENTS_def new_forwarder_def)
  have "fw_stop_requested ?fw"
    using forwarder_delivers [of ?answers "\<lambda>n. n < 1"] w by auto
  with w show ?thesis by simp
qed

section \<open>From the recorder to the aggregator\<close>

text \<open>What an event of the pipeline means to the aggregator at the far end.\<close>

fun recorded_event :: "sink_event \<Rightarrow> agg_event option" where
  "recorded_event (OnSample ev) = Some (RecPet (sv_tid ev) (sv_timestamp_ns ev) (sv_backtrace ev) (sv_kernel_backtrace ev)
     \<lparr>pmu_cycles = sv_cycles ev, pmu_instructions = sv_instructions ev, pmu_l1d_misses = sv_l1d_misses ev,
      pmu_branch_mispreds = sv_branch_mispreds ev\<rparr>)"
| "recorded_event (ImageScan.OnCpuInterval ev) = Some (RecInterval (iv_tid ev) (iv_start_ns ev) (iv_end_ns ev)
     (case iv_kind ev of CpuOn \<Rightarrow> OnCpu | CpuOff stack waker wstack \<Rightarrow> OffCpu stack waker wstack))"
| "recorded_event (OnThreadName ev) = Some (RecName (nv_tid ev) (nv_name ev))"
| "recorded_event (OnWakeup ev) = Some (RecWakeup (wv_timestamp_ns ev) (wv_waker_tid ev) (wv_wakee_tid ev)
     (wv_waker_user_stack ev) (wv_waker_kernel_stack ev))"
| "recorded_event _ = None"

lemma map_filter_append: "List.map_filter f (xs @ ys) = List.map_filter f xs @ List.map_filter f ys"
  by (simp add: List.map_filter_def)

lemma map_filter_step: "List.map_filter f (x # xs) = List.map_filter f [x] @ List.map_filter f xs"
  by (simp add: List.map_filter_simps split: option.split)

lemma sink_to_ingest_open:
  assumes "ig_events_open s" "ig_reliable_open s"
  shows "\<exists>s'. sink_to_ingest ev (Some s) = Some s' \<and> ig_events_open s' \<and> ig_reliable_open s' \<and>
    ig_stop_requested s' = ig_stop_requested s \<and>
    recorded (ig_events s') = recorded (ig_events s) @ List.map_filter recorded_event [ev]"
  using assms
  by (cases ev) (auto simp: sink_to_ingest_def enqueue_event_def enqueue_reliable_def wire_sample_def wire_interval_def
      recorded_def map_filter_append List.map_filter_simps Let_def split: cpu_interval_kind.splits)

lemma sink_events_recorded:
  assumes "ig_events_open s" "ig_reliable_open s"
  shows "\<exists>s'. fold sink_to_ingest es (Some s) = Some s' \<and> ig_stop_requested s' = ig_stop_requested s \<and>
    recorded (ig_events s') = recorded (ig_events s) @ List.map_filter recorded_event es"
  using assms
proof (induction es arbitrary: s)
  case Nil
  then show ?case by (simp add: List.map_filter_simps)
next
  case (Cons ev es)
  from sink_to_ingest_open [OF Cons.prems, of ev] obtain s1 where s1: "sink_to_ingest ev (Some s) = Some s1"
    "ig_events_open s1" "ig_reliable_open s1" "ig_stop_requested s1 = ig_stop_requested s"
    "recorded (ig_events s1) = recorded (ig_events s) @ List.map_filter recorded_event [ev]" by blast
  from Cons.IH [OF s1(2,3)] s1(1,4,5) map_filter_step [of recorded_event ev es] show ?case by auto
qed

lemma active_after_begin:
  assumes "begin_run env config now sv = (Inr r, stale, sv1)"
  shows "in_active (sv_inner sv1) = Some (new_summary r config now)" "sv_aggregator sv1 = empty_aggregator"
  using assms
  by (auto simp: begin_run_def activate_def reset_data_def bump_revision_def attach_local_shared_cache_def
      set_shared_cache_def set_macho_byte_source_def new_registry_def Let_def
      split: option.splits prod.splits sum.splits if_splits)

lemma all_sent:
  assumes "stays_closed answers" "\<And>n. sends n"
  shows "concat (fw_wire (forward_events sends answers)) = got answers"
  using forward_loop_sends [OF forwarder_ok_new, of sends answers] assms
  by (auto simp: forward_events_def new_forwarder_def)

text \<open>What a run's aggregator holds after the events went through both channels, however they are batched.\<close>

lemma ingest_aggregator:
  assumes "begin_run env config now sv = (Inr r, stale, sv1)" "stays_closed answers" "\<And>n. sends n"
    "got answers = ig_events (the (fold sink_to_ingest es (Some new_ingest_sink)))"
  shows "sv_aggregator (snd (snd (drain r (map (FromChannel \<circ> Received) (fw_wire (forward_events sends answers)))
    (new_counts, sv1)))) = agg_run (List.map_filter recorded_event es)"
proof -
  have "recorded (got answers) = List.map_filter recorded_event es"
    using sink_events_recorded [of new_ingest_sink es] assms(4)
    by (auto simp: new_ingest_sink_def recorded_def List.map_filter_simps)
  moreover obtain reason counts sv2 where
    d: "drain r (map (FromChannel \<circ> Received) (fw_wire (forward_events sends answers))) (new_counts, sv1) = (reason, counts, sv2)"
    by (metis prod_cases3)
  ultimately show ?thesis
    using drain_events [OF active_after_begin(1) [OF assms(1)] _ d] active_after_begin(2) [OF assms(1)]
      all_sent [OF assms(2,3)] by (simp add: agg_run_def new_summary_def)
qed

end
