(* ===== verification/Shade.thy ===== *)
theory Shade
  imports Client Ingest
begin

text \<open>
  The companion process of a recording (\<open>stax-shade/src/main.rs\<close>): it attaches to a process or
  launches one suspended, registers with the server, drives the recording client, resumes the
  target when recording has started, takes the target's exit status or ends it, and pumps its
  terminal. System calls are inputs, their results; what the process does is a list of calls.
  Logging is left out.
\<close>

section \<open>Calls\<close>

text \<open>A wait status as the C macros read it, and the answer of a \<open>waitpid\<close> for the target.\<close>

datatype wait_status = StatusExited int | StatusSignaled int | StatusOther

datatype waitpid_answer = WaitReaped wait_status | WaitRunning | WaitFailed int | WaitOther

record child_exit =
  cx_code :: "int option"
  cx_signal :: "int option"

datatype shade_call =
  OpenPty terminal_size
| ClosePty
| AttrInit
| AttrSetFlags
| AttrDestroy
| ActionsInit
| ActionsAddDup2 nat
| ActionsAddCloseSlave
| ActionsAddCloseMaster
| ActionsDestroy
| SpawnSuspended "string list"
| TaskForPid u32
| SetCurrentDir string
| RegisterShade shade_info
| ConnectIngest u64
| StartPump
| AttachedEvent u32
| DriveSession remote_options
| ResumeTarget u32
| PollTarget u32 waitpid_answer
| KillTarget u32
| WaitTarget u32
| ReportExit child_exit
| FinishPump
| AwaitForwarder
| AwaitForwarderFor nat
| ParkUntilSignal

definition fmt_int :: "int \<Rightarrow> string" where
  "fmt_int i = (if i < 0 then CHR ''-'' # dec_of_nat (nat (- i)) else dec_of_nat (nat i))"

section \<open>Attaching\<close>

record shade_cli =
  cli_attach :: "u32 option"
  cli_server_socket :: "string option"
  cli_run_id :: "u64 option"
  cli_daemon_socket :: string
  cli_frequency :: u32
  cli_time_limit :: "u64 option"
  cli_cwd :: "string option"
  cli_terminal_rows :: "u16 option"
  cli_terminal_cols :: "u16 option"
  cli_launch :: bool
  cli_command :: "string list"

datatype attach_mode = Existing u32 | LaunchProgram "string list"

definition attach_mode_of :: "shade_cli \<Rightarrow> string + attach_mode" where
  "attach_mode_of cli =
     (case (cli_attach cli, cli_launch cli, cli_command cli) of
        (Some pid, False, _) \<Rightarrow> Inr (Existing pid)
      | (None, True, _ # _) \<Rightarrow> Inr (LaunchProgram (cli_command cli))
      | (Some _, True, _) \<Rightarrow> Inl ''--attach and --launch are mutually exclusive''
      | (None, True, []) \<Rightarrow> Inl (''--launch requires a program after '' @ [CHR 0x60] @ ''--'' @ [CHR 0x60])
      | (None, False, _) \<Rightarrow> Inl (''specify --attach <pid> or --launch -- <argv'' @ [CHR 0xE2, CHR 0x80, CHR 0xA6] @ ''>''))"

text \<open>A pseudo terminal is its two descriptors; \<open>at_pre_resume\<close> is the port of a suspended target.\<close>

record attached =
  at_pid :: u32
  at_task :: u32
  at_pre_resume :: "u32 option"
  at_terminal :: "(int \<times> int) option"

text \<open>The results of the system calls that attaching makes; a code of zero is success.\<close>

record spawn_env =
  sp_openpty :: "string + int \<times> int"
  sp_attr_init :: int
  sp_setflags :: int
  sp_actions_init :: int
  sp_adddup2 :: "nat \<Rightarrow> int"
  sp_addclose_slave :: int
  sp_addclose_master :: int
  sp_spawn :: "int + u32"
  sp_task :: "u32 \<Rightarrow> int + u32"
  sp_set_dir :: "string \<Rightarrow> string option"

definition task_for_pid :: "spawn_env \<Rightarrow> u32 \<Rightarrow> string + u32" where
  "task_for_pid env pid =
     (case sp_task env pid of
        Inl kr \<Rightarrow> Inl (''task_for_pid('' @ fmt_dec pid @ '') failed: kr='' @ fmt_int kr @
          '' (expected same-uid, non-hardened target; privileged and hardened-runtime targets are out of scope)'')
      | Inr task \<Rightarrow> Inr task)"

definition interior_nul :: "string \<Rightarrow> bool" where
  "interior_nul s \<longleftrightarrow> CHR 0x00 \<in> set s"

text \<open>Calls in sequence up to the first that fails, with the text of its error.\<close>

fun setup_calls :: "(shade_call \<times> int \<times> string) list \<Rightarrow> string option \<times> shade_call list" where
  "setup_calls [] = (None, [])"
| "setup_calls ((call, r, what) # rest) =
     (if r \<noteq> 0 then (Some (what @ '': '' @ fmt_int r), [call])
      else let (e, calls) = setup_calls rest in (e, call # calls))"

text \<open>Standard input, output and error become the slave side, and both originals are closed.\<close>

definition pty_actions :: "spawn_env \<Rightarrow> int \<times> int \<Rightarrow> (shade_call \<times> int \<times> string) list" where
  "pty_actions env pty =
     map (\<lambda>fd. (ActionsAddDup2 fd, sp_adddup2 env fd, ''posix_spawn_file_actions_adddup2('' @ dec_of_nat fd @ '')'')) [0, 1, 2] @
     (if 2 < snd pty then [(ActionsAddCloseSlave, sp_addclose_slave env, ''posix_spawn_file_actions_addclose(slave)'')] else []) @
     [(ActionsAddCloseMaster, sp_addclose_master env, ''posix_spawn_file_actions_addclose(master)'')]"

definition prepare_actions :: "spawn_env \<Rightarrow> (int \<times> int) option \<Rightarrow> string option \<times> shade_call list" where
  "prepare_actions env pty =
     (case pty of
        None \<Rightarrow> (None, [])
      | Some fds \<Rightarrow>
          if sp_actions_init env \<noteq> 0
          then (Some (''posix_spawn_file_actions_init: '' @ fmt_int (sp_actions_init env)), [ActionsInit, AttrDestroy])
          else (case setup_calls (pty_actions env fds) of
              (None, calls) \<Rightarrow> (None, ActionsInit # calls)
            | (Some e, calls) \<Rightarrow> (Some e, ActionsInit # calls @ [ActionsDestroy, AttrDestroy])))"

definition spawn_target :: "spawn_env \<Rightarrow> string list \<Rightarrow> (int \<times> int) option \<Rightarrow> (string + attached) \<times> shade_call list" where
  "spawn_target env argv pty =
     (if sp_attr_init env \<noteq> 0 then (Inl (''posix_spawnattr_init: '' @ fmt_int (sp_attr_init env)), [AttrInit])
      else if sp_setflags env \<noteq> 0
      then (Inl (''posix_spawnattr_setflags: '' @ fmt_int (sp_setflags env)), [AttrInit, AttrSetFlags, AttrDestroy])
      else case prepare_actions env pty of
        (Some e, calls) \<Rightarrow> (Inl e, [AttrInit, AttrSetFlags] @ calls)
      | (None, calls) \<Rightarrow>
          let spawn = [AttrInit, AttrSetFlags] @ calls @ [SpawnSuspended argv] @
                (if pty = None then [] else [ActionsDestroy]) @ [AttrDestroy] in
          case sp_spawn env of
            Inl r \<Rightarrow> (Inl (''posix_spawn('' @ hd argv @ ''): '' @ fmt_int r), spawn)
          | Inr pid \<Rightarrow>
              (case task_for_pid env pid of
                 Inl e \<Rightarrow> (Inl e, spawn @ [TaskForPid pid, KillTarget pid, WaitTarget pid])
               | Inr task \<Rightarrow>
                   (Inr \<lparr>at_pid = pid, at_task = task, at_pre_resume = Some task, at_terminal = pty\<rparr>,
                    spawn @ [TaskForPid pid])))"

text \<open>A terminal that is not handed on closes when it is dropped.\<close>

definition launch_suspended ::
  "spawn_env \<Rightarrow> string list \<Rightarrow> terminal_size option \<Rightarrow> (string + attached) \<times> shade_call list" where
  "launch_suspended env argv terminal =
     (if argv = [] then (Inl ''--launch requires at least one positional argument (the program path)'', [])
      else if interior_nul (hd argv) then (Inl ''program path contains an interior NUL'', [])
      else if list_ex interior_nul argv then (Inl ''argv contains an interior NUL'', [])
      else case terminal of
        None \<Rightarrow> spawn_target env argv None
      | Some sz \<Rightarrow>
          (case sp_openpty env of
             Inl e \<Rightarrow> (Inl (''openpty: '' @ e), [OpenPty sz])
           | Inr pty \<Rightarrow>
               (case spawn_target env argv (Some pty) of
                  (Inl e, calls) \<Rightarrow> (Inl e, OpenPty sz # calls @ [ClosePty])
                | (Inr a, calls) \<Rightarrow> (Inr a, OpenPty sz # calls))))"

definition terminal_size_of :: "shade_cli \<Rightarrow> terminal_size option" where
  "terminal_size_of cli =
     (case (cli_terminal_rows cli, cli_terminal_cols cli) of
        (Some rows, Some cols) \<Rightarrow> Some \<lparr>tsz_rows = rows, tsz_cols = cols\<rparr>
      | _ \<Rightarrow> None)"

definition attach :: "spawn_env \<Rightarrow> shade_cli \<Rightarrow> attach_mode \<Rightarrow> (string + attached) \<times> shade_call list" where
  "attach env cli mode =
     (case mode of
        Existing pid \<Rightarrow>
          (case task_for_pid env pid of
             Inl e \<Rightarrow> (Inl e, [TaskForPid pid])
           | Inr task \<Rightarrow>
               (Inr \<lparr>at_pid = pid, at_task = task, at_pre_resume = None, at_terminal = None\<rparr>, [TaskForPid pid]))
      | LaunchProgram argv \<Rightarrow>
          let launch = launch_suspended env argv (if cli_server_socket cli = None then None else terminal_size_of cli) in
          (case cli_cwd cli of
             None \<Rightarrow> launch
           | Some cwd \<Rightarrow>
               (case sp_set_dir env cwd of
                  Some e \<Rightarrow> (Inl e, [SetCurrentDir cwd])
                | None \<Rightarrow> (fst launch, SetCurrentDir cwd # snd launch))))"

section \<open>The target's exit\<close>

definition decode_wait_status :: "wait_status \<Rightarrow> child_exit" where
  "decode_wait_status st =
     (case st of
        StatusExited code \<Rightarrow> \<lparr>cx_code = Some code, cx_signal = None\<rparr>
      | StatusSignaled signal \<Rightarrow> \<lparr>cx_code = None, cx_signal = Some signal\<rparr>
      | StatusOther \<Rightarrow> \<lparr>cx_code = None, cx_signal = None\<rparr>)"

definition launched_child_exited :: "waitpid_answer \<Rightarrow> child_exit option" where
  "launched_child_exited answer =
     (case answer of
        WaitReaped st \<Rightarrow> Some (decode_wait_status st)
      | WaitFailed errno \<Rightarrow> None
      | WaitRunning \<Rightarrow> None
      | WaitOther \<Rightarrow> None)"

text \<open>
  \<open>blocking\<close> is the answer of the second wait. The status starts as zero, which reads as an exit with
  code zero, and stays so when that wait reports no status.
\<close>

definition terminate_launched_child ::
  "u32 \<Rightarrow> waitpid_answer \<Rightarrow> waitpid_answer \<Rightarrow> child_exit option \<times> shade_call list" where
  "terminate_launched_child pid poll blocking =
     (case poll of
        WaitRunning \<Rightarrow>
          (Some (decode_wait_status (case blocking of WaitReaped st \<Rightarrow> st | _ \<Rightarrow> StatusExited 0)),
           [PollTarget pid poll, KillTarget pid, WaitTarget pid])
      | WaitReaped st \<Rightarrow> (Some (decode_wait_status st), [PollTarget pid poll])
      | _ \<Rightarrow> (None, [PollTarget pid poll]))"

section \<open>The recording\<close>

record shade_run =
  sr_pre_resume :: "u32 option"
  sr_child_exit :: "child_exit option"
  sr_calls :: "shade_call list"

definition make_calls :: "shade_call list \<Rightarrow> shade_run \<Rightarrow> shade_run" where
  "make_calls calls s = s\<lparr>sr_calls := sr_calls s @ calls\<rparr>"

definition resume_target :: "u32 \<Rightarrow> int \<Rightarrow> string + unit" where
  "resume_target task kr = (if kr \<noteq> 0 then Inl (''task_resume failed: kr='' @ fmt_int kr) else Inr ())"

text \<open>The task that listens for commands; what it is given ends with what it has seen so far.\<close>

datatype command_recv = StopCommand | EmptyCommand | CommandsClosed | CommandsFailed

fun server_stop_requested :: "command_recv list \<Rightarrow> bool" where
  "server_stop_requested [] = False"
| "server_stop_requested (StopCommand # _) = True"
| "server_stop_requested (EmptyCommand # rest) = server_stop_requested rest"
| "server_stop_requested (CommandsClosed # _) = False"
| "server_stop_requested (CommandsFailed # _) = False"

text \<open>
  The hooks that the recording client calls: whether to stop, given the commands so far and the
  answer of the wait if there is one; the first batch, with the result of the resume; a probe.
\<close>

datatype hook_call = ShouldStop "command_recv list" waitpid_answer | FirstBatch int | ProbeTriggered

definition should_stop_hook :: "u32 option \<Rightarrow> command_recv list \<Rightarrow> waitpid_answer \<Rightarrow> shade_run \<Rightarrow> bool \<times> shade_run" where
  "should_stop_hook launched_pid commands answer s =
     (if server_stop_requested commands then (True, s)
      else case launched_pid of
        None \<Rightarrow> (False, s)
      | Some pid \<Rightarrow>
          if sr_child_exit s \<noteq> None then (False, s)
          else let s1 = make_calls [PollTarget pid answer] s in
            (case launched_child_exited answer of
               Some exit \<Rightarrow> (True, s1\<lparr>sr_child_exit := Some exit\<rparr>)
             | None \<Rightarrow> (False, s1)))"

definition first_batch_hook :: "int \<Rightarrow> shade_run \<Rightarrow> shade_run" where
  "first_batch_hook kr s =
     (case sr_pre_resume s of
        None \<Rightarrow> s
      | Some task \<Rightarrow> make_calls [ResumeTarget task] (s\<lparr>sr_pre_resume := None\<rparr>))"

fun call_hook :: "u32 option \<Rightarrow> hook_call \<Rightarrow> shade_run \<Rightarrow> shade_run" where
  "call_hook launched_pid (ShouldStop commands answer) s = snd (should_stop_hook launched_pid commands answer s)"
| "call_hook launched_pid (FirstBatch kr) s = first_batch_hook kr s"
| "call_hook launched_pid ProbeTriggered s = s"

text \<open>What the recording is given: the server's answers, the client's session, and the last waits.\<close>

datatype register_answer = Acked shade_ack | RegisterUserError string | RegisterFailed string

definition shade_registration :: "u64 \<Rightarrow> u32 \<Rightarrow> u32 \<Rightarrow> shade_info" where
  "shade_registration run_id target_pid shade_pid =
     \<lparr>shi_run_id = run_id, shi_target_pid = target_pid, shi_shade_pid = shade_pid,
      shi_capabilities = \<lparr>cap_peek = False, cap_poke = False, cap_framehop_walker = False, cap_breakpoint_step = False\<rparr>\<rparr>"

definition registration_result :: "register_answer \<Rightarrow> string + unit" where
  "registration_result answer =
     (case answer of
        Acked ack \<Rightarrow>
          if sa_accepted ack then Inr ()
          else Inl (''stax-server rejected registration: '' @
            (case sa_reason ack of Some reason \<Rightarrow> reason | None \<Rightarrow> ''(no reason)''))
      | RegisterUserError e \<Rightarrow> Inl (''server returned error: '' @ e)
      | RegisterFailed e \<Rightarrow> Inl (''vox register_shade failed: '' @ e))"

record recording_env =
  re_shade_pid :: u32
  re_register :: register_answer
  re_connect :: "string + unit"
  re_start_pump :: "string + unit"
  re_hooks :: "hook_call list"
  re_session :: "client_error + unit"
  re_resume :: int
  re_poll :: waitpid_answer
  re_blocking :: waitpid_answer
  re_show_error :: "client_error \<Rightarrow> string"

definition recording_options :: "shade_cli \<Rightarrow> u32 \<Rightarrow> u32 \<Rightarrow> remote_options" where
  "recording_options cli pid task = default_options
     \<lparr>ro_daemon_socket := cli_daemon_socket cli, ro_pid := pid, ro_frequency_hz := cli_frequency cli,
      ro_duration := map_option (\<lambda>secs. unat secs * 1000000000) (cli_time_limit cli), ro_task := Some task\<rparr>"

text \<open>The steps after the session: a target that was not resumed, its end, its terminal, the forwarder.\<close>

definition resume_late :: "recording_env \<Rightarrow> shade_run \<Rightarrow> (string + unit) \<times> shade_run" where
  "resume_late env s =
     (case sr_pre_resume s of
        None \<Rightarrow> (Inr (), s)
      | Some task \<Rightarrow> (resume_target task (re_resume env), make_calls [ResumeTarget task] (s\<lparr>sr_pre_resume := None\<rparr>)))"

definition settle_child :: "u32 option \<Rightarrow> recording_env \<Rightarrow> shade_run \<Rightarrow> shade_run" where
  "settle_child launched_pid env s =
     (case launched_pid of
        None \<Rightarrow> s
      | Some pid \<Rightarrow>
          if sr_child_exit s \<noteq> None then s
          else case terminate_launched_child pid (re_poll env) (re_blocking env) of
            (Some exit, calls) \<Rightarrow> make_calls calls (s\<lparr>sr_child_exit := Some exit\<rparr>)
          | (None, calls) \<Rightarrow> make_calls calls s)"

definition finish_terminal :: "bool \<Rightarrow> shade_run \<Rightarrow> shade_run" where
  "finish_terminal terminal s =
     (if terminal
      then make_calls ((case sr_child_exit s of Some exit \<Rightarrow> [ReportExit exit] | None \<Rightarrow> []) @ [FinishPump]) s
      else s)"

definition await_forwarder :: "recording_env \<Rightarrow> shade_run \<Rightarrow> shade_run" where
  "await_forwarder env s =
     make_calls [case re_session env of Inl (WorkerShutdownTimedOut _) \<Rightarrow> AwaitForwarderFor 5000000000 | _ \<Rightarrow> AwaitForwarder] s"

definition after_session :: "bool \<Rightarrow> u32 option \<Rightarrow> recording_env \<Rightarrow> shade_run \<Rightarrow> (string + unit) \<times> shade_run" where
  "after_session terminal launched_pid env s =
     (case resume_late env s of
        (Inl e, s1) \<Rightarrow> (Inl e, s1)
      | (Inr _, s1) \<Rightarrow>
          (case re_session env of Inl e \<Rightarrow> Inl (''staxd-client failed: '' @ re_show_error env e) | Inr _ \<Rightarrow> Inr (),
           await_forwarder env (finish_terminal terminal (settle_child launched_pid env s1))))"

text \<open>A terminal that no pump has taken over closes with an early return.\<close>

definition drop_pty :: "bool \<Rightarrow> shade_run \<Rightarrow> shade_run" where
  "drop_pty terminal s = (if terminal then make_calls [ClosePty] s else s)"

definition run_recording ::
  "shade_cli \<Rightarrow> u64 \<Rightarrow> u32 \<Rightarrow> u32 \<Rightarrow> u32 option \<Rightarrow> bool \<Rightarrow> u32 option \<Rightarrow> recording_env \<Rightarrow> (string + unit) \<times> shade_run" where
  "run_recording cli run_id pid task pre_resume terminal launched_pid env =
     (let s0 = \<lparr>sr_pre_resume = pre_resume, sr_child_exit = None,
            sr_calls = [RegisterShade (shade_registration run_id pid (re_shade_pid env))]\<rparr> in
      case registration_result (re_register env) of
        Inl e \<Rightarrow> (Inl e, drop_pty terminal s0)
      | Inr _ \<Rightarrow>
          let s1 = make_calls [ConnectIngest run_id] s0 in
          (case re_connect env of
             Inl e \<Rightarrow> (Inl e, drop_pty terminal s1)
           | Inr _ \<Rightarrow>
               let s2 = (if terminal then make_calls [StartPump] s1 else s1) in
               (case (if terminal then re_start_pump env else Inr ()) of
                  Inl e \<Rightarrow> (Inl e, drop_pty terminal s2)
                | Inr _ \<Rightarrow>
                    after_session terminal launched_pid env (fold (call_hook launched_pid) (re_hooks env)
                      (make_calls [AttachedEvent pid, DriveSession (recording_options cli pid task)] s2)))))"

section \<open>The process\<close>

definition shade_main :: "spawn_env \<Rightarrow> recording_env \<Rightarrow> shade_cli \<Rightarrow> (string + unit) \<times> shade_call list" where
  "shade_main senv env cli =
     (case attach_mode_of cli of
        Inl e \<Rightarrow> (Inl e, [])
      | Inr mode \<Rightarrow>
          (case attach senv cli mode of
             (Inl e, calls) \<Rightarrow> (Inl e, calls)
           | (Inr a, calls) \<Rightarrow>
               let launched_pid = map_option (\<lambda>_. at_pid a) (at_pre_resume a) in
               (case (cli_server_socket cli, cli_run_id cli) of
                  (Some socket, Some run_id) \<Rightarrow>
                    (case run_recording cli run_id (at_pid a) (at_task a) (at_pre_resume a) (at_terminal a \<noteq> None) launched_pid env of
                       (res, s) \<Rightarrow> (res, calls @ sr_calls s))
                | (Some _, None) \<Rightarrow>
                    (Inl ''--server-socket requires --run-id; stax-server owns run allocation'',
                      calls @ (if at_terminal a = None then [] else [ClosePty]))
                | (None, _) \<Rightarrow>
                    (case at_pre_resume a of
                       None \<Rightarrow> (Inr (), calls @ [ParkUntilSignal])
                     | Some task \<Rightarrow>
                         (case resume_target task (re_resume env) of
                            Inl e \<Rightarrow> (Inl e, calls @ [ResumeTarget task])
                          | Inr _ \<Rightarrow> (Inr (), calls @ [ResumeTarget task, ParkUntilSignal]))))))"

section \<open>A failed launch leaves nothing behind\<close>

declare count_list_append [simp]

lemma setup_calls_steps: "set (snd (setup_calls steps)) \<subseteq> fst ` set steps"
  by (induction steps rule: setup_calls.induct) (auto split: prod.splits if_splits)

definition pty_call :: "shade_call \<Rightarrow> bool" where
  "pty_call c \<longleftrightarrow> (\<exists>fd. c = ActionsAddDup2 fd) \<or> c = ActionsAddCloseSlave \<or> c = ActionsAddCloseMaster"

lemma pty_calls: "\<forall>c \<in> set (snd (setup_calls (pty_actions env pty))). pty_call c"
  using setup_calls_steps [of "pty_actions env pty"] by (auto simp: pty_actions_def pty_call_def)

lemma count_list_none: "\<forall>c \<in> set calls. P c \<Longrightarrow> \<not> P c \<Longrightarrow> count_list calls c = 0"
  by (meson count_notin)

lemma count_other_calls:
  assumes "setup_calls (pty_actions env pty) = (e, calls)" "\<not> pty_call c"
  shows "count_list calls c = 0" "c \<notin> set calls"
  using pty_calls [of env pty] assms count_list_none [of calls pty_call c] by auto

text \<open>What spawning does with each resource.\<close>

definition spawn_clean :: "spawn_env \<Rightarrow> string list \<Rightarrow> (string + attached) \<times> shade_call list \<Rightarrow> bool" where
  "spawn_clean env argv rc = (case rc of (res, calls) \<Rightarrow>
     count_list calls AttrDestroy = of_bool (AttrInit \<in> set calls \<and> sp_attr_init env = 0) \<and>
     count_list calls ActionsDestroy = of_bool (ActionsInit \<in> set calls \<and> sp_actions_init env = 0) \<and>
     (\<forall>pid. count_list calls (KillTarget pid) = of_bool (isl res \<and> SpawnSuspended argv \<in> set calls \<and> sp_spawn env = Inr pid)) \<and>
     (\<forall>pid. count_list calls (WaitTarget pid) = count_list calls (KillTarget pid)))"

lemma prepare_actions_cases:
  assumes "prepare_actions env pty = (e, calls)"
  shows "count_list calls AttrDestroy = of_bool (e \<noteq> None)" "AttrInit \<notin> set calls"
    "ActionsInit \<in> set calls \<longleftrightarrow> pty \<noteq> None"
    "count_list calls ActionsDestroy = of_bool (e \<noteq> None \<and> pty \<noteq> None \<and> sp_actions_init env = 0)"
    "e = None \<Longrightarrow> pty \<noteq> None \<Longrightarrow> sp_actions_init env = 0"
    "count_list calls (KillTarget pid) = 0" "count_list calls (WaitTarget pid) = 0" "SpawnSuspended argv \<notin> set calls"
    "ClosePty \<notin> set calls" "OpenPty sz \<notin> set calls" "\<not> (\<exists>pid w. PollTarget pid w \<in> set calls)" "ResumeTarget task \<notin> set calls"
  using assms
  by (auto simp: prepare_actions_def pty_call_def count_other_calls dest: count_other_calls(2)
      split: option.splits if_splits prod.splits)

lemma spawn_target_clean: "spawn_clean env argv (spawn_target env argv pty)"
  using prepare_actions_cases [of env pty]
  by (auto simp: spawn_target_def spawn_clean_def Let_def split: option.splits prod.splits sum.splits)

lemma spawn_target_terminal:
  "spawn_target env argv pty = (res, calls) \<Longrightarrow> ClosePty \<notin> set calls \<and> OpenPty sz \<notin> set calls \<and>
    (\<forall>a. res = Inr a \<longrightarrow> sp_spawn env = Inr (at_pid a) \<and> at_pre_resume a = Some (at_task a) \<and> at_terminal a = pty)"
  using prepare_actions_cases [of env pty]
  by (auto simp: spawn_target_def Let_def split: option.splits prod.splits sum.splits if_splits)

text \<open>
  C36: whatever the system answers, a launch releases what it does not hand on: the spawn attributes
  and file actions are destroyed exactly once if they were initialised and never otherwise; when it
  fails, an opened terminal is closed and a child that was spawned is killed and waited for, once
  each; when it succeeds nothing is killed or closed, and what it returns is the suspended child with
  its port and terminal.
\<close>

theorem launch_cleans_up:
  "let (res, calls) = launch_suspended env argv terminal in
    count_list calls AttrDestroy = of_bool (AttrInit \<in> set calls \<and> sp_attr_init env = 0) \<and>
    count_list calls ActionsDestroy = of_bool (ActionsInit \<in> set calls \<and> sp_actions_init env = 0) \<and>
    (\<forall>pid. count_list calls (KillTarget pid) = of_bool (isl res \<and> SpawnSuspended argv \<in> set calls \<and> sp_spawn env = Inr pid)) \<and>
    (\<forall>pid. count_list calls (WaitTarget pid) = count_list calls (KillTarget pid)) \<and>
    count_list calls ClosePty = of_bool (isl res \<and> \<not> isl (sp_openpty env) \<and> (\<exists>sz. OpenPty sz \<in> set calls)) \<and>
    (case res of
       Inl _ \<Rightarrow> True
     | Inr a \<Rightarrow> sp_spawn env = Inr (at_pid a) \<and> at_pre_resume a = Some (at_task a) \<and>
         at_terminal a = (case terminal of None \<Rightarrow> None | Some _ \<Rightarrow> (case sp_openpty env of Inl _ \<Rightarrow> None | Inr pty \<Rightarrow> Some pty)))"
proof (cases "argv = [] \<or> interior_nul (hd argv) \<or> list_ex interior_nul argv")
  case True
  then show ?thesis by (auto simp: launch_suspended_def)
next
  case ok: False
  have clean: "spawn_clean env argv (spawn_target env argv pty)" for pty by (rule spawn_target_clean)
  show ?thesis
  proof (cases terminal)
    case None
    then show ?thesis
      using ok clean [of None] spawn_target_terminal [of env argv None]
      by (auto simp: launch_suspended_def spawn_clean_def split: prod.splits sum.splits)
  next
    case (Some sz)
    show ?thesis
    proof (cases "sp_openpty env")
      case (Inl e)
      then show ?thesis using ok Some by (auto simp: launch_suspended_def)
    next
      case (Inr pty)
      then show ?thesis
        using ok Some clean [of "Some pty"] spawn_target_terminal [of env argv "Some pty"]
        by (auto simp: launch_suspended_def spawn_clean_def split: prod.splits sum.splits)
    qed
  qed
qed

section \<open>A target whose status was taken is left alone\<close>

fun touches_target :: "shade_call \<Rightarrow> bool" where
  "touches_target (PollTarget _ _) = True"
| "touches_target (KillTarget _) = True"
| "touches_target (WaitTarget _) = True"
| "touches_target _ = False"

fun takes_status :: "shade_call \<Rightarrow> bool" where
  "takes_status (PollTarget _ (WaitReaped _)) = True"
| "takes_status (WaitTarget _) = True"
| "takes_status _ = False"

primrec safe_calls :: "shade_call list \<Rightarrow> bool" where
  "safe_calls [] = True"
| "safe_calls (c # calls) = (if takes_status c then \<not> list_ex touches_target calls else safe_calls calls)"

lemma takes_status_touches: "takes_status c \<Longrightarrow> touches_target c"
  by (cases c rule: touches_target.cases) auto

lemma quiet_safe: "\<not> list_ex touches_target calls \<Longrightarrow> safe_calls calls"
  by (induction calls) (auto dest: takes_status_touches)

lemma safe_calls_append:
  "safe_calls (xs @ ys) \<longleftrightarrow> safe_calls xs \<and> (if list_ex takes_status xs then \<not> list_ex touches_target ys else safe_calls ys)"
  by (induction xs) (auto dest: quiet_safe)

lemma quiet_no_status: "\<not> list_ex touches_target calls \<Longrightarrow> \<not> list_ex takes_status calls"
  by (induction calls) (auto dest: takes_status_touches)

definition waits_ok :: "shade_run \<Rightarrow> bool" where
  "waits_ok s \<longleftrightarrow> safe_calls (sr_calls s) \<and> (list_ex takes_status (sr_calls s) \<longrightarrow> sr_child_exit s \<noteq> None)"

lemma make_calls_fields [simp]:
  "sr_calls (make_calls calls s) = sr_calls s @ calls" "sr_child_exit (make_calls calls s) = sr_child_exit s"
  "sr_pre_resume (make_calls calls s) = sr_pre_resume s"
  by (simp_all add: make_calls_def)

lemma waits_ok_quiet: "waits_ok s \<Longrightarrow> \<not> list_ex touches_target calls \<Longrightarrow> waits_ok (make_calls calls s)"
  using quiet_no_status quiet_safe by (auto simp: waits_ok_def safe_calls_append)

lemma waits_ok_hook: "waits_ok s \<Longrightarrow> waits_ok (call_hook launched_pid h s)"
  by (cases h) (auto simp: should_stop_hook_def first_batch_hook_def launched_child_exited_def waits_ok_def
      safe_calls_append Let_def split: option.splits waitpid_answer.splits)

lemma waits_ok_hooks: "waits_ok s \<Longrightarrow> waits_ok (fold (call_hook launched_pid) hooks s)"
  by (induction hooks arbitrary: s) (simp_all add: waits_ok_hook)

lemma waits_ok_settle: "waits_ok s \<Longrightarrow> waits_ok (settle_child launched_pid env s)"
  by (auto simp: settle_child_def terminate_launched_child_def waits_ok_def safe_calls_append
      split: option.splits waitpid_answer.splits)

lemma waits_ok_after_session:
  assumes "waits_ok s"
  shows "waits_ok (snd (after_session terminal launched_pid env s))"
proof -
  have late: "waits_ok (snd (resume_late env s))"
    using assms by (auto simp: resume_late_def waits_ok_def safe_calls_append split: option.split)
  have "waits_ok (finish_terminal terminal s')" if "waits_ok s'" for s'
    unfolding finish_terminal_def using that by (auto intro!: waits_ok_quiet split: option.split)
  moreover have "waits_ok (await_forwarder env s')" if "waits_ok s'" for s'
    unfolding await_forwarder_def using that by (rule waits_ok_quiet) (simp split: sum.split client_error.split)
  ultimately show ?thesis
    using late by (auto simp: after_session_def waits_ok_settle split: sum.split prod.split)
qed

lemma waits_ok_recording:
  "waits_ok (snd (run_recording cli run_id pid task pre_resume terminal launched_pid env))"
proof -
  have "waits_ok \<lparr>sr_pre_resume = pre_resume, sr_child_exit = None, sr_calls = [RegisterShade info]\<rparr>" for info
    by (simp add: waits_ok_def)
  then show ?thesis
    by (auto simp: run_recording_def drop_pty_def Let_def intro!: waits_ok_after_session waits_ok_hooks waits_ok_quiet split: sum.split)
qed

lemma prepare_actions_quiet:
  assumes "prepare_actions env pty = (e, calls)"
  shows "\<not> list_ex touches_target calls"
proof -
  have "\<forall>c \<in> set calls. pty_call c \<or> c = ActionsInit \<or> c = ActionsDestroy \<or> c = AttrDestroy"
    using assms pty_calls [of env] by (auto simp: prepare_actions_def split: option.splits if_splits prod.splits) (metis snd_conv)+
  then show ?thesis by (fastforce simp: list_ex_iff pty_call_def)
qed

lemma quiet_spawn:
  assumes "spawn_target env argv pty = (Inr a, calls)"
  shows "\<not> list_ex touches_target calls"
  using assms prepare_actions_quiet [of env pty]
  by (auto simp: spawn_target_def Let_def split: prod.splits option.splits sum.splits if_splits)

lemma safe_spawn: "safe_calls (snd (spawn_target env argv pty))"
  using prepare_actions_quiet [of env pty]
  by (auto simp: spawn_target_def safe_calls_append quiet_safe quiet_no_status Let_def
      split: prod.splits option.split sum.split)

lemma attach_calls:
  assumes "attach env cli mode = (res, calls)"
  shows "safe_calls calls" "res = Inr a \<Longrightarrow> \<not> list_ex touches_target calls"
proof -
  have "safe_calls (snd (launch_suspended env argv t))" for argv t
    using safe_spawn [of env argv] quiet_spawn [of env argv]
    by (auto simp: launch_suspended_def safe_calls_append split: option.split sum.split prod.split) (metis snd_conv)+
  moreover have "\<not> list_ex touches_target (snd (launch_suspended env argv t))" if "launch_suspended env argv t = (Inr a, cs)" for argv t cs
    using that quiet_spawn [of env argv]
    by (auto simp: launch_suspended_def split: option.splits sum.splits prod.splits if_splits)
  ultimately show "safe_calls calls" "res = Inr a \<Longrightarrow> \<not> list_ex touches_target calls"
    using assms
    by (auto simp: attach_def Let_def split: attach_mode.splits sum.splits option.splits) (metis prod.collapse fst_conv snd_conv)+
qed

text \<open>
  C37: in everything the shade does, whatever the system, the server and the recording client answer,
  no call polls, kills or waits for the target once a call has taken its exit status, when its
  process id may belong to another process.
\<close>

theorem shade_leaves_reaped_target: "safe_calls (snd (shade_main senv env cli))"
proof (cases "attach_mode_of cli")
  case (Inl e)
  then show ?thesis by (simp add: shade_main_def)
next
  case (Inr mode)
  obtain res calls where a: "attach senv cli mode = (res, calls)" by fastforce
  show ?thesis
  proof (cases res)
    case (Inl e)
    then show ?thesis using \<open>attach_mode_of cli = Inr mode\<close> a attach_calls(1) [OF a] by (simp add: shade_main_def)
  next
    case (Inr at)
    note q = attach_calls(2) [OF a Inr]
    then have app: "safe_calls (calls @ more) \<longleftrightarrow> safe_calls more" for more
      using quiet_no_status [OF q] quiet_safe [OF q] by (simp add: safe_calls_append)
    have rec: "safe_calls (sr_calls s)" if "run_recording cli r p t pre term lp env = (x, s)" for r p t pre "term" lp x s
      using waits_ok_recording [of cli r p t pre "term" lp env] that by (simp add: waits_ok_def)
    show ?thesis
      using \<open>attach_mode_of cli = Inr mode\<close> a Inr rec
      by (auto simp: shade_main_def Let_def app quiet_safe [OF q] split: option.split sum.split prod.split)
  qed
qed

section \<open>What becomes of a launched target\<close>

text \<open>The exit that the stop hook sees, if it does.\<close>

fun exit_seen :: "hook_call list \<Rightarrow> child_exit option" where
  "exit_seen [] = None"
| "exit_seen (ShouldStop commands answer # hooks) =
     (if server_stop_requested commands then exit_seen hooks
      else case launched_child_exited answer of Some exit \<Rightarrow> Some exit | None \<Rightarrow> exit_seen hooks)"
| "exit_seen (_ # hooks) = exit_seen hooks"

fun is_report :: "shade_call \<Rightarrow> bool" where
  "is_report (ReportExit _) = True"
| "is_report _ = False"

text \<open>The calls of the hooks only poll, and resume at most once.\<close>

definition hook_calls_of :: "u32 option \<Rightarrow> shade_call list \<Rightarrow> bool" where
  "hook_calls_of pre cs \<longleftrightarrow> (\<forall>c \<in> set cs. (\<exists>pid w. c = PollTarget pid w) \<or> (\<exists>task. pre = Some task \<and> c = ResumeTarget task))"

lemma exit_seen_Cons: "exit_seen (h # hooks) = (case exit_seen [h] of Some x \<Rightarrow> Some x | None \<Rightarrow> exit_seen hooks)"
  by (cases h) (auto split: option.split)

lemma hook_step:
  "\<exists>cs. sr_calls (call_hook (Some pid) h s) = sr_calls s @ cs \<and>
    sr_child_exit (call_hook (Some pid) h s) = (case sr_child_exit s of Some x \<Rightarrow> Some x | None \<Rightarrow> exit_seen [h]) \<and>
    sr_pre_resume (call_hook (Some pid) h s) = (if \<exists>kr. h = FirstBatch kr then None else sr_pre_resume s) \<and>
    hook_calls_of (sr_pre_resume s) cs \<and>
    (\<forall>task. count_list cs (ResumeTarget task) = of_bool (sr_pre_resume s = Some task \<and> (\<exists>kr. h = FirstBatch kr)))"
proof (cases h)
  case (ShouldStop commands answer)
  then show ?thesis
    by (cases "server_stop_requested commands \<or> sr_child_exit s \<noteq> None")
      (auto simp: should_stop_hook_def hook_calls_of_def Let_def split: option.split)
qed (auto simp: first_batch_hook_def hook_calls_of_def split: option.split)

lemma hooks_run:
  "\<exists>cs. sr_calls (fold (call_hook (Some pid)) hooks s) = sr_calls s @ cs \<and>
    sr_child_exit (fold (call_hook (Some pid)) hooks s) = (case sr_child_exit s of Some x \<Rightarrow> Some x | None \<Rightarrow> exit_seen hooks) \<and>
    sr_pre_resume (fold (call_hook (Some pid)) hooks s) = (if \<exists>kr. FirstBatch kr \<in> set hooks then None else sr_pre_resume s) \<and>
    hook_calls_of (sr_pre_resume s) cs \<and>
    (\<forall>task. count_list cs (ResumeTarget task) = of_bool (sr_pre_resume s = Some task \<and> (\<exists>kr. FirstBatch kr \<in> set hooks)))"
proof (induction hooks arbitrary: s)
  case Nil
  then show ?case by (auto simp: hook_calls_of_def split: option.split)
next
  case (Cons h hooks)
  let ?s = "call_hook (Some pid) h s"
  from hook_step [of pid h s] obtain c1 where c1: "sr_calls ?s = sr_calls s @ c1"
    "sr_child_exit ?s = (case sr_child_exit s of Some x \<Rightarrow> Some x | None \<Rightarrow> exit_seen [h])"
    "sr_pre_resume ?s = (if \<exists>kr. h = FirstBatch kr then None else sr_pre_resume s)" "hook_calls_of (sr_pre_resume s) c1"
    "\<forall>task. count_list c1 (ResumeTarget task) = of_bool (sr_pre_resume s = Some task \<and> (\<exists>kr. h = FirstBatch kr))" by blast
  from Cons.IH [of ?s] obtain c2 where c2: "sr_calls (fold (call_hook (Some pid)) hooks ?s) = sr_calls ?s @ c2"
    "sr_child_exit (fold (call_hook (Some pid)) hooks ?s) = (case sr_child_exit ?s of Some x \<Rightarrow> Some x | None \<Rightarrow> exit_seen hooks)"
    "sr_pre_resume (fold (call_hook (Some pid)) hooks ?s) = (if \<exists>kr. FirstBatch kr \<in> set hooks then None else sr_pre_resume ?s)"
    "hook_calls_of (sr_pre_resume ?s) c2"
    "\<forall>task. count_list c2 (ResumeTarget task) = of_bool (sr_pre_resume ?s = Some task \<and> (\<exists>kr. FirstBatch kr \<in> set hooks))" by blast
  have "sr_child_exit (fold (call_hook (Some pid)) hooks ?s) =
      (case sr_child_exit s of Some x \<Rightarrow> Some x | None \<Rightarrow> exit_seen (h # hooks))"
    unfolding c2(2) c1(2) exit_seen_Cons [of h hooks] by (simp split: option.split)
  moreover have "hook_calls_of (sr_pre_resume s) (c1 @ c2)"
    using c1(3,4) c2(4) by (auto simp: hook_calls_of_def split: if_splits)
  moreover have "\<forall>task. count_list (c1 @ c2) (ResumeTarget task) =
      of_bool (sr_pre_resume s = Some task \<and> (\<exists>kr. FirstBatch kr \<in> set (h # hooks)))"
    using c1(3,5) c2(5) by auto
  ultimately show ?case using c1(1,3) c2(1,3) by (intro exI [of _ "c1 @ c2"]) auto
qed

text \<open>The end of a recording: what follows the session, from a state whose calls only set up and ran hooks.\<close>

lemma after_session_settles:
  assumes "re_resume env = 0" "sr_child_exit s = x" "sr_pre_resume s = pre" "pre = None \<or> pre = Some task"
    "count_list (sr_calls s) (ResumeTarget task) = of_bool (pre = None)"
    "KillTarget pid \<notin> set (sr_calls s)" "filter is_report (sr_calls s) = []"
  shows "\<exists>res s'. after_session terminal (Some pid) env s = (res, s') \<and>
    isl res = isl (re_session env) \<and> sr_pre_resume s' = None \<and> count_list (sr_calls s') (ResumeTarget task) = 1 \<and>
    (KillTarget pid \<in> set (sr_calls s') \<longleftrightarrow> x = None \<and> re_poll env = WaitRunning) \<and>
    sr_child_exit s' = (case x of Some x \<Rightarrow> Some x | None \<Rightarrow> fst (terminate_launched_child pid (re_poll env) (re_blocking env))) \<and>
    filter is_report (sr_calls s') =
      (if terminal then (case sr_child_exit s' of Some x \<Rightarrow> [ReportExit x] | None \<Rightarrow> []) else []) \<and>
    last (sr_calls s') = (case re_session env of Inl (WorkerShutdownTimedOut _) \<Rightarrow> AwaitForwarderFor 5000000000 | _ \<Rightarrow> AwaitForwarder)"
proof -
  obtain s2 where s2: "resume_late env s = (Inr (), s2)" "sr_child_exit s2 = x" "sr_pre_resume s2 = None"
    "count_list (sr_calls s2) (ResumeTarget task) = 1" "KillTarget pid \<notin> set (sr_calls s2)" "filter is_report (sr_calls s2) = []"
    using assms by (auto simp: resume_late_def resume_target_def)
  let ?s3 = "settle_child (Some pid) env s2"
  have s3: "sr_pre_resume ?s3 = None" "count_list (sr_calls ?s3) (ResumeTarget task) = 1" "filter is_report (sr_calls ?s3) = []"
    "KillTarget pid \<in> set (sr_calls ?s3) \<longleftrightarrow> x = None \<and> re_poll env = WaitRunning"
    "sr_child_exit ?s3 = (case x of Some x \<Rightarrow> Some x | None \<Rightarrow> fst (terminate_launched_child pid (re_poll env) (re_blocking env)))"
    using s2 by (auto simp: settle_child_def terminate_launched_child_def split: option.splits waitpid_answer.splits)
  let ?s4 = "await_forwarder env (finish_terminal terminal ?s3)"
  have "sr_pre_resume ?s4 = None" "count_list (sr_calls ?s4) (ResumeTarget task) = 1" "sr_child_exit ?s4 = sr_child_exit ?s3"
    "KillTarget pid \<in> set (sr_calls ?s4) \<longleftrightarrow> KillTarget pid \<in> set (sr_calls ?s3)"
    "filter is_report (sr_calls ?s4) = (if terminal then (case sr_child_exit ?s4 of Some x \<Rightarrow> [ReportExit x] | None \<Rightarrow> []) else [])"
    "last (sr_calls ?s4) = (case re_session env of Inl (WorkerShutdownTimedOut _) \<Rightarrow> AwaitForwarderFor 5000000000 | _ \<Rightarrow> AwaitForwarder)"
    using s3(1-3) by (auto simp: await_forwarder_def finish_terminal_def split: sum.split client_error.split option.split)
  with s3(4,5) s2(1) show ?thesis by (cases "re_session env") (simp_all add: after_session_def)
qed


text \<open>A launched target that exits with a code while it is recorded, and one that has to be killed.\<close>

definition demo_recording_env :: "hook_call list \<Rightarrow> recording_env" where
  "demo_recording_env hooks = \<lparr>re_shade_pid = 9, re_register = Acked \<lparr>sa_accepted = True, sa_reason = None\<rparr>,
     re_connect = Inr (), re_start_pump = Inr (), re_hooks = hooks, re_session = Inr (), re_resume = 0,
     re_poll = WaitRunning, re_blocking = WaitReaped (StatusSignaled 9), re_show_error = (\<lambda>_. [])\<rparr>"

definition demo_cli :: shade_cli where
  "demo_cli = \<lparr>cli_attach = None, cli_server_socket = Some ''/tmp/s'', cli_run_id = Some 1, cli_daemon_socket = ''/tmp/d'',
     cli_frequency = 900, cli_time_limit = None, cli_cwd = None, cli_terminal_rows = None, cli_terminal_cols = None,
     cli_launch = True, cli_command = [''ls'']\<rparr>"


text \<open>
  An error before the session, by contrast, returns at once: a target that was launched suspended is
  neither resumed nor ended.
\<close>

lemma setup_error_leaves_suspended:
  assumes "isl (registration_result (re_register env)) \<or> isl (re_connect env) \<or> terminal \<and> isl (re_start_pump env)"
    "run_recording cli run_id pid task (Some task) terminal (Some pid) env = (res, s)"
  shows "isl res \<and> sr_pre_resume s = Some task \<and> ResumeTarget task \<notin> set (sr_calls s) \<and> KillTarget pid \<notin> set (sr_calls s)"
  using assms by (auto simp: run_recording_def drop_pty_def make_calls_def Let_def split: sum.splits if_splits) (metis sum.disc(1))+

section \<open>The terminal\<close>

text \<open>What a read of the master side yields: bytes, the end, or an error number with its text.\<close>

datatype read_answer = ReadBytes string | ReadEof | ReadErrno int string

definition EINTR :: int where "EINTR = 4"
definition EIO :: int where "EIO = 5"

text \<open>The reading thread, as the events it delivers; the flag says whether a send succeeds.\<close>

fun pty_reader :: "(read_answer \<times> bool) list \<Rightarrow> terminal_output list" where
  "pty_reader [] = []"
| "pty_reader ((ReadBytes data, ok) # rest) = (if ok then OutputBytes data # pty_reader rest else [])"
| "pty_reader ((ReadEof, _) # rest) = []"
| "pty_reader ((ReadErrno errno e, ok) # rest) =
     (if errno = EINTR then pty_reader rest
      else if errno = EIO then []
      else if ok then [OutputError (''pty read failed: '' @ e)] else [])"

text \<open>A write that takes no byte leaves an error number.\<close>

datatype write_answer = Wrote nat | WriteStopped int

text \<open>One message: the bytes written, whether the loop ended, and the answers left.\<close>

fun write_all :: "string \<Rightarrow> write_answer list \<Rightarrow> string \<times> bool \<times> write_answer list" where
  "write_all [] answers = ([], True, answers)"
| "write_all (b # data) [] = ([], False, [])"
| "write_all (b # data) (Wrote n # answers) =
     (if n = 0 then ([], True, answers)
      else let (w, ended, rest) = write_all (drop n (b # data)) answers in (take n (b # data) @ w, ended, rest))"
| "write_all (b # data) (WriteStopped errno # answers) =
     (if errno = EINTR then write_all (b # data) answers else ([], True, answers))"

datatype pty_effect = Written string | SetSize terminal_size

fun pty_writer :: "terminal_input list \<Rightarrow> write_answer list \<Rightarrow> pty_effect list \<times> bool" where
  "pty_writer [] answers = ([], True)"
| "pty_writer (InputBytes data # inputs) answers =
     (case write_all data answers of
        (w, False, _) \<Rightarrow> ([Written w], False)
      | (w, True, rest) \<Rightarrow> let (effects, ended) = pty_writer inputs rest in (Written w # effects, ended))"
| "pty_writer (Resize sz # inputs) answers =
     (let (effects, ended) = pty_writer inputs answers in (SetSize sz # effects, ended))"
| "pty_writer (InputClose # inputs) answers = ([], True)"

text \<open>The relay from the server, and the one to it, which closes the channel when it ends.\<close>

fun input_relay :: "(terminal_input recv \<times> bool) list \<Rightarrow> terminal_input list" where
  "input_relay [] = []"
| "input_relay ((Runs.Received input, ok) # rest) = (if ok then input # input_relay rest else [])"
| "input_relay ((ChannelClosed, ok) # rest) = (if ok then [InputClose] else [])"
| "input_relay ((Runs.RecvFailed _, ok) # rest) = (if ok then [InputClose] else [])"

fun output_task :: "(terminal_output \<times> bool) list \<Rightarrow> terminal_output list" where
  "output_task [] = []"
| "output_task ((event, ok) # rest) = (if ok then event # output_task rest else [])"

text \<open>What a terminal ought to get: the effects of its inputs up to a close.\<close>

fun wanted_effects :: "terminal_input list \<Rightarrow> pty_effect list" where
  "wanted_effects [] = []"
| "wanted_effects (InputBytes data # inputs) = Written data # wanted_effects inputs"
| "wanted_effects (Resize sz # inputs) = SetSize sz # wanted_effects inputs"
| "wanted_effects (InputClose # inputs) = []"

fun effect_within :: "pty_effect \<Rightarrow> pty_effect \<Rightarrow> bool" where
  "effect_within (Written w) (Written data) = prefix w data"
| "effect_within e e' = (e = e')"

definition write_goes_on :: "write_answer \<Rightarrow> bool" where
  "write_goes_on a = (case a of Wrote n \<Rightarrow> 0 < n | WriteStopped errno \<Rightarrow> errno = EINTR)"

lemma write_all_prefix: "prefix (fst (write_all data answers)) data"
proof (induction data answers rule: write_all.induct)
  case (3 b data n answers)
  then show ?case
    by (auto split: prod.splits) (metis append_take_drop_id prefix_def append.assoc fst_conv)
qed auto

lemma write_all_full:
  assumes "list_all write_goes_on answers"
  shows "case write_all data answers of (w, ended, rest) \<Rightarrow> list_all write_goes_on rest \<and> (ended \<longrightarrow> w = data)"
  using assms
proof (induction data answers rule: write_all.induct)
  case (3 b data n answers)
  then show ?case by (auto simp: write_goes_on_def split: prod.splits)
qed (auto simp: write_goes_on_def)

text \<open>
  What the terminal gets: each message's bytes up to the first failing write, each resize, in order
  and never past a close; everything, when writes are only ever interrupted.
\<close>

lemma terminal_gets_input:
  "(\<exists>wanted. prefix wanted (wanted_effects inputs) \<and> list_all2 effect_within (fst (pty_writer inputs answers)) wanted) \<and>
    (list_all write_goes_on answers \<longrightarrow> snd (pty_writer inputs answers) \<longrightarrow>
       fst (pty_writer inputs answers) = wanted_effects inputs)"
proof (induction inputs answers rule: pty_writer.induct)
  case (2 data inputs answers)
  obtain w ended rest where wr: "write_all data answers = (w, ended, rest)" by (metis prod_cases3)
  have p: "prefix w data" using write_all_prefix [of data answers] wr by simp
  show ?case
  proof (cases ended)
    case False
    then show ?thesis using wr p by (auto intro!: exI [of _ "[Written data]"])
  next
    case True
    from 2 [of w "(ended, rest)" ended rest] wr True obtain wanted where wanted: "prefix wanted (wanted_effects inputs)"
      "list_all2 effect_within (fst (pty_writer inputs rest)) wanted"
      "list_all write_goes_on rest \<longrightarrow> snd (pty_writer inputs rest) \<longrightarrow> fst (pty_writer inputs rest) = wanted_effects inputs"
      by auto
    then show ?thesis using wr True p write_all_full [of answers data]
      by (auto split: prod.splits intro!: exI [of _ "Written data # wanted"])
  qed
next
  case (3 sz inputs answers)
  then obtain wanted where "prefix wanted (wanted_effects inputs)"
    "list_all2 effect_within (fst (pty_writer inputs answers)) wanted" by auto
  with 3 show ?case by (auto split: prod.splits intro!: exI [of _ "SetSize sz # wanted"])
qed auto

end
