(* ===== verification/Cli.thy ===== *)
theory Cli
  imports LiveServer Shade
begin

text \<open>
  The command line (\<open>cli/src/main.rs\<close>, \<open>src/args.rs\<close>): what it asks of the server, and what it
  makes of the answers. Lines whose numbers are printed as decimal fractions are rows with the
  integers they are computed from, and the comparison of a share with a percentage is a parameter.
  The setup command and the raw mode of the terminal are left out.
\<close>

section \<open>Recording\<close>

record record_args =
  ra_frequency :: u32
  ra_time_limit :: "u64 option"
  ra_pid :: "u32 option"
  ra_daemon_socket :: string
  ra_command :: "string list"

datatype target_process = ByPid u32 | LaunchProcess string "string list"

definition record_target :: "record_args \<Rightarrow> string + target_process" where
  "record_target args =
     (case (ra_pid args, ra_command args) of
        (Some _, _ # _) \<Rightarrow> Inl ''specify either --pid or a command to launch, not both''
      | (Some pid, []) \<Rightarrow> Inr (ByPid pid)
      | (None, program # rest) \<Rightarrow> Inr (LaunchProcess program rest)
      | (None, []) \<Rightarrow> Inl ''specify either --pid <PID> or a command to launch'')"

definition record_config :: "record_args \<Rightarrow> run_config" where
  "record_config args =
     \<lparr>rc_label = (case ra_command args of [] \<Rightarrow> ''(attached)'' | c # _ \<Rightarrow> c), rc_frequency_hz = ra_frequency args\<rparr>"

text \<open>\<open>winsize\<close> is the answer of the terminal; an empty one is no size.\<close>

definition current_terminal_size :: "terminal_size option \<Rightarrow> terminal_size option" where
  "current_terminal_size winsize =
     (case winsize of
        None \<Rightarrow> None
      | Some ws \<Rightarrow> if tsz_rows ws = 0 \<or> tsz_cols ws = 0 then None else Some ws)"

definition current_terminal_size_or_default :: "terminal_size option \<Rightarrow> terminal_size" where
  "current_terminal_size_or_default winsize =
     (case current_terminal_size winsize of Some ws \<Rightarrow> ws | None \<Rightarrow> \<lparr>tsz_rows = 24, tsz_cols = 80\<rparr>)"

datatype record_call =
  CallAttach u32 run_config string "u64 option"
| CallLaunch launch_request

definition record_request ::
  "record_args \<Rightarrow> string \<Rightarrow> (string \<times> string) list \<Rightarrow> terminal_size option \<Rightarrow> string + record_call" where
  "record_request args cwd vars winsize =
     (case record_target args of
        Inl e \<Rightarrow> Inl e
      | Inr (ByPid pid) \<Rightarrow> Inr (CallAttach pid (record_config args) (ra_daemon_socket args) (ra_time_limit args))
      | Inr (LaunchProcess program rest) \<Rightarrow>
          Inr (CallLaunch \<lparr>lr_command = program # rest, lr_cwd = from_utf8_lossy cwd,
            lr_env = filter (\<lambda>(k, v). valid_utf8 k \<and> valid_utf8 v) vars, lr_config = record_config args,
            lr_daemon_socket = ra_daemon_socket args, lr_time_limit_secs = ra_time_limit args,
            lr_terminal_size = Some (current_terminal_size_or_default winsize)\<rparr>))"

definition run_line :: "run_summary \<Rightarrow> string" where
  "run_line run =
     ''  run '' @ fmt_dec (rn_id run) @ ''  ['' @ (case rn_state run of Recording \<Rightarrow> ''recording'' | Stopped \<Rightarrow> ''stopped'') @ '']  '' @
     (case rn_target_pid run of Some p \<Rightarrow> ''pid '' @ fmt_dec p | None \<Rightarrow> ''no pid'') @ ''  '' @
     fmt_dec (rn_pet_samples run) @ '' kperf / '' @ fmt_dec (rn_off_cpu_intervals run) @ '' intervals  ('' @ rn_label run @ '')''"

definition fail_on_recorder_error :: "run_summary \<Rightarrow> string + unit" where
  "fail_on_recorder_error summary =
     (case rn_stop_reason summary of
        Some (RecorderError message) \<Rightarrow> Inl (''recorder failed: '' @ message)
      | _ \<Rightarrow> Inr ())"

text \<open>What a command prints and its result.\<close>

type_synonym command_result = "string list \<times> (string + unit)"

definition finished_run :: "u64 \<Rightarrow> string + run_summary list \<Rightarrow> command_result" where
  "finished_run run_id runs =
     (case runs of
        Inl e \<Rightarrow> ([], Inl e)
      | Inr summaries \<Rightarrow>
          (case find (\<lambda>run. rn_id run = run_id) summaries of
             None \<Rightarrow> ([''stax: run ended before wait attached''], Inr ())
           | Some summary \<Rightarrow> ([''stopped:'', run_line summary], fail_on_recorder_error summary)))"

text \<open>What ends a recording: the wait for the run, or Ctrl-C with the answer to the stop request.\<close>

datatype record_event = WaitReturned "string + wait_outcome" | CtrlC "string + unit" "string + run_summary"

definition finish_record ::
  "(wait_outcome \<Rightarrow> string) \<Rightarrow> u64 \<Rightarrow> string + run_summary list \<Rightarrow> record_event \<Rightarrow> command_result" where
  "finish_record show_outcome run_id runs event =
     (case event of
        WaitReturned (Inl e) \<Rightarrow> ([], Inl e)
      | WaitReturned (Inr (WaitStopped summary)) \<Rightarrow> ([''stopped:'', run_line summary], fail_on_recorder_error summary)
      | WaitReturned (Inr WaitNoActiveRun) \<Rightarrow> finished_run run_id runs
      | WaitReturned (Inr other) \<Rightarrow> ([''stax: unexpected wait outcome: '' @ show_outcome other], Inr ())
      | CtrlC (Inl e) _ \<Rightarrow> ([], Inl (''waiting for Ctrl-C: '' @ e))
      | CtrlC (Inr _) (Inl e) \<Rightarrow> ([], Inl e)
      | CtrlC (Inr _) (Inr summary) \<Rightarrow> ([''stopped:'', run_line summary], Inr ()))"

section \<open>Waiting, status and lists\<close>

definition choose_condition :: "u64 option \<Rightarrow> u64 option \<Rightarrow> string option \<Rightarrow> string + wait_condition" where
  "choose_condition for_samples for_seconds until_symbol =
     (case (for_samples, for_seconds, until_symbol) of
        (Some _, Some _, _) \<Rightarrow> Inl ''--for-samples, --for-seconds, --until-symbol are mutually exclusive''
      | (Some _, _, Some _) \<Rightarrow> Inl ''--for-samples, --for-seconds, --until-symbol are mutually exclusive''
      | (_, Some _, Some _) \<Rightarrow> Inl ''--for-samples, --for-seconds, --until-symbol are mutually exclusive''
      | (Some n, None, None) \<Rightarrow> Inr (ForSamples n)
      | (None, Some seconds, None) \<Rightarrow> Inr (ForSeconds seconds)
      | (None, None, Some needle) \<Rightarrow> Inr (UntilSymbolSeen needle)
      | (None, None, None) \<Rightarrow> Inr UntilStopped)"

definition wait_result :: "wait_outcome \<Rightarrow> command_result" where
  "wait_result outcome =
     (case outcome of
        ConditionMet summary \<Rightarrow> ([''condition met:'', run_line summary], Inr ())
      | WaitStopped summary \<Rightarrow> ([''run stopped:'', run_line summary], Inr ())
      | TimedOut summary \<Rightarrow> ([''timed out:'', run_line summary], Inl ''timed out waiting'')
      | WaitNoActiveRun \<Rightarrow> ([], Inl ''no active run''))"

text \<open>\<open>None\<close> is a command that does not return.\<close>

definition run_wait ::
  "u64 option \<Rightarrow> u64 option \<Rightarrow> string option \<Rightarrow> u64 option \<Rightarrow> (nat \<Rightarrow> 'c wait_poll) \<Rightarrow> command_result option" where
  "run_wait for_samples for_seconds until_symbol timeout_ms polls =
     (case choose_condition for_samples for_seconds until_symbol of
        Inl e \<Rightarrow> Some ([], Inl e)
      | Inr condition \<Rightarrow> map_option wait_result (wait_active condition timeout_ms polls))"

definition status_lines :: "run_summary list \<Rightarrow> string list" where
  "status_lines active = (case active of a # _ \<Rightarrow> [''active run:'', run_line a] | [] \<Rightarrow> [''no active run''])"

definition list_lines :: "run_summary list \<Rightarrow> string list" where
  "list_lines runs = (if runs = [] then [''(no runs)''] else map run_line runs)"

definition diagnostics_lines :: "run_summary list \<Rightarrow> string list" where
  "diagnostics_lines active = ''stax diagnostics'' #
     (case active of a # _ \<Rightarrow> [''active run:'', run_line a] | [] \<Rightarrow> [''active run: none''])"

section \<open>Threads\<close>

definition off_cpu_total_ns :: "off_cpu_breakdown \<Rightarrow> u64" where
  "off_cpu_total_ns b = idle_ns b + lock_ns b + semaphore_ns b + ipc_ns b + io_read_ns b + io_write_ns b +
     readiness_ns b + sleep_ns b + connect_ns b + other_ns b"

definition off_cpu_buckets :: "off_cpu_breakdown \<Rightarrow> (u64 \<times> string) list" where
  "off_cpu_buckets b = [(idle_ns b, ''idle''), (lock_ns b, ''lock''), (semaphore_ns b, ''sem''), (ipc_ns b, ''ipc''),
     (io_read_ns b, ''ioR''), (io_write_ns b, ''ioW''), (readiness_ns b, ''ready''), (sleep_ns b, ''sleep''),
     (connect_ns b, ''conn''), (other_ns b, ''other'')]"

definition dominant_off_cpu_reason :: "off_cpu_breakdown \<Rightarrow> string" where
  "dominant_off_cpu_reason b =
     fst (fold (\<lambda>(ns, name) best. if snd best < ns then (name, ns) else best) (off_cpu_buckets b) (''-'', 0))"

record thread_row =
  tr_on_cpu_ns :: u64
  tr_off_cpu_ns :: u64
  tr_pet_samples :: u64
  tr_dominant :: string
  tr_tid :: u32
  tr_name :: string

definition thread_row_of :: "thread_info \<Rightarrow> thread_row" where
  "thread_row_of t = \<lparr>tr_on_cpu_ns = ti_on_cpu_ns t, tr_off_cpu_ns = off_cpu_total_ns (ti_off_cpu t),
     tr_pet_samples = ti_pet_samples t, tr_dominant = dominant_off_cpu_reason (ti_off_cpu t), tr_tid = ti_tid t,
     tr_name = (case ti_name t of Some name \<Rightarrow> name | None \<Rightarrow> ''(unnamed)'')\<rparr>"

text \<open>The rows, and how many threads are left out.\<close>

definition print_threads :: "thread_info list \<Rightarrow> u32 \<Rightarrow> thread_row list \<times> nat" where
  "print_threads threads limit =
     (let sorted_threads = sort_by (\<lambda>a b. cmp (ti_on_cpu_ns b) (ti_on_cpu_ns a)) threads;
          n = (if limit = 0 then length sorted_threads else unat limit) in
      (map thread_row_of (take n sorted_threads), length sorted_threads - n))"

section \<open>The flame graph\<close>

datatype flame_row = NodeRow nat u64 string | MoreRow nat nat

definition flame_string :: "string list \<Rightarrow> string \<Rightarrow> u32 option \<Rightarrow> string" where
  "flame_string strings dflt i =
     (case i of None \<Rightarrow> dflt | Some k \<Rightarrow> if unat k < length strings then strings ! unat k else dflt)"

definition flame_label :: "string list \<Rightarrow> nat \<Rightarrow> flame_data \<Rightarrow> string" where
  "flame_label strings depth d =
     (if depth = 0 then ''(root)''
      else flame_string strings ''<unresolved>'' (fd_function_name d) @ ''  ('' @
        flame_string strings ''?'' (fd_binary d) @ '')'')"

text \<open>\<open>left\<close> is how much deeper the printing goes; \<open>faint\<close> is whether a time is under the threshold.\<close>

primrec print_flame_node :: "nat \<Rightarrow> (u64 \<Rightarrow> bool) \<Rightarrow> string list \<Rightarrow> nat \<Rightarrow> flame_node \<Rightarrow> flame_row list" where
  "print_flame_node 0 faint strings depth node =
     (let ns = nd_on_cpu_ns (fd_stats (fl_data node)) in
      if 0 < depth \<and> faint ns then []
      else NodeRow depth ns (flame_label strings depth (fl_data node)) #
        (if fl_children node = [] then [] else [MoreRow (depth + 1) (length (fl_children node))]))"
| "print_flame_node (Suc left) faint strings depth node =
     (let ns = nd_on_cpu_ns (fd_stats (fl_data node)) in
      if 0 < depth \<and> faint ns then []
      else NodeRow depth ns (flame_label strings depth (fl_data node)) #
        concat (map (print_flame_node left faint strings (depth + 1))
          (sort_by (\<lambda>a b. cmp (nd_on_cpu_ns (fd_stats (fl_data b))) (nd_on_cpu_ns (fd_stats (fl_data a)))) (fl_children node))))"

text \<open>\<open>small_share total ns\<close>: the share of \<open>ns\<close> in \<open>total\<close> is under the threshold.\<close>

definition print_flame :: "(u64 \<Rightarrow> u64 \<Rightarrow> bool) \<Rightarrow> flame_update \<Rightarrow> nat \<Rightarrow> flame_row list" where
  "print_flame small_share update max_depth =
     print_flame_node max_depth (small_share (max (fu_total_on_cpu_ns update) 1)) (fu_strings update) 0 (fu_root update)"

section \<open>Functions by name or address\<close>

text \<open>The value of a hexadecimal digit in either case.\<close>

definition hex_digit_value :: "char \<Rightarrow> nat" where
  "hex_digit_value c = (if 65 \<le> byte c \<and> byte c \<le> 70 then byte c - 55 else hex_value c)"

text \<open>\<open>u64::from_str_radix\<close> takes a plus sign, at least one digit and at most 64 bits.\<close>

definition u64_from_hex :: "string \<Rightarrow> u64 option" where
  "u64_from_hex s =
     (let digits = (case s of c # rest \<Rightarrow> if c = CHR ''+'' then rest else s | [] \<Rightarrow> []) in
      if digits = [] \<or> \<not> list_all is_ascii_hexdigit digits then None
      else let n = foldl (\<lambda>n c. 16 * n + hex_digit_value c) 0 digits in if 2 ^ 64 \<le> n then None else Some (of_nat n))"

definition parse_address :: "string \<Rightarrow> u64 option" where
  "parse_address raw =
     (let trimmed = str_trim raw in
      case (case strip_prefix_str ''0x'' trimmed of Some rest \<Rightarrow> Some rest | None \<Rightarrow> strip_prefix_str ''0X'' trimmed) of
        None \<Rightarrow> None
      | Some rest \<Rightarrow> u64_from_hex rest)"

text \<open>\<open>lower\<close> is the lower case of a string, \<open>quoted\<close> its debug form, \<open>entries\<close> the server's answer.\<close>

definition resolve_target ::
  "(string \<Rightarrow> string) \<Rightarrow> (string \<Rightarrow> string) \<Rightarrow> string \<Rightarrow> string + top_group list \<Rightarrow> string + u64" where
  "resolve_target lower quoted target entries =
     (case parse_address target of
        Some addr \<Rightarrow> Inr addr
      | None \<Rightarrow>
          (case entries of
             Inl e \<Rightarrow> Inl e
           | Inr [] \<Rightarrow> Inl ''no samples on the server (run a recording first, then retry)''
           | Inr es \<Rightarrow>
               (case find (\<lambda>e. case tg_function_name e of None \<Rightarrow> False | Some n \<Rightarrow> contains_bytes (lower target) (lower n)) es of
                  Some e \<Rightarrow> Inr (tg_address e)
                | None \<Rightarrow>
                    let suggestions = remdups_adj (take 8 (List.map_filter tg_function_name es));
                        hint = (if suggestions = [] then []
                          else [CHR 0x0A] @ ''hottest names in this run:'' @
                            concat (map (\<lambda>n. [CHR 0x0A] @ ''  - '' @ n) suggestions)) in
                    Inl (''no symbol matching '' @ quoted target @ '' in the current run'' @ hint))))"

section \<open>What the threads table says\<close>

lemma dominant_fold:
  assumes "fold (\<lambda>(ns, name) best. if snd best < ns then (name, ns) else best) bs (nm, m :: u64) = (nm', m')"
  shows "m \<le> m' \<and> (\<forall>b \<in> set bs. fst b \<le> m') \<and>
    (m' = m \<and> nm' = nm \<or>
     (\<exists>i < length bs. m < m' \<and> bs ! i = (m', nm') \<and> (\<forall>j < i. fst (bs ! j) < m')))"
  using assms
proof (induction bs arbitrary: nm m)
  case (Cons b bs)
  obtain ns name where b: "b = (ns, name)" by fastforce
  show ?case
  proof (cases "m < ns")
    case True
    with Cons.prems b have "fold (\<lambda>(ns, name) best. if snd best < ns then (name, ns) else best) bs (name, ns) = (nm', m')" by simp
    note ih = Cons.IH [OF this]
    then have le: "ns \<le> m'" "\<forall>b \<in> set bs. fst b \<le> m'" by simp_all
    have "\<exists>i < length (b # bs). m < m' \<and> (b # bs) ! i = (m', nm') \<and> (\<forall>j < i. fst ((b # bs) ! j) < m')"
    proof (cases "m' = ns \<and> nm' = name")
      case same: True
      then show ?thesis using b \<open>m < ns\<close> by (intro exI [of _ 0]) simp
    next
      case False
      with ih obtain i where i: "i < length bs" "ns < m'" "bs ! i = (m', nm')" "\<forall>j < i. fst (bs ! j) < m'" by blast
      have "\<forall>j < Suc i. fst ((b # bs) ! j) < m'"
        using i(2,4) b by (auto simp: less_Suc_eq_0_disj)
      moreover have "m < m'" using True i(2) by (rule less_trans)
      ultimately show ?thesis using i by (intro exI [of _ "Suc i"]) auto
    qed
    then show ?thesis using True le b by auto
  next
    case False
    with Cons.prems b have "fold (\<lambda>(ns, name) best. if snd best < ns then (name, ns) else best) bs (nm, m) = (nm', m')" by simp
    note ih = Cons.IH [OF this]
    then have le: "m \<le> m'" "\<forall>b \<in> set bs. fst b \<le> m'" by simp_all
    show ?thesis
    proof (cases "m' = m \<and> nm' = nm")
      case True
      then show ?thesis using le False b by auto
    next
      case ne: False
      with ih obtain i where i: "i < length bs" "m < m'" "bs ! i = (m', nm')" "\<forall>j < i. fst (bs ! j) < m'" by blast
      have "\<forall>j < Suc i. fst ((b # bs) ! j) < m'"
        using i(2,4) b False by (auto simp: less_Suc_eq_0_disj)
      then have "\<exists>i < length (b # bs). m < m' \<and> (b # bs) ! i = (m', nm') \<and> (\<forall>j < i. fst ((b # bs) ! j) < m')"
        using i by (intro exI [of _ "Suc i"]) auto
      then show ?thesis using le False b by auto
    qed
  qed
qed simp

text \<open>The reason shown is the first one with the most time, or a dash when there is none.\<close>

lemma dominant_exact:
  "(dominant_off_cpu_reason b = ''-'' \<and> (\<forall>x \<in> set (off_cpu_buckets b). fst x = 0)) \<or>
    (\<exists>i < 10. off_cpu_buckets b ! i = (fst (off_cpu_buckets b ! i), dominant_off_cpu_reason b) \<and> 0 < fst (off_cpu_buckets b ! i) \<and>
      (\<forall>x \<in> set (off_cpu_buckets b). fst x \<le> fst (off_cpu_buckets b ! i)) \<and>
      (\<forall>j < i. fst (off_cpu_buckets b ! j) < fst (off_cpu_buckets b ! i)))"
proof -
  obtain nm' m' where f: "fold (\<lambda>(ns, name) best. if snd best < ns then (name, ns) else best) (off_cpu_buckets b) (''-'', 0) = (nm', m')"
    by fastforce
  then have d: "dominant_off_cpu_reason b = nm'" by (simp add: dominant_off_cpu_reason_def)
  have n: "length (off_cpu_buckets b) = 10" by (simp add: off_cpu_buckets_def)
  note max = dominant_fold [OF f, unfolded n]
  show ?thesis
  proof (cases "m' = 0 \<and> nm' = ''-''")
    case True
    then show ?thesis using max d by auto
  next
    case False
    with max obtain i where "i < 10" "0 < m'" "off_cpu_buckets b ! i = (m', nm')" "\<forall>j < i. fst (off_cpu_buckets b ! j) < m'"
      by blast
    then show ?thesis using max d by (intro disjI2 exI [of _ i]) auto
  qed
qed

section \<open>What the printed flame graph shows\<close>

abbreviation node_ns :: "flame_node \<Rightarrow> u64" where
  "node_ns node \<equiv> nd_on_cpu_ns (fd_stats (fl_data node))"

text \<open>The nodes that are shown: the root, and the children of shown nodes that are not faint, up to a depth.\<close>

inductive shown :: "(u64 \<Rightarrow> bool) \<Rightarrow> nat \<Rightarrow> flame_node \<Rightarrow> nat \<Rightarrow> flame_node \<Rightarrow> bool" for faint max_depth root where
  root: "shown faint max_depth root 0 root"
| child: "shown faint max_depth root depth node \<Longrightarrow> depth < max_depth \<Longrightarrow> child \<in> set (fl_children node) \<Longrightarrow>
    \<not> faint (node_ns child) \<Longrightarrow> shown faint max_depth root (Suc depth) child"

definition more_row :: "nat \<Rightarrow> flame_node \<Rightarrow> flame_row list" where
  "more_row depth node = (if fl_children node = [] then [] else [MoreRow (depth + 1) (length (fl_children node))])"

text \<open>The same below a node at a depth that is printed.\<close>

inductive shown_below :: "(u64 \<Rightarrow> bool) \<Rightarrow> nat \<Rightarrow> nat \<Rightarrow> flame_node \<Rightarrow> nat \<Rightarrow> flame_node \<Rightarrow> bool" for faint max_depth d0 n0 where
  here: "shown_below faint max_depth d0 n0 d0 n0"
| deeper: "shown_below faint max_depth d0 n0 depth node \<Longrightarrow> depth < max_depth \<Longrightarrow> child \<in> set (fl_children node) \<Longrightarrow>
    \<not> faint (node_ns child) \<Longrightarrow> shown_below faint max_depth d0 n0 (Suc depth) child"

lemma shown_below_root: "shown_below faint max_depth 0 root depth node = shown faint max_depth root depth node"
proof
  show "shown_below faint max_depth 0 root depth node \<Longrightarrow> shown faint max_depth root depth node"
    by (induction rule: shown_below.induct) (auto intro: shown.intros)
  show "shown faint max_depth root depth node \<Longrightarrow> shown_below faint max_depth 0 root depth node"
    by (induction rule: shown.induct) (auto intro: shown_below.intros)
qed

lemma shown_below_depth: "shown_below faint max_depth d0 n0 depth node \<Longrightarrow> d0 \<le> depth"
  by (induction rule: shown_below.induct) auto

lemma shown_below_trans:
  "shown_below faint max_depth d1 n1 depth node \<Longrightarrow> shown_below faint max_depth d0 n0 d1 n1 \<Longrightarrow>
    shown_below faint max_depth d0 n0 depth node"
  by (induction rule: shown_below.induct) (auto intro: shown_below.deeper)

lemma shown_below_split:
  "shown_below faint max_depth d0 n0 depth node \<longleftrightarrow> depth = d0 \<and> node = n0 \<or>
    (d0 < max_depth \<and> (\<exists>child \<in> set (fl_children n0). \<not> faint (node_ns child) \<and> shown_below faint max_depth (Suc d0) child depth node))"
proof
  assume "shown_below faint max_depth d0 n0 depth node"
  then show "depth = d0 \<and> node = n0 \<or>
    (d0 < max_depth \<and> (\<exists>child \<in> set (fl_children n0). \<not> faint (node_ns child) \<and> shown_below faint max_depth (Suc d0) child depth node))"
  proof (induction rule: shown_below.induct)
    case (deeper depth node child)
    then show ?case by (blast intro: shown_below.intros)
  qed simp
next
  assume "depth = d0 \<and> node = n0 \<or>
    (d0 < max_depth \<and> (\<exists>child \<in> set (fl_children n0). \<not> faint (node_ns child) \<and> shown_below faint max_depth (Suc d0) child depth node))"
  then show "shown_below faint max_depth d0 n0 depth node"
    using shown_below_trans shown_below.intros by blast
qed

definition node_rows :: "string list \<Rightarrow> nat \<Rightarrow> nat \<Rightarrow> flame_node \<Rightarrow> flame_row set" where
  "node_rows strings max_depth depth node = {NodeRow depth (node_ns node) (flame_label strings depth (fl_data node))} \<union>
     (if depth = max_depth then set (more_row depth node) else {})"

lemma shown_union:
  assumes "d0 < max_depth"
  shows "(\<Union>d. \<Union>n \<in> {n. shown_below faint max_depth d0 n0 d n}. R d n) = R d0 n0 \<union>
    (\<Union>c \<in> {c \<in> set (fl_children n0). \<not> faint (node_ns c)}. \<Union>d. \<Union>n \<in> {n. shown_below faint max_depth (Suc d0) c d n}. R d n)"
  using assms by (auto simp: shown_below_split [of faint max_depth d0 n0])

lemma print_flame_node_rows:
  assumes "depth + left = max_depth" "depth = 0 \<or> \<not> faint (node_ns node)"
  shows "set (print_flame_node left faint strings depth node) =
    (\<Union>d. \<Union>n \<in> {n. shown_below faint max_depth depth node d n}. node_rows strings max_depth d n)"
  using assms
proof (induction left arbitrary: depth node)
  case 0
  then have "shown_below faint max_depth depth node d n \<longleftrightarrow> d = depth \<and> n = node" for d n
    using shown_below_split [of faint max_depth depth node d n] by simp
  then show ?case using 0 by (auto simp: node_rows_def more_row_def)
next
  case (Suc left)
  let ?kids = "{c \<in> set (fl_children node). \<not> faint (node_ns c)}"
  have faint: "print_flame_node left faint strings (depth + 1) c = []" if "faint (node_ns c)" for c
    using that by (cases left) (simp_all add: Let_def)
  have kid: "set (print_flame_node left faint strings (depth + 1) c) =
      (\<Union>d. \<Union>n \<in> {n. shown_below faint max_depth (Suc depth) c d n}. node_rows strings max_depth d n)" if "c \<in> ?kids" for c
    using Suc.IH [of "depth + 1" c] Suc.prems(1) that by simp
  have "set (print_flame_node (Suc left) faint strings depth node) =
      {NodeRow depth (node_ns node) (flame_label strings depth (fl_data node))} \<union>
      (\<Union>c \<in> ?kids. set (print_flame_node left faint strings (depth + 1) c))"
    using Suc.prems(2) faint by (auto simp: Let_def)
  also have "\<dots> = {NodeRow depth (node_ns node) (flame_label strings depth (fl_data node))} \<union>
      (\<Union>c \<in> ?kids. \<Union>d. \<Union>n \<in> {n. shown_below faint max_depth (Suc depth) c d n}. node_rows strings max_depth d n)"
    using kid by auto
  also have "\<dots> = (\<Union>d. \<Union>n \<in> {n. shown_below faint max_depth depth node d n}. node_rows strings max_depth d n)"
    using Suc.prems(1) by (subst shown_union) (simp_all add: node_rows_def)
  finally show ?case .
qed

text \<open>
  The printed flame graph has exactly the rows of the shown nodes, with their depths, times and
  names, and for each shown node at the last depth the number of its children.
\<close>

lemma print_flame_shows:
  "set (print_flame small_share update max_depth) =
    (\<Union>depth. \<Union>node \<in> {n. shown (small_share (max (fu_total_on_cpu_ns update) 1)) max_depth (fu_root update) depth n}.
      node_rows (fu_strings update) max_depth depth node)"
  unfolding print_flame_def shown_below_root [symmetric] by (rule print_flame_node_rows) simp_all

section \<open>An address is read back\<close>

lemma hex_digit_char: "n < 16 \<Longrightarrow> is_ascii_hexdigit (hex_digit n) \<and> hex_digit_value (hex_digit n) = n"
proof -
  assume "n < 16"
  then have "n \<in> set [0..<16]" by simp
  moreover have "list_all (\<lambda>n. is_ascii_hexdigit (hex_digit n) \<and> hex_digit_value (hex_digit n) = n) [0..<16]" by code_simp
  ultimately show ?thesis unfolding list_all_iff by blast
qed

lemma hex_of_nat_digits:
  "list_all is_ascii_hexdigit (hex_of_nat n) \<and> hex_of_nat n \<noteq> [] \<and>
    foldl (\<lambda>n c. 16 * n + hex_digit_value c) 0 (hex_of_nat n) = n"
proof (induction n rule: hex_of_nat.induct)
  case (1 n)
  then show ?case by (subst (1 2 3) hex_of_nat.simps) (simp add: hex_digit_char)
qed

lemma trim_with_none: "\<forall>w \<in> set ws. w \<noteq> [] \<and> hd w \<noteq> c \<Longrightarrow> trim_with ws (c # s) = c # s"
proof -
  assume *: "\<forall>w \<in> set ws. w \<noteq> [] \<and> hd w \<noteq> c"
  have "find (\<lambda>w. prefix w (c # s)) ws = None"
    unfolding find_None_iff using * by (metis list.sel(1) prefix_Cons)
  then show "trim_with ws (c # s) = c # s" by (subst trim_with.simps) (simp add: leading_space_def)
qed

lemma spaces_not_hex:
  "w \<in> set white_space \<Longrightarrow> w \<noteq> [] \<and> \<not> is_ascii_hexdigit (hd w) \<and> \<not> is_ascii_hexdigit (last w)"
proof -
  have "list_all (\<lambda>w. w \<noteq> [] \<and> \<not> is_ascii_hexdigit (hd w) \<and> \<not> is_ascii_hexdigit (last w)) white_space"
    by (simp add: white_space_def is_ascii_hexdigit_def is_ascii_digit_def upt_rec_numeral)
  then show "w \<in> set white_space \<Longrightarrow> w \<noteq> [] \<and> \<not> is_ascii_hexdigit (hd w) \<and> \<not> is_ascii_hexdigit (last w)"
    unfolding list_all_iff by blast
qed

lemma str_trim_hex:
  assumes "is_ascii_hexdigit (hd s)" "is_ascii_hexdigit (last s)" "s \<noteq> []"
  shows "str_trim s = s"
proof -
  have "\<forall>w \<in> set white_space. w \<noteq> [] \<and> hd w \<noteq> hd s"
  proof
    fix w assume "w \<in> set white_space"
    from spaces_not_hex [OF this] assms(1) show "w \<noteq> [] \<and> hd w \<noteq> hd s" by auto
  qed
  from trim_with_none [OF this] have "trim_with white_space (hd s # tl s) = hd s # tl s" .
  then have first: "trim_with white_space s = s" using assms(3) by simp
  have "\<forall>w \<in> set (map rev white_space). w \<noteq> [] \<and> hd w \<noteq> last s"
  proof
    fix w assume "w \<in> set (map rev white_space)"
    then obtain v where "v \<in> set white_space" "w = rev v" by auto
    with spaces_not_hex [of v] assms(2) show "w \<noteq> [] \<and> hd w \<noteq> last s" by (auto simp: hd_rev)
  qed
  from trim_with_none [OF this, of "tl (rev s)"] have "trim_with (map rev white_space) (rev s) = rev s"
    using assms(3) by (simp add: hd_rev [symmetric])
  then show ?thesis by (simp add: str_trim_def first)
qed

text \<open>An address as the server prints it is read back by the commands that take one.\<close>

lemma parse_address_printed: "parse_address (fmt_alt_x (w :: u64)) = Some w"
proof -
  note digits = hex_of_nat_digits [of "unat w"]
  have "is_ascii_hexdigit (last (hex_of_nat (unat w)))" using digits by (auto simp: list_all_iff)
  then have "str_trim (fmt_alt_x w) = fmt_alt_x w"
    using digits by (intro str_trim_hex) (simp_all add: fmt_alt_x_def fmt_x_def is_ascii_hexdigit_def is_ascii_digit_def)
  then have "parse_address (fmt_alt_x w) = u64_from_hex (hex_of_nat (unat w))"
    by (simp add: parse_address_def strip_prefix_str_def fmt_alt_x_def fmt_x_def)
  moreover have "u64_from_hex (hex_of_nat (unat w)) = Some w"
  proof -
    obtain c rest where c: "hex_of_nat (unat w) = c # rest" using digits by (cases "hex_of_nat (unat w)") auto
    then have plus: "c \<noteq> CHR ''+''" using digits by (auto simp: is_ascii_hexdigit_def is_ascii_digit_def)
    have "unat w < 2 ^ 64" using unsigned_less [of w] by simp
    then have small: "\<not> 2 ^ 64 \<le> unat w" by simp
    have "list_all is_ascii_hexdigit (c # rest)" "foldl (\<lambda>n c. 16 * n + hex_digit_value c) 0 (c # rest) = unat w"
      using digits unfolding c by blast+
    then show ?thesis unfolding c u64_from_hex_def Let_def using plus small by (simp del: foldl_Cons list.pred_inject)
  qed
  ultimately show ?thesis by simp
qed

section \<open>The terminal of a launched target\<close>

datatype stdin_answer = StdinBytes string | StdinInterrupted | StdinFailed

text \<open>
  The thread that reads the standard input, where no bytes is its end; the flag says whether the
  send succeeds.
\<close>

fun stdin_events :: "(stdin_answer \<times> bool) list \<Rightarrow> terminal_input list" where
  "stdin_events [] = []"
| "stdin_events ((StdinBytes data, ok) # rest) =
     (if data = [] then (if ok then [InputClose] else [])
      else if ok then InputBytes data # stdin_events rest else [])"
| "stdin_events ((StdinInterrupted, _) # rest) = stdin_events rest"
| "stdin_events ((StdinFailed, ok) # rest) = (if ok then [InputClose] else [])"

text \<open>The task that sends the events on, until a send fails.\<close>

fun send_inputs :: "(terminal_input \<times> bool) list \<Rightarrow> terminal_input list" where
  "send_inputs [] = []"
| "send_inputs ((event, ok) # rest) = (if ok then event # send_inputs rest else [])"

text \<open>What the terminal's output comes to: bytes for the standard output, or a message.\<close>

datatype screen = ScreenBytes string | ScreenMessage string

fun show_output :: "(string \<Rightarrow> string) \<Rightarrow> terminal_output recv list \<Rightarrow> screen list" where
  "show_output show [] = []"
| "show_output show (Runs.Received (OutputBytes data) # rest) = ScreenBytes data # show_output show rest"
| "show_output show (Runs.Received (ExitStatus code signal) # rest) = show_output show rest"
| "show_output show (Runs.Received (OutputError message) # rest) =
     ScreenMessage (''stax terminal: '' @ message) # show_output show rest"
| "show_output show (ChannelClosed # rest) = []"
| "show_output show (Runs.RecvFailed e # rest) = [ScreenMessage (''stax terminal recv failed: '' @ show e)]"

text \<open>The bytes typed before the input ends or fails.\<close>

fun typed :: "stdin_answer list \<Rightarrow> string list" where
  "typed [] = []"
| "typed (StdinBytes data # rest) = (if data = [] then [] else data # typed rest)"
| "typed (StdinInterrupted # rest) = typed rest"
| "typed (StdinFailed # rest) = []"

definition sent_ok :: "'a list \<Rightarrow> ('a \<times> bool) list" where
  "sent_ok xs = map (\<lambda>x. (x, True)) xs"

definition delivered :: "'a list \<Rightarrow> ('a recv \<times> bool) list" where
  "delivered xs = map (\<lambda>x. (Runs.Received x, True)) xs"

lemma relays_deliver: "relay_input (delivered xs) = xs" "input_relay (delivered xs) = xs" "send_inputs (sent_ok xs) = xs"
  by (induction xs) (simp_all add: delivered_def sent_ok_def)

lemma stdin_effects: "wanted_effects (stdin_events (sent_ok reads)) = map Written (typed reads)"
  by (induction reads rule: typed.induct) (simp_all add: sent_ok_def)

text \<open>
  C40: what is typed reaches the target. When every message of the client, the server and the shade
  is delivered and the terminal's writes are only ever interrupted, the target's terminal is given
  the client's size and then exactly the bytes typed before the input ended, in order.
\<close>

theorem keystrokes_reach_target:
  assumes "from_client = send_inputs (sent_ok (Resize sz # stdin_events (sent_ok reads)))"
    "from_server = relay_input (delivered from_client)"
    "list_all write_goes_on answers" "snd (pty_writer (input_relay (delivered from_server)) answers)"
  shows "fst (pty_writer (input_relay (delivered from_server)) answers) = SetSize sz # map Written (typed reads)"
proof -
  have inputs: "input_relay (delivered from_server) = Resize sz # stdin_events (sent_ok reads)"
    unfolding assms(1,2) relays_deliver ..
  from terminal_gets_input [of "input_relay (delivered from_server)" answers] assms(3,4)
  show ?thesis unfolding inputs by (simp add: stdin_effects)
qed

text \<open>Two lines are typed; the first is written in two pieces with an interruption between them.\<close>

theorem keystrokes_reach_target_witness:
  "fst (pty_writer (input_relay (delivered (relay_input (delivered (send_inputs (sent_ok
      (Resize \<lparr>tsz_rows = 24, tsz_cols = 80\<rparr> # stdin_events (sent_ok [StdinBytes ''ls'', StdinInterrupted, StdinBytes ''q'', StdinBytes []]))))))))
      [Wrote 1, WriteStopped EINTR, Wrote 1, Wrote 1]) =
    [SetSize \<lparr>tsz_rows = 24, tsz_cols = 80\<rparr>, Written ''ls'', Written ''q'']"
proof -
  let ?reads = "[StdinBytes ''ls'', StdinInterrupted, StdinBytes ''q'', StdinBytes []]"
  let ?answers = "[Wrote 1, WriteStopped EINTR, Wrote 1, Wrote 1]" and ?sz = "\<lparr>tsz_rows = 24, tsz_cols = 80\<rparr>"
  have "list_all write_goes_on ?answers" by (simp add: write_goes_on_def)
  moreover have "snd (pty_writer (input_relay (delivered (relay_input (delivered (send_inputs (sent_ok
      (Resize ?sz # stdin_events (sent_ok ?reads)))))))) ?answers)"
    unfolding relays_deliver by (simp add: sent_ok_def)
  ultimately have "fst (pty_writer (input_relay (delivered (relay_input (delivered (send_inputs (sent_ok
      (Resize ?sz # stdin_events (sent_ok ?reads)))))))) ?answers) = SetSize ?sz # map Written (typed ?reads)"
    by (rule keystrokes_reach_target [OF refl refl])
  then show ?thesis by simp
qed

end
