(* ===== verification/Commands.thy ===== *)
theory Commands
  imports Cli
begin

text \<open>
  The rest of the front end: where the command line looks for the server, the commands that print
  tables and annotated functions or signal other processes (\<open>cli/src/main.rs\<close>), and the recording
  that a front end drives in its own process (\<open>src/cmd_record_mac.rs\<close>). What other programs and the
  system answer is a parameter; logging is left out.
\<close>

section \<open>The server's socket\<close>

definition stax_server_socket :: "(string \<Rightarrow> string option) \<Rightarrow> u32 \<Rightarrow> (string \<Rightarrow> bool) \<Rightarrow> string option" where
  "stax_server_socket env_var uid path_exists =
     (case env_var ''STAX_SERVER_SOCKET'' of
        Some p \<Rightarrow> if path_exists p then Some p else None
      | None \<Rightarrow>
          let in_tmp = ''/tmp/stax-server-'' @ fmt_dec uid @ ''.sock'';
              in_runtime_dir = (case env_var ''XDG_RUNTIME_DIR'' of
                 Some rt \<Rightarrow> (let p = path_join rt ''stax-server.sock'' in if path_exists p then Some p else None)
               | None \<Rightarrow> None) in
          case in_runtime_dir of
            Some p \<Rightarrow> Some p
          | None \<Rightarrow> if path_exists in_tmp then Some in_tmp else None)"

definition require_server_socket :: "(string \<Rightarrow> string option) \<Rightarrow> u32 \<Rightarrow> (string \<Rightarrow> bool) \<Rightarrow> string + string" where
  "require_server_socket env_var uid path_exists =
     (case stax_server_socket env_var uid path_exists of
        Some p \<Rightarrow> Inr (''local://'' @ p)
      | None \<Rightarrow> Inl (''stax-server isn'' @ [CHR 0x27] @ ''t running. Start it with '' @ [CHR 0x60] @ ''stax-server'' @ [CHR 0x60] @
          '' (or set STAX_SERVER_SOCKET if you'' @ [CHR 0x27] @ ''ve moved the socket).''))"

text \<open>Given the same environment, a client finds the socket that a running server listens on.\<close>

lemma client_finds_server:
  "path_exists (resolve_socket_path env_var uid) \<Longrightarrow>
    require_server_socket env_var uid path_exists = Inr (''local://'' @ resolve_socket_path env_var uid)"
  by (cases "env_var ''STAX_SERVER_SOCKET''"; cases "env_var ''XDG_RUNTIME_DIR''")
    (simp_all add: require_server_socket_def stax_server_socket_def resolve_socket_path_def Let_def)

section \<open>Functions and annotated functions\<close>

definition top_sort_of :: "(string \<Rightarrow> string) \<Rightarrow> string \<Rightarrow> string + top_sort" where
  "top_sort_of quoted s =
     (if s = ''self'' then Inr BySelf
      else if s = ''total'' then Inr ByTotal
      else Inl (''unknown --sort value '' @ quoted s @ '' (use '' @ [CHR 0x60] @ ''self'' @ [CHR 0x60] @ '' or '' @
        [CHR 0x60] @ ''total'' @ [CHR 0x60] @ '')''))"

record function_row =
  fr_self_on_cpu_ns :: u64
  fr_self_pet_samples :: u64
  fr_name :: string
  fr_binary :: string

definition function_row_of :: "top_group \<Rightarrow> function_row" where
  "function_row_of e = \<lparr>fr_self_on_cpu_ns = as_self_on_cpu_ns (tg_stats e), fr_self_pet_samples = as_self_pet_samples (tg_stats e),
     fr_name = (case tg_function_name e of Some name \<Rightarrow> name | None \<Rightarrow> ''<unresolved>''),
     fr_binary = (case tg_binary e of Some bin \<Rightarrow> bin | None \<Rightarrow> ''?'')\<rparr>"

text \<open>\<open>entries\<close> is the server's answer to the request with that order.\<close>

definition run_top :: "(string \<Rightarrow> string) \<Rightarrow> string \<Rightarrow> (top_sort \<Rightarrow> string + top_group list) \<Rightarrow> string + function_row list" where
  "run_top quoted sort_arg entries =
     (case top_sort_of quoted sort_arg of
        Inl e \<Rightarrow> Inl e
      | Inr order \<Rightarrow> (case entries order of Inl e \<Rightarrow> Inl e | Inr es \<Rightarrow> Inr (map function_row_of es)))"

definition pad_left :: "nat \<Rightarrow> string \<Rightarrow> string" where
  "pad_left n s = replicate (n - length s) (CHR '' '') @ s"

definition annotate_line :: "source_line \<Rightarrow> string list" where
  "annotate_line line =
     (case sl_source_header line of
        Some hdr \<Rightarrow> if shd_file hdr \<noteq> [] then [''; '' @ shd_file hdr @ '':'' @ fmt_dec (shd_line hdr)] else []
      | None \<Rightarrow> []) @
     [''  '' @ fmt_alt_x (al_address (sl_line line)) @ ''  '' @ pad_left 5 (fmt_dec (al_self_pet_samples (sl_line line))) @
      '' samples  '' @ concat (map tk_text (al_tokens (sl_line line)))]"

definition annotate_lines :: "annotated_view \<Rightarrow> string list" where
  "annotate_lines view =
     (''; '' @ av_function_name view @ '' ('' @ av_language view @ '') @ '' @ fmt_alt_x (av_base_address view)) #
     concat (map annotate_line (av_lines view))"

definition run_annotate ::
  "(string \<Rightarrow> string) \<Rightarrow> (string \<Rightarrow> string) \<Rightarrow> string \<Rightarrow> string + top_group list \<Rightarrow> (u64 \<Rightarrow> string + annotated_view) \<Rightarrow> command_result" where
  "run_annotate lower quoted target entries annotated =
     (case resolve_target lower quoted target entries of
        Inl e \<Rightarrow> ([], Inl e)
      | Inr address \<Rightarrow>
          (case annotated address of Inl e \<Rightarrow> ([], Inl e) | Inr view \<Rightarrow> (annotate_lines view, Inr ())))"

definition run_stop :: "string + run_summary \<Rightarrow> command_result" where
  "run_stop answer = (case answer of Inl e \<Rightarrow> ([], Inl e) | Inr summary \<Rightarrow> ([''stopped:'', run_line summary], Inr ()))"

section \<open>Asking every process for a dump\<close>

definition dump_names :: "string list" where
  "dump_names = [''staxd'', ''stax-server'', ''stax-shade'', ''stax'']"

text \<open>\<open>pids\<close> answers which processes have exactly that name.\<close>

primrec collect_dump_targets :: "u32 \<Rightarrow> (string \<Rightarrow> string + u32 list) \<Rightarrow> string list \<Rightarrow> string + (string \<times> u32) list" where
  "collect_dump_targets self_pid pids [] = Inr []"
| "collect_dump_targets self_pid pids (name # names) =
     (case pids name of
        Inl e \<Rightarrow> Inl e
      | Inr ps \<Rightarrow>
          (case collect_dump_targets self_pid pids names of
             Inl e \<Rightarrow> Inl e
           | Inr ts \<Rightarrow> Inr (map (Pair name) (filter (\<lambda>pid. pid \<noteq> self_pid) ps) @ ts)))"

definition dump_targets :: "u32 \<Rightarrow> (string \<Rightarrow> string + u32 list) \<Rightarrow> string + (string \<times> u32) list" where
  "dump_targets self_pid pids =
     (case collect_dump_targets self_pid pids dump_names of
        Inl e \<Rightarrow> Inl e
      | Inr ts \<Rightarrow> Inr (dedup_by_key snd (sort_by (\<lambda>a b. then_with (cmp (snd a) (snd b)) (cmp (fst a) (fst b))) ts)))"

text \<open>\<open>signal\<close> is the error of a signal to a process, if it fails.\<close>

definition run_dump :: "u32 \<Rightarrow> (string \<Rightarrow> string + u32 list) \<Rightarrow> (u32 \<Rightarrow> string option) \<Rightarrow> command_result" where
  "run_dump self_pid pids signal =
     (case dump_targets self_pid pids of
        Inl e \<Rightarrow> ([], Inl e)
      | Inr [] \<Rightarrow> ([''no stax processes found''], Inr ())
      | Inr ts \<Rightarrow>
          (map (\<lambda>(name, pid). case signal pid of
              None \<Rightarrow> ''signaled '' @ name @ '' pid '' @ fmt_dec pid
            | Some e \<Rightarrow> ''failed to signal '' @ name @ '' pid '' @ fmt_dec pid @ '': '' @ e) ts,
           if list_ex (\<lambda>(name, pid). signal pid \<noteq> None) ts then Inl ''one or more dump signals failed'' else Inr ()))"

lemma collect_dump_targets_exact:
  "collect_dump_targets self_pid pids names = Inr ts \<Longrightarrow>
    set ts = {(name, pid). name \<in> set names \<and> pid \<noteq> self_pid \<and> (\<exists>ps. pids name = Inr ps \<and> pid \<in> set ps)}"
proof (induction names arbitrary: ts)
  case (Cons name names)
  then obtain ps ts' where "pids name = Inr ps" "collect_dump_targets self_pid pids names = Inr ts'"
    "ts = map (Pair name) (filter (\<lambda>pid. pid \<noteq> self_pid) ps) @ ts'"
    by (auto split: sum.splits)
  with Cons.IH [of ts'] show ?case by auto
qed simp

text \<open>Every process of the program but this one is asked once, whatever names it is found under.\<close>

lemma dump_targets_exact:
  assumes "dump_targets self_pid pids = Inr ts"
  shows "distinct (map snd ts)"
    "snd ` set ts = {pid. pid \<noteq> self_pid \<and> (\<exists>name \<in> set dump_names. \<exists>ps. pids name = Inr ps \<and> pid \<in> set ps)}"
proof -
  let ?c = "\<lambda>a b :: string \<times> u32. then_with (cmp (snd a) (snd b)) (cmp (fst a) (fst b))"
  from assms obtain us where us: "collect_dump_targets self_pid pids dump_names = Inr us" "ts = dedup_by_key snd (sort_by ?c us)"
    by (auto simp: dump_targets_def split: sum.splits)
  have "comparator ?c" by (intro comparator_then_with comparator_cmp)
  from comparator.sorted [OF this, of us] have "sorted_wrt (\<lambda>a b. snd a \<le> snd b) (sort_by ?c us)"
    by (rule sorted_wrt_mono_rel [rotated]) (auto simp: cmp_def split: if_splits)
  from dedup_strictly_sorted [OF this] have "sorted_wrt (<) (map snd ts)" by (simp add: us(2) sorted_wrt_map)
  then show "distinct (map snd ts)" by (simp add: strict_sorted_iff)
  show "snd ` set ts = {pid. pid \<noteq> self_pid \<and> (\<exists>name \<in> set dump_names. \<exists>ps. pids name = Inr ps \<and> pid \<in> set ps)}"
    using collect_dump_targets_exact [OF us(1)] by (auto simp: us(2) keys_dedup image_iff)
qed

section \<open>Recording in this process\<close>

datatype record_step =
  SpawnChild string "string list"
| NotifyAttached u32
| DriveClient remote_options
| KillChild u32
| WaitChild u32

definition in_process_options :: "record_args \<Rightarrow> u32 \<Rightarrow> remote_options" where
  "in_process_options args pid = default_options
     \<lparr>ro_daemon_socket := ra_daemon_socket args, ro_pid := pid, ro_frequency_hz := ra_frequency args,
      ro_duration := map_option (\<lambda>secs. unat secs * 1000000000) (ra_time_limit args)\<rparr>"

text \<open>
  The runtime may fail to start, and the session may fail. \<open>child_lock_poisoned\<close> is whether the
  child's lock is unusable when its guard is dropped.
\<close>

record in_process_env =
  ip_spawn :: "string + u32"
  ip_runtime :: "string + unit"
  ip_session :: "client_error + unit"
  ip_show_error :: "client_error \<Rightarrow> string"
  ip_lock_poisoned :: bool

definition stop_existing :: "bool \<Rightarrow> ingest_sink option \<Rightarrow> bool" where
  "stop_existing interrupted sink \<longleftrightarrow> interrupted \<or> live_sink_stop_flag sink"

datatype child_poll = ChildRunning | ChildExited | ChildPollFailed | ChildLockPoisoned

definition stop_launched :: "bool \<Rightarrow> ingest_sink option \<Rightarrow> child_poll \<Rightarrow> bool" where
  "stop_launched interrupted sink poll \<longleftrightarrow>
     (if interrupted \<or> live_sink_stop_flag sink then True
      else case poll of ChildExited \<Rightarrow> True | ChildLockPoisoned \<Rightarrow> True | _ \<Rightarrow> False)"

definition drive_in_process ::
  "in_process_env \<Rightarrow> record_args \<Rightarrow> u32 \<Rightarrow> ingest_sink option \<Rightarrow> (string + unit) \<times> ingest_sink option \<times> record_step list" where
  "drive_in_process env args pid live_sink =
     (let sink = notify_target_attached pid live_sink in
      case ip_runtime env of
        Inl e \<Rightarrow> (Inl (''daemon backend: tokio runtime build: '' @ e), sink, [NotifyAttached pid])
      | Inr _ \<Rightarrow>
          (case ip_session env of
             Inl e \<Rightarrow> Inl (''staxd-client failed: '' @ ip_show_error env e)
           | Inr _ \<Rightarrow> Inr (), sink, [NotifyAttached pid, DriveClient (in_process_options args pid)]))"

definition drop_child :: "in_process_env \<Rightarrow> u32 \<Rightarrow> record_step list" where
  "drop_child env pid = (if ip_lock_poisoned env then [] else [KillChild pid, WaitChild pid])"

definition record_child_launch ::
  "in_process_env \<Rightarrow> record_args \<Rightarrow> string \<Rightarrow> string list \<Rightarrow> ingest_sink option \<Rightarrow> (string + unit) \<times> ingest_sink option \<times> record_step list" where
  "record_child_launch env args program program_args live_sink =
     (case ip_spawn env of
        Inl e \<Rightarrow> (Inl (''failed to spawn '' @ program @ '': '' @ e), live_sink, [SpawnChild program program_args])
      | Inr pid \<Rightarrow>
          (case drive_in_process env args pid live_sink of
             (res, sink, steps) \<Rightarrow> (res, sink, SpawnChild program program_args # steps @ drop_child env pid)))"

definition main_with_live_sink ::
  "in_process_env \<Rightarrow> record_args \<Rightarrow> ingest_sink option \<Rightarrow> (string + unit) \<times> ingest_sink option \<times> record_step list" where
  "main_with_live_sink env args live_sink =
     (case record_target args of
        Inl e \<Rightarrow> (Inl e, live_sink, [])
      | Inr (ByPid pid) \<Rightarrow> drive_in_process env args pid live_sink
      | Inr (LaunchProcess program rest) \<Rightarrow> record_child_launch env args program rest live_sink)"

text \<open>
  A child that was started is killed and waited for, last, however the recording ends; a process that
  was attached to is left alone.
\<close>

lemma in_process_ends_child:
  assumes "main_with_live_sink env args live_sink = (res, sink, steps)" "\<not> ip_lock_poisoned env"
  shows "(\<exists>program rest pid. SpawnChild program rest \<in> set steps \<and> ip_spawn env = Inr pid \<and>
        (\<exists>before. steps = before @ [KillChild pid, WaitChild pid] \<and> (\<forall>p. KillChild p \<notin> set before \<and> WaitChild p \<notin> set before))) \<or>
      (\<forall>p. KillChild p \<notin> set steps \<and> WaitChild p \<notin> set steps) \<and>
        ((\<exists>program rest. SpawnChild program rest \<in> set steps) \<longrightarrow> isl (ip_spawn env))"
proof (cases "\<exists>program rest. record_target args = Inr (LaunchProcess program rest)")
  case True
  then obtain program rest where t: "record_target args = Inr (LaunchProcess program rest)" by blast
  show ?thesis
  proof (cases "ip_spawn env")
    case (Inl e)
    then show ?thesis using assms(1) t by (auto simp: main_with_live_sink_def record_child_launch_def)
  next
    case (Inr pid)
    obtain r s st where d: "drive_in_process env args pid live_sink = (r, s, st)" by (metis prod_cases3)
    then have "steps = (SpawnChild program rest # st) @ [KillChild pid, WaitChild pid]"
      using assms t Inr by (simp add: main_with_live_sink_def record_child_launch_def drop_child_def)
    moreover have "\<forall>p. KillChild p \<notin> set st \<and> WaitChild p \<notin> set st"
      using d by (auto simp: drive_in_process_def Let_def split: sum.splits)
    ultimately show ?thesis
      by (intro disjI1 exI [of _ program] exI [of _ rest] exI [of _ pid] conjI Inr exI [of _ "SpawnChild program rest # st"]) auto
  qed
next
  case False
  then show ?thesis
    using assms(1) by (auto simp: main_with_live_sink_def drive_in_process_def Let_def split: sum.splits target_process.splits)
qed

end
