(* ===== verification/Pmu.thy ===== *)
theory Pmu
  imports Client
begin

text \<open>
  The configurable counters of the processor (\<open>stax-mac-kperf-sys/src/pmu_events.rs\<close>): the wanted
  events are looked up by their names in Apple's event database, added to a configuration, and the
  place of each value behind the fixed counters is noted. The calls of the private framework are
  parameters: their codes, zero for success, and what they write; a pointer is its address, zero for
  null. Logging is left out.
\<close>

datatype pmu_slot = L1DCacheMissLoad | BranchMispredict

record pmu_event =
  pv_slot :: pmu_slot
  pv_candidates :: "string list"

definition REQUESTED_EVENTS :: "pmu_event list" where
  "REQUESTED_EVENTS =
     [\<lparr>pv_slot = L1DCacheMissLoad, pv_candidates = [''L1D_CACHE_MISS_LD'', ''L1D_CACHE_MISS_LD_NONSPEC'', ''L1D_LOAD_MISS'',
         ''MEM_INST_RETIRED.L1_MISS_LOAD'']\<rparr>,
      \<lparr>pv_slot = BranchMispredict, pv_candidates = [''BRANCH_MISPRED_NONSPEC'', ''BRANCH_MISPREDICT'', ''BR_MIS_PRED'',
         ''BR_MIS_PRED_RETIRED'']\<rparr>]"

definition PMU_SLOTS :: nat where "PMU_SLOTS = 2"

fun slot_number :: "pmu_slot \<Rightarrow> nat" where
  "slot_number L1DCacheMissLoad = 0"
| "slot_number BranchMispredict = 1"

record configured_pmu =
  cp_configs :: "u64 list"
  cp_class_mask :: u32
  cp_fixed_count :: nat
  cp_slot_indices :: "nat option list"

definition KPC_CLASS_CONFIGURABLE :: nat where "KPC_CLASS_CONFIGURABLE = 1"
definition KPC_CLASS_CONFIGURABLE_MASK :: u32 where "KPC_CLASS_CONFIGURABLE_MASK = push_bit KPC_CLASS_CONFIGURABLE 1"
definition KPC_MAX_COUNTERS :: nat where "KPC_MAX_COUNTERS = 32"

datatype pmu_call = DbCreate | DbFree nat | ConfigCreate | ConfigFree nat | AddEvent nat | ForceCounters

text \<open>An event is added to a configuration that has the events added before.\<close>

record pmu_env =
  pf_db_create :: "int \<times> nat"
  pf_config_create :: "int \<times> nat"
  pf_counter_count :: "u32 \<Rightarrow> u32"
  pf_db_event :: "string \<Rightarrow> int \<times> nat"
  pf_add_event :: "nat list \<Rightarrow> nat \<Rightarrow> int"
  pf_force_counters :: int
  pf_kpc_count :: "int \<times> nat"
  pf_kpc :: "u64 list \<Rightarrow> nat \<Rightarrow> int \<times> u64 list"
  pf_kpc_classes :: "int \<times> u32"

fun find_event :: "pmu_env \<Rightarrow> string list \<Rightarrow> (string \<times> nat) option" where
  "find_event env [] = None"
| "find_event env (name # names) =
     (if CHR 0x00 \<in> set name then find_event env names
      else case pf_db_event env name of (rc, event) \<Rightarrow>
        if rc = 0 \<and> event \<noteq> 0 then Some (name, event) else find_event env names)"

record pmu_walk =
  pw_slot_indices :: "nat option list"
  pw_next_index :: nat
  pw_resolved_any :: bool
  pw_added :: "nat list"
  pw_calls :: "pmu_call list"

definition start_slots :: "nat \<Rightarrow> pmu_walk" where
  "start_slots fixed_count = \<lparr>pw_slot_indices = replicate PMU_SLOTS None, pw_next_index = fixed_count, pw_resolved_any = False,
     pw_added = [], pw_calls = []\<rparr>"

definition configure_slot :: "pmu_env \<Rightarrow> pmu_event \<Rightarrow> pmu_walk \<Rightarrow> pmu_walk" where
  "configure_slot env entry w =
     (case find_event env (pv_candidates entry) of
        None \<Rightarrow> w
      | Some (_, event) \<Rightarrow>
          let w1 = w\<lparr>pw_calls := pw_calls w @ [AddEvent event]\<rparr> in
          if pf_add_event env (pw_added w) event \<noteq> 0 then w1
          else w1\<lparr>pw_slot_indices := (pw_slot_indices w)[slot_number (pv_slot entry) := Some (pw_next_index w)],
            pw_next_index := pw_next_index w + 1, pw_resolved_any := True, pw_added := pw_added w @ [event]\<rparr>)"

definition encode_config :: "pmu_env \<Rightarrow> nat \<Rightarrow> nat option list \<Rightarrow> configured_pmu option" where
  "encode_config env fixed_count slots =
     (case pf_kpc_count env of (rc, n) \<Rightarrow>
        if rc \<noteq> 0 then None
        else case pf_kpc env (replicate KPC_MAX_COUNTERS 0) (KPC_MAX_COUNTERS * 8) of (rc, configs) \<Rightarrow>
          if rc \<noteq> 0 then None
          else Some \<lparr>cp_configs = take (min n KPC_MAX_COUNTERS) configs,
            cp_class_mask = KPC_CLASS_FIXED_MASK OR
              (case pf_kpc_classes env of (rc, classes) \<Rightarrow> if rc = 0 then classes else KPC_CLASS_CONFIGURABLE_MASK),
            cp_fixed_count = fixed_count, cp_slot_indices = slots\<rparr>)"

text \<open>The guards free the configuration and the database on every way out, in this order.\<close>

definition configure :: "pmu_env \<Rightarrow> configured_pmu option \<times> pmu_call list" where
  "configure env =
     (case pf_db_create env of (rc, db) \<Rightarrow>
        if rc \<noteq> 0 \<or> db = 0 then (None, [DbCreate])
        else case pf_config_create env of (rc, config) \<Rightarrow>
          if rc \<noteq> 0 \<or> config = 0 then (None, [DbCreate, ConfigCreate, DbFree db])
          else let fixed_count = unat (pf_counter_count env KPC_CLASS_FIXED_MASK);
                   w = fold (configure_slot env) REQUESTED_EVENTS (start_slots fixed_count);
                   (res, calls) =
                     (if \<not> pw_resolved_any w then (None, [])
                      else if pf_force_counters env \<noteq> 0 then (None, [ForceCounters])
                      else (encode_config env fixed_count (pw_slot_indices w), [ForceCounters])) in
            (res, [DbCreate, ConfigCreate] @ pw_calls w @ calls @ [ConfigFree config, DbFree db]))"

section \<open>What a configuration promises\<close>

text \<open>The events added so far have consecutive places behind the fixed counters, in their order.\<close>

definition slots_ok :: "nat \<Rightarrow> pmu_walk \<Rightarrow> bool" where
  "slots_ok fixed_count w \<longleftrightarrow> length (pw_slot_indices w) = PMU_SLOTS \<and>
     pw_next_index w = fixed_count + length (pw_added w) \<and> (pw_resolved_any w \<longleftrightarrow> pw_added w \<noteq> []) \<and>
     (\<forall>c \<in> set (pw_calls w). \<exists>event. c = AddEvent event)"

lemma configure_slot_ok: "slots_ok fixed_count w \<Longrightarrow> slots_ok fixed_count (configure_slot env entry w)"
  by (auto simp: slots_ok_def configure_slot_def Let_def split: option.split)

lemma requested_slots:
  "let w = fold (configure_slot env) REQUESTED_EVENTS (start_slots fixed_count) in
    slots_ok fixed_count w \<and>
    List.map_filter id (pw_slot_indices w) = [fixed_count ..< fixed_count + length (pw_added w)]"
proof -
  obtain l1d mispredict where ev: "REQUESTED_EVENTS = [l1d, mispredict]" "pv_slot l1d = L1DCacheMissLoad"
    "pv_slot mispredict = BranchMispredict" by (simp add: REQUESTED_EVENTS_def)
  have start: "slots_ok fixed_count (start_slots fixed_count)" by (simp add: slots_ok_def start_slots_def)
  have "List.map_filter id (pw_slot_indices (configure_slot env mispredict (configure_slot env l1d (start_slots fixed_count)))) =
      [fixed_count ..< fixed_count + length (pw_added (configure_slot env mispredict (configure_slot env l1d (start_slots fixed_count))))]"
    using ev(2,3) by (auto simp: configure_slot_def start_slots_def PMU_SLOTS_def numeral_2_eq_2 List.map_filter_simps
        Let_def split: option.split)
  with start show ?thesis by (simp add: ev(1) configure_slot_ok)
qed

text \<open>
  The database and the configuration are freed exactly once if they were created, and nothing else
  is; a result has at least one event, and the events it has follow the fixed counters without a gap.
\<close>

lemma configure_exact:
  assumes "configure env = (res, calls)"
  shows "count_list calls (DbFree db) = of_bool (fst (pf_db_create env) = 0 \<and> snd (pf_db_create env) = db \<and> db \<noteq> 0)"
    "count_list calls (ConfigFree config) =
      of_bool (ConfigCreate \<in> set calls \<and> fst (pf_config_create env) = 0 \<and> snd (pf_config_create env) = config \<and> config \<noteq> 0)"
    "res = Some c \<Longrightarrow> \<exists>n > 0. List.map_filter id (cp_slot_indices c) = [cp_fixed_count c ..< cp_fixed_count c + n] \<and>
      length (cp_configs c) \<le> KPC_MAX_COUNTERS"
proof -
  let ?n = "unat (pf_counter_count env KPC_CLASS_FIXED_MASK)"
  let ?w = "fold (configure_slot env) REQUESTED_EVENTS (start_slots ?n)"
  note slots = requested_slots [of env ?n, unfolded Let_def slots_ok_def]
  have none: "c \<noteq> AddEvent e \<Longrightarrow> count_list (pw_calls ?w) c = 0" if "\<forall>e. c \<noteq> AddEvent e" for c e
    using slots that by (intro count_notin) auto
  show "count_list calls (DbFree db) = of_bool (fst (pf_db_create env) = 0 \<and> snd (pf_db_create env) = db \<and> db \<noteq> 0)"
    "count_list calls (ConfigFree config) =
      of_bool (ConfigCreate \<in> set calls \<and> fst (pf_config_create env) = 0 \<and> snd (pf_config_create env) = config \<and> config \<noteq> 0)"
    using assms none by (auto simp: configure_def Let_def split: prod.splits if_splits)
  show "\<exists>n > 0. List.map_filter id (cp_slot_indices c) = [cp_fixed_count c ..< cp_fixed_count c + n] \<and>
      length (cp_configs c) \<le> KPC_MAX_COUNTERS" if "res = Some c"
    using assms that slots
    by (auto simp: configure_def encode_config_def Let_def split: prod.splits if_splits intro!: exI [of _ "length (pw_added ?w)"])
qed

end
