(* ===== verification/TargetImages.thy ===== *)
theory TargetImages
  imports Jitdump
begin

text \<open>
  The images of another process (\<open>stax-target-images/src/macho.rs\<close>, \<open>dyld.rs\<close>): the list that dyld
  keeps, read through the task port, and for each image its Mach-O header and load commands, from
  which the parser takes the identifier, the slide, the text range and the unwind sections. Memory
  is a parameter: what a read of the target returns. An unchecked read beyond the buffer is the
  value \<open>None\<close> of a parse. Logging is left out.
\<close>

section \<open>Reading the target\<close>

text \<open>A read returns a code, zero for success, and the bytes it got.\<close>

type_synonym task_memory = "u64 \<Rightarrow> nat \<Rightarrow> int \<times> string"

definition read_exact :: "task_memory \<Rightarrow> u64 \<Rightarrow> nat \<Rightarrow> string option" where
  "read_exact mem addr n = (case mem addr n of (kr, bytes) \<Rightarrow> if kr = 0 \<and> length bytes = n then Some bytes else None)"

text \<open>The bytes of a structure at an offset, read without a check.\<close>

definition struct_at :: "nat \<Rightarrow> nat \<Rightarrow> string \<Rightarrow> string option" where
  "struct_at n off buf = (if off + n \<le> length buf then Some (take n (drop off buf)) else None)"

lemma struct_at_Some: "off + n \<le> length buf \<Longrightarrow> struct_at n off buf = Some (take n (drop off buf))"
  by (simp add: struct_at_def)

section \<open>Sections\<close>

record section_data =
  sd_avma :: "u64 \<times> u64"
  sd_bytes :: string

text \<open>The slide is kept as its bits.\<close>

record macho_sections =
  mo_uuid :: "string option"
  mo_slide :: u64
  mo_text_avma :: "(u64 \<times> u64) option"
  mo_got_avma :: "(u64 \<times> u64) option"
  mo_unwind_info :: "section_data option"
  mo_compact_unwind :: "section_data option"
  mo_eh_frame :: "section_data option"
  mo_eh_frame_hdr :: "section_data option"

definition no_sections :: macho_sections where
  "no_sections = \<lparr>mo_uuid = None, mo_slide = 0, mo_text_avma = None, mo_got_avma = None,
     mo_unwind_info = None, mo_compact_unwind = None, mo_eh_frame = None, mo_eh_frame_hdr = None\<rparr>"

definition avma_to_svma :: "macho_sections \<Rightarrow> u64 \<times> u64 \<Rightarrow> u64 \<times> u64" where
  "avma_to_svma out r = (fst r - mo_slide out, snd r - mo_slide out)"

definition MH_MAGIC_64 :: u32 where "MH_MAGIC_64 = 0xFEEDFACF"
definition LC_SEGMENT_64 :: u32 where "LC_SEGMENT_64 = 0x19"
definition LC_UUID :: u32 where "LC_UUID = 0x1B"
definition SECTION_SIZE_CAP :: nat where "SECTION_SIZE_CAP = 8 * 1024 * 1024"

datatype bytes_slot = UnwindInfo | CompactUnwind | EhFrame | EhFrameHdr

definition assign_slot :: "bytes_slot \<Rightarrow> section_data \<Rightarrow> macho_sections \<Rightarrow> macho_sections" where
  "assign_slot slot data dst =
     (case slot of
        UnwindInfo \<Rightarrow> dst\<lparr>mo_unwind_info := Some data\<rparr>
      | CompactUnwind \<Rightarrow> dst\<lparr>mo_compact_unwind := Some data\<rparr>
      | EhFrame \<Rightarrow> dst\<lparr>mo_eh_frame := Some data\<rparr>
      | EhFrameHdr \<Rightarrow> dst\<lparr>mo_eh_frame_hdr := Some data\<rparr>)"

text \<open>Names end at their first zero byte, or are full.\<close>

definition up_to_nul :: "string \<Rightarrow> string" where
  "up_to_nul s = takeWhile (\<lambda>c. c \<noteq> CHR 0x00) s"

definition name_eq :: "string \<Rightarrow> string \<Rightarrow> bool" where
  "name_eq field wanted \<longleftrightarrow> up_to_nul field = up_to_nul wanted"

fun match_wanted :: "(string \<times> bytes_slot) list \<Rightarrow> string \<Rightarrow> bytes_slot option \<times> (string \<times> bytes_slot) list" where
  "match_wanted [] sectname = (None, [])"
| "match_wanted ((n, slot) # wanted) sectname =
     (if name_eq sectname n then (Some slot, wanted)
      else let (found, rest) = match_wanted wanted sectname in (found, (n, slot) # rest))"

section \<open>Load commands\<close>

record walk =
  wk_out :: macho_sections
  wk_wanted :: "(string \<times> bytes_slot) list"
  wk_pending :: "(u64 \<times> u64 \<times> bytes_slot) list"

definition start_walk :: walk where
  "start_walk = \<lparr>wk_out = no_sections,
     wk_wanted = [(''__unwind_info'', UnwindInfo), (''__compact_unwind'', CompactUnwind), (''__eh_frame'', EhFrame),
       (''__eh_frame_hdr'', EhFrameHdr)], wk_pending = []\<rparr>"

definition add_section :: "string \<Rightarrow> u64 \<Rightarrow> u64 \<Rightarrow> walk \<Rightarrow> walk" where
  "add_section sectname addr sz w =
     (let avma_start = addr + mo_slide (wk_out w);
          w1 = (if name_eq sectname ''__got''
                then w\<lparr>wk_out := (wk_out w)\<lparr>mo_got_avma := Some (avma_start, avma_start + sz)\<rparr>\<rparr> else w) in
      case match_wanted (wk_wanted w1) sectname of
        (Some slot, rest) \<Rightarrow> w1\<lparr>wk_wanted := rest, wk_pending := wk_pending w1 @ [(avma_start, sz, slot)]\<rparr>
      | (None, rest) \<Rightarrow> w1)"

definition parse_section :: "string \<Rightarrow> walk \<Rightarrow> walk" where
  "parse_section sect = add_section (take 16 sect) (u64_at 32 sect) (u64_at 40 sect)"

primrec section_loop :: "nat \<Rightarrow> string \<Rightarrow> nat \<Rightarrow> walk \<Rightarrow> walk option" where
  "section_loop 0 cmds off w = Some w"
| "section_loop (Suc n) cmds off w =
     (if length cmds < off + 80 then Some w
      else case struct_at 80 off cmds of
        None \<Rightarrow> None
      | Some sect \<Rightarrow> section_loop n cmds (off + 80) (parse_section sect w))"

text \<open>The slide is taken off the text segment, whose start the image's header is.\<close>

definition enter_segment :: "u64 \<Rightarrow> string \<Rightarrow> u64 \<Rightarrow> u64 \<Rightarrow> walk \<Rightarrow> walk" where
  "enter_segment load_address segname vmaddr vmsize w =
     (if name_eq segname ''__TEXT''
      then let slide = load_address - vmaddr; start = vmaddr + slide in
        w\<lparr>wk_out := (wk_out w)\<lparr>mo_slide := slide, mo_text_avma := Some (start, start + vmsize)\<rparr>\<rparr>
      else w)"

text \<open>One command; \<open>False\<close> is the \<open>break\<close> of the loop over the commands.\<close>

definition parse_command :: "u64 \<Rightarrow> string \<Rightarrow> nat \<Rightarrow> u32 \<Rightarrow> walk \<Rightarrow> (bool \<times> walk) option" where
  "parse_command load_address cmds cursor cmd w =
     (if cmd = LC_SEGMENT_64 then
        (if length cmds < cursor + 72 then Some (False, w)
         else case struct_at 72 cursor cmds of
           None \<Rightarrow> None
         | Some seg \<Rightarrow>
             map_option (Pair True) (section_loop (unat (u32_at 64 seg)) cmds (cursor + 72) 
               (enter_segment load_address (take 16 (drop 8 seg)) (u64_at 24 seg) (u64_at 32 seg) w)))
      else if cmd = LC_UUID then
        (if cursor + 24 \<le> length cmds then
           (case struct_at 24 cursor cmds of
              None \<Rightarrow> None
            | Some u \<Rightarrow> Some (True, w\<lparr>wk_out := (wk_out w)\<lparr>mo_uuid := Some (take 16 (drop 8 u))\<rparr>\<rparr>))
         else Some (True, w))
      else Some (True, w))"

primrec command_loop :: "nat \<Rightarrow> u64 \<Rightarrow> string \<Rightarrow> nat \<Rightarrow> walk \<Rightarrow> walk option" where
  "command_loop 0 load_address cmds cursor w = Some w"
| "command_loop (Suc n) load_address cmds cursor w =
     (if length cmds < cursor + 8 then Some w
      else case struct_at 8 cursor cmds of
        None \<Rightarrow> None
      | Some lc \<Rightarrow>
          let lc_size = unat (u32_at 4 lc) in
          if lc_size = 0 \<or> length cmds < cursor + lc_size then Some w
          else case parse_command load_address cmds cursor (u32_at 0 lc) w of
            None \<Rightarrow> None
          | Some (False, w1) \<Rightarrow> Some w1
          | Some (True, w1) \<Rightarrow> command_loop n load_address cmds (cursor + lc_size) w1)"

definition read_section :: "task_memory \<Rightarrow> u64 \<times> u64 \<times> bytes_slot \<Rightarrow> macho_sections \<Rightarrow> macho_sections" where
  "read_section mem p out =
     (case p of (avma, sz, slot) \<Rightarrow>
        if sz = 0 \<or> SECTION_SIZE_CAP < unat sz then out
        else case read_exact mem avma (unat sz) of
          Some buf \<Rightarrow> assign_slot slot \<lparr>sd_avma = (avma, avma + sz), sd_bytes = buf\<rparr> out
        | None \<Rightarrow> out)"

definition parse_image :: "task_memory \<Rightarrow> u64 \<Rightarrow> macho_sections option option" where
  "parse_image mem load_address =
     (case read_exact mem load_address 32 of
        None \<Rightarrow> Some None
      | Some header \<Rightarrow>
          if u32_at 0 header \<noteq> MH_MAGIC_64 then Some None
          else case read_exact mem (load_address + 32) (unat (u32_at 20 header)) of
            None \<Rightarrow> Some None
          | Some cmds \<Rightarrow>
              (case command_loop (unat (u32_at 16 header)) load_address cmds 0 start_walk of
                 None \<Rightarrow> None
               | Some w \<Rightarrow> Some (Some (fold (read_section mem) (wk_pending w) (wk_out w)))))"

section \<open>No read leaves the buffer\<close>

lemma section_loop_returns: "\<exists>w'. section_loop n cmds off w = Some w'"
  by (induction n arbitrary: off w) (simp_all add: struct_at_def)

lemma parse_command_returns: "\<exists>go w'. parse_command load_address cmds cursor cmd w = Some (go, w')"
  using section_loop_returns by (auto simp: parse_command_def struct_at_def)

lemma command_loop_returns: "\<exists>w'. command_loop n load_address cmds cursor w = Some w'"
proof (induction n arbitrary: cursor w)
  case (Suc n)
  obtain go w1 where "parse_command load_address cmds cursor (u32_at 0 (take 8 (drop cursor cmds))) w = Some (go, w1)"
    using parse_command_returns by blast
  then show ?case using Suc.IH by (cases go) (simp_all add: struct_at_def Let_def)
qed simp

lemma parse_image_returns: "\<exists>r. parse_image mem load_address = Some r"
  using command_loop_returns by (auto simp: parse_image_def split: option.split) (metis option.distinct(1))

section \<open>Encoded images\<close>

text \<open>Load commands, with the fields the parser reads, and their bytes.\<close>

primrec enc_le :: "nat \<Rightarrow> nat \<Rightarrow> string" where
  "enc_le 0 n = []"
| "enc_le (Suc k) n = char_of (n mod 256) # enc_le k (n div 256)"

abbreviation enc32 :: "u32 \<Rightarrow> string" where "enc32 w \<equiv> enc_le 4 (unat w)"
abbreviation enc64 :: "u64 \<Rightarrow> string" where "enc64 w \<equiv> enc_le 8 (unat w)"

type_synonym section_entry = "string \<times> u64 \<times> u64"

datatype macho_cmd = SegmentCmd string u64 u64 "section_entry list" | UuidCmd string | OtherCmd u32 string

definition zeros :: "nat \<Rightarrow> string" where "zeros n = replicate n (CHR 0x00)"

definition enc_name :: "string \<Rightarrow> string" where "enc_name s = s @ zeros (16 - length s)"

definition enc_section :: "section_entry \<Rightarrow> string" where
  "enc_section e = (case e of (n, addr, sz) \<Rightarrow> enc_name n @ zeros 16 @ enc64 addr @ enc64 sz @ zeros 32)"

fun cmd_size :: "macho_cmd \<Rightarrow> nat" where
  "cmd_size (SegmentCmd _ _ _ sects) = 72 + 80 * length sects"
| "cmd_size (UuidCmd _) = 24"
| "cmd_size (OtherCmd _ body) = 8 + length body"

fun enc_cmd :: "macho_cmd \<Rightarrow> string" where
  "enc_cmd (SegmentCmd n vmaddr vmsize sects) =
     enc32 LC_SEGMENT_64 @ enc32 (of_nat (72 + 80 * length sects)) @ enc_name n @ enc64 vmaddr @ enc64 vmsize @ zeros 24 @
     enc32 (of_nat (length sects)) @ zeros 4 @ concat (map enc_section sects)"
| "enc_cmd (UuidCmd uuid) = enc32 LC_UUID @ enc32 24 @ uuid"
| "enc_cmd (OtherCmd cmd body) = enc32 cmd @ enc32 (of_nat (8 + length body)) @ body"

definition ok_name :: "string \<Rightarrow> bool" where
  "ok_name s \<longleftrightarrow> length s \<le> 16 \<and> CHR 0x00 \<notin> set s"

fun ok_cmd :: "macho_cmd \<Rightarrow> bool" where
  "ok_cmd (SegmentCmd n _ _ sects) \<longleftrightarrow> ok_name n \<and> list_all (\<lambda>e. ok_name (fst e)) sects \<and> 72 + 80 * length sects < 2 ^ 32"
| "ok_cmd (UuidCmd uuid) \<longleftrightarrow> length uuid = 16"
| "ok_cmd (OtherCmd cmd body) \<longleftrightarrow> cmd \<noteq> LC_SEGMENT_64 \<and> cmd \<noteq> LC_UUID \<and> 8 + length body < 2 ^ 32"

lemma length_enc_le [simp]: "length (enc_le k n) = k"
  by (induction k arbitrary: n) simp_all

lemma length_zeros [simp]: "length (zeros n) = n"
  by (simp add: zeros_def)

lemma length_enc_name: "ok_name s \<Longrightarrow> length (enc_name s) = 16"
  by (simp add: enc_name_def ok_name_def)

lemma le_bytes_enc: "le_bytes (enc_le k n) = n mod 256 ^ k"
proof (induction k arbitrary: n)
  case (Suc k)
  have "n mod 256 + 256 * (n div 256 mod 256 ^ k) = n mod (256 * 256 ^ k)"
    by (simp add: mod_mult2_eq)
  then show ?case using Suc by (simp add: le_bytes_def)
qed (simp add: le_bytes_def)

lemma enc_at:
  "length pre = i \<Longrightarrow> u32_at i (pre @ enc32 w @ post) = w"
  "length pre = i \<Longrightarrow> u64_at i (pre @ enc64 v @ post) = v"
proof -
  have "256 ^ 4 = (2::nat) ^ 32" "256 ^ 8 = (2::nat) ^ 64" by simp_all
  moreover have "unat w < 2 ^ 32" "unat v < 2 ^ 64" using unsigned_less [of w] unsigned_less [of v] by simp_all
  ultimately show "length pre = i \<Longrightarrow> u32_at i (pre @ enc32 w @ post) = w"
    "length pre = i \<Longrightarrow> u64_at i (pre @ enc64 v @ post) = v"
    by (simp_all only: u32_at_def u64_at_def le_bytes_enc) (auto simp: le_bytes_enc)
qed

lemma up_to_nul_enc: "ok_name s \<Longrightarrow> up_to_nul (enc_name s) = s"
  unfolding up_to_nul_def enc_name_def zeros_def ok_name_def
  by (subst takeWhile_append2) (auto simp: takeWhile_replicate)

section \<open>The parser on an encoded image\<close>

definition add_entry :: "section_entry \<Rightarrow> walk \<Rightarrow> walk" where
  "add_entry e = (case e of (n, addr, sz) \<Rightarrow> add_section (enc_name n) addr sz)"

fun cmd_effect :: "u64 \<Rightarrow> macho_cmd \<Rightarrow> walk \<Rightarrow> walk" where
  "cmd_effect load_address (SegmentCmd n vmaddr vmsize sects) w =
     fold add_entry sects (enter_segment load_address (enc_name n) vmaddr vmsize w)"
| "cmd_effect load_address (UuidCmd uuid) w = w\<lparr>wk_out := (wk_out w)\<lparr>mo_uuid := Some uuid\<rparr>\<rparr>"
| "cmd_effect load_address (OtherCmd _ _) w = w"

lemma struct_at_append: "length mid = n \<Longrightarrow> struct_at n (length pre) (pre @ mid @ post) = Some mid"
  by (simp add: struct_at_def)

lemma length_enc_section: "ok_name (fst e) \<Longrightarrow> length (enc_section e) = 80"
  by (cases e) (simp add: enc_section_def length_enc_name)

lemma parse_enc_section:
  assumes "ok_name (fst e)"
  shows "parse_section (enc_section e) = add_entry e"
proof -
  obtain n addr sz where e: "e = (n, addr, sz)" by (metis prod_cases3)
  have "u64_at 32 ((enc_name n @ zeros 16) @ enc64 addr @ enc64 sz @ zeros 32) = addr"
    by (rule enc_at) (use assms e in \<open>simp add: length_enc_name\<close>)
  moreover have "u64_at 40 ((enc_name n @ zeros 16 @ enc64 addr) @ enc64 sz @ zeros 32) = sz"
    by (rule enc_at) (use assms e in \<open>simp add: length_enc_name\<close>)
  ultimately show ?thesis
    using assms by (simp add: e parse_section_def add_entry_def enc_section_def length_enc_name)
qed

lemma section_loop_enc:
  assumes "list_all (\<lambda>e. ok_name (fst e)) sects"
  shows "section_loop (length sects) (pre @ concat (map enc_section sects) @ post) (length pre) w = Some (fold add_entry sects w)"
  using assms
proof (induction sects arbitrary: pre w)
  case (Cons e sects)
  then have len: "length (enc_section e) = 80" by (simp add: length_enc_section)
  have "struct_at 80 (length pre) (pre @ enc_section e @ concat (map enc_section sects) @ post) = Some (enc_section e)"
    by (rule struct_at_append) (rule len)
  moreover have "section_loop (length sects) ((pre @ enc_section e) @ concat (map enc_section sects) @ post)
      (length (pre @ enc_section e)) (add_entry e w) = Some (fold add_entry sects (add_entry e w))"
    using Cons.IH [of "pre @ enc_section e"] Cons.prems by simp
  ultimately show ?case using Cons.prems len parse_enc_section [of e] by simp
qed simp

lemma length_enc_cmd: "ok_cmd c \<Longrightarrow> length (enc_cmd c) = cmd_size c"
proof (cases c)
  case (SegmentCmd n a b sects)
  assume "ok_cmd c"
  then have "list_all (\<lambda>e. ok_name (fst e)) sects" using SegmentCmd by simp
  then have "length (concat (map enc_section sects)) = 80 * length sects"
    by (induction sects) (simp_all add: length_enc_section)
  then show ?thesis using SegmentCmd \<open>ok_cmd c\<close> by (simp add: length_enc_name)
qed auto

lemma cmd_header:
  assumes "ok_cmd c"
  obtains kind rest where "enc_cmd c = enc32 kind @ enc32 (of_nat (cmd_size c)) @ rest" "cmd_size c < 2 ^ 32"
    "kind = (case c of SegmentCmd _ _ _ _ \<Rightarrow> LC_SEGMENT_64 | UuidCmd _ \<Rightarrow> LC_UUID | OtherCmd k _ \<Rightarrow> k)"
  using assms by (cases c) auto

lemma parse_enc_command:
  assumes "ok_cmd c" "kind = (case c of SegmentCmd _ _ _ _ \<Rightarrow> LC_SEGMENT_64 | UuidCmd _ \<Rightarrow> LC_UUID | OtherCmd k _ \<Rightarrow> k)"
  shows "parse_command load_address (pre @ enc_cmd c @ post) (length pre) kind w = Some (True, cmd_effect load_address c w)"
proof (cases c)
  case (SegmentCmd n vmaddr vmsize sects)
  let ?seg = "enc32 LC_SEGMENT_64 @ enc32 (of_nat (72 + 80 * length sects)) @ enc_name n @ enc64 vmaddr @ enc64 vmsize @
    zeros 24 @ enc32 (of_nat (length sects)) @ zeros 4"
  have ok: "ok_name n" "list_all (\<lambda>e. ok_name (fst e)) sects" "length sects < 2 ^ 32" using assms(1) SegmentCmd by simp_all
  have len: "length ?seg = 72" using ok(1) by (simp add: length_enc_name)
  have buf: "pre @ enc_cmd c @ post = pre @ ?seg @ concat (map enc_section sects) @ post" by (simp add: SegmentCmd)
  have seg: "struct_at 72 (length pre) (pre @ enc_cmd c @ post) = Some ?seg"
    unfolding buf by (rule struct_at_append) (rule len)
  have "u32_at 64 ((enc32 LC_SEGMENT_64 @ enc32 (of_nat (72 + 80 * length sects)) @ enc_name n @ enc64 vmaddr @ enc64 vmsize @
      zeros 24) @ enc32 (of_nat (length sects)) @ zeros 4) = of_nat (length sects)"
    "u64_at 24 ((enc32 LC_SEGMENT_64 @ enc32 (of_nat (72 + 80 * length sects)) @ enc_name n) @ enc64 vmaddr @ enc64 vmsize @
      zeros 24 @ enc32 (of_nat (length sects)) @ zeros 4) = vmaddr"
    "u64_at 32 ((enc32 LC_SEGMENT_64 @ enc32 (of_nat (72 + 80 * length sects)) @ enc_name n @ enc64 vmaddr) @ enc64 vmsize @
      zeros 24 @ enc32 (of_nat (length sects)) @ zeros 4) = vmsize"
    by (rule enc_at, use ok(1) in \<open>simp add: length_enc_name\<close>)+
  then have fields: "u32_at 64 ?seg = of_nat (length sects)" "u64_at 24 ?seg = vmaddr" "u64_at 32 ?seg = vmsize"
    by simp_all
  have name: "take 16 (drop 8 ?seg) = enc_name n" using ok(1) by (simp add: length_enc_name)
  have n: "unat (of_nat (length sects) :: u32) = length sects"
    using ok(3) by (simp add: unat_of_nat take_bit_nat_eq_self)
  have lp: "length (pre @ ?seg) = length pre + 72" by (simp only: length_append [of pre ?seg] len)
  have run: "section_loop (length sects) ((pre @ ?seg) @ concat (map enc_section sects) @ post) (length (pre @ ?seg))
      (enter_segment load_address (enc_name n) vmaddr vmsize w) = Some (cmd_effect load_address c w)"
    using section_loop_enc [OF ok(2)] by (simp only: SegmentCmd cmd_effect.simps)
  have "section_loop (length sects) (pre @ enc_cmd c @ post) (length pre + 72)
      (enter_segment load_address (enc_name n) vmaddr vmsize w) = Some (cmd_effect load_address c w)"
    unfolding buf using run [unfolded lp] by (simp only: append.assoc)
  moreover obtain bytes where bytes: "struct_at 72 (length pre) (pre @ enc_cmd c @ post) = Some bytes"
    "u32_at 64 bytes = of_nat (length sects)" "u64_at 24 bytes = vmaddr" "u64_at 32 bytes = vmsize"
    "take 16 (drop 8 bytes) = enc_name n"
    using seg fields name by blast
  moreover from bytes(1) have "\<not> length (pre @ enc_cmd c @ post) < length pre + 72"
    by (auto simp: struct_at_def split: if_splits)
  moreover have "kind = LC_SEGMENT_64" using assms(2) SegmentCmd by simp
  ultimately show ?thesis using n by (simp add: parse_command_def)
next
  case (UuidCmd uuid)
  have "struct_at 24 (length pre) (pre @ enc_cmd c @ post) = Some (enc_cmd c)"
    by (rule struct_at_append) (use assms(1) UuidCmd in simp)
  then show ?thesis using assms UuidCmd by (simp add: parse_command_def LC_UUID_def LC_SEGMENT_64_def)
next
  case (OtherCmd k body)
  then show ?thesis using assms by (simp add: parse_command_def)
qed

lemma command_loop_enc:
  assumes "list_all ok_cmd cmds"
  shows "command_loop (length cmds) load_address (pre @ concat (map enc_cmd cmds)) (length pre) w =
    Some (fold (cmd_effect load_address) cmds w)"
  using assms
proof (induction cmds arbitrary: pre w)
  case (Cons c cmds)
  then have ok: "ok_cmd c" by simp
  let ?buf = "pre @ enc_cmd c @ concat (map enc_cmd cmds)"
  from cmd_header [OF ok] obtain kind rest where h: "enc_cmd c = enc32 kind @ enc32 (of_nat (cmd_size c)) @ rest"
    "cmd_size c < 2 ^ 32" "kind = (case c of SegmentCmd _ _ _ _ \<Rightarrow> LC_SEGMENT_64 | UuidCmd _ \<Rightarrow> LC_UUID | OtherCmd k _ \<Rightarrow> k)" .
  let ?lc = "enc32 kind @ enc32 (of_nat (cmd_size c))"
  have lc: "struct_at 8 (length pre) (pre @ ?lc @ rest @ concat (map enc_cmd cmds)) = Some ?lc"
    by (rule struct_at_append) simp
  have fields: "u32_at 0 ([] @ enc32 kind @ enc32 (of_nat (cmd_size c))) = kind"
    "u32_at 4 (enc32 kind @ enc32 (of_nat (cmd_size c)) @ []) = of_nat (cmd_size c)"
    by (rule enc_at, simp)+
  have n: "unat (of_nat (cmd_size c) :: u32) = cmd_size c" using h(2) by (simp add: unat_of_nat take_bit_nat_eq_self)
  have pos: "0 < cmd_size c" by (cases c) simp_all
  have len: "length (enc_cmd c) = cmd_size c" by (rule length_enc_cmd [OF ok])
  have step: "command_loop (length cmds) load_address ((pre @ enc_cmd c) @ concat (map enc_cmd cmds)) (length (pre @ enc_cmd c))
      (cmd_effect load_address c w) = Some (fold (cmd_effect load_address) cmds (cmd_effect load_address c w))"
    using Cons.IH [of "pre @ enc_cmd c"] Cons.prems by simp
  have run: "parse_command load_address ?buf (length pre) kind w = Some (True, cmd_effect load_address c w)"
    by (rule parse_enc_command [OF ok h(3)])
  have lc': "struct_at 8 (length pre) ?buf = Some ?lc" using lc unfolding h(1) by simp
  have "8 \<le> length (enc_cmd c)" unfolding h(1) by simp
  then show ?case
    using lc' fields n pos len step run by (simp add: Let_def)
qed simp

section \<open>What the parser finds\<close>

primrec slot_name :: "bytes_slot \<Rightarrow> string" where
  "slot_name UnwindInfo = ''__unwind_info''"
| "slot_name CompactUnwind = ''__compact_unwind''"
| "slot_name EhFrame = ''__eh_frame''"
| "slot_name EhFrameHdr = ''__eh_frame_hdr''"

primrec slot_data :: "bytes_slot \<Rightarrow> macho_sections \<Rightarrow> section_data option" where
  "slot_data UnwindInfo out = mo_unwind_info out"
| "slot_data CompactUnwind out = mo_compact_unwind out"
| "slot_data EhFrame out = mo_eh_frame out"
| "slot_data EhFrameHdr out = mo_eh_frame_hdr out"

abbreviation wanted_all :: "(string \<times> bytes_slot) list" where
  "wanted_all \<equiv> wk_wanted start_walk"

definition named_entries :: "string \<Rightarrow> section_entry list \<Rightarrow> section_entry list" where
  "named_entries nm es = filter (\<lambda>e. fst e = nm) es"

lemma named_entries_simps [simp]:
  "named_entries nm [] = []" "named_entries nm (xs @ ys) = named_entries nm xs @ named_entries nm ys"
  "named_entries nm [e] = (if fst e = nm then [e] else [])"
  by (simp_all add: named_entries_def)

text \<open>A walk with the slide \<open>s\<close> that has met the sections \<open>seen\<close>.\<close>

definition pending_for :: "u64 \<Rightarrow> bytes_slot \<Rightarrow> section_entry list \<Rightarrow> (u64 \<times> u64 \<times> bytes_slot) list" where
  "pending_for s sl seen = map (\<lambda>(n, addr, sz). (addr + s, sz, sl)) (take 1 (named_entries (slot_name sl) seen))"

definition walked :: "u64 \<Rightarrow> section_entry list \<Rightarrow> walk \<Rightarrow> bool" where
  "walked s seen w \<longleftrightarrow> mo_slide (wk_out w) = s \<and>
     wk_wanted w = filter (\<lambda>p. named_entries (fst p) seen = []) wanted_all \<and>
     (\<forall>sl. filter (\<lambda>p. snd (snd p) = sl) (wk_pending w) = pending_for s sl seen) \<and>
     (\<forall>sl. slot_data sl (wk_out w) = None)"

lemma match_wanted_exact:
  assumes "ok_name n" "distinct (map fst ws)" "\<forall>p \<in> set ws. up_to_nul (fst p) = fst p"
  shows "match_wanted ws (enc_name n) = (map_of ws n, filter (\<lambda>p. fst p \<noteq> n) ws)"
  using assms(2,3)
proof (induction ws)
  case (Cons p ws)
  obtain m sl where p: "p = (m, sl)" by fastforce
  have eq: "name_eq (enc_name n) m \<longleftrightarrow> n = m" using Cons.prems(2) assms(1) p by (simp add: name_eq_def up_to_nul_enc)
  show ?case
  proof (cases "n = m")
    case True
    then have "filter (\<lambda>p. fst p \<noteq> n) ws = ws" using Cons.prems(1) p by (auto simp: filter_id_conv)
    then show ?thesis using True eq p by simp
  next
    case False
    then show ?thesis using Cons eq p by simp
  qed
qed simp

lemma wanted_all_ok: "distinct (map fst wanted_all)" "\<forall>p \<in> set wanted_all. up_to_nul (fst p) = fst p"
  by (simp_all add: start_walk_def up_to_nul_def)

lemma wanted_slot: "map_of wanted_all n = Some sl \<longleftrightarrow> n = slot_name sl"
  by (cases sl) (auto simp: start_walk_def)

lemma slot_name_inj: "slot_name sl = slot_name sl' \<longleftrightarrow> sl = sl'"
  by (cases sl; cases sl'; simp)

lemma map_of_filter_names: "map_of (filter (\<lambda>p. P (fst p)) ws) n = (if P n then map_of ws n else None)"
  by (induction ws) auto

lemma add_entry_walked:
  assumes "walked s seen w" "ok_name (fst e)"
  shows "walked s (seen @ [e]) (add_entry e w)" "mo_text_avma (wk_out (add_entry e w)) = mo_text_avma (wk_out w)"
    "mo_uuid (wk_out (add_entry e w)) = mo_uuid (wk_out w)"
proof -
  obtain n addr sz where e: "e = (n, addr, sz)" by (metis prod_cases3)
  let ?w1 = "if name_eq (enc_name n) ''__got''
    then w\<lparr>wk_out := (wk_out w)\<lparr>mo_got_avma := Some (addr + s, addr + s + sz)\<rparr>\<rparr> else w"
  have w: "mo_slide (wk_out w) = s" "wk_wanted w = filter (\<lambda>p. named_entries (fst p) seen = []) wanted_all"
    "\<And>sl. filter (\<lambda>p. snd (snd p) = sl) (wk_pending w) = pending_for s sl seen" "\<And>sl. slot_data sl (wk_out w) = None"
    using assms(1) by (auto simp: walked_def)
  have w1: "mo_slide (wk_out ?w1) = s" "wk_wanted ?w1 = wk_wanted w" "wk_pending ?w1 = wk_pending w"
    "mo_text_avma (wk_out ?w1) = mo_text_avma (wk_out w)" "mo_uuid (wk_out ?w1) = mo_uuid (wk_out w)" using w(1) by simp_all
  have w1s: "slot_data sl (wk_out ?w1) = None" for sl using w(4) [of sl] by (cases sl) simp_all
  have ok: "distinct (map fst (wk_wanted w))" "\<forall>p \<in> set (wk_wanted w). up_to_nul (fst p) = fst p"
    using wanted_all_ok unfolding w(2) by (auto simp: distinct_map_filter)
  have mw: "match_wanted (wk_wanted w) (enc_name n) =
      (if named_entries n seen = [] then map_of wanted_all n else None, filter (\<lambda>p. fst p \<noteq> n) (wk_wanted w))"
    using match_wanted_exact [OF _ ok, of n] assms(2) e map_of_filter_names [of "\<lambda>m. named_entries m seen = []" wanted_all n] unfolding w(2) by simp
  have rest: "filter (\<lambda>p. fst p \<noteq> n) (wk_wanted w) = filter (\<lambda>p. named_entries (fst p) (seen @ [e]) = []) wanted_all"
    unfolding w(2) by (auto simp: e intro!: filter_cong)
  have run: "add_entry e w = (case match_wanted (wk_wanted w) (enc_name n) of
      (Some slot, rest) \<Rightarrow> ?w1\<lparr>wk_wanted := rest, wk_pending := wk_pending w @ [(addr + s, sz, slot)]\<rparr>
    | (None, rest) \<Rightarrow> ?w1)"
    unfolding e add_entry_def add_section_def using w(1) by (simp add: Let_def split: prod.split option.split)
  show "mo_text_avma (wk_out (add_entry e w)) = mo_text_avma (wk_out w)" "mo_uuid (wk_out (add_entry e w)) = mo_uuid (wk_out w)"
    unfolding run using w1(4,5) by (simp_all split: prod.split option.split)
  show "walked s (seen @ [e]) (add_entry e w)"
  proof (cases "named_entries n seen = [] \<and> (\<exists>slot. n = slot_name slot)")
    case True
    then obtain slot where slot: "n = slot_name slot" "map_of wanted_all n = Some slot" "named_entries n seen = []"
      using wanted_slot by blast
    have "add_entry e w = ?w1\<lparr>wk_wanted := filter (\<lambda>p. fst p \<noteq> n) (wk_wanted w),
        wk_pending := wk_pending w @ [(addr + s, sz, slot)]\<rparr>"
      unfolding run mw using slot by simp
    moreover have "filter (\<lambda>p. snd (snd p) = sl) (wk_pending w @ [(addr + s, sz, slot)]) = pending_for s sl (seen @ [e])" for sl
      using w(3) [of sl] slot slot_name_inj [of sl slot] by (auto simp: pending_for_def e)
    ultimately show ?thesis using w1(1) w1s rest unfolding walked_def by simp
  next
    case False
    then have none: "(if named_entries n seen = [] then map_of wanted_all n else None) = None"
      using wanted_slot [of n] by (cases "map_of wanted_all n") auto
    have "add_entry e w = ?w1" unfolding run mw none by simp
    moreover have "wk_wanted w = filter (\<lambda>p. named_entries (fst p) (seen @ [e]) = []) wanted_all"
    proof -
      have "\<forall>p \<in> set (wk_wanted w). fst p \<noteq> n"
        using False none unfolding w(2) by (force simp: map_of_eq_None_iff split: if_splits)
      then show ?thesis using rest by (simp add: filter_id_conv [THEN iffD2])
    qed
    moreover have "pending_for s sl (seen @ [e]) = pending_for s sl seen" for sl
      using False by (cases "named_entries (slot_name sl) seen") (auto simp: pending_for_def e)
    ultimately show ?thesis using w(3) w1(1-3) w1s unfolding walked_def by simp
  qed
qed

fun sections_of :: "macho_cmd \<Rightarrow> section_entry list" where
  "sections_of (SegmentCmd _ _ _ sects) = sects"
| "sections_of _ = []"

fun is_text :: "macho_cmd \<Rightarrow> bool" where
  "is_text (SegmentCmd n _ _ _) = (n = ''__TEXT'')"
| "is_text _ = False"

fun uuids_of :: "macho_cmd \<Rightarrow> string list" where
  "uuids_of (UuidCmd uuid) = [uuid]"
| "uuids_of _ = []"

lemma add_entries_walked:
  assumes "walked s seen w" "list_all (\<lambda>e. ok_name (fst e)) sects"
  shows "walked s (seen @ sects) (fold add_entry sects w) \<and>
    mo_text_avma (wk_out (fold add_entry sects w)) = mo_text_avma (wk_out w) \<and>
    mo_uuid (wk_out (fold add_entry sects w)) = mo_uuid (wk_out w)"
  using assms
proof (induction sects arbitrary: seen w)
  case (Cons e sects)
  from Cons.prems have ok: "ok_name (fst e)" "list_all (\<lambda>e. ok_name (fst e)) sects" by simp_all
  note step = add_entry_walked [OF Cons.prems(1) ok(1)]
  show ?case using Cons.IH [OF step(1) ok(2)] step(2,3) by simp
qed simp

lemma name_eq_text: "ok_name n \<Longrightarrow> name_eq (enc_name n) ''__TEXT'' \<longleftrightarrow> n = ''__TEXT''"
  by (simp add: name_eq_def up_to_nul_enc) (simp add: up_to_nul_def)

definition uuid_after :: "string option \<Rightarrow> string list \<Rightarrow> string option" where
  "uuid_after u us = (if us = [] then u else Some (last us))"

lemma commands_walked:
  assumes "walked s seen w" "list_all ok_cmd cmds" "\<forall>c \<in> set cmds. \<not> is_text c"
  shows "walked s (seen @ concat (map sections_of cmds)) (fold (cmd_effect load_address) cmds w) \<and>
    mo_text_avma (wk_out (fold (cmd_effect load_address) cmds w)) = mo_text_avma (wk_out w) \<and>
    mo_uuid (wk_out (fold (cmd_effect load_address) cmds w)) =
      uuid_after (mo_uuid (wk_out w)) (concat (map uuids_of cmds))"
  using assms
proof (induction cmds arbitrary: seen w)
  case Nil
  then show ?case by (simp add: uuid_after_def)
next
  case (Cons c cmds)
  let ?w = "cmd_effect load_address c w"
  have step: "walked s (seen @ sections_of c) ?w" "mo_text_avma (wk_out ?w) = mo_text_avma (wk_out w)"
    "mo_uuid (wk_out ?w) = uuid_after (mo_uuid (wk_out w)) (uuids_of c)"
  proof -
    show "walked s (seen @ sections_of c) ?w" "mo_text_avma (wk_out ?w) = mo_text_avma (wk_out w)"
      "mo_uuid (wk_out ?w) = uuid_after (mo_uuid (wk_out w)) (uuids_of c)"
    proof (atomize (full), cases c)
      case (SegmentCmd n vmaddr vmsize sects)
      then have "enter_segment load_address (enc_name n) vmaddr vmsize w = w"
        using Cons.prems(2,3) name_eq_text [of n] by (simp add: enter_segment_def)
      then show "walked s (seen @ sections_of c) ?w \<and> mo_text_avma (wk_out ?w) = mo_text_avma (wk_out w) \<and>
          mo_uuid (wk_out ?w) = uuid_after (mo_uuid (wk_out w)) (uuids_of c)"
        using add_entries_walked [OF Cons.prems(1), of sects] Cons.prems(2) SegmentCmd by (simp add: uuid_after_def)
    next
      case (UuidCmd uuid)
      have "slot_data sl (wk_out w\<lparr>mo_uuid := u\<rparr>) = slot_data sl (wk_out w)" for sl u by (cases sl) simp_all
      then show "walked s (seen @ sections_of c) ?w \<and> mo_text_avma (wk_out ?w) = mo_text_avma (wk_out w) \<and>
          mo_uuid (wk_out ?w) = uuid_after (mo_uuid (wk_out w)) (uuids_of c)"
        using Cons.prems(1) UuidCmd by (simp add: walked_def uuid_after_def)
    next
      case (OtherCmd k body)
      then show "walked s (seen @ sections_of c) ?w \<and> mo_text_avma (wk_out ?w) = mo_text_avma (wk_out w) \<and>
          mo_uuid (wk_out ?w) = uuid_after (mo_uuid (wk_out w)) (uuids_of c)"
        using Cons.prems(1) by (simp add: uuid_after_def)
    qed
  qed
  have "list_all ok_cmd cmds" "\<forall>c \<in> set cmds. \<not> is_text c" using Cons.prems(2,3) by simp_all
  from Cons.IH [OF step(1) this] step(2,3) show ?case by (auto simp: uuid_after_def)
qed

text \<open>Reading the pending sections fills each slot from its own entry.\<close>

definition slot_result :: "task_memory \<Rightarrow> u64 \<times> u64 \<times> bytes_slot \<Rightarrow> section_data option" where
  "slot_result mem p = (case p of (avma, sz, sl) \<Rightarrow>
     if sz = 0 \<or> SECTION_SIZE_CAP < unat sz then None
     else map_option (\<lambda>buf. \<lparr>sd_avma = (avma, avma + sz), sd_bytes = buf\<rparr>) (read_exact mem avma (unat sz)))"

lemma slot_assign: "slot_data sl (assign_slot sl' data out) = (if sl = sl' then Some data else slot_data sl out)"
  by (cases sl; cases sl') (simp_all add: assign_slot_def)

lemma read_section_fields:
  "mo_slide (read_section mem p out) = mo_slide out \<and> mo_uuid (read_section mem p out) = mo_uuid out \<and>
   mo_text_avma (read_section mem p out) = mo_text_avma out \<and> mo_got_avma (read_section mem p out) = mo_got_avma out"
  by (auto simp: read_section_def assign_slot_def split: prod.split option.split bytes_slot.split)

lemma read_sections_fields:
  "mo_slide (fold (read_section mem) ps out) = mo_slide out \<and> mo_uuid (fold (read_section mem) ps out) = mo_uuid out \<and>
   mo_text_avma (fold (read_section mem) ps out) = mo_text_avma out"
  by (induction ps arbitrary: out) (simp_all add: read_section_fields)

lemma slot_read_section:
  "slot_data sl (read_section mem p out) =
     (if snd (snd p) = sl then (case slot_result mem p of None \<Rightarrow> slot_data sl out | Some d \<Rightarrow> Some d) else slot_data sl out)"
  by (cases p) (auto simp: read_section_def slot_result_def slot_assign split: option.split)

lemma slot_read_sections:
  "slot_data sl (fold (read_section mem) ps out) =
     slot_data sl (fold (read_section mem) (filter (\<lambda>p. snd (snd p) = sl) ps) out)"
proof -
  have "slot_data sl (fold (read_section mem) ps out) = slot_data sl (fold (read_section mem) (filter (\<lambda>p. snd (snd p) = sl) ps) out')"
    if "slot_data sl out = slot_data sl out'" for out'
    using that
  proof (induction ps arbitrary: out out')
    case (Cons p ps)
    show ?case
    proof (cases "snd (snd p) = sl")
      case True
      then have "slot_data sl (read_section mem p out) = slot_data sl (read_section mem p out')"
        using Cons.prems by (simp add: slot_read_section split: option.split)
      from Cons.IH [OF this] True show ?thesis by simp
    next
      case False
      then have "slot_data sl (read_section mem p out) = slot_data sl out'"
        using Cons.prems by (simp add: slot_read_section)
      from Cons.IH [OF this] False show ?thesis by simp
    qed
  qed simp
  then show ?thesis by simp
qed

lemma slot_after_reads:
  assumes "walked s seen w"
  shows "slot_data sl (fold (read_section mem) (wk_pending w) (wk_out w)) =
    (case pending_for s sl seen of [] \<Rightarrow> None | p # _ \<Rightarrow> slot_result mem p)"
proof -
  have "pending_for s sl seen = [] \<or> (\<exists>p. pending_for s sl seen = [p] \<and> snd (snd p) = sl)"
    by (cases "named_entries (slot_name sl) seen") (auto simp: pending_for_def)
  moreover have "filter (\<lambda>p. snd (snd p) = sl) (wk_pending w) = pending_for s sl seen" "slot_data sl (wk_out w) = None"
    using assms by (simp_all add: walked_def)
  ultimately show ?thesis
    using slot_read_sections [of sl mem "wk_pending w" "wk_out w"] by (auto simp: slot_read_section split: option.split)
qed

text \<open>An image in memory: the header, then the commands.\<close>

definition enc_header :: "macho_cmd list \<Rightarrow> string" where
  "enc_header cmds = enc32 MH_MAGIC_64 @ zeros 12 @ enc32 (of_nat (length cmds)) @
     enc32 (of_nat (length (concat (map enc_cmd cmds)))) @ zeros 8"

definition image_at :: "task_memory \<Rightarrow> u64 \<Rightarrow> macho_cmd list \<Rightarrow> bool" where
  "image_at mem load_address cmds \<longleftrightarrow>
     mem load_address 32 = (0, enc_header cmds) \<and>
     mem (load_address + 32) (length (concat (map enc_cmd cmds))) = (0, concat (map enc_cmd cmds))"

lemma parse_image_enc:
  assumes "image_at mem load_address cmds" "list_all ok_cmd cmds" "length (concat (map enc_cmd cmds)) < 2 ^ 32" "length cmds < 2 ^ 32"
  shows "parse_image mem load_address =
    (let w = fold (cmd_effect load_address) cmds start_walk in Some (Some (fold (read_section mem) (wk_pending w) (wk_out w))))"
proof -
  let ?m = "length (concat (map enc_cmd cmds))"
  have "u32_at 0 ([] @ enc32 MH_MAGIC_64 @ zeros 12 @ enc32 (of_nat (length cmds)) @ enc32 (of_nat ?m) @ zeros 8) = MH_MAGIC_64"
    "u32_at 16 ((enc32 MH_MAGIC_64 @ zeros 12) @ enc32 (of_nat (length cmds)) @ enc32 (of_nat ?m) @ zeros 8) = of_nat (length cmds)"
    "u32_at 20 ((enc32 MH_MAGIC_64 @ zeros 12 @ enc32 (of_nat (length cmds))) @ enc32 (of_nat ?m) @ zeros 8) = of_nat ?m"
    by (rule enc_at, simp)+
  then have fields: "u32_at 0 (enc_header cmds) = MH_MAGIC_64" "u32_at 16 (enc_header cmds) = of_nat (length cmds)"
    "u32_at 20 (enc_header cmds) = of_nat ?m"
    unfolding enc_header_def by (simp_all only: append.assoc append_Nil)
  have n: "unat (of_nat (length cmds) :: u32) = length cmds" "unat (of_nat ?m :: u32) = ?m"
    using assms(3,4) by (simp_all add: unat_of_nat take_bit_nat_eq_self del: length_concat)
  have reads: "read_exact mem load_address 32 = Some (enc_header cmds)"
    "read_exact mem (load_address + 32) ?m = Some (concat (map enc_cmd cmds))"
    using assms(1) by (simp_all add: read_exact_def image_at_def enc_header_def)
  have "command_loop (length cmds) load_address (concat (map enc_cmd cmds)) 0 start_walk =
      Some (fold (cmd_effect load_address) cmds start_walk)"
    using command_loop_enc [OF assms(2), of load_address "[]" start_walk] by simp
  then show ?thesis unfolding parse_image_def reads(1) by (simp only: option.simps fields n reads(2) Let_def) simp
qed


definition demo_image :: "macho_cmd list" where
  "demo_image = [SegmentCmd ''__PAGEZERO'' 0 0x100000000 [], SegmentCmd ''__TEXT'' 0x100000000 0x4000 [(''__eh_frame'', 0x100003000, 2)],
     UuidCmd (replicate 16 (CHR ''u''))]"

definition demo_memory :: task_memory where
  "demo_memory addr n =
     (if addr = 0x200000000 then (0, enc_header demo_image)
      else if addr = 0x200000020 then (0, concat (map enc_cmd demo_image))
      else if addr = 0x200003000 then (0, take n ''cfi'') else (1, []))"

lemma demo_image_ok: "list_all ok_cmd demo_image"
  by (simp add: demo_image_def ok_name_def)


section \<open>The image list\<close>

datatype walk_error =
  TaskInfo int
| MachVmRead string u64 nat int
| NoImageInfoAddr

record image_entry =
  ie_path :: string
  ie_load_address :: u64
  ie_file_mod_date :: u64
  ie_sections :: "macho_sections option"

definition read_into :: "task_memory \<Rightarrow> u64 \<Rightarrow> string \<Rightarrow> nat \<Rightarrow> walk_error + string" where
  "read_into mem addr what n =
     (case mem addr n of (kr, bytes) \<Rightarrow>
        if kr \<noteq> 0 \<or> length bytes \<noteq> n then Inl (MachVmRead what addr n kr) else Inr bytes)"

text \<open>A string of at most 4096 bytes with its terminator, if it is valid UTF-8.\<close>

definition read_c_string :: "task_memory \<Rightarrow> u64 \<Rightarrow> string option" where
  "read_c_string mem addr =
     (case mem addr 4096 of (kr, bytes) \<Rightarrow>
        if kr \<noteq> 0 \<or> bytes = [] then None
        else let s = up_to_nul bytes in
          if length s = length bytes then None else if valid_utf8 s then Some s else None)"

text \<open>The fields that are used of the structure of 328 bytes and of the array entries of 24.\<close>

record dyld_header =
  dh_info_array_count :: u32
  dh_info_array :: u64
  dh_dyld_image_load_address :: u64
  dh_dyld_path :: u64

definition DYLD_HEADER_SIZE :: nat where "DYLD_HEADER_SIZE = 328"

definition dyld_header_of :: "string \<Rightarrow> dyld_header" where
  "dyld_header_of b = \<lparr>dh_info_array_count = u32_at 4 b, dh_info_array = u64_at 8 b,
     dh_dyld_image_load_address = u64_at 32 b, dh_dyld_path = u64_at 192 b\<rparr>"

record dyld_image_info =
  di_load_address :: u64
  di_file_path :: u64
  di_file_mod_date :: u64

definition image_info_at :: "string \<Rightarrow> nat \<Rightarrow> dyld_image_info" where
  "image_info_at b i = \<lparr>di_load_address = u64_at (24 * i) b, di_file_path = u64_at (24 * i + 8) b,
     di_file_mod_date = u64_at (24 * i + 16) b\<rparr>"

text \<open>\<open>parse_image\<close> returns, so its outer \<open>None\<close> does not occur.\<close>

definition sections_at :: "task_memory \<Rightarrow> u64 \<Rightarrow> macho_sections option" where
  "sections_at mem addr = (case parse_image mem addr of Some r \<Rightarrow> r)"

definition image_entry_of :: "task_memory \<Rightarrow> dyld_image_info \<Rightarrow> image_entry option" where
  "image_entry_of mem img =
     (if di_load_address img = 0 \<or> di_file_path img = 0 then None
      else case read_c_string mem (di_file_path img) of
        None \<Rightarrow> None
      | Some path \<Rightarrow> Some \<lparr>ie_path = path, ie_load_address = di_load_address img,
          ie_file_mod_date = di_file_mod_date img, ie_sections = sections_at mem (di_load_address img)\<rparr>)"

text \<open>\<open>info\<close> is the answer of the task query: an error code or the address of dyld's structure.\<close>

definition enumerate_images :: "int + u64 \<Rightarrow> task_memory \<Rightarrow> walk_error + image_entry list" where
  "enumerate_images info mem =
     (case info of
        Inl kr \<Rightarrow> Inl (TaskInfo kr)
      | Inr addr \<Rightarrow>
          if addr = 0 then Inl NoImageInfoAddr
          else case read_into mem addr ''dyld_all_image_infos'' DYLD_HEADER_SIZE of
            Inl e \<Rightarrow> Inl e
          | Inr bytes \<Rightarrow>
              let header = dyld_header_of bytes; n = unat (dh_info_array_count header) in
              if dh_info_array header = 0 \<or> dh_info_array_count header = 0 then Inr []
              else case read_into mem (dh_info_array header) ''dyld image array'' (24 * n) of
                Inl e \<Rightarrow> Inl e
              | Inr array \<Rightarrow>
                  let dyld = (if dh_dyld_image_load_address header \<noteq> 0 \<and> dh_dyld_path header \<noteq> 0
                    then (case read_c_string mem (dh_dyld_path header) of
                        Some path \<Rightarrow> [\<lparr>ie_path = path, ie_load_address = dh_dyld_image_load_address header,
                          ie_file_mod_date = 0, ie_sections = sections_at mem (dh_dyld_image_load_address header)\<rparr>]
                      | None \<Rightarrow> [])
                    else []) in
                  Inr (dyld @ List.map_filter (image_entry_of mem) (map (image_info_at array) [0..<n])))"

end
