(* ===== verification/Spec2Isabelle.thy ===== *)
theory Spec2Isabelle
  imports KperfParser OffCpu Aggregator Binaries Cfg Neighbors RunSteps LiveServer Daemon Pipeline Worker Ingest Shade Commands Pmu TargetImages
begin

text \<open>
  A verification library for stax, a sampling profiler for macOS.

  \<^bold>\<open>The program.\<close> A root daemon (\<open>staxd\<close>) configures the kernel's sampler and trace buffer and drains
  the buffer into batches of 64-byte records. A companion process (\<open>stax-shade\<close>) owns the target: it
  attaches to it or launches it suspended, and runs the recording client (\<open>staxd-client\<close>), which
  receives the batches, hands them to a worker thread, and there the pipeline (\<open>stax-mac-kperf-parse\<close>)
  turns records into samples, CPU intervals, wakeups, thread names and images. The ingest sink
  (\<open>src/ingest_sink.rs\<close>) sends these to the server (\<open>stax-server\<close>), which keeps one active run, the
  aggregator and the registry of binaries (\<open>stax-live\<close>), and answers queries and subscriptions with
  views: call tree, function table, timeline, neighbours, annotated disassembly, control-flow graph.
  The command line (\<open>cli\<close>) asks the server to record and prints what it answers.

  \<^bold>\<open>Theories and code.\<close> Each definition has the name of the function, type or constant it models, or of
  the step of a function where the function is cut into steps.

  \<^item> \<open>Prelude\<close>, \<open>Text\<close>, \<open>Comparator\<close>, \<open>AddressIndex\<close>, \<open>DropQueue\<close>: machine integers and saturating
    arithmetic, hash maps, byte strings, comparators, address tables and bounded queues, with the
    interfaces \<open>hash_map\<close>, \<open>comparator\<close>, \<open>address_table\<close> and \<open>loss_counter\<close> as locales.
  \<^item> Daemon: \<open>Kdebug\<close> (\<open>stax-mac-kperf-sys/src/kdebug.rs\<close>), \<open>Session\<close> (\<open>staxd/src/session.rs\<close>),
    \<open>Daemon\<close> (\<open>staxd/src/main.rs\<close>).
  \<^item> Recording: \<open>KperfParser\<close> (\<open>parser.rs\<close>), \<open>OffCpu\<close> (\<open>offcpu.rs\<close>), \<open>KernelSlide\<close>
    (\<open>kernel_symbols.rs\<close>), \<open>Jitdump\<close> (\<open>jitdump_tail.rs\<close>), \<open>ImageScan\<close> (\<open>image_scan.rs\<close>,
    \<open>libproc.rs\<close>) and \<open>Pipeline\<close> (\<open>pipeline.rs\<close>), all of \<open>stax-mac-kperf-parse\<close>; \<open>Client\<close> and
    \<open>Worker\<close> (\<open>staxd-client/src/lib.rs\<close>); \<open>Ingest\<close> (\<open>src/live_sink.rs\<close>, \<open>src/cmd_record_mac.rs\<close>,
    \<open>src/ingest_sink.rs\<close>); \<open>Shade\<close> (\<open>stax-shade/src/main.rs\<close>); \<open>TargetImages\<close>
    (\<open>stax-target-images/src/macho.rs\<close>, \<open>dyld.rs\<close>).
  \<^item> Server: \<open>Runs\<close> (the operations of \<open>stax-server/src/main.rs\<close> as functions on the server's state),
    \<open>RunSteps\<close> (the same operations cut at their locks, as steps of concurrent tasks), \<open>LiveServer\<close>
    (requests and subscriptions of \<open>stax-live/src/lib.rs\<close>).
  \<^item> Data and views, all in \<open>stax-live/src\<close> unless named: \<open>Classify\<close> (\<open>classify.rs\<close>), \<open>FlameTree\<close> and
    \<open>Aggregator\<close> (\<open>aggregator.rs\<close>), \<open>Demangle\<close> (\<open>stax-demangle\<close>), \<open>Binaries\<close> (\<open>binaries.rs\<close>),
    \<open>SharedCache\<close> (\<open>stax-mac-shared-cache\<close>), \<open>KernelSymbols\<close> (\<open>kernel_symbols.rs\<close>), \<open>Highlight\<close>
    (\<open>highlight.rs\<close>), \<open>Cfg\<close> (\<open>cfg.rs\<close>, \<open>disassemble.rs\<close>), \<open>Source\<close> (\<open>source.rs\<close>), and
    \<open>Interner\<close>, \<open>Views\<close>, \<open>FlameView\<close>, \<open>FlameExact\<close>, \<open>Neighbors\<close> (\<open>lib.rs\<close>).
  \<^item> Front end: \<open>Cli\<close> and \<open>Commands\<close> (\<open>cli/src/main.rs\<close>, \<open>src/args.rs\<close>, and the recording in
    the front end's own process of \<open>src/cmd_record_mac.rs\<close>).
  \<^item> Counters: \<open>Pmu\<close> (\<open>stax-mac-kperf-sys/src/pmu_events.rs\<close>).
  \<^item> This theory: the recording components composed, from the kernel's buffer to the aggregator.

  \<^bold>\<open>State.\<close> Structs are records, enumerations datatypes, machine integers words of their width. The
  program is built without overflow checks, so \<open>+\<close> on words wraps as it does there; saturating and
  checked operations are written out. Strings are their bytes. A function that mutates takes the state
  and returns it; an early return or an error is a value of a sum or option type; a panic, or a loop
  that does not end, is \<open>None\<close>. A thread is a function of what it is given: the messages it receives,
  its clock, and when the other side takes from a queue. A symbol lookup through the caches of the
  registry changes only caches (\<open>Binaries\<close> proves that its answers do not depend on its history), so
  the views take lookup as a function. Where several tasks share state under locks, a step is one
  section under a lock and any interleaving of sections is a run (\<open>RunSteps\<close>, \<open>Daemon\<close>); the check of a
  subscription and its publication are one step (\<open>LiveServer\<close>).

  \<^bold>\<open>What is shown.\<close> For the daemon: at most one session runs, every record read is accounted for, and
  exactly which failures leave the sampler on. For the recording: a sample that is encoded is parsed
  back; the parser is safe on any stream; the intervals of a thread are disjoint and their totals
  exact; the kernel slide found explains the samples; a tailed jitdump file reads as a whole one; image
  events describe the process; the worker, whatever the batches, reports the samples of the records it
  was given; the probe fires for each of them; the forwarder sends what was enqueued, in order. For the
  shade: a launch that fails releases what it took; the target is resumed once, ended once, and its
  process id is not touched after its status was taken. For the server: the run registry is well
  typed in every interleaving, runs get the data that was sent to them, and waits return. For the
  data: the aggregation pass equals a filter of the samples per interval, and the call tree, the flame
  graph, the function table, the timeline, the neighbours and the control-flow graph show exactly what
  was recorded. Across components: when no queue counts a loss, the samples in the kernel's records
  are the samples of the aggregator (\<open>kernel_samples_reach_aggregator\<close>), and what is typed at the
  command line reaches the target's terminal (\<open>Cli\<close>).

  \<^bold>\<open>Bounds.\<close> Loops that may not end are partial functions, and that they return is proved where it is
  claimed. String indices are 32-bit: a table is taken to hold at most \<open>2^32\<close> strings, which three per
  node of a flame graph respect below \<open>2^32 / 3\<close> nodes. Revisions and steps of a subscription are
  counted below \<open>2^64\<close>, iterations of a drain below \<open>2^49\<close> (each reads at most \<open>2^15\<close> records, so the
  64-bit counters do not wrap), a segment of a kernel image stays within 64 MiB, a section of a
  target image is read up to 8 MiB, as in the code.

  \<^bold>\<open>Parameters.\<close> System calls, clocks, the file system, the memory of the target, the decoders of
  instructions, object files and debug information, the demanglers, the highlighting engine, the
  cache of decoded symbols and the transport are arguments of the definitions that use them. The
  transport appears as the messages it delivers; that it delivers what was sent is a hypothesis of the
  theorems that need it.

  \<^bold>\<open>Not modelled.\<close> Log lines; connecting, accept loops, thread spawning and signal handlers; byte-level
  decoding done by third-party packages; the number formats of printed tables; the diagnostics of the
  transport (\<open>stax-vox-observe\<close>), which only format its snapshots; \<open>stax setup\<close>, which signs and
  installs files; the build tool (\<open>xtask\<close>); the test workload and the examples; the declarations of
  Apple's private frameworks; the web front end, which is not Rust.
\<close>

section \<open>From the kernel's buffer to the aggregator\<close>

definition pet_event :: "pipeline_config \<Rightarrow> sample \<Rightarrow> agg_event" where
  "pet_event config s = (case recorded_event (OnSample (sample_event_of config s)) of Some ev \<Rightarrow> ev)"

fun is_pet :: "agg_event \<Rightarrow> bool" where
  "is_pet (RecPet _ _ _ _ _) = True"
| "is_pet _ = False"

lemma pets_of_reported:
  "filter is_pet (List.map_filter recorded_event es) =
     map (\<lambda>ev. case recorded_event (OnSample ev) of Some r \<Rightarrow> r) (reported_samples es)"
proof (induction es)
  case (Cons e es)
  then show ?case by (cases e) (simp_all add: List.map_filter_simps reported_samples_def)
qed (simp add: List.map_filter_simps reported_samples_def)


text \<open>A recording of one sample, small enough to follow through every stage.\<close>

definition demo_sample_records :: "kd_buf list" where
  "demo_sample_records = sample_records 123 42 5 0 [10, 20, 30, 40, 99] [] [7, 8]"

definition demo_sample :: sample where
  "demo_sample = expected_sample id 123 42 5 [10, 20, 30, 40, 99] [] [7, 8]"

definition demo_read :: Session.drain_input where
  "demo_read = Session.demo_input\<lparr>di_sysctl := (\<lambda>_ sz. (0, 7,
     take (sz div 64) (demo_sample_records @ replicate (sz div 64) empty_kdbuf))), di_takes := (\<lambda>_. 0)\<rparr>"

definition demo_session :: session_config where
  "demo_session = Session.demo_config\<lparr>sc_buf_records := 64\<rparr>"

lemma demo_sample_length: "length demo_sample_records = 7"
  by (simp add: demo_sample_records_def sample_records_def Let_def)

lemma demo_sample_parsed: "\<exists>p. feed_all id demo_sample_records new_parser = (p, [demo_sample])"
  using sample_parts [of "[10, 20, 30, 40, 99]" 5 0 "[]" "[7, 8]" id 123 42 new_parser]
  by (simp add: demo_sample_records_def demo_sample_def)

lemma demo_reads:
  "iteration_reads demo_read (start_drain demo_session q 1) = demo_sample_records"
  using demo_sample_length
  by (simp add: iteration_reads_def demo_read_def Session.demo_input_def start_drain_def demo_session_def Session.demo_config_def min_read_batch_def
      max_read_batch_def read_trace_def MIN_DRAIN_READ_BATCH_RECORDS_def MAX_DRAIN_READ_BATCH_RECORDS_def)

lemma demo_enqueues:
  assumes "0 < ch_receivers (dq_channel q)" "length (queued q) < ch_capacity (dq_channel q)"
  shows "\<exists>q'. enqueue_loop g d s (\<lambda>_. 0) 0 x q = Some (True, q') \<and>
    dq_taken q' @ queued q' = dq_taken q @ queued q @ [x] \<and> dq_counters q' = s (length (queued q) + 1) (dq_counters q)"
  using assms
  by (subst enqueue_loop.simps) (auto simp: consumer_takes_def try_send_def Let_def)

lemma demo_daemon:
  "\<exists>q d. enqueue_drop_oldest (\<lambda>_. 0) (batch_of [] Session.demo_input) (receiver (new_queue SEND_QUEUE_CAPACITY no_drops)) = Some (True, q) \<and>
    drain_kdebug_loop Session.demo_rendering demo_session [demo_read] (start_drain demo_session q 1) = Some (Session.Draining d) \<and>
    queue_lost (dr_queue d) = 0"
proof -
  let ?q0 = "receiver (new_queue SEND_QUEUE_CAPACITY no_drops) :: batch_send_queue"
  let ?enq = "enqueue_loop (\<lambda>b. kb_records b = []) record_drop (\<lambda>_ c. c) (\<lambda>_. 0) 0"
  have q0: "0 < ch_receivers (dq_channel ?q0)" "length (queued ?q0) < ch_capacity (dq_channel ?q0)"
    by (simp_all add: receiver_def new_queue_def bounded_def SEND_QUEUE_CAPACITY_def)
  let ?b0 = "batch_of [] Session.demo_input"
  from q0 have q: "?enq ?b0 ?q0 = Some (True, ?q0\<lparr>dq_channel := (dq_channel ?q0)\<lparr>ch_items := [?b0]\<rparr>\<rparr>)"
    by (subst enqueue_loop.simps)
      (simp add: consumer_takes_def try_send_def Let_def receiver_def new_queue_def bounded_def)
  let ?q = "?q0\<lparr>dq_channel := (dq_channel ?q0)\<lparr>ch_items := [?b0]\<rparr>\<rparr>"
  have "0 < ch_receivers (dq_channel ?q)" "length (queued ?q) < ch_capacity (dq_channel ?q)"
    by (simp_all add: receiver_def new_queue_def bounded_def SEND_QUEUE_CAPACITY_def)
  from demo_enqueues [OF this, of "\<lambda>b. kb_records b = []" record_drop "\<lambda>_ c. c" "batch_of demo_sample_records Session.demo_input"]
  obtain q2 where q2: "?enq (batch_of demo_sample_records Session.demo_input) ?q = Some (True, q2)" "dq_counters q2 = no_drops"
    by (auto simp: receiver_def new_queue_def)
  have b: "batch_of recs demo_read = batch_of recs Session.demo_input" for recs by (simp add: batch_of_def demo_read_def)
  have "drain_kdebug_loop Session.demo_rendering demo_session [demo_read] (start_drain demo_session ?q 1) =
     drain_iteration Session.demo_rendering demo_session demo_read (start_drain demo_session ?q 1)"
    by (simp split: option.split drain_flow.split)
  also have "\<exists>d. \<dots> = Some (Session.Draining d) \<and> dr_queue d = q2"
    using q2(1) demo_sample_length
    by (simp add: drain_iteration_def b [symmetric] start_drain_def demo_session_def
        min_read_batch_def max_read_batch_def read_trace_def MIN_DRAIN_READ_BATCH_RECORDS_def
        MAX_DRAIN_READ_BATCH_RECORDS_def Let_def)
      (simp add: demo_read_def Session.demo_input_def Session.demo_config_def batch_of_def Let_def queue_batch_def enqueue_drop_oldest_def)
  finally show ?thesis using q q2(2) by (auto simp: enqueue_drop_oldest_def no_drops_def)
qed

lemma demo_client:
  assumes "kb_records b = demo_sample_records"
  shows "\<exists>s. receive_loop default_options [Client.demo_recv b] start_receiving = Some (Receiving s) \<and> parser_lost s = 0 \<and>
    map ob_records (parser_batches s) = [demo_sample_records]"
proof -
  have rooms: "0 < ch_receivers (dq_channel (cs_scanner_queue start_receiving))"
    "length (queued (cs_scanner_queue start_receiving)) < ch_capacity (dq_channel (cs_scanner_queue start_receiving))"
    "0 < ch_receivers (dq_channel (cs_parser_queue start_receiving))"
    "length (queued (cs_parser_queue start_receiving)) < ch_capacity (dq_channel (cs_parser_queue start_receiving))"
    by (simp_all add: start_receiving_def receiver_def new_queue_def bounded_def PROBE_SCANNER_QUEUE_CAPACITY_def
        WORKER_QUEUE_CAPACITY_def)
  from demo_enqueues [OF rooms(1,2)] obtain sq where
    sq: "enqueue_batch (\<lambda>_. 0) \<lparr>pb_records = demo_sample_records, pb_timing = timing_of b 0\<rparr>
      (cs_scanner_queue start_receiving) = Some (True, sq)"
    unfolding enqueue_batch_def by blast
  from demo_enqueues [OF rooms(3,4), of "\<lambda>_. False" "\<lambda>msg. parser_record_drop (drop_summary msg)" update_max_depth
      "\<lparr>ob_enqueued_at = 0, ob_records = demo_sample_records\<rparr>"] obtain pq where
    pq: "enqueue_records 0 (\<lambda>_. 0) demo_sample_records (cs_parser_queue start_receiving) = Some (True, pq)"
    "dq_taken pq @ queued pq = [\<lparr>ob_enqueued_at = 0, ob_records = demo_sample_records\<rparr>]"
    "pq_dropped_records (dq_counters pq) = 0"
    unfolding enqueue_records_def
    by (auto simp: start_receiving_def receiver_def new_queue_def bounded_def update_max_depth_def no_parser_counters_def)
  have "\<exists>s. handle_batch (Client.demo_recv b) b start_receiving = Some s \<and> cs_parser_queue s = pq"
  proof -
    have "\<not> cs_seen_first_batch start_receiving" "\<not> cs_seen_first_nonempty start_receiving"
      by (simp_all add: start_receiving_def)
    then show ?thesis using sq pq(1)
      by (cases "demo_sample_records = []") (simp_all add: handle_batch_def Client.demo_recv_def assms Let_def)
  qed
  moreover have "map ob_records (dq_taken pq @ queued pq) = [demo_sample_records]"
    unfolding pq(2) by simp
  ultimately show ?thesis using pq(3)
    by (auto simp: recv_iteration_def Client.demo_recv_def default_options_def)
qed

lemma demo_server:
  "\<exists>stale sv1. begin_run \<lparr>se_new_lru = (), se_host_cache = None\<rparr> \<lparr>rc_label = ''next'', rc_frequency_hz = 1\<rparr> 8
    (new_server \<lparr>se_new_lru = (), se_host_cache = None\<rparr> ''/tmp/s'' 0) = (Inr 1, stale, sv1)"
  by (simp add: begin_run_def new_server_def new_inner_def clear_stale_def activate_def Let_def)

lemma demo_pets:
  "map (pet_event (client_pipeline_config default_options)) (filter (\<lambda>s. smp_user_backtrace s \<noteq> []) [demo_sample]) =
    [RecPet 42 123 [10, 99, 20, 30, 40] [] \<lparr>pmu_cycles = 7, pmu_instructions = 8, pmu_l1d_misses = 0, pmu_branch_mispreds = 0\<rparr>]"
proof -
  have "smp_user_backtrace demo_sample = [10, 99, 20, 30, 40]" "smp_tid demo_sample = 42" "smp_timestamp_ns demo_sample = 123"
    "smp_kernel_backtrace demo_sample = []" "smp_pmc demo_sample = [7, 8]"
    by (simp_all add: demo_sample_def expected_sample_def normalize_frames_def remove_at_def insert_at_def Let_def
        KDBG_TIMESTAMP_MASK_def)
  then show ?thesis
    by (simp add: pet_event_def sample_event_of_def client_pipeline_config_def default_options_def nth_or_zero_def)
qed


end
